(* ===== verification/Prelude.thy ===== *)
theory Prelude
  imports Main "HOL-Library.Word"
begin

text \<open>
  Shared vocabulary of the development: the machine types of the C sources, loops
  as folds over index ranges with one invariant rule, the bit-map macros of
  \<^verbatim>\<open>src/util.h\<close>, and the list facts the components share.

  A C array is a list; \<^verbatim>\<open>a[i] = v\<close> is \<open>a[i := v]\<close>.  A \<^verbatim>\<open>for\<close> loop over
  \<open>i = a, ..., b - 1\<close> is a \<open>fold\<close> over \<open>[a..<b]\<close> whose state carries the
  variables the body assigns.
\<close>

unbundle bit_operations_syntax

named_theorems component_defs \<open>definitions unfolded by the proofs of the component that declares them\<close>
named_theorems inv_intros \<open>preservation lemmas of the component invariants\<close>

subsection \<open>Machine types\<close>

type_synonym byte = "8 word"
type_synonym u32 = "32 word"

subsection \<open>Results\<close>

text \<open>
  A function that may wait for another thread, or end the process (\<^verbatim>\<open>udpc_fatal\<close>,
  \<^verbatim>\<open>exit\<close>, a failed \<^verbatim>\<open>assert\<close>), returns an \<open>outcome\<close>.  Where a number of
  a packet is used as an index before anything has checked it, an access outside the array (or
  a division by zero) is \<open>Undefined\<close>, as in C.
\<close>

datatype 'a outcome = Done 'a | Blocks | Aborts | Undefined

fun and_then :: "'a outcome \<Rightarrow> ('a \<Rightarrow> 'b outcome) \<Rightarrow> 'b outcome" where
  "and_then (Done x) f = f x"
| "and_then Blocks f = Blocks"
| "and_then Aborts f = Aborts"
| "and_then Undefined f = Undefined"

definition or_abort :: "'a option \<Rightarrow> 'a outcome" where
  "or_abort r = (case r of None \<Rightarrow> Aborts | Some x \<Rightarrow> Done x)"

definition or_block :: "'a option \<Rightarrow> 'a outcome" where
  "or_block r = (case r of None \<Rightarrow> Blocks | Some x \<Rightarrow> Done x)"

definition check :: "bool \<Rightarrow> unit outcome" where
  \<comment> \<open>\<^verbatim>\<open>assert\<close>\<close>
  "check b = (if b then Done () else Aborts)"

definition in_bounds :: "bool \<Rightarrow> unit outcome" where
  "in_bounds b = (if b then Done () else Undefined)"

fun each :: "('a \<Rightarrow> 's \<Rightarrow> 's outcome) \<Rightarrow> 'a list \<Rightarrow> 's \<Rightarrow> 's outcome" where
  \<comment> \<open>a loop over a list whose body may fail\<close>
  "each f [] s = Done s"
| "each f (x # xs) s = and_then (f x s) (each f xs)"

lemma or_abort_simps [simp]: "or_abort None = Aborts" "or_abort (Some x) = Done x"
  by (simp_all add: or_abort_def)

lemma or_block_simps [simp]: "or_block None = Blocks" "or_block (Some x) = Done x"
  by (simp_all add: or_block_def)

lemma check_simps [simp]: "check True = Done ()" "check False = Aborts"
  by (simp_all add: check_def)

lemma in_bounds_simps [simp]: "in_bounds True = Done ()" "in_bounds False = Undefined"
  by (simp_all add: in_bounds_def)

lemma and_then_Done: "and_then r f = Done y \<longleftrightarrow> (\<exists>x. r = Done x \<and> f x = Done y)"
  by (cases r) simp_all

lemma or_abort_Done: "or_abort r = Done x \<longleftrightarrow> r = Some x"
  by (cases r) simp_all

lemma or_block_Done: "or_block r = Done x \<longleftrightarrow> r = Some x"
  by (cases r) simp_all

lemma check_Done: "check b = Done u \<longleftrightarrow> b"
  by (cases b) simp_all

lemma in_bounds_Done: "in_bounds b = Done u \<longleftrightarrow> b"
  by (cases b) simp_all

lemmas outcome_Done = and_then_Done or_abort_Done or_block_Done check_Done in_bounds_Done

lemma each_append: "each f (xs @ ys) s = and_then (each f xs s) (each f ys)"
proof (induction xs arbitrary: s)
  case (Cons x xs)
  then show ?case by (cases "f x s") simp_all
qed simp

lemma each_inv:
  assumes "each f xs s = Done s'" and "P s" and "\<And>x s s'. x \<in> set xs \<Longrightarrow> P s \<Longrightarrow> f x s = Done s' \<Longrightarrow> P s'"
  shows "P s'"
  using assms by (induction xs arbitrary: s) (auto simp: and_then_Done)

lemma each_upt:
  assumes "P 0 s" and "\<And>m s. m < n \<Longrightarrow> P m s \<Longrightarrow> \<exists>s'. f m s = Done s' \<and> P (Suc m) s'"
  shows "\<exists>s'. each f [0..<n] s = Done s' \<and> P n s'"
  using assms(2)
proof (induction n)
  case (Suc n)
  then obtain s1 where s1: "each f [0..<n] s = Done s1" "P n s1" by auto
  obtain s2 where "f n s1 = Done s2 \<and> P (Suc n) s2" using Suc.prems [of n s1] s1(2) by blast
  then show ?case using s1 by (simp add: each_append)
qed (use assms(1) in simp)

subsection \<open>Stripes\<close>

text \<open>The numbers of the blocks of one FEC stripe, as the sender and the receiver collect them.\<close>

definition stripe_blocks :: "nat \<Rightarrow> nat \<Rightarrow> nat \<Rightarrow> nat list" where
  \<comment> \<open>\<^verbatim>\<open>for(i=stripe; i<n; i+=stripes)\<close>\<close>
  "stripe_blocks stripe stripes n = map (\<lambda>j. stripe + j * stripes) [0..<(n + stripes - 1 - stripe) div stripes]"

lemma stripe_blocks_nth:
  assumes "s < st"
  shows "set (stripe_blocks s st n) = {i. i < n \<and> i mod st = s} \<and> distinct (stripe_blocks s st n)"
proof -
  have st: "0 < st" using assms by simp
  have lt: "s + j * st < n \<longleftrightarrow> j < (n + st - 1 - s) div st" for j
  proof -
    have "j < (n + st - 1 - s) div st \<longleftrightarrow> Suc j * st \<le> n + st - 1 - s" using less_eq_div_iff_mult_less_eq [OF st, of "Suc j"] by (simp only: Suc_le_eq)
    also have "\<dots> \<longleftrightarrow> s + j * st < n" using assms by auto
    finally show ?thesis by simp
  qed
  have "set (stripe_blocks s st n) = {i. i < n \<and> i mod st = s}"
  proof (intro set_eqI iffI)
    fix i assume "i \<in> set (stripe_blocks s st n)"
    then obtain j where j: "i = s + j * st" "j < (n + st - 1 - s) div st"
      unfolding stripe_blocks_def set_map set_upt image_iff by (auto simp only: atLeastLessThan_iff)
    have "s + j * st < n" by (rule lt [THEN iffD2, OF j(2)])
    moreover have "(s + j * st) mod st = s" using assms by simp
    ultimately have "i < n \<and> i mod st = s" unfolding j(1) ..
    then show "i \<in> {i. i < n \<and> i mod st = s}" by simp
  next
    fix i assume i: "i \<in> {i. i < n \<and> i mod st = s}"
    then have eq: "i = s + (i div st) * st" by (auto simp: mod_div_mult_eq)
    then have "s + (i div st) * st < n" using i by simp
    then have "i div st < (n + st - 1 - s) div st" by (rule lt [THEN iffD1])
    then have "i div st \<in> set [0..<(n + st - 1 - s) div st]" unfolding set_upt atLeastLessThan_iff by blast
    then show "i \<in> set (stripe_blocks s st n)" unfolding stripe_blocks_def set_map by (rule image_eqI [where x = "i div st", rotated]) (fact eq)
  qed
  moreover have "distinct (stripe_blocks s st n)" using st by (simp add: stripe_blocks_def distinct_map inj_on_def)
  ultimately show ?thesis by simp
qed

lemma stripe_erased:
  assumes "s < st"
  shows "map (\<lambda>i. i div st) (filter P (stripe_blocks s st n)) = filter (\<lambda>j. P (s + j * st)) [0..<length (stripe_blocks s st n)]"
proof -
  have "(s + j * st) div st = j" for j using assms by simp
  then show ?thesis by (simp add: stripe_blocks_def filter_map o_def)
qed

lemma dvd_apart: "bs dvd p \<Longrightarrow> bs dvd q \<Longrightarrow> p \<noteq> q \<Longrightarrow> p + bs \<le> q \<or> q + bs \<le> (p :: nat)"
proof -
  assume "bs dvd p" "bs dvd q" "p \<noteq> q"
  then obtain x y where xy: "p = bs * x" "q = bs * y" "x \<noteq> y" by (auto elim!: dvdE)
  then consider "x + 1 \<le> y" | "y + 1 \<le> x" by linarith
  then show ?thesis
  proof cases
    case 1
    then have "bs * (x + 1) \<le> bs * y" by (rule mult_le_mono2)
    then show ?thesis by (simp add: xy)
  next
    case 2
    then have "bs * (y + 1) \<le> bs * x" by (rule mult_le_mono2)
    then show ?thesis by (simp add: xy)
  qed
qed

subsection \<open>Loops\<close>

lemma fold_upt_inv:
  assumes "a \<le> b" and "P a s"
    and "\<And>i s. a \<le> i \<Longrightarrow> i < b \<Longrightarrow> P i s \<Longrightarrow> P (Suc i) (f i s)"
  shows "P b (fold f [a..<b] s)"
  using assms
proof (induction b)
  case 0
  then show ?case by simp
next
  case (Suc b)
  show ?case
  proof (cases "a = Suc b")
    case True
    with Suc.prems show ?thesis by simp
  next
    case False
    with Suc.prems have "a \<le> b" by simp
    with Suc have "P b (fold f [a..<b] s)" by (meson less_Suc_eq)
    with Suc.prems(3) \<open>a \<le> b\<close> have "P (Suc b) (f b (fold f [a..<b] s))" by simp
    with \<open>a \<le> b\<close> show ?thesis by simp
  qed
qed

lemma fold_upt_Suc: "a \<le> b \<Longrightarrow> fold f [a..<Suc b] s = f b (fold f [a..<b] s)"
  by simp

lemma fold_inv:
  assumes "P s" and "\<And>x s. x \<in> set xs \<Longrightarrow> P s \<Longrightarrow> P (f x s)"
  shows "P (fold f xs s)"
  using assms by (induction xs arbitrary: s) auto

lemma fold_pointwise:
  assumes "n \<le> length d"
  shows "length (fold (\<lambda>i d. d[i := g i (d ! i)]) [0..<n] d) = length d
    \<and> (\<forall>k < length d. fold (\<lambda>i d. d[i := g i (d ! i)]) [0..<n] d ! k
         = (if k < n then g k (d ! k) else d ! k))"
  using assms by (induction n) (auto simp: nth_list_update less_Suc_eq)

subsection \<open>Bit maps (\<^verbatim>\<open>util.h\<close>)\<close>

definition BIT_ISSET :: "nat \<Rightarrow> byte list \<Rightarrow> bool" where
  "BIT_ISSET x m = bit (m ! (x div 8)) (x mod 8)"

definition SET_BIT :: "nat \<Rightarrow> byte list \<Rightarrow> byte list" where
  "SET_BIT x m = m[x div 8 := (m ! (x div 8)) OR push_bit (x mod 8) 1]"

definition CLR_BIT :: "nat \<Rightarrow> byte list \<Rightarrow> byte list" where
  "CLR_BIT x m = m[x div 8 := (m ! (x div 8)) AND NOT (push_bit (x mod 8) 1)]"

definition bits_of :: "byte list \<Rightarrow> nat set" where
  \<comment> \<open>the set a bit map stands for\<close>
  "bits_of m = {x. x < 8 * length m \<and> BIT_ISSET x m}"

lemma length_SET_BIT [simp]: "length (SET_BIT x m) = length m"
  by (simp add: SET_BIT_def)

lemma length_CLR_BIT [simp]: "length (CLR_BIT x m) = length m"
  by (simp add: CLR_BIT_def)

lemma div_mod_8_eq: "(x::nat) div 8 = y div 8 \<Longrightarrow> x mod 8 = y mod 8 \<Longrightarrow> x = y"
  by (metis div_mult_mod_eq)

lemma bit_mask_mod_8 [simp]: "bit (2 ^ (x mod 8) :: byte) n \<longleftrightarrow> n = x mod 8"
proof -
  have "x mod 8 < 8" by simp
  then show ?thesis by (auto simp: bit_exp_iff)
qed

lemma BIT_ISSET_SET_BIT [simp]:
  assumes "x < 8 * length m"
  shows "BIT_ISSET y (SET_BIT x m) \<longleftrightarrow> y = x \<or> BIT_ISSET y m"
proof (cases "x div 8 = y div 8")
  case True
  have "x div 8 < length m" using assms by (simp add: div_less_iff_less_mult mult.commute)
  with True show ?thesis
    by (auto simp: BIT_ISSET_def SET_BIT_def bit_or_iff bit_push_bit_iff dest: div_mod_8_eq)
next
  case False
  then show ?thesis by (auto simp: BIT_ISSET_def SET_BIT_def)
qed

lemma BIT_ISSET_CLR_BIT [simp]:
  assumes "x < 8 * length m"
  shows "BIT_ISSET y (CLR_BIT x m) \<longleftrightarrow> y \<noteq> x \<and> BIT_ISSET y m"
proof (cases "x div 8 = y div 8")
  case True
  have "x div 8 < length m" using assms by (simp add: div_less_iff_less_mult mult.commute)
  with True show ?thesis
    by (auto simp: BIT_ISSET_def CLR_BIT_def bit_and_iff bit_not_iff bit_push_bit_iff
        dest: div_mod_8_eq)
next
  case False
  then show ?thesis by (auto simp: BIT_ISSET_def CLR_BIT_def)
qed

lemma finite_bits_of [simp]: "finite (bits_of m)"
  by (simp add: bits_of_def)

lemma bits_of_SET_BIT [simp]:
  "x < 8 * length m \<Longrightarrow> bits_of (SET_BIT x m) = insert x (bits_of m)"
  by (auto simp: bits_of_def)

lemma bits_of_CLR_BIT [simp]:
  "x < 8 * length m \<Longrightarrow> bits_of (CLR_BIT x m) = bits_of m - {x}"
  by (auto simp: bits_of_def)

lemma BIT_ISSET_iff_bits_of:
  "x < 8 * length m \<Longrightarrow> BIT_ISSET x m \<longleftrightarrow> x \<in> bits_of m"
  by (simp add: bits_of_def)

lemma BIT_ISSET_zero: "x < 8 * n \<Longrightarrow> \<not> BIT_ISSET x (replicate n 0)"
  by (simp add: BIT_ISSET_def less_mult_imp_div_less mult.commute)

lemma bits_of_zero [simp]: "bits_of (replicate n 0) = {}"
  by (auto simp: bits_of_def BIT_ISSET_zero)

end
