(* ===== verification/GfField.thy ===== *)
theory GfField
  imports Prelude
begin

text \<open>
  The field GF(256) that \<^verbatim>\<open>src/fec.c\<close> computes in, specified without any
  table: a byte is a polynomial over GF(2), addition is \<open>XOR\<close>, and the product is
  the shift-and-add (carry-less) product reduced by the primitive polynomial
  \<open>1 + x^2 + x^3 + x^4 + x^8\<close>, the entry \<^verbatim>\<open>allPp[8]\<close> of the source.  The type
  \<open>gf\<close> of field elements is an instance of the library's class \<^theory_text>\<open>field\<close>, so
  the correctness of the coding matrices is proved with the library's algebra.
\<close>

subsection \<open>Multiplication by \<open>x\<close>\<close>

definition xtime :: "byte \<Rightarrow> byte" where
  "xtime b = (if bit b 7 then push_bit 1 b XOR 29 else push_bit 1 b)"

definition ptimes :: "byte \<Rightarrow> byte \<Rightarrow> byte" where
  \<comment> \<open>sum of \<open>x^i * b\<close> over the bits \<open>i\<close> set in \<open>a\<close>\<close>
  "ptimes a b = fold (\<lambda>i r. if bit a i then r XOR (xtime ^^ i) b else r) [0..<8] 0"

definition alpha :: "nat \<Rightarrow> byte" where
  \<comment> \<open>the powers of the primitive element\<close>
  "alpha i = (xtime ^^ i) 1"

lemma byte_cases_8:
  "(n::nat) < 8 \<Longrightarrow> n = 0 \<or> n = 1 \<or> n = 2 \<or> n = 3 \<or> n = 4 \<or> n = 5 \<or> n = 6 \<or> n = 7"
  by arith

lemma bit_29: "n < 8 \<Longrightarrow> bit (29::byte) n \<longleftrightarrow> n = 0 \<or> n = 2 \<or> n = 3 \<or> n = 4"
  using byte_cases_8 [of n] by auto

lemma bit_byte_double: "bit (b * 2 :: byte) n \<longleftrightarrow> 0 < n \<and> n < 8 \<and> bit b (n - 1)"
  using bit_push_bit_iff [of 1 b n] by (auto simp: Suc_le_eq)

lemma bit_xtime:
  assumes "n < 8"
  shows "bit (xtime b) n \<longleftrightarrow>
     (n \<noteq> 0 \<and> bit b (n - 1)) \<noteq> (bit b 7 \<and> (n = 0 \<or> n = 2 \<or> n = 3 \<or> n = 4))"
  using assms bit_29 [OF assms] by (auto simp: xtime_def bit_xor_iff bit_byte_double)

lemma xtime_xor [simp]: "xtime (a XOR b) = xtime a XOR xtime b"
  by (rule bit_word_eqI) (auto simp: bit_xtime bit_xor_iff)

lemma xtime_0 [simp]: "xtime 0 = 0"
  by (simp add: xtime_def)

lemma xtime_pow_xor [simp]: "(xtime ^^ i) (a XOR b) = (xtime ^^ i) a XOR (xtime ^^ i) b"
  by (induction i) auto

lemma xtime_pow_0 [simp]: "(xtime ^^ i) 0 = 0"
  by (induction i) auto

lemma xtime_8: "(xtime ^^ 8) b = b XOR (xtime ^^ 2) b XOR (xtime ^^ 3) b XOR (xtime ^^ 4) b"
proof (rule bit_word_eqI)
  fix n assume "n < LENGTH(8)"
  then have "n < 8" by simp
  from byte_cases_8 [OF this]
  show "bit ((xtime ^^ 8) b) n
      = bit (b XOR (xtime ^^ 2) b XOR (xtime ^^ 3) b XOR (xtime ^^ 4) b) n"
    by (elim disjE) (simp_all add: numeral_eq_Suc bit_xtime bit_xor_iff, argo+)
qed

subsection \<open>The product\<close>

lemma ptimes_expand:
  "ptimes a b =
     (if bit a 0 then b else 0) XOR (if bit a 1 then (xtime ^^ 1) b else 0) XOR
     (if bit a 2 then (xtime ^^ 2) b else 0) XOR (if bit a 3 then (xtime ^^ 3) b else 0) XOR
     (if bit a 4 then (xtime ^^ 4) b else 0) XOR (if bit a 5 then (xtime ^^ 5) b else 0) XOR
     (if bit a 6 then (xtime ^^ 6) b else 0) XOR (if bit a 7 then (xtime ^^ 7) b else 0)"
proof -
  have range: "[0..<8] = [0, 1, 2, 3, 4, 5, 6, 7::nat]" by code_simp
  have step: "(if c then r XOR v else r) = r XOR (if c then v else 0)" for c and r v :: byte
    by simp
  show ?thesis
    unfolding ptimes_def range step by (simp add: xor.assoc)
qed

lemma ptimes_xor_right: "ptimes a (b XOR c) = ptimes a b XOR ptimes a c"
  by (simp only: ptimes_expand xtime_pow_xor) (simp add: ac_simps xtime_pow_xor)

lemma ptimes_xor_left: "ptimes (a XOR b) c = ptimes a c XOR ptimes b c"
proof -
  have split: "(if bit (a XOR b) i then v else 0)
      = (if bit a i then v else 0) XOR (if bit b i then v else 0)" for i and v :: byte
    by (simp add: bit_xor_iff)
  show ?thesis unfolding ptimes_expand split by (simp only: ac_simps)
qed

lemma ptimes_0 [simp]: "ptimes 0 b = 0" "ptimes a 0 = 0"
  by (simp_all add: ptimes_expand)

lemma ptimes_1 [simp]: "ptimes 1 b = b"
  by (simp add: ptimes_expand)


lemma ptimes_xtime: "ptimes (xtime a) b = xtime (ptimes a b)"
proof -
  have bits: "bit (xtime a) 0 = bit a 7" "bit (xtime a) 1 = bit a 0"
      "bit (xtime a) 2 = (bit a 1 \<noteq> bit a 7)" "bit (xtime a) 3 = (bit a 2 \<noteq> bit a 7)"
      "bit (xtime a) 4 = (bit a 3 \<noteq> bit a 7)" "bit (xtime a) 5 = bit a 4"
      "bit (xtime a) 6 = bit a 5" "bit (xtime a) 7 = bit a 6"
    by (simp_all add: bit_xtime)
  have split: "(if c \<noteq> d then v else 0) = (if c then v else 0) XOR (if d then v else 0)"
    for c d and v :: byte by simp
  have push: "xtime (if c then v else 0) = (if c then xtime v else 0)" for c v by simp
  have pow: "xtime ((xtime ^^ i) b) = (xtime ^^ Suc i) b" for i by simp
  have top: "(if c then (xtime ^^ 8) b else 0) =
      (if c then b else 0) XOR (if c then (xtime ^^ 2) b else 0)
        XOR (if c then (xtime ^^ 3) b else 0) XOR (if c then (xtime ^^ 4) b else 0)" for c
    by (simp add: xtime_8)
  have "xtime (ptimes a b) =
     (if bit a 0 then (xtime ^^ 1) b else 0) XOR (if bit a 1 then (xtime ^^ 2) b else 0) XOR
     (if bit a 2 then (xtime ^^ 3) b else 0) XOR (if bit a 3 then (xtime ^^ 4) b else 0) XOR
     (if bit a 4 then (xtime ^^ 5) b else 0) XOR (if bit a 5 then (xtime ^^ 6) b else 0) XOR
     (if bit a 6 then (xtime ^^ 7) b else 0) XOR (if bit a 7 then (xtime ^^ 8) b else 0)"
    unfolding ptimes_expand xtime_xor push pow by (simp add: eval_nat_numeral)
  then show ?thesis
    unfolding ptimes_expand [of "xtime a"] bits split top by (simp only: ac_simps)
qed

lemma ptimes_alpha_left: "ptimes (alpha i) b = (xtime ^^ i) b"
  unfolding alpha_def by (induction i) (simp_all add: ptimes_xtime)

lemma alpha_0 [simp]: "alpha 0 = 1"
  by (simp add: alpha_def)

lemma alpha_Suc: "alpha (Suc i) = xtime (alpha i)"
  by (simp add: alpha_def)

lemma alpha_add: "ptimes (alpha i) (alpha j) = alpha (i + j)"
  by (simp add: ptimes_alpha_left) (simp add: alpha_def funpow_add)

subsection \<open>The order of \<open>alpha\<close> is 255\<close>

lemma xtime_pows:
  "(xtime ^^ 1) b = xtime b" "(xtime ^^ 2) b = xtime (xtime b)"
  "(xtime ^^ 3) b = xtime (xtime (xtime b))" "(xtime ^^ 4) b = xtime (xtime (xtime (xtime b)))"
  "(xtime ^^ 5) b = xtime (xtime (xtime (xtime (xtime b))))"
  "(xtime ^^ 6) b = xtime (xtime (xtime (xtime (xtime (xtime b)))))"
  "(xtime ^^ 7) b = xtime (xtime (xtime (xtime (xtime (xtime (xtime b))))))"
  "(xtime ^^ 8) b = xtime (xtime (xtime (xtime (xtime (xtime (xtime (xtime b)))))))"
  by (simp_all add: numeral_eq_Suc)

lemmas ptimes_eval = ptimes_expand xtime_pows xtime_def

lemma alpha_4: "alpha 4 = 16"
  by (simp add: alpha_def xtime_pows xtime_def)

lemma alpha_8: "alpha 8 = 29"
  by (simp add: alpha_def xtime_pows xtime_def)

lemma alpha_16: "alpha 16 = 76"
  using alpha_add [of 8 8] by (simp add: alpha_8 ptimes_eval)

lemma alpha_32: "alpha 32 = 157"
  using alpha_add [of 16 16] by (simp add: alpha_16 ptimes_eval)

lemma alpha_64: "alpha 64 = 95"
  using alpha_add [of 32 32] by (simp add: alpha_32 ptimes_eval)

lemma alpha_15: "alpha 15 = 38"
  using alpha_add [of 8 7] by (simp add: alpha_8 ptimes_eval alpha_def)

lemma alpha_51: "alpha 51 = 10"
  using alpha_add [of 32 16] alpha_add [of 48 3]
  by (simp add: alpha_16 alpha_32 ptimes_eval alpha_def [of 3])

lemma alpha_85: "alpha 85 = 214"
  using alpha_add [of 64 16] alpha_add [of 80 5]
  by (simp add: alpha_16 alpha_64 ptimes_eval alpha_def [of 5])

lemma alpha_255: "alpha 255 = 1"
  using alpha_add [of 85 85] alpha_add [of 170 85] by (simp add: alpha_85 ptimes_eval)


lemma xtime_eq_0 [simp]: "xtime b = 0 \<longleftrightarrow> b = 0"
proof
  assume z: "xtime b = 0"
  have b: "bit (xtime b) n = False" for n by (simp add: z)
  have "\<not> bit b n" if "n < 8" for n
    using that byte_cases_8 [OF that] b [of 0] b [of 1] b [of 2] b [of 3] b [of 4] b [of 5]
      b [of 6] b [of 7]
    by (auto simp: bit_xtime)
  then show "b = 0" by (intro bit_word_eqI) simp
qed simp

lemma xtime_inj: "xtime a = xtime b \<longleftrightarrow> a = b"
proof
  assume "xtime a = xtime b"
  then have "xtime (a XOR b) = 0" by simp
  then have "a XOR b = 0" by (simp only: xtime_eq_0)
  then show "a = b" by (metis xor.assoc xor.right_neutral xor_self_eq)
qed simp

lemma xtime_pow_inj: "(xtime ^^ i) a = (xtime ^^ i) b \<longleftrightarrow> a = b"
  by (induction i) (simp_all add: xtime_inj)

lemma alpha_nonzero [simp]: "alpha i \<noteq> 0"
  by (induction i) (simp_all add: alpha_Suc)

lemma alpha_mult_1: "alpha d = 1 \<Longrightarrow> alpha (d * k) = 1"
proof (induction k)
  case (Suc k)
  have "alpha (d + d * k) = ptimes (alpha d) (alpha (d * k))" by (simp only: alpha_add)
  with Suc show ?case by simp
qed simp

lemma alpha_gcd:
  assumes "alpha a = 1" and "alpha b = 1" and "a \<noteq> 0"
  shows "alpha (gcd a b) = 1"
proof -
  from bezout_nat [OF assms(3), of b] obtain x y where xy: "a * x = b * y + gcd a b" by blast
  have "ptimes (alpha (b * y)) (alpha (gcd a b)) = alpha (a * x)"
    by (simp only: alpha_add xy)
  then show ?thesis by (simp add: alpha_mult_1 assms)
qed

lemma proper_divisor_255:
  assumes "(d::nat) dvd 255" and "d \<noteq> 255"
  shows "d dvd 15 \<or> d dvd 51 \<or> d dvd 85"
proof -
  from assms(1) obtain k where k: "d * k = 255" by (auto simp: dvd_def)
  have "d \<le> 15 \<or> k \<le> 15"
  proof (rule ccontr)
    assume "\<not> ?thesis"
    then have "16 * 16 \<le> d * k" by (intro mult_le_mono) auto
    with k show False by simp
  qed
  then show ?thesis
  proof
    assume "d \<le> 15"
    then have "d \<in> {0, 1, 2, 3, 4, 5, 6, 7, 8, 9, 10, 11, 12, 13, 14, 15}" by (simp, arith)
    moreover have "255 mod d = 0" using assms(1) by presburger
    ultimately show ?thesis by (elim insertE) simp_all
  next
    assume "k \<le> 15"
    then have "k \<in> {0, 1, 2, 3, 4, 5, 6, 7, 8, 9, 10, 11, 12, 13, 14, 15}" by (simp, arith)
    moreover have "k \<noteq> 0" using k by (cases k) auto
    with k have "d = 255 div k" by (metis nonzero_mult_div_cancel_right)
    ultimately show ?thesis using k assms(2) by (elim insertE) simp_all
  qed
qed

lemma alpha_order:
  assumes "0 < d" and "d < 255"
  shows "alpha d \<noteq> 1"
proof
  assume d: "alpha d = 1"
  define g where "g = gcd d 255"
  have g: "alpha g = 1" unfolding g_def using alpha_gcd [OF d alpha_255] assms by simp
  have "g \<le> d" using assms unfolding g_def by (intro gcd_le1_nat) simp
  with assms have "g \<noteq> 255" by linarith
  moreover have "g dvd 255" by (simp add: g_def)
  ultimately have "g dvd 15 \<or> g dvd 51 \<or> g dvd 85" using proper_divisor_255 by blast
  then have "alpha 15 = 1 \<or> alpha 51 = 1 \<or> alpha 85 = 1"
    using alpha_mult_1 [OF g] by (metis dvd_def)
  then show False by (simp add: alpha_15 alpha_51 alpha_85)
qed

lemma alpha_inj:
  assumes "alpha i = alpha j" and "i < 255" and "j < 255"
  shows "i = j"
proof -
  have less: False if "i < j" "j < 255" "alpha i = alpha j" for i j
  proof -
    have "(xtime ^^ i) (alpha (j - i)) = alpha (i + (j - i))"
      by (simp only: ptimes_alpha_left [symmetric] alpha_add)
    with that have "(xtime ^^ i) (alpha (j - i)) = (xtime ^^ i) 1" by (simp add: alpha_def [of i])
    then have "alpha (j - i) = 1" by (simp only: xtime_pow_inj)
    with that show False using alpha_order [of "j - i"] by simp
  qed
  from less [of i j] less [of j i] assms show ?thesis by (cases i j rule: linorder_cases) auto
qed

lemma card_nonzero_bytes: "card (UNIV - {0 :: byte}) = 255"
  by (simp add: card_word)

lemma alpha_surj:
  assumes "b \<noteq> 0"
  obtains i where "i < 255" and "b = alpha i"
proof -
  have "alpha ` {..<255} = UNIV - {0}"
  proof (rule card_subset_eq)
    show "card (alpha ` {..<255}) = card (UNIV - {0 :: byte})"
      by (simp add: card_nonzero_bytes card_image inj_on_def alpha_inj)
  qed auto
  with assms show ?thesis using that by blast
qed


lemma alpha_mod: "alpha (i mod 255) = alpha i"
proof -
  have "alpha (i mod 255 + 255 * (i div 255)) = alpha (i mod 255)"
    using alpha_add [of "i mod 255" "255 * (i div 255)"] alpha_add [of "i mod 255" 0]
    by (simp add: alpha_mult_1 [OF alpha_255])
  then show ?thesis by simp
qed

lemma ptimes_comm: "ptimes a b = ptimes b a"
proof (cases "a = 0 \<or> b = 0")
  case True
  then show ?thesis by auto
next
  case False
  then obtain i j where "a = alpha i" "b = alpha j" by (metis alpha_surj)
  then show ?thesis by (simp add: alpha_add add.commute)
qed

lemma ptimes_assoc: "ptimes (ptimes a b) c = ptimes a (ptimes b c)"
proof (cases "a = 0 \<or> b = 0 \<or> c = 0")
  case True
  then show ?thesis by auto
next
  case False
  then obtain i j k where "a = alpha i" "b = alpha j" "c = alpha k" by (metis alpha_surj)
  then show ?thesis by (simp add: alpha_add add.assoc)
qed

definition dlog :: "byte \<Rightarrow> nat" where
  \<comment> \<open>the discrete logarithm of a nonzero byte\<close>
  "dlog b = length (takeWhile (\<lambda>i. alpha i \<noteq> b) [0..<255])"

lemma dlog_alpha [simp]:
  assumes "i < 255"
  shows "dlog (alpha i) = i"
proof -
  have split: "[0..<255] = [0..<i] @ i # [Suc i..<255]"
    using assms upt_add_eq_append [of 0 i "255 - i"] by (simp add: upt_conv_Cons)
  have "takeWhile (\<lambda>j. alpha j \<noteq> alpha i) [0..<255] = [0..<i]"
    unfolding split using assms by (subst takeWhile_append2) (auto dest: alpha_inj)
  then show ?thesis by (simp add: dlog_def)
qed

lemma alpha_dlog [simp]: "b \<noteq> 0 \<Longrightarrow> alpha (dlog b) = b"
  by (metis alpha_surj dlog_alpha)

lemma dlog_less: "b \<noteq> 0 \<Longrightarrow> dlog b < 255"
  by (metis alpha_surj dlog_alpha)

subsection \<open>The field\<close>

datatype gf = Gf (byte_of: byte)

instantiation gf :: field
begin

definition "(0::gf) = Gf 0"
definition "(1::gf) = Gf 1"
definition "a + b = Gf (byte_of a XOR byte_of b)"
definition "a - b = Gf (byte_of a XOR byte_of b)"
definition "- a = (a::gf)"
definition "a * b = Gf (ptimes (byte_of a) (byte_of b))"
definition "inverse a = (if byte_of a = 0 then a else Gf (alpha (255 - dlog (byte_of a))))"
definition "a div b = a * inverse (b::gf)"

instance
proof
  fix a b c :: gf
  show "a * b * c = a * (b * c)" by (simp add: times_gf_def ptimes_assoc)
  show "a * b = b * a" by (simp add: times_gf_def ptimes_comm)
  show "1 * a = a" by (simp add: times_gf_def one_gf_def)
  show "a + b + c = a + (b + c)" by (simp add: plus_gf_def xor.assoc)
  show "a + b = b + a" by (simp add: plus_gf_def xor.commute)
  show "0 + a = a" by (simp add: plus_gf_def zero_gf_def)
  show "- a + a = 0" by (simp add: plus_gf_def zero_gf_def uminus_gf_def)
  show "a - b = a + - b" by (simp add: plus_gf_def minus_gf_def uminus_gf_def)
  show "(a + b) * c = a * c + b * c"
    by (simp add: plus_gf_def times_gf_def ptimes_xor_left)
  show "(0::gf) \<noteq> 1" by (simp add: zero_gf_def one_gf_def)
  show "inverse (0::gf) = 0" by (simp add: inverse_gf_def zero_gf_def)
  show "a div b = a * inverse b" by (simp add: divide_gf_def)
  show "inverse a * a = 1" if "a \<noteq> 0"
  proof -
    have nz: "byte_of a \<noteq> 0" using that by (cases a) (simp add: zero_gf_def)
    have "ptimes (alpha (255 - dlog (byte_of a))) (alpha (dlog (byte_of a))) = alpha 255"
      using dlog_less [OF nz] by (simp only: alpha_add) simp
    with nz show ?thesis by (simp add: inverse_gf_def times_gf_def one_gf_def alpha_255)
  qed
qed

end

lemma gf_add_self [simp]: "a + a = (0::gf)"
  by (simp add: plus_gf_def zero_gf_def)

lemma gf_minus [simp]: "a - b = a + (b::gf)" "- a = (a::gf)"
  by (simp_all add: plus_gf_def minus_gf_def uminus_gf_def)

lemma gf_add_cancel [simp]: "a + (a + b) = (b::gf)" "(a + b) + b = (a::gf)"
proof -
  have "a + (a + b) = (a + a) + b" by (rule add.assoc [symmetric])
  then show "a + (a + b) = b" by (simp only: gf_add_self add_0_left)
  have "(a + b) + b = a + (b + b)" by (rule add.assoc)
  then show "(a + b) + b = a" by (simp only: gf_add_self add_0_right)
qed

lemma gf_eq_iff_add: "a = b \<longleftrightarrow> a + b = (0::gf)"
proof
  assume "a + b = 0"
  then have "a + (a + b) = a" by (simp only: add_0_right)
  then show "a = b" by (simp only: gf_add_cancel)
qed (simp only: gf_add_self)

lemma Gf_xor: "Gf (a XOR b) = Gf a + Gf b"
  by (simp add: plus_gf_def)

lemma Gf_0 [simp]: "Gf 0 = 0" and Gf_1 [simp]: "Gf 1 = 1"
  by (simp_all add: zero_gf_def one_gf_def)

lemma Gf_eq_0 [simp]: "Gf a = 0 \<longleftrightarrow> a = 0"
  unfolding zero_gf_def by (rule gf.inject)

lemma byte_of_0 [simp]: "byte_of 0 = 0" and byte_of_1 [simp]: "byte_of 1 = 1"
  unfolding zero_gf_def one_gf_def by (rule gf.sel)+

lemma Gf_byte_of [simp]: "Gf (byte_of a) = a"
  by (rule gf.collapse)

end
