(* ===== verification/FecTables.thy ===== *)
theory FecTables
  imports GfField
begin

text \<open>
  The tables of \<^verbatim>\<open>src/fec.c\<close>: \<^verbatim>\<open>modnn\<close>, \<^verbatim>\<open>generate_gf\<close>, \<^verbatim>\<open>init_mul_table\<close>
  and \<^verbatim>\<open>fec_init\<close>, as functions on a record of the file's static arrays, and the
  proof that they hold the logarithms, powers, inverses and products of the field
  \<open>gf\<close> of theory \<^verbatim>\<open>GfField\<close>.  The locale \<open>gf_arith\<close> is the interface the
  coding functions rely on; it is interpreted on the initialised tables.
\<close>

definition GF_BITS :: nat where "GF_BITS = 8"
definition GF_SIZE :: nat where "GF_SIZE = 255"

definition allPp_GF_BITS :: string where
  \<comment> \<open>\<^verbatim>\<open>allPp[GF_BITS]\<close>\<close>
  "allPp_GF_BITS = ''101110001''"

record gf_tables =
  gf_exp :: "byte list"
  gf_log :: "nat list"
  inverse_tab :: "byte list"
  gf_mul_table :: "byte list"
  fec_initialized :: bool

definition static_tables :: gf_tables where
  \<comment> \<open>C zero-initialises static arrays\<close>
  "static_tables = \<lparr>gf_exp = replicate (2 * GF_SIZE) 0, gf_log = replicate (GF_SIZE + 1) 0,
     inverse_tab = replicate (GF_SIZE + 1) 0,
     gf_mul_table = replicate ((GF_SIZE + 1) * (GF_SIZE + 1)) 0, fec_initialized = False\<rparr>"

function modnn :: "nat \<Rightarrow> nat" where
  "modnn x = (if x \<ge> GF_SIZE
     then modnn (drop_bit GF_BITS (x - GF_SIZE) + ((x - GF_SIZE) AND GF_SIZE))
     else x)"
  by pat_completeness auto

lemma modnn_step: "drop_bit 8 y + (y AND 255) = (y::nat) div 256 + y mod 256"
proof -
  have "y AND 255 = take_bit 8 y" by (simp add: take_bit_eq_mask mask_eq_exp_minus_1)
  then show ?thesis by (simp add: drop_bit_eq_div take_bit_eq_mod)
qed

lemma modnn_decreases: "255 \<le> x \<Longrightarrow> drop_bit 8 (x - 255) + ((x - 255) AND 255) < (x::nat)"
  unfolding modnn_step using div_mult_mod_eq [of "x - 255" 256] by linarith

termination modnn
proof (relation "measure id")
  fix x assume "GF_SIZE \<le> x"
  then have "255 \<le> x" by (simp only: GF_SIZE_def)
  then show "(drop_bit GF_BITS (x - GF_SIZE) + ((x - GF_SIZE) AND GF_SIZE), x) \<in> measure id"
    unfolding GF_SIZE_def GF_BITS_def in_measure id_apply by (rule modnn_decreases)
qed simp

declare modnn.simps [simp del]

definition gf_low_step :: "nat \<Rightarrow> byte \<times> gf_tables \<Rightarrow> byte \<times> gf_tables" where
  \<comment> \<open>one round of the loop over the first \<^verbatim>\<open>GF_BITS\<close> powers\<close>
  "gf_low_step i = (\<lambda>(msk, T).
     let T = T\<lparr>gf_exp := (gf_exp T)[i := msk]\<rparr>;
         T = T\<lparr>gf_log := (gf_log T)[unat (gf_exp T ! i) := i]\<rparr>;
         T = (if allPp_GF_BITS ! i = CHR ''1''
              then T\<lparr>gf_exp := (gf_exp T)[GF_BITS := gf_exp T ! GF_BITS XOR msk]\<rparr> else T)
     in (push_bit 1 msk, T))"

definition gf_high_step :: "byte \<Rightarrow> nat \<Rightarrow> gf_tables \<Rightarrow> gf_tables" where
  \<comment> \<open>one round of the loop over the remaining powers\<close>
  "gf_high_step msk i T =
     (let prev = gf_exp T ! (i - 1);
          T = T\<lparr>gf_exp := (gf_exp T)[i :=
                (if prev \<ge> msk then gf_exp T ! GF_BITS XOR push_bit 1 (prev XOR msk)
                 else push_bit 1 prev)]\<rparr>
      in T\<lparr>gf_log := (gf_log T)[unat (gf_exp T ! i) := i]\<rparr>)"

definition generate_gf :: "gf_tables \<Rightarrow> gf_tables" where
  "generate_gf T =
     (let T = T\<lparr>gf_exp := (gf_exp T)[GF_BITS := 0]\<rparr>;
          (msk, T) = fold gf_low_step [0..<GF_BITS] (1, T);
          T = T\<lparr>gf_log := (gf_log T)[unat (gf_exp T ! GF_BITS) := GF_BITS]\<rparr>;
          msk = push_bit (GF_BITS - 1) 1;
          T = fold (gf_high_step msk) [GF_BITS + 1..<GF_SIZE] T;
          T = T\<lparr>gf_log := (gf_log T)[0 := GF_SIZE]\<rparr>;
          T = fold (\<lambda>i T. T\<lparr>gf_exp := (gf_exp T)[i + GF_SIZE := gf_exp T ! i]\<rparr>) [0..<GF_SIZE] T;
          T = T\<lparr>inverse_tab := (inverse_tab T)[0 := 0, 1 := 1]\<rparr>
      in fold (\<lambda>i T. T\<lparr>inverse_tab := (inverse_tab T)
                 [i := gf_exp T ! (GF_SIZE - gf_log T ! i)]\<rparr>) [2..<GF_SIZE + 1] T)"

definition init_mul_table :: "gf_tables \<Rightarrow> gf_tables" where
  "init_mul_table T =
     (let T = fold (\<lambda>i. fold (\<lambda>j T. T\<lparr>gf_mul_table := (gf_mul_table T)
                 [push_bit 8 i + j := gf_exp T ! modnn (gf_log T ! i + gf_log T ! j)]\<rparr>)
               [0..<GF_SIZE + 1]) [0..<GF_SIZE + 1] T
      in fold (\<lambda>j T. T\<lparr>gf_mul_table := (gf_mul_table T)[push_bit 8 j := 0, j := 0]\<rparr>)
           [0..<GF_SIZE + 1] T)"

definition fec_init :: "gf_tables \<Rightarrow> gf_tables" where
  "fec_init T = (init_mul_table (generate_gf T))\<lparr>fec_initialized := True\<rparr>"

definition gf_mul :: "gf_tables \<Rightarrow> byte \<Rightarrow> byte \<Rightarrow> byte" where
  "gf_mul T x y = gf_mul_table T ! (push_bit 8 (unat x) + unat y)"

subsection \<open>Modular reduction\<close>

lemma mod_255_step: "((y::nat) div 256 + y mod 256) mod 255 = y mod 255"
proof -
  have "y = 255 * (y div 256) + (y div 256 + y mod 256)"
    using div_mult_mod_eq [of y 256] by linarith
  then show ?thesis by (metis mod_mult_self4)
qed

lemma modnn_eq: "modnn x = x mod 255"
proof (induction x rule: modnn.induct)
  case (1 x)
  show ?case
  proof (cases "255 \<le> x")
    case True
    then have "modnn x = modnn ((x - 255) div 256 + (x - 255) mod 256)"
      by (subst modnn.simps) (simp only: GF_SIZE_def GF_BITS_def modnn_step if_True)
    also have "\<dots> = ((x - 255) div 256 + (x - 255) mod 256) mod 255"
      using "1" True unfolding GF_SIZE_def GF_BITS_def modnn_step by blast
    also have "\<dots> = x mod 255" using True by (simp only: mod_255_step le_mod_geq)
    finally show ?thesis .
  qed (simp add: modnn.simps [of x] GF_SIZE_def)
qed

subsection \<open>The powers and the logarithms\<close>

lemma bit_7_iff: "bit (b::byte) 7 \<longleftrightarrow> 128 \<le> b"
proof -
  have small: "odd (n div 128) \<longleftrightarrow> 128 \<le> n" if "n < 256" for n :: nat
  proof (cases "128 \<le> n")
    case True
    with that have "n div 128 = 1" by (intro div_nat_eqI) simp_all
    with True show ?thesis by simp
  qed simp
  have "bit (unat b) 7 \<longleftrightarrow> 128 \<le> unat b"
    using small [of "unat b"] unsigned_less [of b] by (simp add: bit_nat_def)
  then show ?thesis by (simp add: word_le_nat_alt bit_unsigned_iff)
qed

lemma xtime_alt: "xtime b = (if b \<ge> 128 then 29 XOR push_bit 1 (b XOR 128) else push_bit 1 b)"
proof -
  have "push_bit 1 (128 :: byte) = 0" by simp
  then have "29 XOR push_bit 1 (b XOR 128) = push_bit 1 b XOR 29"
    by (simp only: push_bit_xor xor.right_neutral xor.left_neutral xor.commute)
  then show ?thesis by (simp only: xtime_def bit_7_iff)
qed

subsection \<open>\<^verbatim>\<open>generate_gf\<close>\<close>

definition low_mask :: "nat \<Rightarrow> byte" where
  \<comment> \<open>the value of the loop's mask in round \<open>i\<close>\<close>
  "low_mask i = (if i < 8 then alpha i else 0)"

definition low_sum :: "nat \<Rightarrow> byte" where
  "low_sum i = fold (\<lambda>j r. if allPp_GF_BITS ! j = CHR ''1'' then r XOR alpha j else r) [0..<i] 0"

lemma byte_256: "(256 :: byte) = 0"
  by simp

lemma low_mask_step:
  assumes "i < 8"
  shows "push_bit 1 (low_mask i) = low_mask (Suc i)"
  using byte_cases_8 [OF assms]
  by (elim disjE) (simp_all add: low_mask_def alpha_def xtime_def eval_nat_numeral byte_256)

lemma low_sum_8: "low_sum 8 = alpha 8"
proof -
  have "[0..<8] = [0, 1, 2, 3, 4, 5, 6, 7::nat]" by code_simp
  then show ?thesis
    by (simp add: low_sum_def allPp_GF_BITS_def alpha_8)
      (simp add: alpha_def xtime_pows xtime_def)
qed

definition lens_ok :: "gf_tables \<Rightarrow> bool" where
  "lens_ok T \<longleftrightarrow> length (gf_exp T) = 510 \<and> length (gf_log T) = 256
     \<and> length (inverse_tab T) = 256 \<and> length (gf_mul_table T) = 65536"

definition powers_upto :: "nat \<Rightarrow> gf_tables \<Rightarrow> bool" where
  \<comment> \<open>the first \<open>n\<close> powers and their logarithms are in place\<close>
  "powers_upto n T \<longleftrightarrow> (\<forall>j < n. gf_exp T ! j = alpha j \<and> gf_log T ! unat (alpha j) = j)"

lemma unat_byte_less [simp]: "unat (b::byte) < 256"
  using unsigned_less [of b] by simp

lemma powers_upto_log_other:
  assumes "powers_upto n T" and "j < n" and "n \<le> i" and "i < 255"
  shows "((gf_log T)[unat (alpha i) := v]) ! unat (alpha j) = j"
proof -
  have "alpha i \<noteq> alpha j" using alpha_inj [of i j] assms by auto
  then have "unat (alpha i) \<noteq> unat (alpha j)" by (simp only: word_unat_eq_iff not_False_eq_True)
  with assms show ?thesis by (simp add: powers_upto_def)
qed

lemma powers_upto_Suc:
  assumes "powers_upto n T" and "lens_ok T" and "n < 255"
    and "gf_exp T' = (gf_exp T)[n := alpha n]"
    and "gf_log T' = (gf_log T)[unat (alpha n) := n]"
  shows "powers_upto (Suc n) T'"
  using assms powers_upto_log_other [OF assms(1) _ order_refl assms(3), of _ n]
  by (auto simp: powers_upto_def lens_ok_def less_Suc_eq nth_list_update)


lemma low_loop:
  assumes "lens_ok T"
  defines "T0 \<equiv> T\<lparr>gf_exp := (gf_exp T)[GF_BITS := 0]\<rparr>"
  shows "case fold gf_low_step [0..<8] (1, T0) of (msk, U) \<Rightarrow>
     lens_ok U \<and> powers_upto 8 U \<and> gf_exp U ! 8 = alpha 8"
proof -
  let ?P = "\<lambda>i (msk, U). i \<le> 8 \<and> msk = low_mask i \<and> lens_ok U \<and> powers_upto i U
      \<and> gf_exp U ! 8 = low_sum i"
  have "?P 8 (fold gf_low_step [0..<8] (1, T0))"
  proof (rule fold_upt_inv [where P = ?P])
    show "?P 0 (1, T0)"
      using assms by (auto simp: low_mask_def low_sum_def lens_ok_def powers_upto_def GF_BITS_def)
  next
    fix i s assume i: "i < 8" and P: "?P i s"
    obtain msk U where s: "s = (msk, U)" by (cases s)
    have m: "msk = alpha i" using P i by (simp add: s low_mask_def)
    let ?e = "(gf_exp U)[i := alpha i]"
    let ?U' = "snd (gf_low_step i s)"
    have ll: "gf_log ?U' = (gf_log U)[unat (alpha i) := i]" "lens_ok ?U'"
      "fst (gf_low_step i s) = low_mask (Suc i)" "gf_exp ?U' ! 8 = low_sum (Suc i)"
      using P i m low_mask_step [OF i]
      by (auto simp: s gf_low_step_def GF_BITS_def lens_ok_def Let_def low_sum_def low_mask_def)
    have ee: "gf_exp ?U' ! j = ?e ! j" if "j < 8" for j
      using P i m that by (auto simp: s gf_low_step_def GF_BITS_def lens_ok_def Let_def)
    let ?V = "?U'\<lparr>gf_exp := ?e\<rparr>"
    have "powers_upto (Suc i) ?V"
      by (rule powers_upto_Suc [where T = U and n = i]) (use P i s ll in auto)
    then have "powers_upto (Suc i) ?U'"
      using ee i by (auto simp: powers_upto_def)
    then show "?P (Suc i) (gf_low_step i s)" using ll i by (auto simp: case_prod_beta)
  qed simp
  then show ?thesis by (auto simp: low_sum_8 case_prod_beta)
qed

lemma high_loop:
  assumes "lens_ok T" and "powers_upto 9 T" and "9 \<le> n" and "n \<le> 255"
  shows "lens_ok (fold (gf_high_step 128) [9..<n] T)
    \<and> powers_upto n (fold (gf_high_step 128) [9..<n] T)"
proof -
  let ?P = "\<lambda>i U. lens_ok U \<and> powers_upto i U"
  have "n \<le> 255 \<longrightarrow> ?P n (fold (gf_high_step 128) [9..<n] T)"
  proof (rule fold_upt_inv [where P = "\<lambda>i U. i \<le> 255 \<longrightarrow> ?P i U"], rule assms, use assms in simp,
      intro impI)
    fix i U assume i: "9 \<le> i" "Suc i \<le> 255" and P: "i \<le> 255 \<longrightarrow> ?P i U"
    then have pw: "powers_upto i U" and len: "lens_ok U" by auto
    have prev: "gf_exp U ! (i - 1) = alpha (i - 1)" "gf_exp U ! 8 = 29"
      using pw i by (simp_all add: powers_upto_def alpha_8)
    have "gf_exp (gf_high_step 128 i U) = (gf_exp U)[i := xtime (alpha (i - 1))]"
      using prev by (simp add: gf_high_step_def Let_def xtime_alt GF_BITS_def)
    moreover have ai: "xtime (alpha (i - 1)) = alpha i" using i by (simp flip: alpha_Suc)
    ultimately have e: "gf_exp (gf_high_step 128 i U) = (gf_exp U)[i := alpha i]" by simp
    then have "gf_exp (gf_high_step 128 i U) ! i = alpha i" using i len by (simp add: lens_ok_def)
    then have l: "gf_log (gf_high_step 128 i U) = (gf_log U)[unat (alpha i) := i]"
      by (simp add: gf_high_step_def Let_def)
    have "lens_ok (gf_high_step 128 i U)" using len by (simp add: lens_ok_def gf_high_step_def Let_def)
    with powers_upto_Suc [OF pw len _ e l] i show "?P (Suc i) (gf_high_step 128 i U)" by simp
  qed
  with assms show ?thesis by simp
qed


definition gf_filled :: "gf_tables \<Rightarrow> bool" where
  \<comment> \<open>powers, logarithms and inverses hold their specified values\<close>
  "gf_filled T \<longleftrightarrow> lens_ok T \<and> (\<forall>i < 255. gf_exp T ! i = alpha i)
     \<and> (\<forall>b. b \<noteq> 0 \<longrightarrow> gf_log T ! unat b = dlog b)
     \<and> (\<forall>b. inverse_tab T ! unat b = byte_of (inverse (Gf b)))"

lemma ext_loop:
  assumes "lens_ok T" and "\<forall>i < 255. gf_exp T ! i = alpha i" and "n \<le> 255"
  defines "U \<equiv> fold (\<lambda>i T. T\<lparr>gf_exp := (gf_exp T)[i + GF_SIZE := gf_exp T ! i]\<rparr>) [0..<n] T"
  shows "lens_ok U \<and> (\<forall>i < 255. gf_exp U ! i = alpha i) \<and> gf_log U = gf_log T"
  unfolding U_def
  by (rule fold_inv) (use assms in \<open>auto simp: lens_ok_def GF_SIZE_def nth_list_update\<close>)

lemma inverse_loop:
  assumes "lens_ok T" and "\<forall>i < 255. gf_exp T ! i = alpha i"
    and "\<forall>b. b \<noteq> 0 \<longrightarrow> gf_log T ! unat b = dlog b"
    and "inverse_tab T ! 0 = 0" and "inverse_tab T ! 1 = 1"
  defines "f \<equiv> (\<lambda>i T. T\<lparr>inverse_tab := (inverse_tab T)
                 [i := gf_exp T ! (GF_SIZE - gf_log T ! i)]\<rparr>)"
  shows "gf_filled (fold f [2..<256] T)"
proof -
  let ?inv = "\<lambda>b. byte_of (inverse (Gf b))"
  let ?P = "\<lambda>i U. lens_ok U \<and> gf_exp U = gf_exp T \<and> gf_log U = gf_log T
     \<and> (\<forall>b. unat b < i \<longrightarrow> inverse_tab U ! unat b = ?inv b)"
  have start: "?P 2 T"
  proof -
    have "inverse_tab T ! unat b = ?inv b" if "unat b < 2" for b
    proof -
      from that have "b = 0 \<or> b = 1"
        by (metis One_nat_def less_2_cases unat_1 unat_eq_0 word_unat_eq_iff)
      with assms(4,5) show ?thesis by (elim disjE) simp_all
    qed
    then show ?thesis using assms(1) by blast
  qed
  have step: "?P (Suc i) (f i U)" if i: "2 \<le> i" "i < 256" and P: "?P i U" for i U
  proof -
    define b :: byte where "b = word_of_nat i"
    have ub: "unat b = i" using i by (simp add: b_def unat_of_nat take_bit_eq_mod)
    then have b: "b \<noteq> 0" "b \<noteq> 1" using i by auto
    have "dlog b \<noteq> 0" using b alpha_dlog [of b] by (intro notI) simp
    then have "gf_exp T ! (255 - dlog b) = alpha (255 - dlog b)" using assms(2) by simp
    moreover have "gf_log T ! i = dlog b" using assms(3) b(1) ub by blast
    ultimately have val: "gf_exp T ! (255 - gf_log T ! i) = ?inv b" using b by (simp add: inverse_gf_def)
    have other: "c = b" if "unat c = i" for c :: byte using that ub by (metis word_unat_eq_iff)
    show ?thesis
      using P val i other
      by (auto simp: f_def lens_ok_def GF_SIZE_def less_Suc_eq nth_list_update)
  qed
  have "?P 256 (fold f [2..<256] T)"
    by (rule fold_upt_inv [where P = ?P]) (use start step in auto)
  then show ?thesis using assms(2,3) by (auto simp: gf_filled_def)
qed

lemma generate_gf_filled:
  assumes "lens_ok T"
  shows "gf_filled (generate_gf T)"
proof -
  define T0 where "T0 = T\<lparr>gf_exp := (gf_exp T)[GF_BITS := 0]\<rparr>"
  obtain msk T1 where T1: "fold gf_low_step [0..<8] (1, T0) = (msk, T1)" by (meson surj_pair)
  with low_loop [OF assms] have low: "lens_ok T1" "powers_upto 8 T1" "gf_exp T1 ! 8 = alpha 8"
    by (auto simp: T0_def)
  define T2 where "T2 = T1\<lparr>gf_log := (gf_log T1)[unat (gf_exp T1 ! 8) := 8]\<rparr>"
  have T2: "lens_ok T2" using low by (simp add: T2_def lens_ok_def)
  have "powers_upto (Suc 8) T2"
    by (rule powers_upto_Suc [OF low(2) low(1)])
      (simp_all add: T2_def low(3) list_update_id [of _ 8, folded low(3)] flip: low(3))
  then have p9: "powers_upto 9 T2" by simp
  define T3 where "T3 = fold (gf_high_step 128) [9..<255] T2"
  have T3: "lens_ok T3" "powers_upto 255 T3"
    using high_loop [OF T2 p9, of 255] by (simp_all add: T3_def)
  define T4 where "T4 = T3\<lparr>gf_log := (gf_log T3)[0 := GF_SIZE]\<rparr>"
  have T4: "lens_ok T4" "\<forall>i < 255. gf_exp T4 ! i = alpha i"
    using T3 by (auto simp: T4_def lens_ok_def powers_upto_def)
  have log: "\<forall>b. b \<noteq> 0 \<longrightarrow> gf_log T4 ! unat b = dlog b"
  proof (intro allI impI)
    fix b :: byte assume "b \<noteq> 0"
    then obtain i where "i < 255" "b = alpha i" by (rule alpha_surj)
    with T3 show "gf_log T4 ! unat b = dlog b"
      by (simp add: T4_def powers_upto_def unat_eq_zero)
  qed
  define T5 where "T5 = fold (\<lambda>i T. T\<lparr>gf_exp := (gf_exp T)[i + GF_SIZE := gf_exp T ! i]\<rparr>) [0..<255] T4"
  have T5: "lens_ok T5" "\<forall>i < 255. gf_exp T5 ! i = alpha i" "gf_log T5 = gf_log T4"
    using ext_loop [OF T4, of 255] by (simp_all add: T5_def)
  define T6 where "T6 = T5\<lparr>inverse_tab := (inverse_tab T5)[0 := 0, 1 := 1]\<rparr>"
  have "gf_filled (fold (\<lambda>i T. T\<lparr>inverse_tab := (inverse_tab T)
                 [i := gf_exp T ! (GF_SIZE - gf_log T ! i)]\<rparr>) [2..<256] T6)"
    by (rule inverse_loop) (use T5 log in \<open>auto simp: T6_def lens_ok_def\<close>)
  moreover have "push_bit (8 - 1) 1 = (128 :: byte)" by simp
  ultimately show ?thesis
    using T1
    by (simp del: upt_rec_numeral add: generate_gf_def T6_def T5_def T4_def T3_def T2_def T0_def
        GF_BITS_def GF_SIZE_def Let_def)
qed


subsection \<open>\<^verbatim>\<open>init_mul_table\<close>\<close>

definition mul_fill :: "(nat \<Rightarrow> nat \<Rightarrow> byte) \<Rightarrow> nat \<Rightarrow> byte list \<Rightarrow> byte list" where
  \<comment> \<open>the double loop, on the one array it writes\<close>
  "mul_fill f n t = fold (\<lambda>i. fold (\<lambda>j t. t[256 * i + j := f i j]) [0..<256]) [0..<n] t"

lemma row_fill:
  assumes "n \<le> 256"
  shows "length (fold (\<lambda>j t. t[256 * i + j := f j]) [0..<n] t) = length t
    \<and> (\<forall>k < length t. fold (\<lambda>j t. t[256 * i + j := f j]) [0..<n] t ! k
        = (if 256 * i \<le> k \<and> k < 256 * i + n then f (k - 256 * i) else t ! k))"
  using assms
proof (induction n)
  case (Suc n)
  let ?u = "fold (\<lambda>j t. t[256 * i + j := f j]) [0..<n] t"
  have "?u[256 * i + n := f n] ! k
      = (if 256 * i \<le> k \<and> k < 256 * i + Suc n then f (k - 256 * i) else t ! k)"
    if "k < length t" for k
    using Suc that by (cases "k = 256 * i + n") auto
  with Suc show ?case by simp
qed auto

lemma mul_fill_nth:
  assumes "length t = 65536" and "n \<le> 256"
  shows "length (mul_fill f n t) = 65536
    \<and> (\<forall>i < n. \<forall>j < 256. mul_fill f n t ! (256 * i + j) = f i j)"
  using assms(2)
proof (induction n)
  case 0
  then show ?case using assms(1) by (simp add: mul_fill_def)
next
  case (Suc n)
  let ?r = "fold (\<lambda>j t. t[256 * n + j := f n j]) [0..<256]"
  have step: "mul_fill f (Suc n) t = ?r (mul_fill f n t)"
    by (simp add: mul_fill_def del: upt_rec_numeral)
  from Suc have IH: "length (mul_fill f n t) = 65536"
      "\<And>i j. i < n \<Longrightarrow> j < 256 \<Longrightarrow> mul_fill f n t ! (256 * i + j) = f i j" by simp_all
  note row = row_fill [where n = 256 and i = n and f = "f n" and t = "mul_fill f n t", simplified IH(1)]
  have "?r (mul_fill f n t) ! (256 * i + j) = f i j" if "i < Suc n" "j < 256" for i j
  proof (cases "i = n")
    case True
    then show ?thesis using row that Suc.prems by auto
  next
    case False
    with that have "256 * i + j < 256 * n" by (auto simp: less_Suc_eq)
    then show ?thesis using row IH(2) [of i j] that Suc.prems False by auto
  qed
  then show ?case unfolding step using row by auto
qed

definition gf_ready :: "gf_tables \<Rightarrow> bool" where
  \<comment> \<open>what the coding functions rely on after \<^verbatim>\<open>fec_init\<close>\<close>
  "gf_ready T \<longleftrightarrow> fec_initialized T
     \<and> (\<forall>b. inverse_tab T ! unat b = byte_of (inverse (Gf b)))
     \<and> (\<forall>a b. gf_mul_table T ! (256 * unat a + unat b) = byte_of (Gf a * Gf b))"

lemma init_mul_table_alt:
  "init_mul_table T = T\<lparr>gf_mul_table :=
     fold (\<lambda>j t. t[256 * j := 0, j := 0]) [0..<256]
       (mul_fill (\<lambda>i j. gf_exp T ! modnn (gf_log T ! i + gf_log T ! j)) 256 (gf_mul_table T))\<rparr>"
proof -
  let ?f = "\<lambda>i j. gf_exp T ! modnn (gf_log T ! i + gf_log T ! j)"
  have inner: "fold (\<lambda>j U. U\<lparr>gf_mul_table := (gf_mul_table U)
        [256 * i + j := gf_exp U ! modnn (gf_log U ! i + gf_log U ! j)]\<rparr>) [0..<n] (T\<lparr>gf_mul_table := t\<rparr>)
      = T\<lparr>gf_mul_table := fold (\<lambda>j t. t[256 * i + j := ?f i j]) [0..<n] t\<rparr>" for i n t
    by (induction n) simp_all
  have outer: "fold (\<lambda>i. fold (\<lambda>j U. U\<lparr>gf_mul_table := (gf_mul_table U)
        [256 * i + j := gf_exp U ! modnn (gf_log U ! i + gf_log U ! j)]\<rparr>) [0..<256]) [0..<n]
        (T\<lparr>gf_mul_table := t\<rparr>) = T\<lparr>gf_mul_table := mul_fill ?f n t\<rparr>" for n t
    by (induction n) (simp_all add: mul_fill_def inner del: upt_rec_numeral)
  have zero: "fold (\<lambda>j U. U\<lparr>gf_mul_table := (gf_mul_table U)[256 * j := 0, j := 0]\<rparr>) [0..<n]
        (T\<lparr>gf_mul_table := t\<rparr>)
      = T\<lparr>gf_mul_table := fold (\<lambda>j t. t[256 * j := 0, j := 0]) [0..<n] t\<rparr>" for n t
    by (induction n) simp_all
  have self: "T\<lparr>gf_mul_table := gf_mul_table T\<rparr> = T" by simp
  have "push_bit 8 i = 256 * i" for i :: nat by (simp add: push_bit_eq_mult)
  then show ?thesis
    using outer [of 256 "gf_mul_table T", unfolded self] zero [of 256]
    by (simp add: init_mul_table_def GF_SIZE_def Let_def del: upt_rec_numeral)
qed

lemma zero_loop_nth:
  assumes "length t = 65536" and "n \<le> 256"
  defines "u \<equiv> fold (\<lambda>j t. t[256 * j := 0, j := 0]) [0..<n] t"
  shows "length u = 65536 \<and> (\<forall>k < 65536. u ! k
    = (if k < n \<or> (\<exists>j < n. k = 256 * j) then 0 else t ! k))"
  using assms(2) unfolding u_def
proof (induction n)
  case (Suc n)
  then show ?case by (auto simp: nth_list_update less_Suc_eq)
qed (simp add: assms)

lemma gf_mult_dlog:
  "a \<noteq> 0 \<Longrightarrow> b \<noteq> 0 \<Longrightarrow> Gf a * Gf b = Gf (alpha (dlog a + dlog b))"
  by (simp add: times_gf_def flip: alpha_add)

lemma init_mul_table_ready:
  assumes "gf_filled T"
  shows "gf_ready ((init_mul_table T)\<lparr>fec_initialized := True\<rparr>)"
proof -
  let ?f = "\<lambda>i j. gf_exp T ! modnn (gf_log T ! i + gf_log T ! j)"
  let ?t = "mul_fill ?f 256 (gf_mul_table T)"
  have t: "length ?t = 65536" "\<And>i j. i < 256 \<Longrightarrow> j < 256 \<Longrightarrow> ?t ! (256 * i + j) = ?f i j"
    using mul_fill_nth [of "gf_mul_table T" 256 ?f] assms by (simp_all add: gf_filled_def lens_ok_def)
  define u where "u = fold (\<lambda>j t. t[256 * j := 0, j := 0]) [0..<256] ?t"
  have u: "gf_mul_table (init_mul_table T) = u"
    by (simp add: init_mul_table_alt u_def del: upt_rec_numeral)
  have z: "\<forall>k < 65536. u ! k = (if k < 256 \<or> (\<exists>j < 256. k = 256 * j) then 0 else ?t ! k)"
    using zero_loop_nth [OF t(1) order_refl] unfolding u_def by (rule conjunct2)
  have "u ! (256 * unat a + unat b) = byte_of (Gf a * Gf b)" for a b
  proof (cases "a = 0 \<or> b = 0")
    case True
    have "256 * unat a + unat b < 65536" using unat_byte_less [of a] unat_byte_less [of b] by linarith
    moreover have "256 * unat a + unat b < 256 \<or> (\<exists>j < 256. 256 * unat a + unat b = 256 * j)"
    proof (cases "a = 0")
      case False
      with True have "256 * unat a + unat b = 256 * unat a" by simp
      then show ?thesis using unat_byte_less by blast
    qed simp
    ultimately have "u ! (256 * unat a + unat b) = 0" using z by presburger
    then show ?thesis using True by (elim disjE) simp_all
  next
    case False
    have lt: "256 * unat a + unat b < 65536" using unat_byte_less [of a] unat_byte_less [of b] by linarith
    have "0 < unat a" "0 < unat b" using False by (simp_all add: unat_gt_0)
    then have ge: "\<not> 256 * unat a + unat b < 256" by linarith
    have ne: "256 * unat a + unat b \<noteq> 256 * j" for j
    proof
      assume eq: "256 * unat a + unat b = 256 * j"
      have "unat b = (256 * unat a + unat b) mod 256" by simp
      also have "\<dots> = 0" by (simp only: eq mod_mult_self1_is_0)
      finally show False using \<open>0 < unat b\<close> by simp
    qed
    have "u ! (256 * unat a + unat b) = ?t ! (256 * unat a + unat b)"
      using z lt ge ne by simp
    also have "\<dots> = ?f (unat a) (unat b)" by (rule t(2) [OF unat_byte_less unat_byte_less])
    also have "\<dots> = alpha ((dlog a + dlog b) mod 255)"
      using assms False by (simp add: gf_filled_def modnn_eq)
    finally show ?thesis using False by (simp add: gf_mult_dlog alpha_mod)
  qed
  then show ?thesis
    using assms u by (simp add: gf_ready_def gf_filled_def init_mul_table_alt [of T] del: upt_rec_numeral)
qed


lemma fec_init_ready: "lens_ok T \<Longrightarrow> gf_ready (fec_init T)"
  unfolding fec_init_def by (intro init_mul_table_ready generate_gf_filled)

lemma gf_mul_ready: "gf_ready T \<Longrightarrow> gf_mul T a b = byte_of (Gf a * Gf b)"
  by (simp add: gf_ready_def gf_mul_def push_bit_eq_mult mult.commute)

lemma lens_ok_static: "lens_ok static_tables"
  by (simp add: lens_ok_def static_tables_def GF_SIZE_def)

subsection \<open>The interface of the tables\<close>

locale gf_arith =
  fixes T :: gf_tables
  assumes initialized: "fec_initialized T"
    and inverse_nth: "inverse_tab T ! unat b = byte_of (inverse (Gf b))"
    and mul_spec: "gf_mul T a b = byte_of (Gf a * Gf b)"
begin

lemma Gf_mul: "Gf (gf_mul T a b) = Gf a * Gf b"
  by (simp add: mul_spec)

lemma Gf_inverse: "Gf (inverse_tab T ! unat b) = inverse (Gf b)"
  by (simp add: inverse_nth)

lemma mul_zero: "gf_mul T 0 b = 0" "gf_mul T a 0 = 0"
  by (simp_all add: mul_spec)

end

interpretation fec_tables: gf_arith "fec_init static_tables"
proof unfold_locales
  have "gf_ready (fec_init static_tables)" by (rule fec_init_ready [OF lens_ok_static])
  then show "fec_initialized (fec_init static_tables)"
    and "inverse_tab (fec_init static_tables) ! unat b = byte_of (inverse (Gf b))"
    and "gf_mul (fec_init static_tables) a b = byte_of (Gf a * Gf b)" for a b
    by (simp_all add: gf_ready_def gf_mul_ready)
qed

lemma gf_arith_ready: "gf_ready T \<Longrightarrow> gf_arith T"
  by unfold_locales (simp_all add: gf_ready_def gf_mul_ready)

subsection \<open>Properties\<close>



end
