(* ===== verification/FecMatrix.thy ===== *)
theory FecMatrix
  imports FecTables
begin

text \<open>
  Matrix inversion over GF(256): \<^verbatim>\<open>invert_mat\<close> of \<^verbatim>\<open>src/fec.c\<close> (Gauss-Jordan
  in place, with a pivot search, row exchanges and the final unscrambling of the columns),
  and the vector loops it uses, \<^verbatim>\<open>slow_addmul1\<close>/\<^verbatim>\<open>addmul\<close> and
  \<^verbatim>\<open>slow_mul1\<close>/\<^verbatim>\<open>mul\<close>, unrolled sixteen times as in the source.

  The correctness argument is an exchange invariant.  Let \<open>b = M x\<close>.  After the columns
  in \<open>S\<close> have been pivots, the matrix in the array expresses, for every \<open>x\<close> and \<open>b\<close>, the
  mixed vector with \<open>x i\<close> at the rows in \<open>S\<close> and \<open>b (p i)\<close> at the others in terms of the
  mixed vector with the roles exchanged, where \<open>p\<close> is the row permutation of the exchanges
  so far.  When \<open>S\<close> is everything, the array is the inverse up to the order of its columns.
\<close>

subsection \<open>The vector loops\<close>

definition UNROLL :: nat where "UNROLL = 16"

definition GF_ADDMULC :: "gf_tables \<Rightarrow> byte \<Rightarrow> byte list \<Rightarrow> nat \<Rightarrow> byte list \<Rightarrow> byte list" where
  "GF_ADDMULC T c src i dst = dst[i := dst ! i XOR gf_mul T c (src ! i)]"

definition GF_MULC :: "gf_tables \<Rightarrow> byte \<Rightarrow> byte list \<Rightarrow> nat \<Rightarrow> byte list \<Rightarrow> byte list" where
  "GF_MULC T c src i dst = dst[i := gf_mul T c (src ! i)]"

function unrolled_loop :: "(nat \<Rightarrow> byte list \<Rightarrow> byte list) \<Rightarrow> nat \<Rightarrow> nat \<Rightarrow> byte list \<Rightarrow> nat \<times> byte list" where
  \<comment> \<open>\<^verbatim>\<open>for(; dst < lim; dst += UNROLL, src += UNROLL)\<close> with \<^verbatim>\<open>lim = &dst[sz - UNROLL + 1]\<close>\<close>
  "unrolled_loop body sz i dst =
     (if i + UNROLL < sz + 1
      then unrolled_loop body sz (i + UNROLL) (fold (\<lambda>d. body (i + d)) [0..<UNROLL] dst)
      else (i, dst))"
  by pat_completeness auto
termination
  by (relation "measure (\<lambda>(_, sz, i, _). sz + 1 - i)") (auto simp: UNROLL_def)

declare unrolled_loop.simps [simp del]

definition slow_addmul1 :: "gf_tables \<Rightarrow> byte list \<Rightarrow> byte list \<Rightarrow> byte \<Rightarrow> nat \<Rightarrow> byte list" where
  "slow_addmul1 T dst src c sz =
     (let (i, dst) = unrolled_loop (GF_ADDMULC T c src) sz 0 dst
      in fold (GF_ADDMULC T c src) [i..<sz] dst)"

definition addmul :: "gf_tables \<Rightarrow> byte list \<Rightarrow> byte list \<Rightarrow> byte \<Rightarrow> nat \<Rightarrow> byte list" where
  "addmul T dst src c sz = (if c \<noteq> 0 then slow_addmul1 T dst src c sz else dst)"

definition slow_mul1 :: "gf_tables \<Rightarrow> byte list \<Rightarrow> byte list \<Rightarrow> byte \<Rightarrow> nat \<Rightarrow> byte list" where
  "slow_mul1 T dst src c sz =
     (let (i, dst) = unrolled_loop (GF_MULC T c src) sz 0 dst
      in fold (GF_MULC T c src) [i..<sz] dst)"

definition memset0 :: "nat \<Rightarrow> byte list \<Rightarrow> byte list" where
  "memset0 sz dst = replicate sz 0 @ drop sz dst"

definition mul :: "gf_tables \<Rightarrow> byte list \<Rightarrow> byte list \<Rightarrow> byte \<Rightarrow> nat \<Rightarrow> byte list" where
  "mul T dst src c sz = (if c \<noteq> 0 then slow_mul1 T dst src c sz else memset0 sz dst)"

lemma unrolled_loop_fold:
  assumes "i \<le> sz" and "unrolled_loop body sz i dst = (i', dst')"
  shows "i' \<le> sz \<and> fold body [i'..<sz] dst' = fold body [i..<sz] dst"
  using assms
proof (induction body sz i dst rule: unrolled_loop.induct)
  case (1 body sz i dst)
  show ?case
  proof (cases "i + UNROLL < sz + 1")
    case True
    have shift: "fold (\<lambda>d. body (i + d)) [0..<n] xs = fold body [i..<i + n] xs" for n xs
      by (induction n) simp_all
    have "unrolled_loop body sz (i + UNROLL) (fold body [i..<i + UNROLL] dst) = (i', dst')"
      using "1.prems" True by (subst (asm) unrolled_loop.simps) (simp add: shift)
    with "1.IH" True have "i' \<le> sz \<and> fold body [i'..<sz] dst'
        = fold body [i + UNROLL..<sz] (fold body [i..<i + UNROLL] dst)" by (simp add: shift)
    moreover have "[i..<sz] = [i..<i + UNROLL] @ [i + UNROLL..<sz]"
      using True by (metis add_leD1 le_add1 le_add_diff_inverse less_Suc_eq_le Suc_eq_plus1 upt_add_eq_append)
    ultimately show ?thesis by simp
  next
    case False
    with "1.prems" show ?thesis by (subst (asm) unrolled_loop.simps) simp
  qed
qed

lemma slow_addmul1_reference:
  "slow_addmul1 T dst src c sz = fold (GF_ADDMULC T c src) [0..<sz] dst"
  using unrolled_loop_fold [of 0 sz "GF_ADDMULC T c src" dst]
  by (auto simp: slow_addmul1_def split: prod.split)

lemma slow_mul1_reference:
  "slow_mul1 T dst src c sz = fold (GF_MULC T c src) [0..<sz] dst"
  using unrolled_loop_fold [of 0 sz "GF_MULC T c src" dst]
  by (auto simp: slow_mul1_def split: prod.split)

lemma slow_addmul1_nth:
  assumes "sz \<le> length dst"
  shows "length (slow_addmul1 T dst src c sz) = length dst
    \<and> (\<forall>k < length dst. slow_addmul1 T dst src c sz ! k
         = (if k < sz then dst ! k XOR gf_mul T c (src ! k) else dst ! k))"
proof -
  have "GF_ADDMULC T c src = (\<lambda>i d. d[i := d ! i XOR gf_mul T c (src ! i)])"
    by (simp add: GF_ADDMULC_def fun_eq_iff)
  then show ?thesis
    using fold_pointwise [OF assms, of "\<lambda>i v. v XOR gf_mul T c (src ! i)"]
    by (simp add: slow_addmul1_reference)
qed

lemma slow_mul1_nth:
  assumes "sz \<le> length dst"
  shows "length (slow_mul1 T dst src c sz) = length dst
    \<and> (\<forall>k < length dst. slow_mul1 T dst src c sz ! k
         = (if k < sz then gf_mul T c (src ! k) else dst ! k))"
proof -
  have "GF_MULC T c src = (\<lambda>i d. d[i := gf_mul T c (src ! i)])"
    by (simp add: GF_MULC_def fun_eq_iff)
  then show ?thesis
    using fold_pointwise [OF assms, of "\<lambda>i v. gf_mul T c (src ! i)"]
    by (simp add: slow_mul1_reference)
qed

subsection \<open>\<^verbatim>\<open>invert_mat\<close>\<close>

definition SWAP :: "nat \<Rightarrow> nat \<Rightarrow> byte list \<Rightarrow> byte list" where
  "SWAP a b xs = xs[a := xs ! b, b := xs ! a]"

datatype pivot = Found nat nat | Singular | NotFound

fun search_ix :: "byte list \<Rightarrow> nat \<Rightarrow> nat list \<Rightarrow> nat \<Rightarrow> nat list \<Rightarrow> pivot" where
  \<comment> \<open>the inner loop of the pivot search: columns \<open>ixs\<close> of one row\<close>
  "search_ix src k ipiv row [] = NotFound"
| "search_ix src k ipiv row (ix # ixs) =
     (if ipiv ! ix = 0 then
        (if src ! (row * k + ix) \<noteq> 0 then Found row ix else search_ix src k ipiv row ixs)
      else if ipiv ! ix > 1 then Singular
      else search_ix src k ipiv row ixs)"

fun search_row :: "byte list \<Rightarrow> nat \<Rightarrow> nat list \<Rightarrow> nat list \<Rightarrow> pivot" where
  \<comment> \<open>the outer loop: rows not yet used as pivots\<close>
  "search_row src k ipiv [] = NotFound"
| "search_row src k ipiv (row # rows) =
     (if ipiv ! row \<noteq> 1 then
        (case search_ix src k ipiv row [0..<k] of
           NotFound \<Rightarrow> search_row src k ipiv rows
         | r \<Rightarrow> r)
      else search_row src k ipiv rows)"

definition find_pivot :: "byte list \<Rightarrow> nat \<Rightarrow> nat list \<Rightarrow> nat \<Rightarrow> pivot" where
  "find_pivot src k ipiv col =
     (if ipiv ! col \<noteq> 1 \<and> src ! (col * k + col) \<noteq> 0 then Found col col
      else search_row src k ipiv [0..<k])"

definition get_row :: "byte list \<Rightarrow> nat \<Rightarrow> nat \<Rightarrow> byte list" where
  \<comment> \<open>the \<open>k\<close> bytes at \<^verbatim>\<open>&src[i*k]\<close>\<close>
  "get_row src k i = take k (drop (i * k) src)"

definition put_row :: "byte list \<Rightarrow> nat \<Rightarrow> nat \<Rightarrow> byte list \<Rightarrow> byte list" where
  "put_row src k i r = take (i * k) src @ r @ drop (i * k + k) src"

definition swap_rows :: "nat \<Rightarrow> nat \<Rightarrow> nat \<Rightarrow> byte list \<Rightarrow> byte list" where
  "swap_rows k irow icol src =
     fold (\<lambda>ix src. SWAP (irow * k + ix) (icol * k + ix) src) [0..<k] src"

definition scale_row :: "gf_tables \<Rightarrow> nat \<Rightarrow> nat \<Rightarrow> byte \<Rightarrow> byte list \<Rightarrow> byte list" where
  "scale_row T k icol c src =
     (let c = inverse_tab T ! unat c;
          src = src[icol * k + icol := 1]
      in fold (\<lambda>ix src. src[icol * k + ix := gf_mul T c (src ! (icol * k + ix))]) [0..<k] src)"

definition eliminate_rows :: "gf_tables \<Rightarrow> nat \<Rightarrow> nat \<Rightarrow> byte list \<Rightarrow> byte list" where
  "eliminate_rows T k icol src =
     fold (\<lambda>ix src. if ix \<noteq> icol then
         let p = get_row src k ix; c = p ! icol; p = p[icol := 0]
         in put_row src k ix (addmul T p (get_row src k icol) c k)
       else src) [0..<k] src"

record inv_state =
  isrc :: "byte list"
  ipiv :: "nat list"
  indxr :: "nat list"
  indxc :: "nat list"

definition invert_round :: "gf_tables \<Rightarrow> nat \<Rightarrow> nat \<Rightarrow> inv_state \<Rightarrow> inv_state option" where
  \<comment> \<open>one round of the loop over the columns; \<open>None\<close> is \<^verbatim>\<open>goto fail\<close>\<close>
  "invert_round T k col st =
     (case find_pivot (isrc st) k (ipiv st) col of
        Found irow icol \<Rightarrow>
          let src = (if irow \<noteq> icol then swap_rows k irow icol (isrc st) else isrc st);
              c = src ! (icol * k + icol)
          in if c = 0 then None
             else
               let src = (if c \<noteq> 1 then scale_row T k icol c src else src);
                   id_row = (replicate k 0)[icol := 1];
                   src = (if get_row src k icol \<noteq> id_row then eliminate_rows T k icol src else src)
               in Some \<lparr>isrc = src, ipiv = (ipiv st)[icol := ipiv st ! icol + 1],
                        indxr = (indxr st)[col := irow], indxc = (indxc st)[col := icol]\<rparr>
      | _ \<Rightarrow> None)"

definition unscramble :: "nat \<Rightarrow> inv_state \<Rightarrow> nat \<Rightarrow> byte list \<Rightarrow> byte list" where
  \<comment> \<open>one round of the loop that exchanges the columns back\<close>
  "unscramble k st col src =
     (if k \<le> indxr st ! col then src
      else if k \<le> indxc st ! col then src
      else if indxr st ! col \<noteq> indxc st ! col then
        fold (\<lambda>row src. SWAP (row * k + indxr st ! col) (row * k + indxc st ! col) src) [0..<k] src
      else src)"

definition invert_mat :: "gf_tables \<Rightarrow> byte list \<Rightarrow> nat \<Rightarrow> byte list option" where
  "invert_mat T src k =
     (case fold (\<lambda>col r. Option.bind r (invert_round T k col)) [0..<k]
             (Some \<lparr>isrc = src, ipiv = replicate k 0, indxr = replicate k 0, indxc = replicate k 0\<rparr>)
      of None \<Rightarrow> None
       | Some st \<Rightarrow> Some (fold (unscramble k st) (rev [0..<k]) (isrc st)))"


subsection \<open>The exchange invariant\<close>

definition sw :: "nat \<Rightarrow> nat \<Rightarrow> nat \<Rightarrow> nat" where
  "sw a b i = (if i = a then b else if i = b then a else i)"

lemma sw_sw [simp]: "sw a b (sw a b i) = i"
  by (simp add: sw_def)

lemma sw_self [simp]: "sw a a i = i"
  by (simp add: sw_def)

lemma sw_less: "a < k \<Longrightarrow> b < k \<Longrightarrow> sw a b i < k \<longleftrightarrow> i < k"
  by (simp add: sw_def)

lemma sw_out: "a \<notin> S \<Longrightarrow> b \<notin> S \<Longrightarrow> i \<in> S \<Longrightarrow> sw a b i = i"
  by (auto simp: sw_def)

lemma sw_mem: "a \<notin> S \<Longrightarrow> b \<notin> S \<Longrightarrow> sw a b i \<in> S \<longleftrightarrow> i \<in> S"
  by (auto simp: sw_def)

lemma all_sw:
  assumes "a < k" and "b < k"
  shows "(\<forall>i < k. P (sw a b i)) \<longleftrightarrow> (\<forall>i < k. P i)"
  using assms by (metis sw_less sw_sw)

lemma sum_sw:
  assumes "a < k" and "b < k"
  shows "(\<Sum>j<k. f (sw a b j)) = (\<Sum>j<k. f j :: gf)"
  by (rule sum.reindex_bij_witness [of _ "sw a b" "sw a b"]) (use assms in \<open>auto simp: sw_less\<close>)

definition exch :: "nat \<Rightarrow> (nat \<Rightarrow> nat \<Rightarrow> gf) \<Rightarrow> nat set \<Rightarrow> (nat \<Rightarrow> nat) \<Rightarrow> (nat \<Rightarrow> nat \<Rightarrow> gf) \<Rightarrow> bool" where
  "exch k M S p A \<longleftrightarrow> (\<forall>x b. (\<forall>i < k. b i = (\<Sum>j<k. M i j * x j)) \<longleftrightarrow>
     (\<forall>i < k. (if i \<in> S then x i else b (p i)) = (\<Sum>j<k. A i j * (if j \<in> S then b (p j) else x j))))"

definition pivot_step :: "nat \<Rightarrow> (nat \<Rightarrow> nat \<Rightarrow> gf) \<Rightarrow> nat \<Rightarrow> nat \<Rightarrow> gf" where
  "pivot_step c A i j =
     (let r = (if j = c then 1 else A c j) / A c c
      in if i = c then r else (if j = c then 0 else A i j) + A i c * r)"

lemma exch_init: "exch k M {} id M"
  by (simp add: exch_def)

lemma exch_swap:
  assumes "exch k M S p A" and "r < k" "c < k" and "r \<notin> S" "c \<notin> S"
  shows "exch k M S (p \<circ> sw r c) (\<lambda>i. A (sw r c i))"
  unfolding exch_def
proof (intro allI)
  fix x b
  let ?Q = "\<lambda>i. (if i \<in> S then x i else b (p i)) = (\<Sum>j<k. A i j * (if j \<in> S then b (p j) else x j))"
  have "(if i \<in> S then x i else b ((p \<circ> sw r c) i))
        = (\<Sum>j<k. A (sw r c i) j * (if j \<in> S then b ((p \<circ> sw r c) j) else x j)) \<longleftrightarrow> ?Q (sw r c i)" for i
  proof -
    have "(if j \<in> S then b ((p \<circ> sw r c) j) else x j) = (if j \<in> S then b (p j) else x j)" for j
      using assms by (simp add: sw_out)
    moreover have "(if i \<in> S then x i else b ((p \<circ> sw r c) i))
        = (if sw r c i \<in> S then x (sw r c i) else b (p (sw r c i)))"
      using assms by (simp add: sw_mem sw_out)
    ultimately show ?thesis by simp
  qed
  then have "(\<forall>i<k. (if i \<in> S then x i else b ((p \<circ> sw r c) i))
        = (\<Sum>j<k. A (sw r c i) j * (if j \<in> S then b ((p \<circ> sw r c) j) else x j))) \<longleftrightarrow> (\<forall>i<k. ?Q i)"
    using all_sw [OF assms(2,3), of ?Q] by simp
  with assms(1) show "(\<forall>i<k. b i = (\<Sum>j<k. M i j * x j)) \<longleftrightarrow>
      (\<forall>i<k. (if i \<in> S then x i else b ((p \<circ> sw r c) i))
        = (\<Sum>j<k. A (sw r c i) j * (if j \<in> S then b ((p \<circ> sw r c) j) else x j)))"
    by (simp add: exch_def)
qed

lemma pivot_core:
  assumes c: "c < k" and nz: "A c c \<noteq> 0"
  shows "(\<forall>i<k. L i = (\<Sum>j<k. A i j * R j)) \<longleftrightarrow>
    (\<forall>i<k. (L(c := R c)) i = (\<Sum>j<k. pivot_step c A i j * (R(c := L c)) j))"
proof -
  let ?J = "{..<k} - {c}"
  define t where "t i = (\<Sum>j\<in>?J. A i j * R j)" for i
  have old: "(\<Sum>j<k. A i j * R j) = A i c * R c + t i" for i
    using c by (simp add: t_def sum.remove [of "{..<k}" c])
  have piv: "(\<Sum>j<k. pivot_step c A c j * (R(c := L c)) j) = (L c + t c) / A c c"
  proof -
    have "(\<Sum>j\<in>?J. pivot_step c A c j * (R(c := L c)) j) = t c / A c c"
      by (simp add: t_def pivot_step_def sum_divide_distrib)
    then show ?thesis using c
      by (simp add: sum.remove [of "{..<k}" c] pivot_step_def add_divide_distrib)
  qed
  have other: "(\<Sum>j<k. pivot_step c A i j * (R(c := L c)) j) = t i + A i c * ((L c + t c) / A c c)"
    if "i \<noteq> c" for i
  proof -
    have "(\<Sum>j\<in>?J. pivot_step c A i j * (R(c := L c)) j)
        = (\<Sum>j\<in>?J. A i j * R j + A i c * (A c j * R j / A c c))"
      using that by (intro sum.cong refl) (simp add: pivot_step_def distrib_right)
    also have "\<dots> = t i + A i c * (t c / A c c)"
      by (simp add: t_def sum.distrib sum_divide_distrib sum_distrib_left)
    finally show ?thesis using c that
      by (simp add: sum.remove [of "{..<k}" c] pivot_step_def add_divide_distrib distrib_left ac_simps)
  qed
  have eqc: "L c = A c c * R c + t c \<longleftrightarrow> R c = (L c + t c) / A c c"
  proof
    assume "L c = A c c * R c + t c"
    then have "L c + t c = A c c * R c" by simp
    with nz show "R c = (L c + t c) / A c c" by simp
  next
    assume "R c = (L c + t c) / A c c"
    with nz have "A c c * R c = L c + t c" by simp
    then show "L c = A c c * R c + t c" by simp
  qed
  show ?thesis
  proof
    assume h: "\<forall>i<k. L i = (\<Sum>j<k. A i j * R j)"
    then have rc: "R c = (L c + t c) / A c c" using c eqc by (simp add: old)
    show "\<forall>i<k. (L(c := R c)) i = (\<Sum>j<k. pivot_step c A i j * (R(c := L c)) j)"
    proof (intro allI impI)
      fix i assume "i < k"
      show "(L(c := R c)) i = (\<Sum>j<k. pivot_step c A i j * (R(c := L c)) j)"
      proof (cases "i = c")
        case True
        then show ?thesis using piv rc by (simp only: fun_upd_same)
      next
        case False
        have "L i = A i c * R c + t i" using h \<open>i < k\<close> old by metis
        then show ?thesis using other [OF False] rc False
          by (simp only: fun_upd_apply if_False add.commute)
      qed
    qed
  next
    assume h: "\<forall>i<k. (L(c := R c)) i = (\<Sum>j<k. pivot_step c A i j * (R(c := L c)) j)"
    then have rc: "R c = (L c + t c) / A c c" using c piv by (metis fun_upd_same)
    have "L i = A i c * R c + t i" if "i < k" for i
    proof (cases "i = c")
      case True
      then show ?thesis using rc eqc by simp
    next
      case False
      then have "L i = t i + A i c * ((L c + t c) / A c c)" using h that other [OF False] by (metis fun_upd_other)
      then show ?thesis by (simp only: rc [symmetric] add.commute)
    qed
    then show "\<forall>i<k. L i = (\<Sum>j<k. A i j * R j)" by (simp add: old)
  qed
qed

lemma exch_pivot:
  assumes e: "exch k M S p A" and c: "c < k" "c \<notin> S" and nz: "A c c \<noteq> 0"
  shows "exch k M (insert c S) p (pivot_step c A)"
  unfolding exch_def
proof (intro allI)
  fix x b :: "nat \<Rightarrow> gf"
  let ?L = "\<lambda>i. if i \<in> S then x i else b (p i)" and ?R = "\<lambda>j. if j \<in> S then b (p j) else x j"
  have l: "(if i \<in> insert c S then x i else b (p i)) = (?L(c := ?R c)) i"
    and r: "(if i \<in> insert c S then b (p i) else x i) = (?R(c := ?L c)) i" for i
    using c by auto
  have "(\<forall>i<k. b i = (\<Sum>j<k. M i j * x j)) \<longleftrightarrow> (\<forall>i<k. ?L i = (\<Sum>j<k. A i j * ?R j))"
    using e unfolding exch_def by blast
  then show "(\<forall>i<k. b i = (\<Sum>j<k. M i j * x j)) \<longleftrightarrow>
      (\<forall>i<k. (if i \<in> insert c S then x i else b (p i))
        = (\<Sum>j<k. pivot_step c A i j * (if j \<in> insert c S then b (p j) else x j)))"
    unfolding l r pivot_core [of c k A ?L ?R, OF c(1) nz] .
qed

definition invertible :: "nat \<Rightarrow> (nat \<Rightarrow> nat \<Rightarrow> gf) \<Rightarrow> bool" where
  \<comment> \<open>the homogeneous system has only the zero solution\<close>
  "invertible k M \<longleftrightarrow> (\<forall>x. (\<forall>i<k. (\<Sum>j<k. M i j * x j) = 0) \<longrightarrow> (\<forall>j<k. x j = 0))"

lemma exch_pivot_exists:
  assumes e: "exch k M S p A" and inv: "invertible k M" and p: "\<forall>i<k. \<forall>j<k. p i = p j \<longrightarrow> i = j"
    and new: "c0 < k" "c0 \<notin> S"
  shows "\<exists>r < k. \<exists>c < k. r \<notin> S \<and> c \<notin> S \<and> A r c \<noteq> 0"
proof (rule ccontr)
  assume none: "\<not> ?thesis"
  define x where "x j = (if j \<in> S then (\<Sum>i \<in> {..<k} - S. A j i) else 1)" for j
  define b where "b = (\<lambda>i::nat. 0 :: gf)"
  have "(if i \<in> S then x i else b (p i)) = (\<Sum>j<k. A i j * (if j \<in> S then b (p j) else x j))"
    if "i < k" for i
  proof -
    have "(\<Sum>j<k. A i j * (if j \<in> S then b (p j) else x j)) = (\<Sum>j \<in> {..<k} - S. A i j)"
      by (rule sum.mono_neutral_cong_right) (auto simp: b_def x_def)
    also have "\<dots> = (if i \<in> S then x i else b (p i))"
      using none that by (auto simp: x_def b_def intro: sum.neutral)
    finally show ?thesis ..
  qed
  then have "\<forall>i<k. b i = (\<Sum>j<k. M i j * x j)" using e by (simp add: exch_def)
  then have "x c0 = 0" using inv new by (simp add: invertible_def b_def)
  with new show False by (simp add: x_def)
qed
subsection \<open>Entries of the array\<close>

definition ent :: "nat \<Rightarrow> byte list \<Rightarrow> nat \<Rightarrow> nat \<Rightarrow> gf" where
  "ent k src i j = Gf (src ! (i * k + j))"

lemma idx_less:
  assumes "i < k" and "j < k"
  shows "i * k + j < k * (k::nat)"
proof -
  have "i * k + j < Suc i * k" using assms by simp
  also have "\<dots> \<le> k * k" using assms by (intro mult_le_mono) auto
  finally show ?thesis .
qed

lemma idx_eq: "j < k \<Longrightarrow> j' < k \<Longrightarrow> i * k + j = i' * k + j' \<longleftrightarrow> i = i' \<and> j = (j'::nat)"
proof
  assume "j < k" "j' < k" and e: "i * k + j = i' * k + j'"
  then have "(i * k + j) div k = (i' * k + j') div k" "(i * k + j) mod k = (i' * k + j') mod k" by simp_all
  with \<open>j < k\<close> \<open>j' < k\<close> show "i = i' \<and> j = j'" by simp
qed simp

lemma get_row_nth [simp]:
  assumes "i < k" and "length src = k * k"
  shows "length (get_row src k i) = k" and "j < k \<Longrightarrow> get_row src k i ! j = src ! (i * k + j)"
proof -
  have "i * k + k \<le> k * k" using mult_le_mono1 [of "Suc i" k k] assms(1) by simp
  then have "i * k \<le> length src" "i * k + k \<le> length src" unfolding assms(2) by linarith+
  then show "length (get_row src k i) = k" and "j < k \<Longrightarrow> get_row src k i ! j = src ! (i * k + j)"
    by (simp_all add: get_row_def nth_drop)
qed

lemma put_row_nth:
  assumes "i < k" and "length src = k * k" and "length r = k"
  shows "length (put_row src k i r) = k * k
    \<and> (\<forall>i' j. i' < k \<longrightarrow> j < k \<longrightarrow>
        put_row src k i r ! (i' * k + j) = (if i' = i then r ! j else src ! (i' * k + j)))"
proof -
  have le: "i * k + k \<le> k * k" using mult_le_mono1 [of "Suc i" k k] assms(1) by simp
  have "put_row src k i r ! (i' * k + j) = (if i' = i then r ! j else src ! (i' * k + j))"
    if "i' < k" "j < k" for i' j
  proof -
    consider "i' < i" | "i' = i" | "i < i'" by linarith
    then show ?thesis
    proof cases
      case 1
      then have "i' * k + j < i * k" using mult_le_mono1 [of "Suc i'" i k] that by simp
      then show ?thesis using 1 le assms by (simp add: put_row_def nth_append)
    next
      case 2
      then show ?thesis using that le assms by (simp add: put_row_def nth_append)
    next
      case 3
      then have "i * k + k \<le> i' * k" using mult_le_mono1 [of "Suc i" i' k] by simp
      then obtain d where d: "i' * k + j = (i * k + k) + d" using that by (metis le_add1 le_trans le_iff_add)
      show ?thesis unfolding d using 3 le assms idx_less [OF that] by (simp add: put_row_def nth_append d)
    qed
  qed
  then show ?thesis using le assms by (simp add: put_row_def)
qed

lemma SWAP_nth:
  assumes "a < length xs" and "b < length xs"
  shows "length (SWAP a b xs) = length xs \<and> SWAP a b xs ! i = xs ! sw a b i"
  using assms by (auto simp: SWAP_def sw_def nth_list_update)

lemma swap_rows_nth:
  assumes "r < k" "c < k" and "length src = k * k"
  shows "length (swap_rows k r c src) = k * k
    \<and> (\<forall>i < k. \<forall>j < k. swap_rows k r c src ! (i * k + j) = src ! (sw r c i * k + j))"
proof -
  let ?P = "\<lambda>n s. length s = k * k \<and> (\<forall>i < k. \<forall>j < k. s ! (i * k + j)
      = src ! ((if j < n then sw r c i else i) * k + j))"
  have "?P k (swap_rows k r c src)"
    unfolding swap_rows_def
  proof (rule fold_upt_inv [where P = ?P])
    fix n s assume n: "n < k" and P: "?P n s"
    have lt: "r * k + n < length s" "c * k + n < length s"
      using P assms n by (simp_all add: idx_less)
    have "SWAP (r * k + n) (c * k + n) s ! (i * k + j)
        = src ! ((if j < Suc n then sw r c i else i) * k + j)" if ij: "i < k" "j < k" for i j
    proof (cases "j = n")
      case True
      then have "sw (r * k + n) (c * k + n) (i * k + j) = sw r c i * k + j"
        using n by (auto simp: sw_def idx_eq)
      then show ?thesis using SWAP_nth [OF lt] P True ij assms(1,2) by (simp add: sw_less)
    next
      case False
      then have "sw (r * k + n) (c * k + n) (i * k + j) = i * k + j"
        using n ij by (auto simp: sw_def idx_eq)
      then show ?thesis using SWAP_nth [OF lt] P False ij by (auto simp: less_Suc_eq)
    qed
    then show "?P (Suc n) (SWAP (r * k + n) (c * k + n) s)" using SWAP_nth [OF lt] P by simp
  qed (use assms in auto)
  then show ?thesis by simp
qed

lemma scale_row_nth:
  assumes "c < k" and "length src = k * k"
  shows "length (scale_row T k c v src) = k * k
    \<and> (\<forall>i < k. \<forall>j < k. scale_row T k c v src ! (i * k + j)
        = (if i = c then gf_mul T (inverse_tab T ! unat v) (if j = c then 1 else src ! (c * k + j))
           else src ! (i * k + j)))"
proof -
  let ?w = "inverse_tab T ! unat v" and ?s1 = "src[c * k + c := 1]"
  let ?P = "\<lambda>n s. length s = k * k \<and> (\<forall>i < k. \<forall>j < k. s ! (i * k + j)
      = (if i = c \<and> j < n then gf_mul T ?w (?s1 ! (i * k + j)) else ?s1 ! (i * k + j)))"
  have "?P k (scale_row T k c v src)"
    unfolding scale_row_def Let_def
  proof (rule fold_upt_inv [where P = ?P])
    fix n s assume n: "n < k" and P: "?P n s"
    have "s[c * k + n := gf_mul T ?w (s ! (c * k + n))] ! (i * k + j)
       = (if i = c \<and> j < Suc n then gf_mul T ?w (?s1 ! (i * k + j)) else ?s1 ! (i * k + j))"
      if "i < k" "j < k" for i j
    proof (cases "i = c \<and> j = n")
      case True
      then show ?thesis using P n assms by (simp add: idx_less)
    next
      case False
      then have "c * k + n \<noteq> i * k + j" using n that idx_eq [of n k j c i] by auto
      then show ?thesis using P False that by auto
    qed
    then show "?P (Suc n) (s[c * k + n := gf_mul T ?w (s ! (c * k + n))])" using P by simp
  qed (use assms in auto)
  moreover have "?s1 ! (i * k + j) = (if i = c \<and> j = c then 1 else src ! (i * k + j))"
    if "i < k" "j < k" for i j
    using that assms idx_eq [of c k j c i] by (auto simp: idx_less nth_list_update)
  ultimately show ?thesis by simp
qed

lemma addmul_nth:
  assumes "gf_arith T" and "sz \<le> length dst"
  shows "length (addmul T dst src c sz) = length dst
    \<and> (\<forall>i < length dst. Gf (addmul T dst src c sz ! i)
         = Gf (dst ! i) + (if i < sz then Gf c * Gf (src ! i) else 0))"
  using slow_addmul1_nth [OF assms(2)] by (simp add: addmul_def Gf_xor gf_arith.Gf_mul [OF assms(1)])

lemma eliminate_rows_nth:
  assumes T: "gf_arith T" and c: "c < k" and len: "length src = k * k"
  shows "length (eliminate_rows T k c src) = k * k
    \<and> (\<forall>i < k. \<forall>j < k. ent k (eliminate_rows T k c src) i j
        = (if i = c then ent k src i j
           else (if j = c then 0 else ent k src i j) + ent k src i c * ent k src c j))"
proof -
  let ?P = "\<lambda>n s. length s = k * k \<and> (\<forall>i < k. \<forall>j < k. ent k s i j
      = (if i = c \<or> n \<le> i then ent k src i j
         else (if j = c then 0 else ent k src i j) + ent k src i c * ent k src c j))"
  let ?f = "\<lambda>ix src. if ix \<noteq> c then
         let p = get_row src k ix; v = p ! c; p = p[c := 0]
         in put_row src k ix (addmul T p (get_row src k c) v k)
       else src"
  have "?P k (eliminate_rows T k c src)"
    unfolding eliminate_rows_def
  proof (rule fold_upt_inv [where P = ?P])
    fix n s assume n: "n < k" and P: "?P n s"
    then have len_s: "length s = k * k" by simp
    show "?P (Suc n) (?f n s)"
    proof (cases "n = c")
      case True
      then show ?thesis using P by (simp add: le_less_Suc_eq Suc_le_eq order_le_less)
    next
      case False
      let ?r = "addmul T ((get_row s k n)[c := 0]) (get_row s k c) (get_row s k n ! c) k"
      have r: "length ?r = k \<and> (\<forall>j<k. Gf (?r ! j)
          = (if j = c then 0 else ent k s n j) + ent k s n c * ent k s c j)"
        using addmul_nth [OF T, of k "(get_row s k n)[c := 0]" "get_row s k c" "get_row s k n ! c"]
          n c len_s by (auto simp: ent_def)
      have e: "ent k (?f n s) i j = (if i = n then Gf (?r ! j) else ent k s i j)"
        if "i < k" "j < k" for i j
        using put_row_nth [OF n len_s conjunct1 [OF r]] False that by (simp add: ent_def Let_def)
      have "length (?f n s) = k * k"
        using put_row_nth [OF n len_s conjunct1 [OF r]] False by (simp add: Let_def)
      moreover have "ent k (?f n s) i j = (if i = c \<or> Suc n \<le> i then ent k src i j
         else (if j = c then 0 else ent k src i j) + ent k src i c * ent k src c j)"
        if ij: "i < k" "j < k" for i j
      proof (cases "i = n")
        case True
        then show ?thesis using e [OF ij] r P False ij n c by simp
      next
        case i: False
        then have "Suc n \<le> i \<longleftrightarrow> n \<le> i" by linarith
        then show ?thesis using e [OF ij] P i ij by simp
      qed
      ultimately show ?thesis by blast
    qed
  qed (use len in auto)
  then show ?thesis by simp
qed

subsection \<open>The pivot search\<close>

lemma search_ix_spec:
  assumes "\<forall>i \<in> set ixs. pv ! i \<le> 1"
  shows "case search_ix src k pv row ixs of
      Found r c \<Rightarrow> r = row \<and> c \<in> set ixs \<and> pv ! c = 0 \<and> src ! (row * k + c) \<noteq> 0
    | Singular \<Rightarrow> False
    | NotFound \<Rightarrow> \<forall>c \<in> set ixs. pv ! c = 0 \<longrightarrow> src ! (row * k + c) = 0"
  using assms by (induction ixs) (auto split: pivot.splits)

lemma search_row_spec:
  assumes "\<forall>i<k. pv ! i \<le> 1"
  shows "case search_row src k pv rows of
      Found r c \<Rightarrow> r \<in> set rows \<and> c < k \<and> pv ! r \<noteq> 1 \<and> pv ! c = 0 \<and> src ! (r * k + c) \<noteq> 0
    | Singular \<Rightarrow> False
    | NotFound \<Rightarrow> \<forall>r \<in> set rows. \<forall>c < k. pv ! r \<noteq> 1 \<longrightarrow> pv ! c = 0 \<longrightarrow> src ! (r * k + c) = 0"
proof (induction rows)
  case (Cons row rows)
  have "\<forall>i \<in> set [0..<k]. pv ! i \<le> 1" using assms by simp
  from search_ix_spec [OF this, where src = src and k = k and row = row] Cons show ?case
    by (cases "search_ix src k pv row [0..<k]") (auto split: pivot.splits)
qed simp

lemma find_pivot_spec:
  assumes "\<forall>i<k. pv ! i \<le> 1" and "col < k"
  shows "case find_pivot src k pv col of
      Found r c \<Rightarrow> r < k \<and> c < k \<and> pv ! r = 0 \<and> pv ! c = 0 \<and> src ! (r * k + c) \<noteq> 0
    | Singular \<Rightarrow> False
    | NotFound \<Rightarrow> \<forall>r < k. \<forall>c < k. pv ! r = 0 \<longrightarrow> pv ! c = 0 \<longrightarrow> src ! (r * k + c) = 0"
proof -
  have zero: "pv ! i \<noteq> Suc 0 \<longleftrightarrow> pv ! i = 0" if "i < k" for i
    using assms(1) that by fastforce
  show ?thesis
    using search_row_spec [OF assms(1), where src = src and rows = "[0..<k]"] assms(2)
    by (auto simp: find_pivot_def zero split: pivot.splits)
qed

subsection \<open>One round\<close>

lemma exch_cong:
  assumes "\<And>i j. i < k \<Longrightarrow> j < k \<Longrightarrow> A i j = B i j"
  shows "exch k M S p A = exch k M S p B"
proof -
  have "(\<Sum>j<k. A i j * y j) = (\<Sum>j<k. B i j * y j)" if "i < k" for i and y :: "nat \<Rightarrow> gf"
    using assms that by (intro sum.cong) auto
  then have "(\<forall>i<k. l i = (\<Sum>j<k. A i j * y j)) = (\<forall>i<k. l i = (\<Sum>j<k. B i j * y j))"
    for l y :: "nat \<Rightarrow> gf" by simp
  then show ?thesis unfolding exch_def by (intro all_cong1) simp
qed

definition scaled :: "gf_tables \<Rightarrow> nat \<Rightarrow> nat \<Rightarrow> byte list \<Rightarrow> byte list" where
  "scaled T k c src = (let v = src ! (c * k + c) in if v \<noteq> 1 then scale_row T k c v src else src)"

definition eliminated :: "gf_tables \<Rightarrow> nat \<Rightarrow> nat \<Rightarrow> byte list \<Rightarrow> byte list" where
  "eliminated T k c src =
     (if get_row src k c \<noteq> (replicate k 0)[c := 1] then eliminate_rows T k c src else src)"

lemma scaled_ent:
  assumes T: "gf_arith T" and c: "c < k" and len: "length src = k * k" and nz: "ent k src c c \<noteq> 0"
  shows "length (scaled T k c src) = k * k
    \<and> (\<forall>i < k. \<forall>j < k. ent k (scaled T k c src) i j
       = (if i = c then (if j = c then 1 else ent k src c j) / ent k src c c else ent k src i j))"
proof (cases "src ! (c * k + c) = 1")
  case True
  then have "ent k src c c = 1" by (simp add: ent_def Gf_1)
  then show ?thesis using True len by (auto simp: scaled_def)
next
  case False
  then show ?thesis using scale_row_nth [OF c len, of T "src ! (c * k + c)"]
    by (auto simp: scaled_def Let_def ent_def gf_arith.Gf_mul [OF T] gf_arith.Gf_inverse [OF T]
        divide_inverse mult.commute Gf_1)
qed

lemma eliminated_ent:
  assumes T: "gf_arith T" and c: "c < k" and len: "length src = k * k"
  shows "length (eliminated T k c src) = k * k
    \<and> (\<forall>i < k. \<forall>j < k. ent k (eliminated T k c src) i j
        = (if i = c then ent k src i j
           else (if j = c then 0 else ent k src i j) + ent k src i c * ent k src c j))"
proof (cases "get_row src k c = (replicate k 0)[c := 1]")
  case True
  have unit: "ent k src c j = (if j = c then 1 else 0)" if "j < k" for j
  proof -
    have "src ! (c * k + j) = (replicate k 0)[c := 1] ! j" using True get_row_nth(2) [OF c len that] by simp
    then show ?thesis using that by (simp add: ent_def nth_list_update Gf_1 Gf_0)
  qed
  then show ?thesis using True len c by (auto simp: eliminated_def unit)
next
  case False
  then show ?thesis using eliminate_rows_nth [OF T c len] by (simp add: eliminated_def)
qed

lemma round_ent:
  assumes T: "gf_arith T" and rc: "r < k" "c < k" and len: "length src = k * k"
    and nz: "ent k src r c \<noteq> 0"
    and s1: "s1 = (if r \<noteq> c then swap_rows k r c src else src)"
  shows "length (eliminated T k c (scaled T k c s1)) = k * k
    \<and> ent k s1 c c \<noteq> 0
    \<and> (\<forall>i < k. \<forall>j < k. ent k (eliminated T k c (scaled T k c s1)) i j
        = pivot_step c (\<lambda>i. ent k src (sw r c i)) i j)"
proof -
  have len1: "length s1 = k * k" and e1: "\<forall>i < k. \<forall>j < k. ent k s1 i j = ent k src (sw r c i) j"
    using swap_rows_nth [OF rc len] len by (auto simp: s1 ent_def)
  have nz1: "ent k s1 c c \<noteq> 0" using e1 rc nz by (auto simp: sw_def)
  note sc = scaled_ent [OF T rc(2) len1 nz1]
  note el = eliminated_ent [OF T rc(2) conjunct1 [OF sc]]
  have "ent k (eliminated T k c (scaled T k c s1)) i j
      = pivot_step c (\<lambda>i. ent k src (sw r c i)) i j" if "i < k" "j < k" for i j
    using el sc e1 that rc(2) by (simp add: pivot_step_def Let_def)
  with el nz1 show ?thesis by blast
qed

lemma invert_round_eq:
  "invert_round T k col st =
     (case find_pivot (isrc st) k (ipiv st) col of
        Found r c \<Rightarrow>
          let s1 = (if r \<noteq> c then swap_rows k r c (isrc st) else isrc st)
          in if s1 ! (c * k + c) = 0 then None
             else Some \<lparr>isrc = eliminated T k c (scaled T k c s1), ipiv = (ipiv st)[c := ipiv st ! c + 1],
                        indxr = (indxr st)[col := r], indxc = (indxc st)[col := c]\<rparr>
      | _ \<Rightarrow> None)"
  by (simp add: invert_round_def eliminated_def scaled_def Let_def split: pivot.split)

subsection \<open>The invariant of the rounds\<close>

definition exchanges :: "nat list \<Rightarrow> nat list \<Rightarrow> nat \<Rightarrow> nat \<Rightarrow> nat" where
  "exchanges rs cs t = fold (\<lambda>u p. p \<circ> sw (rs ! u) (cs ! u)) [0..<t] id"

definition pivoted :: "nat \<Rightarrow> nat list \<Rightarrow> nat set" where
  "pivoted k pv = {i. i < k \<and> pv ! i = 1}"

definition round_inv :: "nat \<Rightarrow> (nat \<Rightarrow> nat \<Rightarrow> gf) \<Rightarrow> nat \<Rightarrow> inv_state \<Rightarrow> bool" where
  "round_inv k M t st \<longleftrightarrow> length (isrc st) = k * k \<and> length (ipiv st) = k
     \<and> length (indxr st) = k \<and> length (indxc st) = k
     \<and> (\<forall>i < k. ipiv st ! i \<le> 1) \<and> card (pivoted k (ipiv st)) = t
     \<and> (\<forall>u < t. indxr st ! u < k \<and> indxc st ! u < k)
     \<and> exch k M (pivoted k (ipiv st)) (exchanges (indxr st) (indxc st) t) (ent k (isrc st))"

lemma exchanges_Suc: "exchanges rs cs (Suc t) = exchanges rs cs t \<circ> sw (rs ! t) (cs ! t)"
  by (simp add: exchanges_def)

lemma exchanges_cong:
  assumes "\<And>u. u < t \<Longrightarrow> rs ! u = rs' ! u \<and> cs ! u = cs' ! u"
  shows "exchanges rs cs t = exchanges rs' cs' t"
  using assms by (induction t) (simp_all add: exchanges_Suc exchanges_def)

lemma exchanges_inj:
  assumes "\<forall>u < t. rs ! u < k \<and> cs ! u < k"
  shows "\<forall>i<k. \<forall>j<k. exchanges rs cs t i = exchanges rs cs t j \<longrightarrow> i = j"
  using assms
proof (induction t)
  case (Suc t)
  then have ih: "i < k \<Longrightarrow> j < k \<Longrightarrow> exchanges rs cs t i = exchanges rs cs t j \<Longrightarrow> i = j" for i j
    by simp
  have lt: "rs ! t < k" "cs ! t < k" using Suc.prems by auto
  show ?case
  proof (intro allI impI)
    fix i j assume ij: "i < k" "j < k" and "exchanges rs cs (Suc t) i = exchanges rs cs (Suc t) j"
    then have "sw (rs ! t) (cs ! t) i = sw (rs ! t) (cs ! t) j"
      using ih sw_less [OF lt] by (simp add: exchanges_Suc)
    then show "i = j" by (metis sw_sw)
  qed
qed (simp add: exchanges_def)

lemma round_inv_init:
  assumes "length src = k * k"
  shows "round_inv k (ent k src) 0
    \<lparr>isrc = src, ipiv = replicate k 0, indxr = replicate k 0, indxc = replicate k 0\<rparr>"
proof -
  have "pivoted k (replicate k 0) = {}" by (auto simp: pivoted_def)
  then show ?thesis using assms by (simp add: round_inv_def exchanges_def exch_init)
qed

lemma pivoted_update:
  assumes "c < k" and "length pv = k" and "pv ! c = 0"
  shows "pivoted k (pv[c := pv ! c + 1]) = insert c (pivoted k pv)" and "c \<notin> pivoted k pv"
  using assms by (auto simp: pivoted_def nth_list_update split: if_splits)

lemma round_inv_step:
  assumes T: "gf_arith T" and inv: "round_inv k M col st" and col: "col < k"
    and some: "invert_round T k col st = Some st'"
  shows "round_inv k M (Suc col) st'"
proof -
  have len: "length (isrc st) = k * k" "length (ipiv st) = k" "length (indxr st) = k" "length (indxc st) = k"
    and le1: "\<forall>i<k. ipiv st ! i \<le> 1" and card: "card (pivoted k (ipiv st)) = col"
    and ix: "\<forall>u < col. indxr st ! u < k \<and> indxc st ! u < k"
    and ex: "exch k M (pivoted k (ipiv st)) (exchanges (indxr st) (indxc st) col) (ent k (isrc st))"
    using inv by (auto simp: round_inv_def)
  obtain r c where fp: "find_pivot (isrc st) k (ipiv st) col = Found r c"
    using some by (auto simp: invert_round_eq split: pivot.splits)
  with find_pivot_spec [OF le1 col, of "isrc st"] have rc: "r < k" "c < k" "ipiv st ! r = 0" "ipiv st ! c = 0"
    and nz: "ent k (isrc st) r c \<noteq> 0" by (auto simp: ent_def Gf_eq_0)
  define s1 where "s1 = (if r \<noteq> c then swap_rows k r c (isrc st) else isrc st)"
  note re = round_ent [OF T rc(1,2) len(1) nz s1_def]
  have st': "st' = \<lparr>isrc = eliminated T k c (scaled T k c s1), ipiv = (ipiv st)[c := ipiv st ! c + 1],
                        indxr = (indxr st)[col := r], indxc = (indxc st)[col := c]\<rparr>"
    using some fp re by (auto simp: invert_round_eq s1_def Let_def split: if_splits)
  note piv = pivoted_update [OF rc(2) len(2) rc(4)]
  have notin: "r \<notin> pivoted k (ipiv st)" "c \<notin> pivoted k (ipiv st)" using rc by (auto simp: pivoted_def)
  have same: "exchanges (indxr st') (indxc st') (Suc col) = exchanges (indxr st) (indxc st) col \<circ> sw r c"
    using len col exchanges_cong [of col "indxr st'" "indxr st" "indxc st'" "indxc st"]
    by (simp add: st' exchanges_Suc)
  have "exch k M (insert c (pivoted k (ipiv st))) (exchanges (indxr st) (indxc st) col \<circ> sw r c)
      (pivot_step c (\<lambda>i. ent k (isrc st) (sw r c i)))"
    using nz rc notin by (intro exch_pivot exch_swap [OF ex]) (auto simp: sw_def)
  then have ex': "exch k M (pivoted k (ipiv st')) (exchanges (indxr st') (indxc st') (Suc col)) (ent k (isrc st'))"
    unfolding same using piv re exch_cong [of k "ent k (isrc st')" "pivot_step c (\<lambda>i. ent k (isrc st) (sw r c i))"]
    by (simp add: st')
  have "card (pivoted k (ipiv st')) = Suc col"
    using piv card by (simp add: st' pivoted_def)
  then show ?thesis
    unfolding round_inv_def using ex' re len le1 ix rc col
    by (simp add: st' nth_list_update less_Suc_eq)
qed

lemma round_succeeds:
  assumes T: "gf_arith T" and inv: "round_inv k M col st" and col: "col < k" and M: "invertible k M"
  shows "invert_round T k col st \<noteq> None"
proof -
  have len: "length (isrc st) = k * k" and le1: "\<forall>i<k. ipiv st ! i \<le> 1"
    and card: "card (pivoted k (ipiv st)) = col" and ix: "\<forall>u < col. indxr st ! u < k \<and> indxc st ! u < k"
    and ex: "exch k M (pivoted k (ipiv st)) (exchanges (indxr st) (indxc st) col) (ent k (isrc st))"
    using inv by (auto simp: round_inv_def)
  have zero: "i \<notin> pivoted k (ipiv st) \<longleftrightarrow> ipiv st ! i = 0" if "i < k" for i
    using le1 that by (fastforce simp: pivoted_def)
  have "pivoted k (ipiv st) \<noteq> {..<k}" using card col by (metis card_lessThan less_irrefl)
  then obtain c0 where "c0 < k" "c0 \<notin> pivoted k (ipiv st)" by (auto simp: pivoted_def)
  from exch_pivot_exists [OF ex M exchanges_inj [OF ix] this]
  obtain r c where "r < k" "c < k" "ipiv st ! r = 0" "ipiv st ! c = 0" "isrc st ! (r * k + c) \<noteq> 0"
    using zero by (auto simp: ent_def Gf_eq_0)
  note found = this
  obtain r' c' where fp: "find_pivot (isrc st) k (ipiv st) col = Found r' c'"
  proof (cases "find_pivot (isrc st) k (ipiv st) col")
    case NotFound
    then have "\<forall>r<k. \<forall>c<k. ipiv st ! r = 0 \<longrightarrow> ipiv st ! c = 0 \<longrightarrow> isrc st ! (r * k + c) = 0"
      using find_pivot_spec [OF le1 col, of "isrc st"] by (simp only: pivot.case)
    then show ?thesis using found by blast
  next
    case Singular
    then show ?thesis using find_pivot_spec [OF le1 col, of "isrc st"] by (simp only: pivot.case)
  qed
  with find_pivot_spec [OF le1 col, of "isrc st"] have rc: "r' < k" "c' < k"
    and nz: "ent k (isrc st) r' c' \<noteq> 0" by (auto simp: ent_def Gf_eq_0)
  from round_ent [OF T rc len nz refl] show ?thesis
    by (auto simp: invert_round_eq fp Let_def ent_def Gf_eq_0)
qed

lemma rounds:
  assumes T: "gf_arith T" and len: "length src = k * k" and "t \<le> k"
    and r: "r = fold (\<lambda>col r. Option.bind r (invert_round T k col)) [0..<t]
             (Some \<lparr>isrc = src, ipiv = replicate k 0, indxr = replicate k 0, indxc = replicate k 0\<rparr>)"
  shows "(\<forall>st. r = Some st \<longrightarrow> round_inv k (ent k src) t st) \<and> (invertible k (ent k src) \<longrightarrow> r \<noteq> None)"
  using assms(3) unfolding r
proof (induction t)
  case 0
  then show ?case using round_inv_init [OF len] by simp
next
  case (Suc t)
  let ?r = "fold (\<lambda>col r. Option.bind r (invert_round T k col)) [0..<t]
             (Some \<lparr>isrc = src, ipiv = replicate k 0, indxr = replicate k 0, indxc = replicate k 0\<rparr>)"
  have "t < k" using Suc.prems by simp
  show ?case
  proof (cases ?r)
    case None
    then show ?thesis using Suc by simp
  next
    case (Some st)
    then have "round_inv k (ent k src) t st" using Suc by simp
    with Some show ?thesis
      using round_inv_step [OF T _ \<open>t < k\<close>] round_succeeds [OF T _ \<open>t < k\<close>] by simp
  qed
qed

subsection \<open>The columns exchanged back\<close>

definition solves :: "nat \<Rightarrow> (nat \<Rightarrow> nat \<Rightarrow> gf) \<Rightarrow> (nat \<Rightarrow> nat) \<Rightarrow> (nat \<Rightarrow> nat \<Rightarrow> gf) \<Rightarrow> bool" where
  \<comment> \<open>\<open>A\<close> with its columns permuted by \<open>p\<close> is the inverse of \<open>M\<close>\<close>
  "solves k M p A \<longleftrightarrow> (\<forall>x b. (\<forall>i<k. b i = (\<Sum>j<k. M i j * x j)) \<longleftrightarrow>
     (\<forall>i<k. x i = (\<Sum>j<k. A i j * b (p j))))"

lemma swap_cols_nth:
  assumes "a < k" "b < k" and "length src = k * k"
  shows "length (fold (\<lambda>row src. SWAP (row * k + a) (row * k + b) src) [0..<k] src) = k * k
    \<and> (\<forall>i < k. \<forall>j < k. fold (\<lambda>row src. SWAP (row * k + a) (row * k + b) src) [0..<k] src ! (i * k + j)
         = src ! (i * k + sw a b j))"
proof -
  let ?P = "\<lambda>n s. length s = k * k \<and> (\<forall>i < k. \<forall>j < k. s ! (i * k + j)
      = src ! (i * k + (if i < n then sw a b j else j)))"
  have "?P k (fold (\<lambda>row src. SWAP (row * k + a) (row * k + b) src) [0..<k] src)"
  proof (rule fold_upt_inv [where P = ?P])
    fix n s assume n: "n < k" and P: "?P n s"
    have lt: "n * k + a < length s" "n * k + b < length s"
      using P assms n by (simp_all add: idx_less)
    have "SWAP (n * k + a) (n * k + b) s ! (i * k + j)
        = src ! (i * k + (if i < Suc n then sw a b j else j))" if ij: "i < k" "j < k" for i j
    proof (cases "i = n")
      case True
      then have "sw (n * k + a) (n * k + b) (i * k + j) = i * k + sw a b j"
        by (auto simp: sw_def)
      then show ?thesis using SWAP_nth [OF lt] P True ij assms(1,2) by (simp add: sw_less)
    next
      case False
      then have "sw (n * k + a) (n * k + b) (i * k + j) = i * k + j"
        using assms ij by (auto simp: sw_def idx_eq)
      then show ?thesis using SWAP_nth [OF lt] P False ij by (auto simp: less_Suc_eq)
    qed
    then show "?P (Suc n) (SWAP (n * k + a) (n * k + b) s)" using SWAP_nth [OF lt] P by simp
  qed (use assms in auto)
  then show ?thesis by simp
qed

lemma solves_swap:
  assumes s: "solves k M (p \<circ> sw a b) A" and ab: "a < k" "b < k"
    and A': "\<And>i j. i < k \<Longrightarrow> j < k \<Longrightarrow> A' i j = A i (sw a b j)"
  shows "solves k M p A'"
proof -
  have "(\<Sum>j<k. A i j * v ((p \<circ> sw a b) j)) = (\<Sum>j<k. A' i j * v (p j))" if "i < k" for i v
  proof -
    have "(\<Sum>j<k. A' i j * v (p j)) = (\<Sum>j<k. A i (sw a b j) * v ((p \<circ> sw a b) (sw a b j)))"
      using that by (intro sum.cong) (simp_all add: A')
    also have "\<dots> = (\<Sum>j<k. A i j * v ((p \<circ> sw a b) j))"
      by (rule sum_sw [OF ab, of "\<lambda>j. A i j * v ((p \<circ> sw a b) j)"])
    finally show ?thesis ..
  qed
  then have "(\<forall>i<k. x i = (\<Sum>j<k. A i j * v ((p \<circ> sw a b) j))) = (\<forall>i<k. x i = (\<Sum>j<k. A' i j * v (p j)))"
    for x v by simp
  with s show ?thesis unfolding solves_def by simp
qed

lemma unscramble_all:
  assumes ix: "\<forall>u < t. indxr st ! u < k \<and> indxc st ! u < k"
    and "length src = k * k" and "solves k M (exchanges (indxr st) (indxc st) t) (ent k src)"
  shows "length (fold (unscramble k st) (rev [0..<t]) src) = k * k
    \<and> solves k M id (ent k (fold (unscramble k st) (rev [0..<t]) src))"
  using assms
proof (induction t arbitrary: src)
  case 0
  then show ?case by (simp add: exchanges_def)
next
  case (Suc t)
  define a b where "a = indxr st ! t" and "b = indxc st ! t"
  have ab: "a < k" "b < k" using Suc.prems(1) by (simp_all add: a_def b_def)
  let ?src = "unscramble k st t src"
  have un: "length ?src = k * k" "\<And>i j. i < k \<Longrightarrow> j < k \<Longrightarrow> ent k ?src i j = ent k src i (sw a b j)"
    using swap_cols_nth [OF ab Suc.prems(2)] ab Suc.prems(2)
    by (auto simp: unscramble_def a_def b_def ent_def)
  have "solves k M (exchanges (indxr st) (indxc st) t \<circ> sw a b) (ent k src)"
    using Suc.prems(3) unfolding exchanges_Suc a_def b_def .
  then have "solves k M (exchanges (indxr st) (indxc st) t) (ent k ?src)"
    by (rule solves_swap) (use ab un(2) in auto)
  then show ?case using Suc.IH [of ?src] Suc.prems(1) un(1) by simp
qed

definition inverts :: "nat \<Rightarrow> (nat \<Rightarrow> nat \<Rightarrow> gf) \<Rightarrow> (nat \<Rightarrow> nat \<Rightarrow> gf) \<Rightarrow> bool" where
  \<comment> \<open>\<open>A\<close> is the inverse matrix of \<open>M\<close>\<close>
  "inverts k M A \<longleftrightarrow> (\<forall>x b. (\<forall>i<k. b i = (\<Sum>j<k. M i j * x j)) \<longleftrightarrow>
     (\<forall>i<k. x i = (\<Sum>j<k. A i j * b j)))"

lemma inverts_invertible:
  assumes "inverts k M A"
  shows "invertible k M"
  unfolding invertible_def
proof (intro allI impI)
  fix x j assume "\<forall>i<k. (\<Sum>j<k. M i j * x j) = 0" and "j < k"
  moreover have "(\<forall>i<k. (\<lambda>_. 0) i = (\<Sum>j<k. M i j * x j)) \<longleftrightarrow> (\<forall>i<k. x i = (\<Sum>j<k. A i j * (\<lambda>_. 0) j))"
    by (rule assms [unfolded inverts_def, THEN spec, THEN spec])
  ultimately have "\<forall>i<k. x i = (\<Sum>j<k. A i j * (\<lambda>_. 0) j)" by metis
  with \<open>j < k\<close> show "x j = 0" by simp
qed

lemma invert_mat_spec:
  assumes T: "gf_arith T" and len: "length src = k * k"
  shows "(\<forall>M. invert_mat T src k = Some M \<longrightarrow> length M = k * k \<and> inverts k (ent k src) (ent k M))
    \<and> (invertible k (ent k src) \<longrightarrow> invert_mat T src k \<noteq> None)"
proof -
  define r where "r = fold (\<lambda>col r. Option.bind r (invert_round T k col)) [0..<k]
             (Some \<lparr>isrc = src, ipiv = replicate k 0, indxr = replicate k 0, indxc = replicate k 0\<rparr>)"
  note R = rounds [OF T len le_refl r_def]
  show ?thesis
  proof (cases r)
    case None
    then show ?thesis using R by (simp add: invert_mat_def r_def)
  next
    case (Some st)
    then have inv: "round_inv k (ent k src) k st" using R by simp
    have "pivoted k (ipiv st) \<subseteq> {..<k}" by (auto simp: pivoted_def)
    moreover have "card (pivoted k (ipiv st)) = card {..<k}" using inv by (simp add: round_inv_def)
    ultimately have all: "pivoted k (ipiv st) = {..<k}" by (metis card_subset_eq finite_lessThan)
    have "solves k (ent k src) (exchanges (indxr st) (indxc st) k) (ent k (isrc st))"
      using inv unfolding round_inv_def all exch_def solves_def by simp
    then have "length (fold (unscramble k st) (rev [0..<k]) (isrc st)) = k * k
      \<and> solves k (ent k src) id (ent k (fold (unscramble k st) (rev [0..<k]) (isrc st)))"
      using inv by (intro unscramble_all) (simp_all add: round_inv_def)
    then show ?thesis using Some by (simp add: invert_mat_def r_def solves_def inverts_def)
  qed
qed

subsection \<open>Property\<close>

text \<open>
  C18.  \<^verbatim>\<open>invert_mat\<close> on a \<open>k * k\<close> array of bytes either returns success and leaves
  the inverse matrix over GF(256) in the array, or fails and then the matrix is singular: the
  exchanged rows, the exchanged columns and the shortcuts (pivot 1, pivot row already a unit
  vector) never cost an invertible matrix or a wrong entry.
\<close>

theorem invert_mat_inverts:
  assumes "lens_ok T" and "length src = k * k"
  shows "case invert_mat (fec_init T) src k of
      Some M \<Rightarrow> length M = k * k \<and> inverts k (ent k src) (ent k M)
    | None \<Rightarrow> \<not> invertible k (ent k src)"
  using invert_mat_spec [OF gf_arith_ready [OF fec_init_ready [OF assms(1)]] assms(2)]
  by (auto split: option.split)

theorem invert_mat_inverts_witness:
  "lens_ok static_tables \<and> length ([0, 1, 2, 3] :: byte list) = 2 * 2 \<and>
   (case invert_mat (fec_init static_tables) [0, 1, 2, 3] 2 of
      Some M \<Rightarrow> length M = 2 * 2 \<and> inverts 2 (ent 2 [0, 1, 2, 3]) (ent 2 M)
    | None \<Rightarrow> \<not> invertible 2 (ent 2 [0, 1, 2, 3]))"
  using invert_mat_inverts [OF lens_ok_static, of "[0, 1, 2, 3]" 2] lens_ok_static by simp

end
