(* ===== verification/Fec.thy ===== *)
theory Fec
  imports FecMatrix
begin

text \<open>
  The coder and the decoder of \<^verbatim>\<open>src/fec.c\<close>: \<^verbatim>\<open>fec_encode\<close>, \<^verbatim>\<open>reduce\<close>,
  \<^verbatim>\<open>resolve\<close> and \<^verbatim>\<open>fec_decode\<close>.  Blocks are byte lists in lists of their own
  (no two of the buffers a caller passes overlap); an \<^verbatim>\<open>assert\<close> that fails is \<open>None\<close>.

  The submatrices the decoder inverts are Cauchy matrices; \<open>cauchy_injective\<close> proves them
  invertible, so \<^verbatim>\<open>invert_mat\<close> never reports a singular matrix there, and the decoder
  restores every erased data block from as many FEC blocks, whichever they are.
\<close>

subsection \<open>Coding and decoding\<close>

definition fec_encode :: "gf_tables \<Rightarrow> nat \<Rightarrow> byte list list \<Rightarrow> nat \<Rightarrow> byte list list \<Rightarrow> nat \<Rightarrow> byte list list option" where
  "fec_encode T blockSize data_blocks nrDataBlocks fec_blocks nrFecBlocks =
     (if \<not> fec_initialized T then None
      else if \<not> nrDataBlocks \<le> 128 then None
      else if \<not> nrFecBlocks \<le> 128 then None
      else if nrDataBlocks = 0 then Some fec_blocks
      else
        let fec_blocks = fold (\<lambda>row fec_blocks. fec_blocks[row :=
              mul T (fec_blocks ! row) (data_blocks ! 0) (inverse_tab T ! (128 XOR row)) blockSize])
              [0..<nrFecBlocks] fec_blocks
        in Some (fold (\<lambda>blockNo fec_blocks.
              let col = 128 + blockNo
              in fold (\<lambda>row fec_blocks. fec_blocks[row :=
                   addmul T (fec_blocks ! row) (data_blocks ! blockNo) (inverse_tab T ! (row XOR col)) blockSize])
                   [0..<nrFecBlocks] fec_blocks)
              [1..<nrDataBlocks] fec_blocks))"

definition reduce_col :: "gf_tables \<Rightarrow> nat \<Rightarrow> byte list list \<Rightarrow> nat list \<Rightarrow> nat list \<Rightarrow> nat \<Rightarrow> nat
    \<Rightarrow> nat \<times> byte list list \<Rightarrow> nat \<times> byte list list" where
  \<comment> \<open>one round of the loop of \<^verbatim>\<open>reduce\<close>, on \<^verbatim>\<open>erasedIdx\<close> and the FEC blocks\<close>
  "reduce_col T blockSize data_blocks fec_block_nos erased_blocks nr_fec_blocks col = (\<lambda>(erasedIdx, fec_blocks).
     if erasedIdx < nr_fec_blocks \<and> erased_blocks ! erasedIdx = col then (erasedIdx + 1, fec_blocks)
     else (erasedIdx, fold (\<lambda>j fec_blocks.
            let blno = fec_block_nos ! j
            in fec_blocks[j := addmul T (fec_blocks ! j) (data_blocks ! col)
                                 (inverse_tab T ! (blno XOR col XOR 128)) blockSize])
          [0..<nr_fec_blocks] fec_blocks))"

definition reduce :: "gf_tables \<Rightarrow> nat \<Rightarrow> byte list list \<Rightarrow> nat \<Rightarrow> byte list list \<Rightarrow> nat list \<Rightarrow> nat list \<Rightarrow> nat
    \<Rightarrow> byte list list option" where
  "reduce T blockSize data_blocks nr_data_blocks fec_blocks fec_block_nos erased_blocks nr_fec_blocks =
     (let (erasedIdx, fec_blocks) =
        fold (reduce_col T blockSize data_blocks fec_block_nos erased_blocks nr_fec_blocks)
          [0..<nr_data_blocks] (0, fec_blocks)
      in if nr_fec_blocks = erasedIdx then Some fec_blocks else None)"

definition decode_matrix :: "gf_tables \<Rightarrow> nat list \<Rightarrow> nat list \<Rightarrow> nat \<Rightarrow> byte list" where
  \<comment> \<open>the matrix built at the start of \<^verbatim>\<open>resolve\<close>\<close>
  "decode_matrix T fec_block_nos erased_blocks nr_fec_blocks =
     concat (map (\<lambda>row. let irow = 128 + fec_block_nos ! row
                         in map (\<lambda>col. inverse_tab T ! (irow XOR erased_blocks ! col)) [0..<nr_fec_blocks])
       [0..<nr_fec_blocks])"

definition resolve_row :: "gf_tables \<Rightarrow> nat \<Rightarrow> byte list list \<Rightarrow> nat list \<Rightarrow> nat \<Rightarrow> byte list \<Rightarrow> nat
    \<Rightarrow> byte list list \<Rightarrow> byte list list" where
  "resolve_row T blockSize fec_blocks erased_blocks nr_fec_blocks matrix row data_blocks =
     (let target = erased_blocks ! row; ptr = row * nr_fec_blocks;
          data_blocks = data_blocks[target :=
            mul T (data_blocks ! target) (fec_blocks ! 0) (matrix ! ptr) blockSize]
      in fold (\<lambda>col data_blocks. data_blocks[target :=
             addmul T (data_blocks ! target) (fec_blocks ! col) (matrix ! (ptr + col)) blockSize])
           [1..<nr_fec_blocks] data_blocks)"

definition resolve :: "gf_tables \<Rightarrow> nat \<Rightarrow> byte list list \<Rightarrow> byte list list \<Rightarrow> nat list \<Rightarrow> nat list \<Rightarrow> nat
    \<Rightarrow> byte list list option" where
  "resolve T blockSize data_blocks fec_blocks fec_block_nos erased_blocks nr_fec_blocks =
     (case invert_mat T (decode_matrix T fec_block_nos erased_blocks nr_fec_blocks) nr_fec_blocks of
        None \<Rightarrow> None
      | Some matrix \<Rightarrow> Some (fold (resolve_row T blockSize fec_blocks erased_blocks nr_fec_blocks matrix)
          [0..<nr_fec_blocks] data_blocks))"

definition fec_decode :: "gf_tables \<Rightarrow> nat \<Rightarrow> byte list list \<Rightarrow> nat \<Rightarrow> byte list list \<Rightarrow> nat list \<Rightarrow> nat list \<Rightarrow> nat
    \<Rightarrow> (byte list list \<times> byte list list) option" where
  \<comment> \<open>the data blocks and the FEC blocks, both modified in place\<close>
  "fec_decode T blockSize data_blocks nr_data_blocks fec_blocks fec_block_nos erased_blocks nr_fec_blocks =
     (case reduce T blockSize data_blocks nr_data_blocks fec_blocks fec_block_nos erased_blocks nr_fec_blocks of
        None \<Rightarrow> None
      | Some fec_blocks \<Rightarrow>
          (case resolve T blockSize data_blocks fec_blocks fec_block_nos erased_blocks nr_fec_blocks of
             None \<Rightarrow> None
           | Some data_blocks \<Rightarrow> Some (data_blocks, fec_blocks)))"

subsection \<open>Cauchy matrices\<close>

lemma add_eq_0_gf: "a + b = (0 :: gf) \<longleftrightarrow> a = b"
  by (metis gf_add_cancel gf_add_self)

lemma cauchy_term: "a \<noteq> 0 \<Longrightarrow> (a + b) * (inverse a * v) = v + inverse a * (v * b)" for a b v :: gf
  by (simp add: field_simps)

lemma add_twice: "(a + c) + (b + c) = a + b" for a b c :: gf
proof -
  have "(a + c) + (b + c) = (a + b) + (c + c)" by (simp only: ac_simps)
  then show ?thesis by (simp only: gf_add_self add_0_right)
qed

lemma inverse_sum:
  fixes a b :: gf
  assumes "a \<noteq> 0" and "b \<noteq> 0"
  shows "inverse a * v + inverse b * v = (a + b) * (inverse a * (v * inverse b))"
  using assms by (simp add: field_simps)

lemma cauchy_injective:
  fixes x y v :: "nat \<Rightarrow> gf"
  assumes "\<forall>i<n. (\<Sum>j<n. inverse (x i + y j) * v j) = 0"
    and "\<forall>i<n. \<forall>j<n. x i = x j \<longrightarrow> i = j" and "\<forall>i<n. \<forall>j<n. y i = y j \<longrightarrow> i = j"
    and "\<forall>i<n. \<forall>j<n. x i \<noteq> y j"
  shows "\<forall>j<n. v j = 0"
  using assms
proof (induction n arbitrary: v)
  case (Suc n)
  have nz: "x i + y j \<noteq> 0" if "i \<le> n" "j \<le> n" for i j
    using Suc.prems(4) that by (simp add: add_eq_0_gf)
  define w where "w j = v j * (y n + y j)" for j
  define s where "s = (\<Sum>j<Suc n. v j)"
  have split: "s + (\<Sum>j<n. inverse (x i + y j) * w j) = 0" if "i \<le> n" for i
  proof -
    have "(x i + y n) * (inverse (x i + y j) * v j) = v j + inverse (x i + y j) * w j" if "j \<le> n" for j
    proof -
      have "x i + y n = (x i + y j) + (y n + y j)" by (simp add: ac_simps)
      then show ?thesis using cauchy_term [OF nz [OF \<open>i \<le> n\<close> that], of "y n + y j" "v j"]
        by (simp only: w_def)
    qed
    then have "(x i + y n) * (\<Sum>j<Suc n. inverse (x i + y j) * v j)
        = (\<Sum>j<Suc n. v j + inverse (x i + y j) * w j)"
      unfolding sum_distrib_left by (intro sum.cong) auto
    also have "\<dots> = s + (\<Sum>j<n. inverse (x i + y j) * w j)"
      by (simp add: s_def sum.distrib w_def)
    finally show ?thesis using Suc.prems(1) that by simp
  qed
  have level: "(\<Sum>j<n. inverse (x i + y j) * w j) = s" if "i \<le> n" for i
    by (rule split [OF that, unfolded add_eq_0_gf, symmetric])
  have "(\<Sum>j<n. inverse (x i + y j) * (w j * inverse (x n + y j))) = 0" if "i < n" for i
  proof -
    have "x i + x n \<noteq> 0" using Suc.prems(2) that unfolding add_eq_0_gf by (metis less_Suc_eq less_irrefl)
    have "(x i + x n) * (\<Sum>j<n. inverse (x i + y j) * (w j * inverse (x n + y j)))
        = (\<Sum>j<n. inverse (x i + y j) * w j + inverse (x n + y j) * w j)"
      unfolding sum_distrib_left
    proof (intro sum.cong refl)
      fix j assume "j \<in> {..<n}"
      then have ne: "x i + y j \<noteq> 0" "x n + y j \<noteq> 0" using nz that by simp_all
      show "(x i + x n) * (inverse (x i + y j) * (w j * inverse (x n + y j)))
          = inverse (x i + y j) * w j + inverse (x n + y j) * w j"
        using inverse_sum [OF ne, of "w j"] by (simp only: add_twice)
    qed
    also have "\<dots> = 0"
      unfolding sum.distrib level [OF order_refl] level [OF less_imp_le [OF that]] by (rule gf_add_self)
    finally have "(x i + x n) * (\<Sum>j<n. inverse (x i + y j) * (w j * inverse (x n + y j))) = 0" .
    with \<open>x i + x n \<noteq> 0\<close> show ?thesis by simp
  qed
  then have "\<forall>i<n. (\<Sum>j<n. inverse (x i + y j) * (w j * inverse (x n + y j))) = 0" by blast
  then have "\<forall>j<n. w j * inverse (x n + y j) = 0"
    by (rule Suc.IH) (use Suc.prems(2,3,4) in \<open>(meson less_SucI)+\<close>)
  moreover have "inverse (x n + y j) \<noteq> 0 \<and> y n + y j \<noteq> 0" if "j < n" for j
  proof -
    have "y n \<noteq> y j" using Suc.prems(3) that by (metis less_SucI lessI less_irrefl)
    then show ?thesis using nz [of n j] that by (simp add: add_eq_0_gf)
  qed
  ultimately have low: "\<forall>j<n. v j = 0" by (auto simp: w_def)
  with Suc.prems(1) nz [of n n] have "v n = 0" by (auto dest: spec [of _ n])
  with low show ?case by (simp add: less_Suc_eq)
qed simp

subsection \<open>The points of the code\<close>

definition pt :: "nat \<Rightarrow> gf" where
  "pt n = Gf (word_of_nat n)"

lemma pt_eq: "m < 256 \<Longrightarrow> n < 256 \<Longrightarrow> pt m = pt n \<longleftrightarrow> m = n"
  by (simp add: pt_def word_of_nat_eq_iff take_bit_nat_eq_self)

lemma unat_pt_xor: "a < 256 \<Longrightarrow> b < 256 \<Longrightarrow> a XOR b = unat ((word_of_nat a :: byte) XOR word_of_nat b)"
  by (simp add: unsigned_xor_eq unat_of_nat take_bit_nat_eq_self)

lemma inverse_tab_pt:
  assumes "gf_arith T" and "a < 256" and "b < 256"
  shows "Gf (inverse_tab T ! (a XOR b)) = inverse (pt a + pt b)"
  by (simp add: unat_pt_xor [OF assms(2,3)] gf_arith.Gf_inverse [OF assms(1)] pt_def Gf_xor)

lemma add_128_xor:
  assumes "f < 128"
  shows "128 + f = 128 XOR (f :: nat)"
proof (rule disjunctive_add_eq_xor, rule bit_eqI)
  fix n
  have "f = take_bit 7 f" "(128 :: nat) = push_bit 7 1"
    using assms by (simp_all add: take_bit_nat_eq_self push_bit_eq_mult)
  then have "bit f n \<Longrightarrow> n < 7" "bit (128 :: nat) n \<Longrightarrow> 7 \<le> n"
    by (metis bit_take_bit_iff, metis bit_push_bit_iff)
  then show "bit (128 AND f) n = bit 0 n" by (auto simp: bit_and_iff)
qed

lemma pt_128:
  assumes "f < 128"
  shows "pt (128 + f) = pt 128 + pt f"
  unfolding add_128_xor [OF assms] pt_def Gf_xor [symmetric] by (simp add: of_nat_xor_eq)

subsection \<open>What the block loops compute\<close>

definition blocks :: "nat \<Rightarrow> nat \<Rightarrow> byte list list \<Rightarrow> bool" where
  \<comment> \<open>\<open>n\<close> buffers of \<open>bs\<close> bytes\<close>
  "blocks n bs B \<longleftrightarrow> length B = n \<and> (\<forall>i < n. length (B ! i) = bs)"

definition val :: "byte list list \<Rightarrow> nat \<Rightarrow> nat \<Rightarrow> gf" where
  "val B i b = Gf (B ! i ! b)"

lemma mul_nth:
  assumes "gf_arith T" and "sz \<le> length dst"
  shows "length (mul T dst src c sz) = length dst
    \<and> (\<forall>i < sz. Gf (mul T dst src c sz ! i) = Gf c * Gf (src ! i))"
  using slow_mul1_nth [OF assms(2), of T src c] assms(2)
  by (auto simp: mul_def memset0_def nth_append gf_arith.Gf_mul [OF assms(1)])

lemma fold_addmul_rows:
  assumes T: "gf_arith T" and F: "blocks n bs F"
    and F': "F' = fold (\<lambda>row F. F[row := addmul T (F ! row) src (c row) bs]) [0..<n] F"
  shows "blocks n bs F' \<and> (\<forall>row < n. \<forall>b < bs. val F' row b = val F row b + Gf (c row) * Gf (src ! b))"
  using fold_pointwise [of n F "\<lambda>row v. addmul T v src (c row) bs"] F addmul_nth [OF T, of bs]
  by (auto simp: F' blocks_def val_def)

lemma fold_mul_rows:
  assumes T: "gf_arith T" and F: "blocks n bs F"
    and F': "F' = fold (\<lambda>row F. F[row := mul T (F ! row) src (c row) bs]) [0..<n] F"
  shows "blocks n bs F' \<and> (\<forall>row < n. \<forall>b < bs. val F' row b = Gf (c row) * Gf (src ! b))"
  using fold_pointwise [of n F "\<lambda>row v. mul T v src (c row) bs"] F mul_nth [OF T, of bs]
  by (auto simp: F' blocks_def val_def)

definition coef :: "nat \<Rightarrow> nat \<Rightarrow> gf" where
  \<comment> \<open>the coefficient of data block \<open>c\<close> in FEC block \<open>f\<close>\<close>
  "coef f c = inverse (pt f + pt (128 + c))"

lemma inverse_tab_coef:
  assumes "gf_arith T" and "f < 128" and "c < 128"
  shows "Gf (inverse_tab T ! (f XOR (128 + c))) = coef f c"
    and "Gf (inverse_tab T ! (f XOR c XOR 128)) = coef f c"
    and "Gf (inverse_tab T ! ((128 + f) XOR c)) = coef f c"
proof -
  have e: "f XOR c XOR 128 = f XOR (128 + c)" "(128 + f) XOR c = f XOR (128 + c)"
    unfolding add_128_xor [OF assms(2)] add_128_xor [OF assms(3)] by (simp_all only: ac_simps)
  show first: "Gf (inverse_tab T ! (f XOR (128 + c))) = coef f c"
    using assms by (simp add: inverse_tab_pt coef_def)
  show "Gf (inverse_tab T ! (f XOR c XOR 128)) = coef f c"
    and "Gf (inverse_tab T ! ((128 + f) XOR c)) = coef f c" unfolding e by (rule first)+
qed

lemma fec_encode_spec:
  assumes T: "gf_arith T" and F: "blocks nrf bs F" and nr: "0 < nr" "nr \<le> 128" "nrf \<le> 128"
  shows "\<exists>enc. fec_encode T bs data nr F nrf = Some enc \<and> blocks nrf bs enc
    \<and> (\<forall>row < nrf. \<forall>b < bs. val enc row b = (\<Sum>c<nr. coef row c * val data c b))"
proof -
  let ?f = "\<lambda>blockNo F. fold (\<lambda>row F. F[row :=
       addmul T (F ! row) (data ! blockNo) (inverse_tab T ! (row XOR (128 + blockNo))) bs]) [0..<nrf] F"
  define F1 where "F1 = fold (\<lambda>row F. F[row :=
       mul T (F ! row) (data ! 0) (inverse_tab T ! (128 XOR row)) bs]) [0..<nrf] F"
  let ?P = "\<lambda>n F. blocks nrf bs F
     \<and> (\<forall>row < nrf. \<forall>b < bs. val F row b = (\<Sum>c<n. coef row c * val data c b))"
  have "?P nr (fold ?f [1..<nr] F1)"
  proof (rule fold_upt_inv [where P = ?P])
    have "Gf (inverse_tab T ! (128 XOR row)) = coef row 0" if "row < nrf" for row
      using inverse_tab_coef(1) [OF T, of row 0] that nr by (simp add: xor.commute)
    then show "?P 1 F1" using fold_mul_rows [OF T F F1_def] by (auto simp: val_def)
  next
    fix n s assume n: "1 \<le> n" "n < nr" and P: "?P n s"
    have "Gf (inverse_tab T ! (row XOR (128 + n))) = coef row n" if "row < nrf" for row
      using inverse_tab_coef(1) [OF T] n that nr by simp
    then show "?P (Suc n) (?f n s)"
      using fold_addmul_rows [OF T conjunct1 [OF P] refl, of "data ! n" "\<lambda>row. inverse_tab T ! (row XOR (128 + n))"] P
      by (auto simp: val_def)
  qed (use nr in simp)
  then show ?thesis
    using nr gf_arith.initialized [OF T] by (simp add: fec_encode_def F1_def Let_def)
qed

lemma erased_ix:
  fixes E :: "nat list"
  assumes "sorted_wrt (<) E" and idx: "\<forall>i < length E. E ! i < n \<longleftrightarrow> i < idx"
  shows "idx < length E \<and> E ! idx = n \<longleftrightarrow> n \<in> set E"
proof
  assume "n \<in> set E"
  then obtain i where i: "i < length E" "E ! i = n" by (auto simp: in_set_conv_nth)
  then have "\<not> i < idx" using idx by auto
  moreover have "\<not> idx < i"
    using sorted_wrt_nth_less [OF assms(1), of idx i] idx i by auto
  ultimately show "idx < length E \<and> E ! idx = n" using i by (simp add: linorder_neqE_nat)
qed auto

lemma reduce_spec:
  assumes T: "gf_arith T" and F: "blocks (length E) bs F" and E: "sorted_wrt (<) E" "\<forall>e \<in> set E. e < nr"
    and nr: "nr \<le> 128" and f: "\<forall>j < length E. fnos ! j < 128"
  shows "\<exists>F'. reduce T bs data nr F fnos E (length E) = Some F' \<and> blocks (length E) bs F'
    \<and> (\<forall>j < length E. \<forall>b < bs.
         val F' j b = val F j b + (\<Sum>c \<in> {..<nr} - set E. coef (fnos ! j) c * val data c b))"
proof -
  let ?f = "reduce_col T bs data fnos E (length E)"
  let ?P = "\<lambda>n (idx, F'). idx \<le> length E \<and> (\<forall>i < length E. E ! i < n \<longleftrightarrow> i < idx)
    \<and> blocks (length E) bs F'
    \<and> (\<forall>j < length E. \<forall>b < bs.
         val F' j b = val F j b + (\<Sum>c \<in> {..<n} - set E. coef (fnos ! j) c * val data c b))"
  have "?P nr (fold ?f [0..<nr] (0, F))"
  proof (rule fold_upt_inv [where P = ?P])
    fix n s assume n: "n < nr" and Ps: "?P n s"
    obtain idx G where s: "s = (idx, G)" by force
    have P: "idx \<le> length E" "\<forall>i < length E. E ! i < n \<longleftrightarrow> i < idx" "blocks (length E) bs G"
      "\<forall>j < length E. \<forall>b < bs.
         val G j b = val F j b + (\<Sum>c \<in> {..<n} - set E. coef (fnos ! j) c * val data c b)"
      using Ps by (simp_all add: s)
    note ix = erased_ix [OF E(1) P(2)]
    show "?P (Suc n) (?f n s)"
    proof (cases "n \<in> set E")
      case True
      then have "idx < length E" "E ! idx = n" using ix by auto
      moreover have "E ! i < Suc n \<longleftrightarrow> i < Suc idx" if "i < length E" for i
        using that P(2) calculation sorted_wrt_nth_less [OF E(1), of idx i] by (auto simp: less_Suc_eq)
      moreover have "{..<Suc n} - set E = {..<n} - set E" using True by (auto simp: less_Suc_eq)
      ultimately show ?thesis using P by (simp add: reduce_col_def s)
    next
      case False
      then have no: "\<not> (idx < length E \<and> E ! idx = n)" using ix by simp
      have "E ! i < Suc n \<longleftrightarrow> E ! i < n" if "i < length E" for i
        using False that by (metis less_Suc_eq nth_mem)
      moreover have "{..<Suc n} - set E = insert n ({..<n} - set E)" using False by auto
      moreover have "Gf (inverse_tab T ! (fnos ! j XOR n XOR 128)) = coef (fnos ! j) n" if "j < length E" for j
        using inverse_tab_coef(2) [OF T] f that n nr by simp
      ultimately show ?thesis
        using P no fold_addmul_rows [OF T P(3) refl, of "data ! n" "\<lambda>j. inverse_tab T ! (fnos ! j XOR n XOR 128)"]
        by (auto simp: reduce_col_def s Let_def val_def ac_simps)
    qed
  qed (use F in auto)
  moreover obtain idx F' where "fold ?f [0..<nr] (0, F) = (idx, F')" by force
  moreover have "idx = length E" if "idx \<le> length E" "\<forall>i < length E. E ! i < nr \<longleftrightarrow> i < idx"
    using that E(2) by (metis le_neq_implies_less less_irrefl nth_mem)
  ultimately show ?thesis by (auto simp: reduce_def)
qed

lemma concat_rows:
  assumes "\<forall>i < n. length (f i) = k"
  shows "length (concat (map f [0..<n])) = n * k
    \<and> (\<forall>i < n. \<forall>j < k. concat (map f [0..<n]) ! (i * k + j) = f i ! j)"
  using assms
proof (induction n)
  case (Suc n)
  then have len: "length (concat (map f [0..<n])) = n * k"
    and nth: "\<forall>i < n. \<forall>j < k. concat (map f [0..<n]) ! (i * k + j) = f i ! j" by simp_all
  have "i * k + j < n * k" if "i < n" "j < k" for i j
    using mult_le_mono1 [of "Suc i" n k] that by simp
  then show ?case using len nth Suc.prems by (auto simp: nth_append less_Suc_eq)
qed simp

lemma decode_matrix_ent:
  assumes T: "gf_arith T" and f: "\<forall>j < n. fnos ! j < 128" and e: "\<forall>j < n. E ! j < 128"
  shows "length (decode_matrix T fnos E n) = n * n
    \<and> (\<forall>i < n. \<forall>j < n. ent n (decode_matrix T fnos E n) i j = coef (fnos ! i) (E ! j))"
  using concat_rows [of n "\<lambda>row. map (\<lambda>col. inverse_tab T ! ((128 + fnos ! row) XOR E ! col)) [0..<n]" n]
    inverse_tab_coef(3) [OF T] f e
  by (simp add: decode_matrix_def ent_def Let_def)

lemma fold_one_index:
  assumes "t < length D"
  shows "fold (\<lambda>c D. D[t := g c (D ! t)]) cs D = D[t := fold g cs (D ! t)]"
  using assms by (induction cs arbitrary: D) simp_all

lemma resolve_row_spec:
  assumes T: "gf_arith T" and D: "blocks nd bs D" and t: "E ! row < nd" and row: "row < n"
  shows "blocks nd bs (resolve_row T bs F E n M row D)
    \<and> (\<forall>i. i \<noteq> E ! row \<longrightarrow> resolve_row T bs F E n M row D ! i = D ! i)
    \<and> (\<forall>b < bs. val (resolve_row T bs F E n M row D) (E ! row) b
         = (\<Sum>col<n. ent n M row col * val F col b))"
proof -
  let ?t = "E ! row" and ?g = "\<lambda>col v. addmul T v (F ! col) (M ! (row * n + col)) bs"
  define v where "v m = fold ?g [1..<m] (mul T (D ! ?t) (F ! 0) (M ! (row * n)) bs)" for m
  have len: "?t < length D" "length (D ! ?t) = bs" using D t by (simp_all add: blocks_def)
  have "length (v n) = bs \<and> (\<forall>b < bs. Gf (v n ! b) = (\<Sum>col<n. ent n M row col * val F col b))"
    unfolding v_def
  proof (rule fold_upt_inv [where P = "\<lambda>m v. length v = bs
      \<and> (\<forall>b < bs. Gf (v ! b) = (\<Sum>col<m. ent n M row col * val F col b))"])
    show "length (mul T (D ! ?t) (F ! 0) (M ! (row * n)) bs) = bs
      \<and> (\<forall>b<bs. Gf (mul T (D ! ?t) (F ! 0) (M ! (row * n)) bs ! b)
           = (\<Sum>col<1. ent n M row col * val F col b))"
      using mul_nth [OF T, of bs "D ! ?t"] len by (simp add: ent_def val_def)
  next
    fix m s assume "length s = bs \<and> (\<forall>b<bs. Gf (s ! b) = (\<Sum>col<m. ent n M row col * val F col b))"
    then show "length (?g m s) = bs
      \<and> (\<forall>b<bs. Gf (?g m s ! b) = (\<Sum>col<Suc m. ent n M row col * val F col b))"
      using addmul_nth [OF T, of bs s "F ! m" "M ! (row * n + m)"] by (simp add: ent_def val_def)
  qed (use row in simp)
  moreover have "resolve_row T bs F E n M row D = D[?t := v n]"
    using fold_one_index [of ?t "D[?t := mul T (D ! ?t) (F ! 0) (M ! (row * n)) bs]" ?g "[1..<n]"] len
    by (simp add: resolve_row_def Let_def v_def)
  ultimately show ?thesis using D len by (auto simp: blocks_def val_def nth_list_update)
qed

lemma resolve_rows_spec:
  assumes T: "gf_arith T" and D: "blocks nd bs D" and E: "distinct E" "\<forall>e \<in> set E. e < nd" and n: "n = length E"
    and D': "D' = fold (resolve_row T bs F E n M) [0..<n] D"
  shows "blocks nd bs D' \<and> (\<forall>i. i \<notin> set E \<longrightarrow> D' ! i = D ! i)
    \<and> (\<forall>row < n. \<forall>b < bs. val D' (E ! row) b = (\<Sum>col<n. ent n M row col * val F col b))"
proof -
  let ?P = "\<lambda>m s. blocks nd bs s \<and> (\<forall>i. i \<notin> set E \<longrightarrow> s ! i = D ! i)
    \<and> (\<forall>row < m. \<forall>b < bs. val s (E ! row) b = (\<Sum>col<n. ent n M row col * val F col b))"
  show ?thesis
    unfolding D'
  proof (rule fold_upt_inv [where P = ?P])
    fix m s assume m: "m < n" and P: "?P m s"
    have t: "E ! m < nd" using E m n by simp
    note r = resolve_row_spec [OF T conjunct1 [OF P] t m, of F M]
    have "val (resolve_row T bs F E n M m s) (E ! row) b = val s (E ! row) b" if "row < m" for row b
    proof -
      have "E ! row \<noteq> E ! m" using E(1) that m n by (simp add: nth_eq_iff_index_eq)
      then show ?thesis using r by (simp add: val_def)
    qed
    moreover have "i \<noteq> E ! m" if "i \<notin> set E" for i using that m n by auto
    ultimately show "?P (Suc m) (resolve_row T bs F E n M m s)"
      using r P by (auto simp: less_Suc_eq)
  qed (use D in simp_all)
qed

subsection \<open>The decoder inverts the coder\<close>

lemma coef_invertible:
  assumes f: "distinct fnos" "\<forall>f \<in> set fnos. f < 128" and E: "distinct E" "\<forall>e \<in> set E. e < 128"
    and n: "length fnos = n" "length E = n"
    and K: "\<And>i j. i < n \<Longrightarrow> j < n \<Longrightarrow> K i j = coef (fnos ! i) (E ! j)"
  shows "invertible n K"
  unfolding invertible_def
proof (intro allI impI)
  fix v j assume zero: "\<forall>i<n. (\<Sum>j<n. K i j * v j) = 0" and "j < n"
  have lt: "fnos ! i < 128" "fnos ! i < 256" "E ! i < 128" if "i < n" for i
  proof -
    show "fnos ! i < 128" "E ! i < 128" using f E n that by simp_all
    then show "fnos ! i < 256" by simp
  qed
  have "\<forall>j<n. v j = 0"
  proof (rule cauchy_injective)
    have "(\<Sum>j<n. inverse (pt (fnos ! i) + pt (128 + E ! j)) * v j) = (\<Sum>j<n. K i j * v j)" if "i < n" for i
      using K that by (intro sum.cong) (auto simp: coef_def)
    with zero show "\<forall>i<n. (\<Sum>j<n. inverse (pt (fnos ! i) + pt (128 + E ! j)) * v j) = 0" by simp
    show "\<forall>i<n. \<forall>j<n. pt (fnos ! i) = pt (fnos ! j) \<longrightarrow> i = j"
      using lt nth_eq_iff_index_eq [OF f(1)] n by (simp add: pt_eq)
    show "\<forall>i<n. \<forall>j<n. pt (128 + E ! i) = pt (128 + E ! j) \<longrightarrow> i = j"
      using lt nth_eq_iff_index_eq [OF E(1)] n by (simp add: pt_eq)
    show "\<forall>i<n. \<forall>j<n. pt (fnos ! i) \<noteq> pt (128 + E ! j)"
    proof (intro allI impI)
      fix i j assume "i < n" "j < n"
      with lt have "fnos ! i < 128" "E ! j < 128" by simp_all
      then show "pt (fnos ! i) \<noteq> pt (128 + E ! j)" by (simp add: pt_eq)
    qed
  qed
  with \<open>j < n\<close> show "v j = 0" by simp
qed

lemma sum_erased:
  fixes E :: "nat list"
  assumes "distinct E" and "\<forall>e \<in> set E. e < nr"
  shows "(\<Sum>c<nr. g c) + (\<Sum>c \<in> {..<nr} - set E. g c) = (\<Sum>j<length E. g (E ! j) :: gf)"
proof -
  have "(\<Sum>c<nr. g c) = (\<Sum>c \<in> {..<nr} - set E. g c) + (\<Sum>c \<in> set E. g c)"
    using assms(2) by (intro sum.subset_diff) auto
  then have "(\<Sum>c<nr. g c) + (\<Sum>c \<in> {..<nr} - set E. g c) = (\<Sum>c \<in> set E. g c)"
    by (simp only: add.commute [of _ "(\<Sum>c \<in> {..<nr} - set E. g c)"] gf_add_cancel)
  also have "\<dots> = (\<Sum>j<length E. g (E ! j))"
    using bij_betw_nth [OF assms(1) refl refl] by (rule sum.reindex_bij_betw [symmetric])
  finally show ?thesis .
qed

lemma blocks_eqI:
  assumes "blocks n bs A" and "blocks n bs B" and "\<And>i b. i < n \<Longrightarrow> b < bs \<Longrightarrow> val A i b = val B i b"
  shows "A = B"
  using assms by (intro nth_equalityI) (auto simp: blocks_def val_def intro: nth_equalityI)

lemma reduced_system:
  assumes E: "distinct E" "\<forall>e \<in> set E. e < nr"
    and same: "\<And>c. c < nr \<Longrightarrow> c \<notin> set E \<Longrightarrow> val damaged c b = val data c b"
  shows "(\<Sum>c<nr. coef f c * val data c b) + (\<Sum>c \<in> {..<nr} - set E. coef f c * val damaged c b)
    = (\<Sum>j<length E. coef f (E ! j) * val data (E ! j) b)"
proof -
  have "(\<Sum>c \<in> {..<nr} - set E. coef f c * val damaged c b) = (\<Sum>c \<in> {..<nr} - set E. coef f c * val data c b)"
    by (intro sum.cong refl) (simp add: same)
  then show ?thesis by (simp only: sum_erased [OF E])
qed

lemma fec_decode_encode:
  assumes T: "gf_arith T" and nr: "0 < nr" "nr \<le> 128" "nrf \<le> 128"
    and B: "blocks nr bs data" "blocks nrf bs fecs" "blocks nr bs damaged"
    and E: "sorted_wrt (<) E" "\<forall>e \<in> set E. e < nr"
    and f: "distinct fnos" "\<forall>f \<in> set fnos. f < nrf" "length fnos = length E"
    and same: "\<forall>i < nr. i \<notin> set E \<longrightarrow> damaged ! i = data ! i"
  shows "\<exists>enc fec'. fec_encode T bs data nr fecs nrf = Some enc \<and>
    fec_decode T bs damaged nr (map (\<lambda>f. enc ! f) fnos) fnos E (length E) = Some (data, fec') \<and> blocks (length E) bs fec'"
proof -
  let ?n = "length E"
  have dE: "distinct E" using E(1) strict_sorted_iff by blast
  have lt: "fnos ! i < nrf" "fnos ! i < 128" "E ! i < nr" "E ! i < 128" if "i < ?n" for i
  proof -
    show "fnos ! i < nrf" "E ! i < nr" using that f E by simp_all
    then show "fnos ! i < 128" "E ! i < 128" using nr by simp_all
  qed
  obtain enc where enc: "fec_encode T bs data nr fecs nrf = Some enc" "blocks nrf bs enc"
    "\<forall>row < nrf. \<forall>b < bs. val enc row b = (\<Sum>c<nr. coef row c * val data c b)"
    using fec_encode_spec [OF T B(2) nr, of data] by blast
  let ?F = "map (\<lambda>f. enc ! f) fnos"
  have F: "blocks ?n bs ?F" "\<And>j b. j < ?n \<Longrightarrow> val ?F j b = val enc (fnos ! j) b"
    using enc(2) f lt by (auto simp: blocks_def val_def)
  obtain F' where F': "reduce T bs damaged nr ?F fnos E ?n = Some F'" "blocks ?n bs F'"
    "\<forall>j < ?n. \<forall>b < bs. val F' j b = val ?F j b + (\<Sum>c \<in> {..<nr} - set E. coef (fnos ! j) c * val damaged c b)"
    using reduce_spec [OF T F(1) E nr(2), of fnos damaged] lt by blast
  have red: "val F' j b = (\<Sum>i<?n. coef (fnos ! j) (E ! i) * val data (E ! i) b)" if "j < ?n" "b < bs" for j b
    using F'(3) F(2) enc(3) lt(1) that reduced_system [OF dE E(2), of damaged b data "fnos ! j"] same
    by (simp add: val_def)
  let ?K = "decode_matrix T fnos E ?n"
  have K: "length ?K = ?n * ?n" "\<And>i j. i < ?n \<Longrightarrow> j < ?n \<Longrightarrow> ent ?n ?K i j = coef (fnos ! i) (E ! j)"
    using decode_matrix_ent [OF T, of ?n fnos E] lt by simp_all
  have "invertible ?n (ent ?n ?K)"
  proof (rule coef_invertible [OF f(1) _ dE _ f(3) refl K(2)])
    show "\<forall>f\<in>set fnos. f < 128" "\<forall>e\<in>set E. e < 128" using f(2) E(2) nr by (auto intro: less_le_trans)
  qed
  then obtain M where M: "invert_mat T ?K ?n = Some M" "inverts ?n (ent ?n ?K) (ent ?n M)"
    using invert_mat_spec [OF T K(1)] by auto
  define D where "D = fold (resolve_row T bs F' E ?n M) [0..<?n] damaged"
  have res: "resolve T bs damaged F' fnos E ?n = Some D" by (simp add: resolve_def M(1) D_def)
  note R = resolve_rows_spec [OF T B(3) dE E(2) refl D_def]
  have "val D i b = val data i b" if "i < nr" "b < bs" for i b
  proof (cases "i \<in> set E")
    case True
    then obtain r where r: "r < ?n" "i = E ! r" by (auto simp: in_set_conv_nth)
    have "\<forall>j<?n. val F' j b = (\<Sum>i<?n. ent ?n ?K j i * val data (E ! i) b)"
      using red [OF _ that(2)] K(2) by simp
    then have "\<forall>i<?n. val data (E ! i) b = (\<Sum>j<?n. ent ?n M i j * val F' j b)"
      using M(2) [unfolded inverts_def, THEN spec [of _ "\<lambda>i. val data (E ! i) b"], THEN spec [of _ "\<lambda>j. val F' j b"]]
      by blast
    then show ?thesis using R r that(2) by simp
  next
    case False
    then show ?thesis using R same that(1) by (simp add: val_def)
  qed
  then have "D = data" using R B(1) by (intro blocks_eqI [of nr bs]) auto
  then show ?thesis using enc(1) F'(1,2) res by (simp add: fec_decode_def)
qed

subsection \<open>Property\<close>

text \<open>
  C2.  Forward error correction loses nothing: code up to 128 data blocks into FEC blocks,
  lose any of the data blocks (whatever their buffers then hold) and keep, out of all the FEC
  blocks, as many as data blocks were lost, whichever they are and in whatever order.  Then
  \<^verbatim>\<open>fec_decode\<close> returns, no assertion fails, and every data block is restored byte for byte.
\<close>

theorem fec_decode_restores:
  assumes "lens_ok T" and "0 < nr" "nr \<le> 128" "nrf \<le> 128"
    and "blocks nr bs data" "blocks nrf bs fecs" "blocks nr bs damaged"
    and "sorted_wrt (<) E" "\<forall>e \<in> set E. e < nr"
    and "distinct fnos" "\<forall>f \<in> set fnos. f < nrf" "length fnos = length E"
    and "\<forall>i < nr. i \<notin> set E \<longrightarrow> damaged ! i = data ! i"
  shows "\<exists>enc fec'. fec_encode (fec_init T) bs data nr fecs nrf = Some enc \<and>
    fec_decode (fec_init T) bs damaged nr (map (\<lambda>f. enc ! f) fnos) fnos E (length E) = Some (data, fec')"
  using fec_decode_encode [OF gf_arith_ready [OF fec_init_ready [OF assms(1)]] assms(2-)] by blast

theorem fec_decode_restores_witness:
  "\<exists>enc fec'. fec_encode (fec_init static_tables) 2 [[1, 2], [3, 4], [5, 6]] 3 (replicate 4 [0, 0]) 4 = Some enc \<and>
    fec_decode (fec_init static_tables) 2 [[7, 7], [3, 4], [0, 0]] 3 (map (\<lambda>f. enc ! f) [3, 1]) [3, 1] [0, 2]
      (length [0, 2 :: nat]) = Some ([[1, 2], [3, 4], [5, 6]], fec')"
  by (rule fec_decode_restores)
    (auto simp: lens_ok_static blocks_def less_Suc_eq numeral_3_eq_3 numeral_2_eq_2 nth_Cons')

end
