(* ===== verification/Produconsum.thy ===== *)
theory Produconsum
  imports Prelude
begin

text \<open>
  The producer-consumer counters of \<^verbatim>\<open>src/produconsum.c\<close>.  Both counters are
  32-bit words that run modulo twice the size of the buffer, so that a full buffer and an
  empty one differ.  The condition variable is the number of signals sent on it; a consumer
  that waits is given the list of its wake-ups, each with what the producer had written by
  then (\<open>None\<close>: it is still waiting when the list ends).  A call of \<^verbatim>\<open>udpc_fatal\<close>
  is \<open>None\<close> in \<open>pc_produce\<close>.

  \<open>counts pc P C\<close> relates a queue to two unbounded counters, all that was ever produced and
  consumed; the operations refine addition on them.  The locale \<open>counter_queue\<close> states this
  contract, and proves once that two queues pointing in opposite directions never overflow.
\<close>

subsection \<open>The queue and its operations\<close>

record produconsum =
  pc_size :: u32
  produced :: u32
  consumed :: u32
  atEnd :: bool
  consumerIsWaiting :: bool
  signals :: nat

definition pc_makeProduconsum :: "u32 \<Rightarrow> produconsum" where
  "pc_makeProduconsum sz = \<lparr>pc_size = sz, produced = 0, consumed = 0, atEnd = False,
     consumerIsWaiting = False, signals = 0\<rparr>"

definition wakeConsumer :: "produconsum \<Rightarrow> produconsum" where
  "wakeConsumer pc = (if consumerIsWaiting pc then pc\<lparr>signals := signals pc + 1\<rparr> else pc)"

definition pc_produce :: "produconsum \<Rightarrow> u32 \<Rightarrow> produconsum option" where
  "pc_produce pc amount =
     (if amount > pc_size pc then None
      else
        let p = produced pc + amount;
            p = (if p \<ge> 2 * pc_size pc then p - 2 * pc_size pc else p);
            c = consumed pc
        in if p > c + pc_size pc \<or> p < c \<and> p > c - pc_size pc then None
           else Some (wakeConsumer (pc\<lparr>produced := p\<rparr>)))"

definition pc_produceEnd :: "produconsum \<Rightarrow> produconsum" where
  "pc_produceEnd pc = wakeConsumer (pc\<lparr>atEnd := True\<rparr>)"

definition getProducedAmount :: "produconsum \<Rightarrow> u32" where
  "getProducedAmount pc =
     (if produced pc < consumed pc then produced pc + 2 * pc_size pc - consumed pc
      else produced pc - consumed pc)"

definition pc_getWaiting :: "produconsum \<Rightarrow> u32" where
  "pc_getWaiting pc = getProducedAmount pc"

datatype wakeup = Signalled u32 bool | TimedOut u32 bool
  \<comment> \<open>the values of \<^verbatim>\<open>produced\<close> and \<^verbatim>\<open>atEnd\<close> when the wait returns, and how it returned\<close>

fun wait_loop :: "produconsum \<Rightarrow> u32 \<Rightarrow> wakeup list \<Rightarrow> (produconsum \<times> u32) option" where
  \<comment> \<open>\<^verbatim>\<open>while((amount=getProducedAmount(pc)) < minAmount && !pc->atEnd)\<close>\<close>
  "wait_loop pc minAmount ws =
     (let amount = getProducedAmount pc
      in if amount < minAmount \<and> \<not> atEnd pc then
           (case ws of
              [] \<Rightarrow> None
            | Signalled p e # ws' \<Rightarrow> wait_loop (pc\<lparr>produced := p, atEnd := e\<rparr>) minAmount ws'
            | TimedOut p e # _ \<Rightarrow>
                let pc = pc\<lparr>produced := p, atEnd := e\<rparr> in Some (pc, getProducedAmount pc))
         else Some (pc, amount))"

declare wait_loop.simps [simp del]

definition consumeAny :: "produconsum \<Rightarrow> u32 \<Rightarrow> wakeup list \<Rightarrow> (produconsum \<times> u32) option" where
  "consumeAny pc minAmount ws =
     (let pc = pc\<lparr>consumerIsWaiting := True\<rparr>; amount = getProducedAmount pc
      in if amount \<ge> minAmount \<or> atEnd pc then Some (pc\<lparr>consumerIsWaiting := False\<rparr>, amount)
         else
           (case wait_loop pc minAmount ws of
              None \<Rightarrow> None
            | Some (pc, amount) \<Rightarrow> Some (pc\<lparr>consumerIsWaiting := False\<rparr>, amount)))"

definition pc_consumed :: "produconsum \<Rightarrow> u32 \<Rightarrow> produconsum" where
  "pc_consumed pc amount =
     (let c = consumed pc
      in if c \<ge> 2 * pc_size pc - amount then pc\<lparr>consumed := c + (amount - 2 * pc_size pc)\<rparr>
         else pc\<lparr>consumed := c + amount\<rparr>)"

definition pc_consumeAny :: "produconsum \<Rightarrow> wakeup list \<Rightarrow> (produconsum \<times> u32) option" where
  "pc_consumeAny pc ws = consumeAny pc 1 ws"

definition pc_consumeAnyWithTimeout :: "produconsum \<Rightarrow> wakeup list \<Rightarrow> (produconsum \<times> u32) option" where
  "pc_consumeAnyWithTimeout pc ws = consumeAny pc 1 ws"

definition pc_consumeContiguousMinAmount :: "produconsum \<Rightarrow> u32 \<Rightarrow> wakeup list \<Rightarrow> (produconsum \<times> u32) option" where
  "pc_consumeContiguousMinAmount pc amount ws =
     (case consumeAny pc amount ws of
        None \<Rightarrow> None
      | Some (pc, n) \<Rightarrow>
          let l = pc_size pc - consumed pc mod pc_size pc
          in Some (pc, if sint n > sint l then l else n))"

definition pc_consumeAnyContiguous :: "produconsum \<Rightarrow> wakeup list \<Rightarrow> (produconsum \<times> u32) option" where
  "pc_consumeAnyContiguous pc ws = pc_consumeContiguousMinAmount pc 1 ws"

definition pc_consume :: "produconsum \<Rightarrow> u32 \<Rightarrow> wakeup list \<Rightarrow> (produconsum \<times> u32) option" where
  "pc_consume pc amount ws = consumeAny pc amount ws"

definition pc_getConsumerPosition :: "produconsum \<Rightarrow> u32" where
  "pc_getConsumerPosition pc = consumed pc mod pc_size pc"

definition pc_getProducerPosition :: "produconsum \<Rightarrow> u32" where
  "pc_getProducerPosition pc = produced pc mod pc_size pc"

definition pc_getSize :: "produconsum \<Rightarrow> u32" where
  "pc_getSize pc = pc_size pc"

lemma pc_produce_size: "pc_produce pc n = Some pc' \<Longrightarrow> pc_size pc' = pc_size pc"
  by (auto simp: pc_produce_def wakeConsumer_def Let_def split: if_splits)

lemma position_lt: "0 < unat (pc_size pc) \<Longrightarrow> unat (pc_getConsumerPosition pc) < unat (pc_size pc)"
  by (simp only: pc_getConsumerPosition_def unat_mod_distrib mod_less_divisor)

subsection \<open>The counters\<close>

definition cap :: "produconsum \<Rightarrow> nat" where
  "cap pc = unat (pc_size pc)"

definition counts :: "produconsum \<Rightarrow> nat \<Rightarrow> nat \<Rightarrow> bool" where
  \<comment> \<open>\<open>P\<close> units were produced and \<open>C\<close> consumed since the queue was made\<close>
  "counts pc P C \<longleftrightarrow> 0 < cap pc \<and> 2 * cap pc < 2 ^ 31
     \<and> unat (produced pc) = P mod (2 * cap pc) \<and> unat (consumed pc) = C mod (2 * cap pc)
     \<and> C \<le> P \<and> P \<le> C + cap pc"

lemma unat_2_size:
  assumes "2 * cap pc < 2 ^ 31"
  shows "unat (2 * pc_size pc) = 2 * cap pc"
  using assms unsigned_less [of "pc_size pc"] by (simp add: unat_word_ariths cap_def)

lemma mod_diff_window:
  fixes P C S :: nat
  assumes "C \<le> P" "P \<le> C + S" "0 < S"
  shows "(P mod (2 * S) < C mod (2 * S) \<longrightarrow> P mod (2 * S) + 2 * S - C mod (2 * S) = P - C)
    \<and> (\<not> P mod (2 * S) < C mod (2 * S) \<longrightarrow> P mod (2 * S) - C mod (2 * S) = P - C)"
proof -
  define r where "r = C mod (2 * S)"
  define d where "d = P - C"
  have r: "r < 2 * S" using assms by (simp add: r_def)
  have "P = C + d" using assms by (simp add: d_def)
  then have P: "P mod (2 * S) = (r + d) mod (2 * S)"
    by (simp only: r_def mod_add_left_eq)
  have d: "d \<le> S" using assms by (simp add: d_def)
  show ?thesis
  proof (cases "r + d < 2 * S")
    case True
    then show ?thesis unfolding P using r d by (simp add: r_def [symmetric] d_def [symmetric])
  next
    case False
    then have "(r + d) mod (2 * S) = r + d - 2 * S" using r d by (simp add: mod_if)
    then show ?thesis unfolding P using False r d assms
      by (auto simp: r_def [symmetric] d_def [symmetric])
  qed
qed

lemma getProducedAmount_counts:
  assumes "counts pc P C"
  shows "unat (getProducedAmount pc) = P - C"
proof -
  have lt: "0 < cap pc" "2 * cap pc < 2 ^ 31"
    and p: "unat (produced pc) = P mod (2 * cap pc)" and c: "unat (consumed pc) = C mod (2 * cap pc)"
    and CP: "C \<le> P" "P \<le> C + cap pc" using assms by (simp_all add: counts_def)
  have b: "unat (produced pc) < 2 * cap pc" "unat (consumed pc) < 2 * cap pc" using lt p c by simp_all
  note w = mod_diff_window [OF CP lt(1), folded p c]
  show ?thesis
  proof (cases "produced pc < consumed pc")
    case True
    then have lt': "unat (produced pc) < unat (consumed pc)" by (simp add: word_less_nat_alt)
    have s: "unat (produced pc + 2 * pc_size pc) = unat (produced pc) + 2 * cap pc"
      using b lt by (simp add: unat_plus_if' unat_2_size)
    have "consumed pc \<le> produced pc + 2 * pc_size pc" using s b by (simp add: word_le_nat_alt)
    then show ?thesis using True w lt' s by (simp add: getProducedAmount_def unat_sub)
  next
    case False
    then have "consumed pc \<le> produced pc" by simp
    then show ?thesis using False w by (simp add: getProducedAmount_def unat_sub word_less_nat_alt)
  qed
qed

lemma counts_make:
  assumes "0 < unat sz" and "2 * unat sz < 2 ^ 31"
  shows "counts (pc_makeProduconsum sz) 0 0"
  using assms by (simp add: counts_def pc_makeProduconsum_def cap_def)

lemma counts_cong:
  assumes "pc_size pc' = pc_size pc" "produced pc' = produced pc" "consumed pc' = consumed pc"
  shows "counts pc' P C = counts pc P C"
  using assms by (simp add: counts_def cap_def)

lemma wakeConsumer_sel [simp]:
  "pc_size (wakeConsumer pc) = pc_size pc" "produced (wakeConsumer pc) = produced pc"
  "consumed (wakeConsumer pc) = consumed pc" "atEnd (wakeConsumer pc) = atEnd pc"
  "consumerIsWaiting (wakeConsumer pc) = consumerIsWaiting pc"
  by (simp_all add: wakeConsumer_def)

lemma produced_next:
  assumes "counts pc P C" and "unat n \<le> cap pc"
    and p: "p = (if produced pc + n \<ge> 2 * pc_size pc then produced pc + n - 2 * pc_size pc else produced pc + n)"
  shows "unat p = (P + unat n) mod (2 * cap pc)"
proof -
  have lt: "0 < cap pc" "2 * cap pc < 2 ^ 31" and pm: "unat (produced pc) = P mod (2 * cap pc)"
    using assms(1) by (simp_all add: counts_def)
  have b: "unat (produced pc) < 2 * cap pc" using lt pm by simp
  have s: "unat (produced pc + n) = unat (produced pc) + unat n"
    using b lt assms(2) by (simp add: unat_plus_if')
  have "(P + unat n) mod (2 * cap pc) = (unat (produced pc) + unat n) mod (2 * cap pc)"
    unfolding pm by (simp only: mod_add_left_eq)
  also have "\<dots> = (if 2 * cap pc \<le> unat (produced pc) + unat n then unat (produced pc) + unat n - 2 * cap pc
      else unat (produced pc) + unat n)"
    using b assms(2) by (simp add: mod_if)
  finally show ?thesis
    using s lt by (auto simp: p word_le_nat_alt unat_2_size unat_sub)
qed

lemma produce_check_passes:
  assumes c: "counts pc P C" and n: "P + unat n \<le> C + cap pc" and p: "unat p = (P + unat n) mod (2 * cap pc)"
  shows "\<not> (p > consumed pc + pc_size pc \<or> p < consumed pc \<and> p > consumed pc - pc_size pc)"
proof -
  have lt: "0 < cap pc" "2 * cap pc < 2 ^ 31" and cm: "unat (consumed pc) = C mod (2 * cap pc)" and CP: "C \<le> P"
    using c by (simp_all add: counts_def)
  have b: "unat (consumed pc) < 2 * cap pc" using lt cm by simp
  have s: "unat (consumed pc + pc_size pc) = unat (consumed pc) + cap pc"
    using b lt by (simp add: unat_plus_if' cap_def)
  have "C \<le> P + unat n" using CP by simp
  note w = mod_diff_window [OF this n lt(1), folded p cm]
  have "\<not> p > consumed pc + pc_size pc"
  proof
    assume "p > consumed pc + pc_size pc"
    then have "unat (consumed pc) + cap pc < unat p" using s by (simp add: word_less_nat_alt)
    then show False using w n CP by linarith
  qed
  moreover have "\<not> p > consumed pc - pc_size pc" if "p < consumed pc"
  proof
    assume g: "p > consumed pc - pc_size pc"
    have l: "unat p < unat (consumed pc)" using that by (simp add: word_less_nat_alt)
    then have "unat p + 2 * cap pc - unat (consumed pc) \<le> cap pc" using w n CP by linarith
    then have le: "unat p + cap pc \<le> unat (consumed pc)" using lt by linarith
    then have "pc_size pc \<le> consumed pc" by (simp add: word_le_nat_alt cap_def)
    then have "unat (consumed pc - pc_size pc) = unat (consumed pc) - cap pc" by (simp add: unat_sub cap_def)
    then show False using g le by (simp add: word_less_nat_alt)
  qed
  ultimately show ?thesis by blast
qed

lemma pc_produce_counts:
  assumes c: "counts pc P C" and n: "P + unat n \<le> C + cap pc"
  shows "\<exists>pc'. pc_produce pc n = Some pc' \<and> counts pc' (P + unat n) C \<and> cap pc' = cap pc \<and> atEnd pc' = atEnd pc"
proof -
  have "C \<le> P" using c by (simp add: counts_def)
  with n have le: "unat n \<le> cap pc" by simp
  then have "\<not> n > pc_size pc" by (simp add: word_less_nat_alt cap_def)
  moreover define p where "p = (if produced pc + n \<ge> 2 * pc_size pc then produced pc + n - 2 * pc_size pc else produced pc + n)"
  note p = produced_next [OF c le p_def]
  ultimately have "pc_produce pc n = Some (wakeConsumer (pc\<lparr>produced := p\<rparr>))"
    using produce_check_passes [OF c n p] by (simp add: pc_produce_def Let_def p_def)
  moreover have "counts (wakeConsumer (pc\<lparr>produced := p\<rparr>)) (P + unat n) C"
    using c n p \<open>C \<le> P\<close> by (simp add: counts_def cap_def)
  ultimately show ?thesis by (simp add: cap_def)
qed

lemma pc_consumed_counts:
  assumes c: "counts pc P C" and n: "C + unat n \<le> P"
  shows "counts (pc_consumed pc n) P (C + unat n) \<and> cap (pc_consumed pc n) = cap pc
    \<and> atEnd (pc_consumed pc n) = atEnd pc"
proof -
  have lt: "0 < cap pc" "2 * cap pc < 2 ^ 31" and cm: "unat (consumed pc) = C mod (2 * cap pc)"
    and CP: "C \<le> P" "P \<le> C + cap pc"
    using c by (simp_all add: counts_def)
  have b: "unat (consumed pc) < 2 * cap pc" using lt cm by simp
  have le: "unat n \<le> cap pc" using n CP by simp
  have "n \<le> 2 * pc_size pc" using le lt by (simp add: word_le_nat_alt unat_2_size)
  then have d: "unat (2 * pc_size pc - n) = 2 * cap pc - unat n" using lt by (simp add: unat_sub unat_2_size)
  have s: "unat (consumed pc + n) = unat (consumed pc) + unat n"
    using b lt le by (simp add: unat_plus_if')
  have "unat (consumed (pc_consumed pc n)) = (if 2 * cap pc \<le> unat (consumed pc) + unat n
      then unat (consumed pc) + unat n - 2 * cap pc else unat (consumed pc) + unat n)"
  proof (cases "consumed pc \<ge> 2 * pc_size pc - n")
    case True
    then have ge: "2 * cap pc \<le> unat (consumed pc) + unat n" using d by (simp add: word_le_nat_alt)
    then have "2 * pc_size pc \<le> consumed pc + n" using s lt by (simp add: word_le_nat_alt unat_2_size)
    then have "unat (consumed pc + n - 2 * pc_size pc) = unat (consumed pc) + unat n - 2 * cap pc"
      using s lt by (simp add: unat_sub unat_2_size)
    then show ?thesis using True ge by (simp add: pc_consumed_def algebra_simps)
  next
    case False
    then have "\<not> 2 * cap pc \<le> unat (consumed pc) + unat n" using d by (simp add: word_le_nat_alt)
    then show ?thesis using False s by (simp add: pc_consumed_def)
  qed
  also have "\<dots> = (unat (consumed pc) + unat n) mod (2 * cap pc)" using b le by (simp add: mod_if)
  also have "\<dots> = (C + unat n) mod (2 * cap pc)" unfolding cm by (simp only: mod_add_left_eq)
  finally show ?thesis using c n CP by (simp add: counts_def pc_consumed_def cap_def Let_def)
qed

lemma getProducedAmount_waiting [simp]:
  "getProducedAmount (pc\<lparr>consumerIsWaiting := b\<rparr>) = getProducedAmount pc"
  by (simp add: getProducedAmount_def)

lemma wait_loop_spec:
  assumes "wait_loop pc m ws = Some (pc', n)"
  shows "n = getProducedAmount pc' \<and> pc_size pc' = pc_size pc \<and> consumed pc' = consumed pc
    \<and> ((\<forall>w \<in> set ws. \<forall>p e. w \<noteq> TimedOut p e) \<longrightarrow> m \<le> n \<or> atEnd pc')"
  using assms
proof (induction pc m ws rule: wait_loop.induct)
  case (1 pc m ws)
  show ?case
  proof (cases "getProducedAmount pc < m \<and> \<not> atEnd pc")
    case True
    with "1.prems" show ?thesis
      using "1.IH" [OF refl True]
      by (subst (asm) wait_loop.simps) (auto simp: Let_def split: list.splits wakeup.splits)
  next
    case False
    with "1.prems" show ?thesis by (subst (asm) wait_loop.simps) auto
  qed
qed

lemma consumeAny_spec:
  assumes "consumeAny pc m ws = Some (pc', n)"
  shows "n = getProducedAmount pc' \<and> pc_size pc' = pc_size pc \<and> consumed pc' = consumed pc
    \<and> \<not> consumerIsWaiting pc'
    \<and> ((\<forall>w \<in> set ws. \<forall>p e. w \<noteq> TimedOut p e) \<longrightarrow> m \<le> n \<or> atEnd pc')"
proof (cases "getProducedAmount pc \<ge> m \<or> atEnd pc")
  case True
  then show ?thesis using assms by (auto simp: consumeAny_def Let_def)
next
  case False
  let ?pc = "pc\<lparr>consumerIsWaiting := True\<rparr>"
  have "\<not> (getProducedAmount ?pc \<ge> m \<or> atEnd ?pc)" using False by simp
  with assms obtain pc1 where w: "wait_loop ?pc m ws = Some (pc1, n)" and pc': "pc' = pc1\<lparr>consumerIsWaiting := False\<rparr>"
    by (auto simp: consumeAny_def Let_def split: option.splits)
  show ?thesis using wait_loop_spec [OF w] by (auto simp: pc')
qed

lemma consumeAny_now:
  "consumeAny pc m [] = (if getProducedAmount pc \<ge> m \<or> atEnd pc
     then Some (pc\<lparr>consumerIsWaiting := False\<rparr>, getProducedAmount pc) else None)"
  by (auto simp: consumeAny_def Let_def wait_loop.simps [of _ _ "[]"])

lemma position_counts:
  assumes "counts pc P C"
  shows "unat (pc_getConsumerPosition pc) = C mod cap pc" and "unat (pc_getProducerPosition pc) = P mod cap pc"
proof -
  have "x mod (2 * S) mod S = x mod S" for x S :: nat by (simp add: mod_mod_cancel)
  then show "unat (pc_getConsumerPosition pc) = C mod cap pc" "unat (pc_getProducerPosition pc) = P mod cap pc"
    using assms by (simp_all add: counts_def pc_getConsumerPosition_def pc_getProducerPosition_def
        unat_mod_distrib unat_mod cap_def)
qed

lemma sint_small:
  assumes "unat (x :: u32) < 2 ^ 31"
  shows "sint x = int (unat x)"
proof -
  have u: "uint x = int (unat x)" by simp
  have "int (unat x) < int (2 ^ 31)" using assms by (simp only: of_nat_less_iff)
  then have "- (2 ^ 31) \<le> uint x" "uint x < 2 ^ 31" using uint_ge_0 [of x]
    by (simp_all only: u [symmetric] of_nat_power of_nat_numeral)
  then have "signed_take_bit 31 (uint x) = uint x" by (rule signed_take_bit_int_eq_self)
  then have "sint x = uint x" by (simp add: sint_uint)
  then show ?thesis unfolding u .
qed

lemma consumeContiguous_counts:
  assumes c: "counts pc P C" and "pc_consumeContiguousMinAmount pc m [] = Some (pc', n)"
  shows "counts pc' P C \<and> cap pc' = cap pc \<and> atEnd pc' = atEnd pc
    \<and> unat n = min (P - C) (cap pc - C mod cap pc)"
proof -
  have lt: "0 < cap pc" "2 * cap pc < 2 ^ 31" and CP: "C \<le> P" "P \<le> C + cap pc"
    using c by (simp_all add: counts_def)
  have pos: "unat (pc_size pc - consumed pc mod pc_size pc) = cap pc - C mod cap pc"
  proof -
    have u: "unat (consumed pc mod pc_size pc) = C mod cap pc"
      using position_counts(1) [OF c] by (simp add: pc_getConsumerPosition_def)
    have "C mod cap pc < cap pc" using lt by simp
    then have "consumed pc mod pc_size pc \<le> pc_size pc" using u by (simp add: word_le_nat_alt cap_def)
    then show ?thesis using u by (simp add: unat_sub cap_def)
  qed
  have a: "unat (getProducedAmount pc) = P - C" by (rule getProducedAmount_counts [OF c])
  have s: "sint (getProducedAmount pc) = int (P - C)"
    "sint (pc_size pc - consumed pc mod pc_size pc) = int (cap pc - C mod cap pc)"
    using a pos CP lt by (simp_all add: sint_small)
  have gt: "sint (pc_size pc - consumed pc mod pc_size pc) < sint (getProducedAmount pc)
      \<longleftrightarrow> cap pc - C mod cap pc < P - C"
    by (simp only: s of_nat_less_iff)
  have pc': "pc' = pc\<lparr>consumerIsWaiting := False\<rparr>"
    and n: "n = (if cap pc - C mod cap pc < P - C then pc_size pc - consumed pc mod pc_size pc
                 else getProducedAmount pc)"
    using assms(2) gt by (simp_all add: pc_consumeContiguousMinAmount_def consumeAny_now Let_def split: if_splits)
  have "unat n = min (P - C) (cap pc - C mod cap pc)"
    unfolding n using a pos by (simp add: min_def)
  then show ?thesis using c by (simp add: pc' counts_def cap_def)
qed

subsection \<open>The contract of a queue\<close>

locale counter_queue =
  fixes repr :: "'q \<Rightarrow> nat \<Rightarrow> nat \<Rightarrow> bool"
    and capacity :: "'q \<Rightarrow> nat"
    and produce :: "'q \<Rightarrow> u32 \<Rightarrow> 'q option"
    and consume :: "'q \<Rightarrow> u32 \<Rightarrow> 'q"
    and waiting :: "'q \<Rightarrow> u32"
  assumes window: "repr q P C \<Longrightarrow> C \<le> P \<and> P \<le> C + capacity q"
    and produce_law: "repr q P C \<Longrightarrow> P + unat n \<le> C + capacity q \<Longrightarrow>
      \<exists>q'. produce q n = Some q' \<and> repr q' (P + unat n) C \<and> capacity q' = capacity q"
    and consume_law: "repr q P C \<Longrightarrow> C + unat n \<le> P \<Longrightarrow>
      repr (consume q n) P (C + unat n) \<and> capacity (consume q n) = capacity q"
    and waiting_law: "repr q P C \<Longrightarrow> unat (waiting q) = P - C"
begin

text \<open>
  Two queues in opposite directions: what is produced into \<open>q\<close> was consumed from \<open>r\<close>
  before, and what is produced into \<open>r\<close> was consumed from \<open>q\<close>, except for the first
  \<open>S\<close> units, with which \<open>r\<close> starts.
\<close>

lemma opposed_produce:
  assumes "repr q P C" and "repr r P' C'" and "capacity q = S"
    and "P' \<le> S + C" and "P + unat n \<le> C'"
  shows "\<exists>q'. produce q n = Some q' \<and> repr q' (P + unat n) C \<and> capacity q' = S"
  using produce_law [OF assms(1), of n] window [OF assms(2)] assms(3-) by simp

lemma opposed_release:
  assumes "repr q P C" and "repr r P' C'" and "capacity r = S"
    and "P \<le> C'" and "P' + unat n \<le> S + C"
  shows "\<exists>r'. produce r n = Some r' \<and> repr r' (P' + unat n) C' \<and> capacity r' = S"
  using produce_law [OF assms(2), of n] window [OF assms(1)] assms(3-) by simp

lemma take_waiting:
  assumes "repr q P C" and "unat n \<le> unat (waiting q)"
  shows "repr (consume q n) P (C + unat n)"
proof -
  have "C + unat n \<le> P" using assms(2) waiting_law [OF assms(1)] window [OF assms(1)] by linarith
  then show ?thesis using consume_law [OF assms(1)] by blast
qed

end

interpretation pc: counter_queue counts cap pc_produce pc_consumed getProducedAmount
proof unfold_locales
  fix q P C n assume c: "counts q P C"
  then show "C \<le> P \<and> P \<le> C + cap q" by (simp add: counts_def)
  show "unat (getProducedAmount q) = P - C" by (rule getProducedAmount_counts [OF c])
  show "\<exists>q'. pc_produce q n = Some q' \<and> counts q' (P + unat n) C \<and> cap q' = cap q"
    if "P + unat n \<le> C + cap q" using pc_produce_counts [OF c that] by blast
  show "counts (pc_consumed q n) P (C + unat n) \<and> cap (pc_consumed q n) = cap q"
    if "C + unat n \<le> P" using pc_consumed_counts [OF c that] by blast
qed

subsection \<open>Properties\<close>

text \<open>
  C15.  The 32-bit counters modulo twice the buffer size are a faithful image of unbounded
  counters: the amount read from them is exactly what was produced and not yet consumed
  (a full and an empty buffer are told apart), the two positions are the counters modulo the
  buffer size, producing what fits never trips the overflow check and advances only the
  producer, and consuming what waits advances only the consumer.
\<close>

theorem pc_refines_counters:
  assumes "counts pc P C"
  shows "unat (pc_getWaiting pc) = P - C
    \<and> unat (pc_getProducerPosition pc) = P mod cap pc \<and> unat (pc_getConsumerPosition pc) = C mod cap pc
    \<and> (\<forall>n. P + unat n \<le> C + cap pc \<longrightarrow> (\<exists>pc'. pc_produce pc n = Some pc' \<and> counts pc' (P + unat n) C))
    \<and> (\<forall>n. C + unat n \<le> P \<longrightarrow> counts (pc_consumed pc n) P (C + unat n))"
  using getProducedAmount_counts [OF assms] position_counts [OF assms]
    pc_produce_counts [OF assms] pc_consumed_counts [OF assms]
  unfolding pc_getWaiting_def by blast

theorem pc_refines_counters_witness:
  "unat (pc_getWaiting (pc_makeProduconsum 10)) = 0 - 0
    \<and> unat (pc_getProducerPosition (pc_makeProduconsum 10)) = 0 mod cap (pc_makeProduconsum 10)
    \<and> unat (pc_getConsumerPosition (pc_makeProduconsum 10)) = 0 mod cap (pc_makeProduconsum 10)"
proof -
  have "counts (pc_makeProduconsum 10) 0 0" by (rule counts_make) simp_all
  from pc_refines_counters [OF this] show ?thesis by blast
qed





text \<open>
  C40.  The overflow check of \<^verbatim>\<open>pc_produce\<close> is incomplete: with the consumer in the
  first lap of the buffer, \<^verbatim>\<open>consumed - size\<close> wraps around, and producing past the
  space of the buffer goes unnoticed (here 19 units in a buffer of 10).
\<close>

theorem pc_produce_overflow_unnoticed:
  "\<exists>pc P C n pc'. counts pc P C \<and> P + unat n > C + cap pc \<and> n \<le> pc_size pc
     \<and> pc_produce pc n = Some pc' \<and> unat (getProducedAmount pc') > cap pc'"
proof -
  let ?pc = "(pc_makeProduconsum 10)\<lparr>produced := 14, consumed := 5\<rparr>"
  have "counts ?pc 14 5" by (simp add: counts_def cap_def pc_makeProduconsum_def)
  moreover have "pc_produce ?pc 10 = Some (?pc\<lparr>produced := 4\<rparr>)"
    by (simp add: pc_produce_def pc_makeProduconsum_def wakeConsumer_def)
  moreover have "unat (getProducedAmount (?pc\<lparr>produced := 4\<rparr>)) > cap (?pc\<lparr>produced := 4\<rparr>)"
    by (simp add: getProducedAmount_def cap_def pc_makeProduconsum_def)
  ultimately show ?thesis
    by (intro exI [of _ ?pc] exI [of _ 14] exI [of _ 5] exI [of _ "10 :: u32"] exI [of _ "?pc\<lparr>produced := 4\<rparr>"])
      (simp add: cap_def pc_makeProduconsum_def)
qed

end
