(* ===== verification/Fifo.thy ===== *)
theory Fifo
  imports Produconsum
begin

text \<open>
  The data ring between the network threads and the disk: \<^verbatim>\<open>src/fifo.c\<close>, the reader of
  \<^verbatim>\<open>src/sender-diskio.c\<close> and the writer of \<^verbatim>\<open>src/receiver-diskio.c\<close>, each as
  one round of its loop that starts when its wait is satisfied.  \<^verbatim>\<open>read\<close> and
  \<^verbatim>\<open>write\<close> are functions of the count they are asked for (\<open>None\<close> is \<open>-1\<close>).
  Positions and counts, \<^verbatim>\<open>int\<close>s between 0 and the size of the ring, are naturals.

  The abstraction \<open>pending\<close> is the byte sequence in the ring between the two counters of the
  data queue: the reader appends to it exactly what it read, the writer removes from its
  front exactly what it wrote.
\<close>

subsection \<open>The ring\<close>

record fifo =
  dataBuffer :: "byte list"
  dataBufSize :: u32
  freeMemQueue :: produconsum
  data :: produconsum

definition initFifo :: "(nat \<Rightarrow> byte list) \<Rightarrow> u32 \<Rightarrow> fifo option" where
  \<comment> \<open>\<open>alloc n\<close> is the \<open>n\<close> bytes of the aligned buffer\<close>
  "initFifo alloc blockSize =
     (let sz = blockSize * 4096
      in case pc_produce (pc_makeProduconsum sz) sz of
           None \<Rightarrow> None
         | Some fq \<Rightarrow> Some \<lparr>dataBuffer = alloc (unat sz), dataBufSize = sz, freeMemQueue = fq,
                           data = pc_makeProduconsum sz\<rparr>)"

definition write_at :: "nat \<Rightarrow> byte list \<Rightarrow> byte list \<Rightarrow> byte list" where
  "write_at pos bs buf = take pos buf @ bs @ drop (pos + length bs) buf"

lemma read_write_same: "p + length v \<le> length buf \<Longrightarrow> take (length v) (drop p (write_at p v buf)) = v"
  by (simp add: write_at_def)

lemma read_write_apart:
  assumes "p + length v \<le> length buf" and "p + length v \<le> q \<or> q + n \<le> p"
  shows "take n (drop q (write_at p v buf)) = take n (drop q buf)"
proof (cases "q + n \<le> p")
  case True
  have "write_at p v buf = take p buf @ v @ drop (p + length v) buf" by (simp add: write_at_def)
  moreover have "take n (drop q (take p buf)) = take n (drop q buf)" using True by (simp add: drop_take min_def)
  ultimately show ?thesis using True assms by simp
next
  case False
  then have q: "p + length v \<le> q" using assms by simp
  have "drop q (write_at p v buf) = drop (q - (p + length v)) (drop (p + length v) buf)"
    using q assms(1) by (simp add: write_at_def)
  also have "\<dots> = drop q buf" using q by simp
  finally show ?thesis by simp
qed

lemma length_write_at [simp]: "p + length v \<le> length buf \<Longrightarrow> length (write_at p v buf) = length buf"
  by (simp add: write_at_def)

lemma read_write_tail:
  assumes "a + bs \<le> length buf" and "lo + length v = bs"
  shows "take bs (drop a (write_at (a + lo) v buf)) = take lo (drop a buf) @ v"
proof -
  have "drop a (write_at (a + lo) v buf) = take lo (drop a buf) @ v @ drop (a + lo + length v) buf"
    using assms by (simp add: write_at_def drop_take)
  then show ?thesis using assms by simp
qed

definition padded :: "nat \<Rightarrow> nat \<Rightarrow> nat \<Rightarrow> byte list \<Rightarrow> byte list" where
  \<comment> \<open>the last of \<open>n\<close> blocks, with \<open>lo\<close> bytes of data, is filled up with zeros\<close>
  "padded lo n j b = (if j + 1 = n \<and> lo \<noteq> 0 then take lo b @ replicate (length b - lo) 0 else b)"

lemma padded_twice [simp]: "lo \<le> length b \<Longrightarrow> padded lo n j (padded lo n j b) = padded lo n j b"
  by (simp add: padded_def)

lemma length_padded [simp]: "lo \<le> length b \<Longrightarrow> length (padded lo n j b) = length b"
  by (simp add: padded_def)

lemma ring_adr_block:
  assumes bs: "0 < bs" "bs dvd L" "0 < L" and b: "bs dvd b"
  shows "bs dvd (b + i * bs) mod L \<and> (b + i * bs) mod L + bs \<le> (L :: nat)"
proof -
  obtain N where N: "L = bs * N" using bs by auto
  obtain a where a: "b = bs * a" using b by auto
  have "0 < N" using bs by (simp add: N)
  have "(b + i * bs) mod L = bs * ((a + i) mod N)"
    by (simp add: N a mult_mod_right distrib_left mult.commute)
  moreover have "bs * ((a + i) mod N) + bs \<le> bs * N"
  proof -
    have "(a + i) mod N + 1 \<le> N" using \<open>0 < N\<close> by (simp add: Suc_leI)
    then have "bs * ((a + i) mod N + 1) \<le> bs * N" by (rule mult_le_mono2)
    then show ?thesis by simp
  qed
  ultimately show ?thesis by (simp add: N)
qed

lemma ring_adr_inj:
  assumes bs: "0 < bs" "M * bs \<le> (L :: nat)" and i: "i < M" "j < M" and eq: "(b + i * bs) mod L = (b + j * bs) mod L"
  shows "i = j"
proof -
  have wlog: "x = y" if "x \<le> y" "y < M" "(b + x * bs) mod L = (b + y * bs) mod L" for x y
  proof -
    have "L dvd (b + y * bs) - (b + x * bs)"
      using that by (metis mod_eq_dvd_iff_nat add_le_mono1 add.commute mult_le_mono1)
    then have d: "L dvd (y - x) * bs" by (simp add: diff_mult_distrib)
    have "(y - x) * bs < M * bs" using that bs by simp
    then have "(y - x) * bs < L" using bs by linarith
    then have "(y - x) * bs = 0" using d by (auto dest: dvd_imp_le)
    then show ?thesis using bs that by simp
  qed
  show ?thesis using wlog [of i j] wlog [of j i] i eq by (cases "i \<le> j") auto
qed

lemma padded_cong:
  assumes "if j + 1 = n \<and> lo \<noteq> 0 then take lo a = take lo b \<and> length a = length b else a = b"
  shows "padded lo n j a = padded lo n j b"
  using assms by (auto simp: padded_def split: if_splits)

subsection \<open>The disk threads\<close>

definition BLOCKSIZE :: nat where "BLOCKSIZE = 4096"

datatype 'a round = Waits | Stops 'a | Continues 'a | Exits | Fatal

definition localReader :: "(nat \<Rightarrow> byte list option) \<Rightarrow> fifo \<Rightarrow> fifo round" where
  "localReader rd f =
     (let pos = unat (pc_getConsumerPosition (freeMemQueue f))
      in case pc_consumeContiguousMinAmount (freeMemQueue f) (of_nat BLOCKSIZE) [] of
           None \<Rightarrow> Waits
         | Some (fq, avail) \<Rightarrow>
             let f = f\<lparr>freeMemQueue := fq\<rparr>;
                 bytes = unat avail;
                 bytes = (if bytes > (pos + bytes) mod BLOCKSIZE
                          then bytes - (pos + bytes) mod BLOCKSIZE else bytes)
             in if bytes = 0 then Stops f
                else
                  (case rd bytes of
                     None \<Rightarrow> Exits
                   | Some bs \<Rightarrow>
                       if bs = [] then Stops (f\<lparr>data := pc_produceEnd (data f)\<rparr>)
                       else
                         (case pc_produce (data f) (of_nat (length bs)) of
                            None \<Rightarrow> Fatal
                          | Some d \<Rightarrow> Continues (f\<lparr>dataBuffer := write_at pos bs (dataBuffer f),
                              freeMemQueue := pc_consumed fq (of_nat (length bs)), data := d\<rparr>))))"

definition writer :: "(nat \<Rightarrow> nat option) \<Rightarrow> fifo \<Rightarrow> (fifo \<times> byte list) round" where
  \<comment> \<open>with the bytes given to the output\<close>
  "writer wr f =
     (let fifoSize = unat (pc_getSize (data f)); pos = unat (pc_getConsumerPosition (data f))
      in if fifoSize mod BLOCKSIZE \<noteq> 0 then Fatal
         else
           (case pc_consumeContiguousMinAmount (data f) (of_nat BLOCKSIZE) [] of
              None \<Rightarrow> Waits
            | Some (d, avail) \<Rightarrow>
                let f = f\<lparr>data := d\<rparr>; bytes = unat avail
                in if bytes = 0 then Stops (f, [])
                   else
                     let bytes = (if pos + bytes \<noteq> fifoSize \<and> bytes > (pos + bytes) mod BLOCKSIZE
                                  then bytes - (pos + bytes) mod BLOCKSIZE else bytes);
                         bytes = (if bytes > 128 * 1024 then 64 * 1024 else bytes)
                     in case wr bytes of
                          None \<Rightarrow> Exits
                        | Some n \<Rightarrow>
                            (case pc_produce (freeMemQueue f) (of_nat n) of
                               None \<Rightarrow> Fatal
                             | Some fq \<Rightarrow> Continues (f\<lparr>data := pc_consumed d (of_nat n), freeMemQueue := fq\<rparr>,
                                 take n (drop pos (dataBuffer f))))))"

subsection \<open>The byte sequence in the ring\<close>

definition fifo_counts :: "fifo \<Rightarrow> nat \<Rightarrow> nat \<Rightarrow> nat \<Rightarrow> nat \<Rightarrow> bool" where
  \<comment> \<open>\<open>P C\<close> count the data queue, \<open>P' C'\<close> the free memory queue\<close>
  "fifo_counts f P C P' C' \<longleftrightarrow> counts (data f) P C \<and> counts (freeMemQueue f) P' C'
     \<and> cap (data f) = unat (dataBufSize f) \<and> cap (freeMemQueue f) = unat (dataBufSize f)
     \<and> length (dataBuffer f) = unat (dataBufSize f)
     \<and> P \<le> C' \<and> P' \<le> unat (dataBufSize f) + C"

definition pending :: "fifo \<Rightarrow> nat \<Rightarrow> nat \<Rightarrow> byte list" where
  "pending f P C = map (\<lambda>i. dataBuffer f ! (i mod length (dataBuffer f))) [C..<P]"

lemma fifo_counts_order:
  assumes "fifo_counts f P C P' C'"
  shows "C \<le> P \<and> P \<le> C' \<and> C' \<le> P' \<and> P' \<le> unat (dataBufSize f) + C \<and> 0 < unat (dataBufSize f)
    \<and> 2 * unat (dataBufSize f) < 2 ^ 31"
  using assms by (auto simp: fifo_counts_def counts_def)

lemma initFifo_counts:
  assumes "0 < unat blockSize" and "unat blockSize < 2 ^ 18"
    and alloc: "\<And>n. length (alloc n) = n"
  shows "\<exists>f. initFifo alloc blockSize = Some f \<and> fifo_counts f 0 0 (unat (dataBufSize f)) 0
    \<and> unat (dataBufSize f) = unat blockSize * 4096"
proof -
  let ?sz = "blockSize * 4096"
  have u: "unat ?sz = unat blockSize * 4096" using assms(2) by (simp add: unat_word_ariths)
  then have b: "0 < unat ?sz" "2 * unat ?sz < 2 ^ 31" using assms(1,2) by simp_all
  note m = counts_make [OF b]
  have c: "cap (pc_makeProduconsum ?sz) = unat ?sz" by (simp add: cap_def pc_makeProduconsum_def)
  obtain fq where "pc_produce (pc_makeProduconsum ?sz) ?sz = Some fq" "counts fq (unat ?sz) 0" "cap fq = unat ?sz"
    using pc_produce_counts [OF m, of ?sz] c by auto
  then show ?thesis using m c alloc u by (simp add: initFifo_def Let_def fifo_counts_def)
qed

lemma mod_window_neq:
  fixes i j S :: nat
  assumes "i < j" and "j < i + S"
  shows "i mod S \<noteq> j mod S"
proof
  assume "i mod S = j mod S"
  then have "(j - i) mod S = 0" using assms(1) by (metis less_imp_le mod_eq_dvd_iff_nat mod_0_imp_dvd dvd_imp_mod_0)
  moreover have "j - i < S" "0 < j - i" using assms by auto
  ultimately show False by simp
qed

lemma mod_contiguous:
  fixes P S :: nat
  assumes "P mod S + k < S"
  shows "(P + k) mod S = P mod S + k"
  using assms by (metis mod_add_left_eq mod_less)

lemma write_at_nth:
  assumes "pos + length bs \<le> length buf" and "i < length buf"
  shows "length (write_at pos bs buf) = length buf
    \<and> write_at pos bs buf ! i = (if pos \<le> i \<and> i < pos + length bs then bs ! (i - pos) else buf ! i)"
proof -
  have "write_at pos bs buf ! i = buf ! i" if "pos + length bs \<le> i"
  proof -
    obtain d where "i = pos + length bs + d" using \<open>pos + length bs \<le> i\<close> le_iff_add by blast
    then show ?thesis using assms by (simp add: write_at_def nth_append)
  qed
  then show ?thesis using assms by (auto simp: write_at_def nth_append)
qed

lemma pending_write:
  assumes S: "length (dataBuffer f) = S" and fit: "P mod S + length bs \<le> S" and room: "P + length bs \<le> S + C"
    and CP: "C \<le> P" and f': "dataBuffer f' = write_at (P mod S) bs (dataBuffer f)" and "0 < S"
  shows "pending f' (P + length bs) C = pending f P C @ bs"
proof -
  have len: "length (write_at (P mod S) bs (dataBuffer f)) = S"
    using write_at_nth [of "P mod S" bs "dataBuffer f" 0] assms by simp
  have old: "write_at (P mod S) bs (dataBuffer f) ! (i mod S) = dataBuffer f ! (i mod S)" if "C \<le> i" "i < P" for i
  proof -
    have "\<not> (P mod S \<le> i mod S \<and> i mod S < P mod S + length bs)"
    proof
      assume h: "P mod S \<le> i mod S \<and> i mod S < P mod S + length bs"
      define k where "k = i mod S - P mod S"
      have "k < length bs" "P mod S + k = i mod S" using h by (auto simp: k_def)
      then have "(P + k) mod S = i mod S" using fit by (simp add: mod_contiguous)
      moreover have "i < P + k" "P + k < i + S" using that room \<open>k < length bs\<close> by linarith+
      ultimately show False using mod_window_neq by metis
    qed
    then show ?thesis using write_at_nth [of "P mod S" bs "dataBuffer f" "i mod S"] S fit \<open>0 < S\<close> by auto
  qed
  have new: "write_at (P mod S) bs (dataBuffer f) ! ((P + k) mod S) = bs ! k" if "k < length bs" for k
    using write_at_nth [of "P mod S" bs "dataBuffer f" "P mod S + k"] S fit that by (simp add: mod_contiguous)
  have "map (\<lambda>i. write_at (P mod S) bs (dataBuffer f) ! (i mod S)) [P..<P + length bs] = bs"
    by (rule nth_equalityI) (simp_all add: new)
  then show ?thesis
    using CP old by (simp add: pending_def f' len S upt_add_eq_append [of C P] cong: map_cong)
qed

lemma pending_split:
  assumes "C + n \<le> P"
  shows "pending f P C = pending f (C + n) C @ pending f P (C + n)"
proof -
  obtain k where "P = (C + n) + k" using assms by (metis le_iff_add)
  then have "[C..<P] = [C..<C + n] @ [C + n..<P]" by (simp only: upt_add_eq_append [OF le_add1])
  then show ?thesis by (simp add: pending_def)
qed

lemma pending_prefix:
  assumes "length (dataBuffer f) = S" and "C mod S + n \<le> S"
  shows "pending f (C + n) C = take n (drop (C mod S) (dataBuffer f))"
proof (rule nth_equalityI)
  fix k assume "k < length (pending f (C + n) C)"
  then have "k < n" by (simp add: pending_def)
  then have "(C + k) mod S = C mod S + k" using assms(2) by (simp add: mod_contiguous)
  then show "pending f (C + n) C ! k = take n (drop (C mod S) (dataBuffer f)) ! k"
    using assms \<open>k < n\<close> by (simp add: pending_def)
qed (use assms in \<open>simp add: pending_def\<close>)

subsection \<open>The rounds keep the sequence\<close>

lemma unat_of_nat_small: "n < 2 ^ 32 \<Longrightarrow> unat (word_of_nat n :: u32) = n"
  by (simp add: unat_of_nat take_bit_nat_eq_self)

lemma fifo_counts_produceEnd:
  assumes "fifo_counts f P C P' C'"
  shows "fifo_counts (f\<lparr>data := pc_produceEnd (data f)\<rparr>) P C P' C'"
  using assms by (simp add: fifo_counts_def counts_def cap_def pc_produceEnd_def)

lemma localReader_round:
  assumes inv: "fifo_counts f P C P' P" and rd: "\<And>n bs. rd n = Some bs \<Longrightarrow> length bs \<le> n"
  shows "case localReader rd f of
      Continues f' \<Rightarrow> \<exists>bs. fifo_counts f' (P + length bs) C P' (P + length bs) \<and> 0 < length bs
        \<and> pending f' (P + length bs) C = pending f P C @ bs \<and> (\<exists>n. rd n = Some bs)
    | Stops f' \<Rightarrow> fifo_counts f' P C P' P \<and> pending f' P C = pending f P C
    | Fatal \<Rightarrow> False
    | _ \<Rightarrow> True"
proof (cases "pc_consumeContiguousMinAmount (freeMemQueue f) (of_nat BLOCKSIZE) []")
  case None
  then show ?thesis by (simp add: localReader_def)
next
  case (Some r)
  obtain fq avail where r: "r = (fq, avail)" by force
  define S where "S = unat (dataBufSize f)"
  have c: "counts (data f) P C" "counts (freeMemQueue f) P' P" "cap (data f) = S" "cap (freeMemQueue f) = S"
    "length (dataBuffer f) = S" "P' \<le> S + C"
    and o: "C \<le> P" "P \<le> P'" "0 < S" "2 * S < 2 ^ 31"
    using inv fifo_counts_order [OF inv] by (simp_all add: fifo_counts_def S_def)
  note cc = consumeContiguous_counts [OF c(2) Some [unfolded r]]
  have fit: "unat avail \<le> P' - P" "unat avail \<le> S - P mod S" using cc c by simp_all
  have pos: "unat (pc_getConsumerPosition (freeMemQueue f)) = P mod S" using position_counts [OF c(2)] c by simp
  define bytes where "bytes = (if unat avail > (P mod S + unat avail) mod BLOCKSIZE
                          then unat avail - (P mod S + unat avail) mod BLOCKSIZE else unat avail)"
  have le: "bytes \<le> unat avail" by (simp add: bytes_def)
  show ?thesis
  proof (cases "bytes = 0 \<or> rd bytes = None \<or> rd bytes = Some []")
    case True
    let ?f = "f\<lparr>freeMemQueue := fq\<rparr>"
    have i: "fifo_counts ?f P C P' P" using inv cc by (simp add: fifo_counts_def)
    have p: "pending (f\<lparr>freeMemQueue := q, data := d\<rparr>) P C = pending f P C"
      "pending (f\<lparr>freeMemQueue := q\<rparr>) P C = pending f P C" for q d by (simp_all add: pending_def)
    have "localReader rd f \<in> {Stops ?f, Exits, Stops (?f\<lparr>data := pc_produceEnd (data ?f)\<rparr>)}"
      using True Some r pos by (auto simp: localReader_def Let_def bytes_def [symmetric])
    then show ?thesis using i fifo_counts_produceEnd [OF i] p by auto
  next
    case False
    then obtain bs where bs: "rd bytes = Some bs" "bs \<noteq> []" "bytes \<noteq> 0" by auto
    define n where "n = length bs"
    have n: "n \<le> unat avail" "n < 2 ^ 32" using rd [OF bs(1)] le fit o by (simp_all add: n_def)
    have un: "unat (word_of_nat n :: u32) = n" by (rule unat_of_nat_small [OF n(2)])
    have room: "P + n \<le> P'" using n fit o by linarith
    have q: "counts (pc_consumed fq (word_of_nat n)) P' (P + n)" "cap (pc_consumed fq (word_of_nat n)) = S"
      using pc_consumed_counts [of fq P' P "word_of_nat n"] room cc c un by simp_all
    obtain d where d: "pc_produce (data f) (word_of_nat n) = Some d" "counts d (P + n) C" "cap d = S"
      using pc.opposed_produce [OF c(1) q(1) c(3,6), of "word_of_nat n"] un by auto
    let ?f = "f\<lparr>dataBuffer := write_at (P mod S) bs (dataBuffer f), freeMemQueue := pc_consumed fq (word_of_nat n), data := d\<rparr>"
    have res: "localReader rd f = Continues ?f"
      using Some r pos bs d by (simp add: localReader_def Let_def bytes_def [symmetric] n_def)
    have w: "P mod S + length bs \<le> S" "P + length bs \<le> S + C"
      using n fit o c(6) mod_less_divisor [OF o(3), of P] unfolding n_def by linarith+
    have "length (write_at (P mod S) bs (dataBuffer f)) = S"
      using write_at_nth [of "P mod S" bs "dataBuffer f" 0] w c o by simp
    then have "fifo_counts ?f (P + n) C P' (P + n)"
      using d q c o by (simp add: fifo_counts_def S_def)
    moreover have "pending ?f (P + n) C = pending f P C @ bs"
      using pending_write [OF c(5) w o(1) _ o(3), of ?f] by (simp add: n_def)
    ultimately show ?thesis using bs unfolding res by (auto simp: n_def)
  qed
qed

lemma writer_round:
  assumes inv: "fifo_counts f P C P' C'" and full: "P' = unat (dataBufSize f) + C"
    and aligned: "unat (dataBufSize f) mod BLOCKSIZE = 0" and wr: "\<And>n m. wr n = Some m \<Longrightarrow> m \<le> n"
  shows "case writer wr f of
      Continues (f', out) \<Rightarrow> fifo_counts f' P (C + length out) (P' + length out) C'
        \<and> pending f P C = out @ pending f' P (C + length out)
    | Stops (f', out) \<Rightarrow> out = [] \<and> P = C \<and> atEnd (data f) \<and> fifo_counts f' P C P' C'
    | Fatal \<Rightarrow> False
    | _ \<Rightarrow> True"
proof (cases "pc_consumeContiguousMinAmount (data f) (of_nat BLOCKSIZE) []")
  case None
  then show ?thesis using aligned inv
    by (simp add: writer_def pc_getSize_def cap_def [symmetric] fifo_counts_def)
next
  case (Some r)
  obtain d avail where r: "r = (d, avail)" by force
  define S where "S = unat (dataBufSize f)"
  have c: "counts (data f) P C" "counts (freeMemQueue f) P' C'" "cap (data f) = S" "cap (freeMemQueue f) = S"
    "length (dataBuffer f) = S" "P \<le> C'"
    and o: "C \<le> P" "C' \<le> P'" "0 < S" "2 * S < 2 ^ 31" "P' = S + C"
    using inv full fifo_counts_order [OF inv] by (simp_all add: fifo_counts_def S_def)
  note cc = consumeContiguous_counts [OF c(1) Some [unfolded r]]
  have fit: "unat avail \<le> P - C" "unat avail \<le> S - C mod S" using cc c by simp_all
  have pos: "unat (pc_getConsumerPosition (data f)) = C mod S" using position_counts [OF c(1)] c by simp
  have size: "unat (pc_getSize (data f)) = S" using c(3) by (simp add: pc_getSize_def cap_def)
  define b1 where "b1 = (if C mod S + unat avail \<noteq> S \<and> unat avail > (C mod S + unat avail) mod BLOCKSIZE
                then unat avail - (C mod S + unat avail) mod BLOCKSIZE else unat avail)"
  define bytes where "bytes = (if b1 > 128 * 1024 then 64 * 1024 else b1)"
  have le: "bytes \<le> unat avail" by (auto simp: bytes_def b1_def)
  have al: "S mod BLOCKSIZE = 0" using aligned by (simp add: S_def)
  have eq: "writer wr f = (if unat avail = 0 then Stops (f\<lparr>data := d\<rparr>, [])
      else case wr bytes of
             None \<Rightarrow> Exits
           | Some n \<Rightarrow>
               (case pc_produce (freeMemQueue f) (of_nat n) of
                  None \<Rightarrow> Fatal
                | Some fq \<Rightarrow> Continues (f\<lparr>data := pc_consumed d (of_nat n), freeMemQueue := fq\<rparr>,
                    take n (drop (C mod S) (dataBuffer f)))))"
    using Some r pos size al by (simp add: writer_def Let_def b1_def bytes_def cong: option.case_cong)
  show ?thesis
  proof (cases "unat avail = 0")
    case True
    let ?f = "f\<lparr>data := d\<rparr>"
    have "writer wr f = Stops (?f, [])"
      using True by (simp add: eq)
    moreover have "P = C"
    proof -
      have "min (P - C) (S - C mod S) = 0" using True cc c by simp
      moreover have "C mod S < S" using o by simp
      ultimately show ?thesis using o by linarith
    qed
    moreover have "atEnd (data f)"
    proof (rule ccontr)
      assume "\<not> atEnd (data f)"
      then have "of_nat BLOCKSIZE \<le> getProducedAmount (data f)"
        using Some by (auto simp: pc_consumeContiguousMinAmount_def consumeAny_now split: if_splits)
      then have "4096 \<le> P - C"
        using getProducedAmount_counts [OF c(1)] by (simp add: word_le_nat_alt BLOCKSIZE_def)
      then show False using \<open>P = C\<close> by simp
    qed
    ultimately show ?thesis using cc inv by (simp add: fifo_counts_def)
  next
    case False
    show ?thesis
    proof (cases "wr bytes")
      case None
      then have "writer wr f = Exits"
        using False by (simp add: eq)
      then show ?thesis by simp
    next
      case (Some n)
      have n: "n \<le> unat avail" "n < 2 ^ 32" using wr [OF Some] le fit o by simp_all
      have un: "unat (word_of_nat n :: u32) = n" by (rule unat_of_nat_small [OF n(2)])
      have room: "C + n \<le> P" using n fit o by linarith
      have q: "counts (pc_consumed d (word_of_nat n)) P (C + n)" "cap (pc_consumed d (word_of_nat n)) = S"
        using pc_consumed_counts [of d P C "word_of_nat n"] room cc c un by simp_all
      obtain fq where fq: "pc_produce (freeMemQueue f) (word_of_nat n) = Some fq" "counts fq (P' + n) C'" "cap fq = S"
        using pc.opposed_release [OF q(1) c(2,4,6), of "word_of_nat n"] un o by auto
      let ?f = "f\<lparr>data := pc_consumed d (word_of_nat n), freeMemQueue := fq\<rparr>"
      let ?out = "take n (drop (C mod S) (dataBuffer f))"
      have res: "writer wr f = Continues (?f, ?out)"
        using False Some fq by (simp add: eq)
      have w: "C mod S + n \<le> S" "C + n \<le> P" using n fit o mod_less_divisor [OF o(3), of C] by linarith+
      have len: "length ?out = n" using w c by simp
      have "fifo_counts ?f P (C + n) (P' + n) C'"
        using q fq c o by (simp add: fifo_counts_def S_def)
      moreover have "pending f P C = ?out @ pending ?f P (C + n)"
        using pending_split [OF w(2), of f] pending_prefix [OF c(5) w(1)] by (simp add: pending_def)
      ultimately show ?thesis unfolding res using len by simp
    qed
  qed
qed

subsection \<open>Properties\<close>

text \<open>
  C16.  One round of the sender's disk reader appends to the byte sequence of the ring exactly
  the bytes that \<^verbatim>\<open>read\<close> returned, overwrites nothing that is still to be sent, keeps the
  counters of both queues consistent and never runs into the fatal overflow of
  \<^verbatim>\<open>pc_produce\<close>.
\<close>

theorem localReader_appends:
  assumes "fifo_counts f P C P' P" and "\<And>n bs. rd n = Some bs \<Longrightarrow> length bs \<le> n"
  shows "case localReader rd f of
      Continues f' \<Rightarrow> \<exists>bs. fifo_counts f' (P + length bs) C P' (P + length bs) \<and> 0 < length bs
        \<and> pending f' (P + length bs) C = pending f P C @ bs \<and> (\<exists>n. rd n = Some bs)
    | Stops f' \<Rightarrow> fifo_counts f' P C P' P \<and> pending f' P C = pending f P C
    | Fatal \<Rightarrow> False
    | _ \<Rightarrow> True"
  by (rule localReader_round [OF assms])

definition zeros :: "nat \<Rightarrow> byte list" where
  "zeros n = replicate n 0"

lemma zeros_length: "length (zeros n) = n"
  by (simp add: zeros_def)

theorem localReader_appends_witness:
  "\<exists>f. initFifo zeros 1 = Some f \<and>
   (case localReader (\<lambda>n. Some (take n [1, 2, 3])) f of
      Continues f' \<Rightarrow> \<exists>bs. fifo_counts f' (0 + length bs) 0 4096 (0 + length bs) \<and> 0 < length bs
        \<and> pending f' (0 + length bs) 0 = pending f 0 0 @ bs \<and> (\<exists>n. Some (take n [1, 2, 3]) = Some bs)
    | Stops f' \<Rightarrow> fifo_counts f' 0 0 4096 0 \<and> pending f' 0 0 = pending f 0 0
    | Fatal \<Rightarrow> False
    | _ \<Rightarrow> True)"
proof -
  obtain f where f: "initFifo zeros 1 = Some f" "fifo_counts f 0 0 4096 0"
    using initFifo_counts [of 1 zeros] zeros_length by auto
  show ?thesis
    using localReader_appends [OF f(2), of "\<lambda>n. Some (take n [1, 2, 3])"] f(1) by auto
qed



end
