(* ===== verification/Socklib.thy ===== *)
theory Socklib
  imports Prelude
begin

text \<open>
  The pure part of \<^verbatim>\<open>src/socklib.c\<close>: addresses, byte order, the array of sockets a
  receiver selects on.  The host is little-endian, so \<^verbatim>\<open>htons\<close> and \<^verbatim>\<open>htonl\<close>
  reverse the bytes.  What \<^verbatim>\<open>select\<close> finds is an argument; a set of descriptors is a set of
  integers.  Sockets are made in Sockets.
\<close>

subsection \<open>Byte order\<close>

definition htons :: "16 word \<Rightarrow> 16 word" where
  "htons x = push_bit 8 x OR drop_bit 8 x"

definition htonl :: "u32 \<Rightarrow> u32" where
  "htonl x = push_bit 24 (take_bit 8 x) OR push_bit 16 (take_bit 8 (drop_bit 8 x))
     OR push_bit 8 (take_bit 8 (drop_bit 16 x)) OR take_bit 8 (drop_bit 24 x)"

definition ntohs :: "16 word \<Rightarrow> 16 word" where
  "ntohs = htons"

definition ntohl :: "u32 \<Rightarrow> u32" where
  "ntohl = htonl"

lemma bit_htons: "bit (htons x) n \<longleftrightarrow> n < 16 \<and> bit x (if n < 8 then n + 8 else n - 8)"
  by (auto simp: htons_def bit_or_iff bit_push_bit_iff bit_drop_bit_eq ac_simps dest: bit_imp_le_length)

lemma ntohs_htons [simp]: "ntohs (htons x) = x"
proof (rule bit_word_eqI)
  fix n assume "n < LENGTH(16)"
  then show "bit (ntohs (htons x)) n = bit x n" by (auto simp: ntohs_def bit_htons)
qed

lemma bit_htonl: "bit (htonl x) n \<longleftrightarrow> n < 32 \<and>
    bit x (if n < 8 then n + 24 else if n < 16 then n + 8 else if n < 24 then n - 8 else n - 24)"
proof (cases "n < 32")
  case True
  then consider "n < 8" | "8 \<le> n" "n < 16" | "16 \<le> n" "n < 24" | "24 \<le> n" by linarith
  then show ?thesis using True
    by cases (auto simp: htonl_def bit_or_iff bit_push_bit_iff bit_take_bit_iff bit_drop_bit_eq ac_simps
        dest: bit_imp_le_length)
next
  case False
  then show ?thesis by (auto dest: bit_imp_le_length)
qed

lemma ntohl_htonl [simp]: "ntohl (htonl x) = x"
proof (rule bit_word_eqI)
  fix n assume "n < LENGTH(32)"
  then show "bit (ntohl (htonl x)) n = bit x n" by (auto simp: ntohl_def bit_htonl)
qed

lemma htonl_ntohl [simp]: "htonl (ntohl x) = x"
  using ntohl_htonl by (simp add: ntohl_def)

lemma ntohl_or: "ntohl (x OR y) = ntohl x OR ntohl y" and ntohl_and: "ntohl (x AND y) = ntohl x AND ntohl y"
  by (rule bit_word_eqI, simp add: ntohl_def bit_htonl bit_or_iff bit_and_iff)+

subsection \<open>Addresses\<close>

record sockaddr_in =
  sin_family :: "16 word"
  sin_port :: "16 word"
  sin_addr :: u32

definition AF_INET :: "16 word" where "AF_INET = 2"

definition ipIsEqual :: "sockaddr_in \<Rightarrow> sockaddr_in \<Rightarrow> bool" where
  "ipIsEqual left right = (sin_addr left = sin_addr right)"

definition ipIsZero :: "sockaddr_in \<Rightarrow> bool" where
  "ipIsZero ip = (sin_addr ip = 0)"

definition getPort :: "sockaddr_in \<Rightarrow> 16 word" where
  "getPort addr = ntohs (sin_port addr)"

definition setPort :: "sockaddr_in \<Rightarrow> 16 word \<Rightarrow> sockaddr_in" where
  "setPort addr port = addr\<lparr>sin_port := htons port\<rparr>"

definition clearIp :: "sockaddr_in \<Rightarrow> sockaddr_in" where
  "clearIp addr = addr\<lparr>sin_addr := 0, sin_family := AF_INET\<rparr>"

definition copyIpFrom :: "sockaddr_in \<Rightarrow> sockaddr_in \<Rightarrow> sockaddr_in" where
  "copyIpFrom dst src = dst\<lparr>sin_addr := sin_addr src, sin_family := sin_family src\<rparr>"

definition getDefaultMcastAddress :: "sockaddr_in \<Rightarrow> sockaddr_in" where
  \<comment> \<open>from the address of the interface\<close>
  "getDefaultMcastAddress my = my\<lparr>sin_addr := (sin_addr my AND htonl 0x07ffffff) OR htonl 0xe8000000\<rparr>"

definition addr_bytes :: "u32 \<Rightarrow> byte list" where
  \<comment> \<open>the four bytes of \<^verbatim>\<open>struct in_addr\<close> in memory\<close>
  "addr_bytes a = [ucast a, ucast (drop_bit 8 a), ucast (drop_bit 16 a), ucast (drop_bit 24 a)]"

definition addr_of_bytes :: "byte list \<Rightarrow> u32" where
  "addr_of_bytes bs = ucast (bs ! 0) OR push_bit 8 (ucast (bs ! 1)) OR push_bit 16 (ucast (bs ! 2))
     OR push_bit 24 (ucast (bs ! 3))"

definition copyToMessage :: "byte list \<Rightarrow> sockaddr_in \<Rightarrow> byte list" where
  "copyToMessage dst src = addr_bytes (sin_addr src) @ drop 4 dst"

definition copyFromMessage :: "sockaddr_in \<Rightarrow> byte list \<Rightarrow> sockaddr_in" where
  "copyFromMessage dst src = dst\<lparr>sin_addr := addr_of_bytes src\<rparr>"

definition isAddressEqual :: "sockaddr_in \<Rightarrow> sockaddr_in \<Rightarrow> bool" where
  \<comment> \<open>\<^verbatim>\<open>memcmp\<close> of the first 8 bytes: family, port and address\<close>
  "isAddressEqual a b = (sin_family a = sin_family b \<and> sin_port a = sin_port b \<and> sin_addr a = sin_addr b)"

definition isMcastAddress :: "sockaddr_in \<Rightarrow> bool" where
  "isMcastAddress addr = (let ip = drop_bit 24 (ntohl (sin_addr addr)) in ip \<ge> 0xe0 \<and> ip < 0xf0)"

subsection \<open>Sockets\<close>

definition zeroSockArray :: "nat \<Rightarrow> int list" where
  "zeroSockArray nr = fold (\<lambda>i socks. socks[i := -1]) [0..<nr] (replicate nr 0)"

definition prepareForSelect :: "int list \<Rightarrow> int \<times> int set" where
  \<comment> \<open>\<^verbatim>\<open>maxFd\<close> and the set of descriptors\<close>
  "prepareForSelect socks = fold (\<lambda>i (maxFd, read_set).
     if socks ! i = -1 then (maxFd, read_set)
     else (if socks ! i > maxFd then socks ! i else maxFd, insert (socks ! i) read_set))
     [0..<length socks] (-1, {})"

definition getSelectedSock :: "int list \<Rightarrow> int set \<Rightarrow> int" where
  "getSelectedSock socks read_set =
     (case filter (\<lambda>s. s \<noteq> -1 \<and> s \<in> read_set) socks of [] \<Rightarrow> -1 | s # _ \<Rightarrow> s)"

definition selected :: "int \<Rightarrow> int set \<Rightarrow> int set \<Rightarrow> int set" where
  \<comment> \<open>\<^verbatim>\<open>select(nfds, &read_set, ...)\<close>: the descriptors below \<open>nfds\<close> that are ready\<close>
  "selected nfds read_set ready = {fd \<in> read_set. fd < nfds \<and> fd \<in> ready}"

definition selectSock :: "int list \<Rightarrow> int set \<Rightarrow> int" where
  \<comment> \<open>\<open>ready\<close> are the descriptors that have data before the timeout\<close>
  "selectSock socks ready =
     (let (maxFd, read_set) = prepareForSelect socks
      in getSelectedSock socks (selected (maxFd + 1) read_set ready))"

definition closeSock :: "int list \<Rightarrow> nat \<Rightarrow> int list \<times> int option" where
  \<comment> \<open>and the descriptor closed, if any\<close>
  "closeSock socks target =
     (let sock = socks ! target; socks = socks[target := -1]
      in if \<exists>s \<in> set socks. s = sock then (socks, None) else (socks, Some sock))"

lemma prepareForSelect_spec:
  "snd (prepareForSelect socks) = set socks - {-1} \<and> (\<forall>s \<in> set socks. s \<noteq> -1 \<longrightarrow> s \<le> fst (prepareForSelect socks))"
proof -
  let ?f = "\<lambda>i (maxFd, read_set). if socks ! i = -1 then (maxFd, read_set)
     else (if socks ! i > maxFd then socks ! i else maxFd, insert (socks ! i) read_set)"
  let ?P = "\<lambda>n (m, R). R = set (take n socks) - {-1 :: int} \<and> (\<forall>s \<in> R. s \<le> m)"
  have "?P (length socks) (fold ?f [0..<length socks] (-1, {}))"
  proof (rule fold_upt_inv [where P = ?P])
    fix n s assume n: "n < length socks" and P: "?P n s"
    obtain m R where s: "s = (m, R)" by force
    have le: "x \<le> socks ! n" if "m < socks ! n" "x \<in> set (take n socks)" "x \<noteq> -1" for x
      using P that by (force simp: s)
    show "?P (Suc n) (?f n s)" using n P le by (auto simp: s take_Suc_conv_app_nth)
  qed simp_all
  then show ?thesis by (auto simp: prepareForSelect_def split: prod.splits)
qed

lemma getSelectedSock_spec:
  "if \<exists>s \<in> set socks. s \<noteq> -1 \<and> s \<in> R then getSelectedSock socks R \<in> set socks \<inter> R - {-1}
   else getSelectedSock socks R = -1"
proof (cases "filter (\<lambda>s. s \<noteq> -1 \<and> s \<in> R) socks")
  case Nil
  then show ?thesis by (auto simp: getSelectedSock_def filter_empty_conv)
next
  case (Cons s ss)
  then have "s \<in> {x \<in> set socks. x \<noteq> -1 \<and> x \<in> R}" by (metis list.set_intros(1) set_filter)
  then show ?thesis using Cons by (auto simp: getSelectedSock_def)
qed

lemma selectSock_finds:
  "if \<exists>s \<in> set socks. s \<noteq> -1 \<and> s \<in> ready
   then selectSock socks ready \<in> set socks \<inter> ready - {-1} else selectSock socks ready = -1"
proof -
  have "selected (fst (prepareForSelect socks) + 1) (snd (prepareForSelect socks)) ready = (set socks - {-1}) \<inter> ready"
    using prepareForSelect_spec [of socks] by (force simp: selected_def)
  then have "selectSock socks ready = getSelectedSock socks ((set socks - {-1}) \<inter> ready)"
    by (simp add: selectSock_def split_def)
  then show ?thesis
    using getSelectedSock_spec [of socks "(set socks - {-1}) \<inter> ready"] by (auto split: if_splits)
qed

lemma bit_addr_byte: "bit (ucast (drop_bit m (a :: u32)) :: byte) n \<longleftrightarrow> n < 8 \<and> bit a (m + n)"
  by (auto simp: bit_ucast_iff bit_drop_bit_eq)

lemma addr_of_addr_bytes [simp]: "addr_of_bytes (addr_bytes a @ rest) = a"
proof (rule bit_word_eqI)
  fix n assume "n < LENGTH(32)"
  then have "n < 32" by simp
  then consider "n < 8" | "8 \<le> n" "n < 16" | "16 \<le> n" "n < 24" | "24 \<le> n" by linarith
  then show "bit (addr_of_bytes (addr_bytes a @ rest)) n = bit a n"
    using \<open>n < 32\<close> bit_addr_byte [of 0 a]
    by cases (auto simp: addr_of_bytes_def addr_bytes_def nth_append bit_or_iff bit_push_bit_iff
        bit_ucast_iff bit_drop_bit_eq)
qed

lemma unat_div_16: "unat z div 16 = unat (drop_bit 4 z)" for z :: u32
  by (simp add: drop_bit_eq_div unat_div)

subsection \<open>Properties\<close>

text \<open>
  The default multicast address, derived from the address of the interface, is a
  multicast address whatever that address is, and it keeps the low 27 bits of it.
\<close>

lemma default_mcast_is_mcast:
  "isMcastAddress (getDefaultMcastAddress my)
   \<and> ntohl (sin_addr (getDefaultMcastAddress my)) AND 0x07ffffff = ntohl (sin_addr my) AND 0x07ffffff"
proof -
  define w where "w = ntohl (sin_addr (getDefaultMcastAddress my))"
  have w: "w = (ntohl (sin_addr my) AND 0x07ffffff) OR 0xe8000000"
    by (simp add: w_def getDefaultMcastAddress_def ntohl_or ntohl_and)
  have c: "drop_bit 28 (0x07ffffff :: u32) = 0" "drop_bit 28 (0xe8000000 :: u32) = 0xe"
    by (simp_all add: drop_bit_eq_div)
  have "drop_bit 4 (drop_bit 24 w) = drop_bit 28 w" by simp
  also have "\<dots> = 0xe" unfolding w drop_bit_or drop_bit_and c by simp
  finally have "drop_bit 4 (drop_bit 24 w) = 0xe" .
  then have "unat (drop_bit 24 w) div 16 = 14" by (simp add: unat_div_16)
  then have "224 \<le> unat (drop_bit 24 w)" "unat (drop_bit 24 w) < 240" by linarith+
  then have "isMcastAddress (getDefaultMcastAddress my)"
    by (simp add: isMcastAddress_def w_def [symmetric] Let_def word_le_nat_alt word_less_nat_alt)
  moreover have "w AND 0x07ffffff = ntohl (sin_addr my) AND 0x07ffffff"
    by (simp add: w bit.conj_disj_distrib2 and.assoc)
  ultimately show ?thesis by (simp add: w_def)
qed

text \<open>
  Addresses survive the wire: an address copied into a message and out of it again is
  unchanged, and so are port numbers and 32-bit fields converted to network order and back.
\<close>

lemma address_roundtrip:
  "sin_addr (copyFromMessage dst (copyToMessage msg src)) = sin_addr src
   \<and> getPort (setPort dst port) = port \<and> ntohl (htonl x) = x"
  by (simp add: copyFromMessage_def copyToMessage_def getPort_def setPort_def)

text \<open>
  \<^verbatim>\<open>selectSock\<close> returns an open socket that has data whenever there is one, and
  \<open>-1\<close> otherwise; closed slots are never returned.
\<close>

lemma selectSock_finds_ready:
  "(selectSock socks ready = -1) = (\<not> (\<exists>s \<in> set socks. s \<noteq> -1 \<and> s \<in> ready))
   \<and> selectSock socks ready \<in> insert (-1) (set socks \<inter> ready)"
  using selectSock_finds [of socks ready] by (auto split: if_splits)

end
