(* ===== verification/Participants.thy ===== *)
theory Participants
  imports Socklib
begin

text \<open>
  The table of participants of \<^verbatim>\<open>src/participants.c\<close>: 1024 slots, each with an address
  and a flag, and a counter of the slots in use.  The sender compares this counter with the
  sizes of its sets of answers, so the invariant \<open>db_inv\<close> is that it is the number of used
  slots and that no address has two of them.
\<close>

subsection \<open>The table and its operations\<close>

definition MAX_CLIENTS :: nat where "MAX_CLIENTS = 1024"

record clientDesc =
  addr :: sockaddr_in
  used :: bool
  capabilities :: u32
  rcvbuf :: u32

record participantsDb =
  nr :: int
  clientTable :: "clientDesc list"

definition makeParticipantsDb :: participantsDb where
  \<comment> \<open>\<^verbatim>\<open>calloc\<close>\<close>
  "makeParticipantsDb = \<lparr>nr = 0, clientTable = replicate MAX_CLIENTS
     \<lparr>addr = \<lparr>sin_family = 0, sin_port = 0, sin_addr = 0\<rparr>, used = False, capabilities = 0, rcvbuf = 0\<rparr>\<rparr>"

definition isParticipantValid :: "participantsDb \<Rightarrow> nat \<Rightarrow> bool" where
  "isParticipantValid db i = used (clientTable db ! i)"

definition removeParticipant :: "participantsDb \<Rightarrow> nat \<Rightarrow> participantsDb" where
  "removeParticipant db i =
     (if used (clientTable db ! i)
      then db\<lparr>clientTable := (clientTable db)[i := (clientTable db ! i)\<lparr>used := False\<rparr>], nr := nr db - 1\<rparr>
      else db)"

definition lookupParticipant :: "participantsDb \<Rightarrow> sockaddr_in \<Rightarrow> int" where
  "lookupParticipant db a =
     (case find (\<lambda>i. used (clientTable db ! i) \<and> ipIsEqual (addr (clientTable db ! i)) a) [0..<MAX_CLIENTS] of
        None \<Rightarrow> -1
      | Some i \<Rightarrow> int i)"

definition nrParticipants :: "participantsDb \<Rightarrow> int" where
  "nrParticipants db = nr db"

fun add_loop :: "participantsDb \<Rightarrow> sockaddr_in \<Rightarrow> u32 \<Rightarrow> u32 \<Rightarrow> bool \<Rightarrow> nat list \<Rightarrow> participantsDb \<times> int" where
  "add_loop db a caps rcv pointopoint [] = (db, -1)"
| "add_loop db a caps rcv pointopoint (i # is) =
     (if \<not> used (clientTable db ! i)
      then (db\<lparr>clientTable := (clientTable db)[i := \<lparr>addr = a, used = True, capabilities = caps, rcvbuf = rcv\<rparr>],
              nr := nr db + 1\<rparr>, int i)
      else if pointopoint then (db, -1)
      else add_loop db a caps rcv pointopoint is)"

definition addParticipant :: "participantsDb \<Rightarrow> sockaddr_in \<Rightarrow> u32 \<Rightarrow> u32 \<Rightarrow> bool \<Rightarrow> participantsDb \<times> int" where
  "addParticipant db a caps rcv pointopoint =
     (let i = lookupParticipant db a
      in if i \<ge> 0 then (db, i) else add_loop db a caps rcv pointopoint [0..<MAX_CLIENTS])"

definition getParticipantCapabilities :: "participantsDb \<Rightarrow> nat \<Rightarrow> u32" where
  "getParticipantCapabilities db i = capabilities (clientTable db ! i)"

definition getParticipantRcvBuf :: "participantsDb \<Rightarrow> nat \<Rightarrow> u32" where
  "getParticipantRcvBuf db i = rcvbuf (clientTable db ! i)"

definition getParticipantIp :: "participantsDb \<Rightarrow> nat \<Rightarrow> sockaddr_in" where
  "getParticipantIp db i = addr (clientTable db ! i)"

definition printNotSet :: "participantsDb \<Rightarrow> byte list \<Rightarrow> nat list" where
  \<comment> \<open>the numbers printed\<close>
  "printNotSet db d = filter (\<lambda>i. used (clientTable db ! i) \<and> \<not> BIT_ISSET i d) [0..<MAX_CLIENTS]"

definition printSet :: "participantsDb \<Rightarrow> byte list \<Rightarrow> nat list" where
  "printSet db d = filter (\<lambda>i. used (clientTable db ! i) \<and> BIT_ISSET i d) [0..<MAX_CLIENTS]"

subsection \<open>The invariant\<close>

definition valid :: "participantsDb \<Rightarrow> nat set" where
  "valid db = {i. i < MAX_CLIENTS \<and> used (clientTable db ! i)}"

definition db_inv :: "participantsDb \<Rightarrow> bool" where
  "db_inv db \<longleftrightarrow> length (clientTable db) = MAX_CLIENTS \<and> nr db = int (card (valid db))
     \<and> (\<forall>i \<in> valid db. \<forall>j \<in> valid db. ipIsEqual (addr (clientTable db ! i)) (addr (clientTable db ! j)) \<longrightarrow> i = j)"

lemma finite_valid [simp]: "finite (valid db)"
  by (simp add: valid_def)

lemma makeParticipantsDb_inv: "db_inv makeParticipantsDb"
proof -
  have "valid makeParticipantsDb = {}" by (auto simp: valid_def makeParticipantsDb_def)
  then show ?thesis by (simp add: db_inv_def) (simp add: makeParticipantsDb_def)
qed

lemma valid_remove:
  assumes "length (clientTable db) = MAX_CLIENTS"
  shows "valid (removeParticipant db i) = valid db - {i}"
proof -
  have "used (clientTable (removeParticipant db i) ! j) \<longleftrightarrow> j \<noteq> i \<and> used (clientTable db ! j)"
    if "j < MAX_CLIENTS" for j
    using assms that by (cases "j = i") (simp_all add: removeParticipant_def)
  then show ?thesis by (auto simp: valid_def)
qed

lemma removeParticipant_inv [inv_intros]:
  assumes inv: "db_inv db" and i: "i < MAX_CLIENTS"
  shows "db_inv (removeParticipant db i)"
proof (cases "used (clientTable db ! i)")
  case True
  have len: "length (clientTable db) = MAX_CLIENTS" using inv by (simp add: db_inv_def)
  have mem: "i \<in> valid db" using True i by (simp add: valid_def)
  then have c: "int (card (valid db - {i})) = int (card (valid db)) - 1"
    by (metis card_Suc_Diff1 finite_valid of_nat_Suc add_diff_cancel_left')
  have "addr (clientTable (removeParticipant db i) ! j) = addr (clientTable db ! j)" for j
    using len i by (cases "j = i") (simp_all add: removeParticipant_def)
  moreover have "nr (removeParticipant db i) = nr db - 1" using True by (simp add: removeParticipant_def)
  moreover have "length (clientTable (removeParticipant db i)) = MAX_CLIENTS"
    using len by (simp add: removeParticipant_def)
  ultimately show ?thesis
    using inv c by (simp add: db_inv_def valid_remove [OF len])
next
  case False
  then show ?thesis using inv by (simp add: removeParticipant_def)
qed

lemma lookup_cases:
  "(lookupParticipant db a = -1 \<and> (\<forall>i \<in> valid db. \<not> ipIsEqual (addr (clientTable db ! i)) a))
   \<or> (\<exists>i \<in> valid db. lookupParticipant db a = int i \<and> ipIsEqual (addr (clientTable db ! i)) a)"
proof (cases "find (\<lambda>i. used (clientTable db ! i) \<and> ipIsEqual (addr (clientTable db ! i)) a) [0..<MAX_CLIENTS]")
  case None
  then have "lookupParticipant db a = -1" by (simp add: lookupParticipant_def)
  with None show ?thesis by (auto simp: find_None_iff valid_def)
next
  case (Some i)
  then have "i \<in> valid db \<and> ipIsEqual (addr (clientTable db ! i)) a"
    by (auto simp: find_Some_iff valid_def)
  then show ?thesis using Some by (auto simp: lookupParticipant_def)
qed

lemma lookup_unique:
  assumes "db_inv db" and "i \<in> valid db" and "ipIsEqual (addr (clientTable db ! i)) a"
  shows "lookupParticipant db a = int i"
proof -
  obtain j where "j \<in> valid db" "lookupParticipant db a = int j" "ipIsEqual (addr (clientTable db ! j)) a"
    using lookup_cases [of db a] assms by blast
  moreover from this have "j = i" using assms by (simp add: db_inv_def ipIsEqual_def)
  ultimately show ?thesis by simp
qed

lemma add_loop_spec:
  "add_loop db a caps rcv ptp is = (db, -1) \<and> (if ptp then is = [] \<or> used (clientTable db ! hd is)
       else \<forall>i \<in> set is. used (clientTable db ! i))
   \<or> (\<exists>i \<in> set is. \<not> used (clientTable db ! i) \<and> add_loop db a caps rcv ptp is =
      (db\<lparr>clientTable := (clientTable db)[i := \<lparr>addr = a, used = True, capabilities = caps, rcvbuf = rcv\<rparr>],
          nr := nr db + 1\<rparr>, int i))"
  by (induction "is") auto

lemma add_new_inv:
  assumes inv: "db_inv db" and i: "i < MAX_CLIENTS" "\<not> used (clientTable db ! i)"
    and new: "\<forall>j \<in> valid db. \<not> ipIsEqual (addr (clientTable db ! j)) a"
    and db': "db' = db\<lparr>clientTable := (clientTable db)[i := \<lparr>addr = a, used = True, capabilities = caps, rcvbuf = rcv\<rparr>],
          nr := nr db + 1\<rparr>"
  shows "db_inv db' \<and> valid db' = insert i (valid db)"
proof -
  have len: "length (clientTable db) = MAX_CLIENTS" using inv by (simp add: db_inv_def)
  have v: "valid db' = insert i (valid db)"
    using i len by (auto simp: valid_def db' nth_list_update split: if_splits)
  have notin: "i \<notin> valid db" using i by (simp add: valid_def)
  have "addr (clientTable db' ! j) = (if j = i then a else addr (clientTable db ! j))" for j
    using len i by (simp add: db')
  then have "db_inv db'"
    using inv notin new len unfolding db_inv_def v
    by (auto simp: db' ipIsEqual_def)
  with v show ?thesis by simp
qed

lemma addParticipant_spec:
  assumes inv: "db_inv db" and add: "addParticipant db a caps rcv ptp = (db', i)"
  shows "db_inv db' \<and>
    (if i = -1 then db' = db \<and> (\<forall>j \<in> valid db. \<not> ipIsEqual (addr (clientTable db ! j)) a)
        \<and> (if ptp then 0 \<in> valid db else valid db = {..<MAX_CLIENTS})
     else i \<ge> 0 \<and> valid db' = insert (nat i) (valid db) \<and> nat i < MAX_CLIENTS \<and> ipIsEqual (addr (clientTable db' ! nat i)) a
        \<and> (nat i \<in> valid db \<longrightarrow> db' = db))"
proof (cases "lookupParticipant db a \<ge> 0")
  case True
  with add have "db' = db" "i = lookupParticipant db a" by (auto simp: addParticipant_def)
  moreover obtain j where "j \<in> valid db" "lookupParticipant db a = int j" "ipIsEqual (addr (clientTable db ! j)) a"
    using lookup_cases [of db a] True by auto
  ultimately show ?thesis using inv by (auto simp: valid_def)
next
  case False
  with add have loop: "add_loop db a caps rcv ptp [0..<MAX_CLIENTS] = (db', i)"
    by (auto simp: addParticipant_def)
  have new: "\<forall>j \<in> valid db. \<not> ipIsEqual (addr (clientTable db ! j)) a"
    using lookup_cases [of db a] False by auto
  have hd0: "hd [0..<MAX_CLIENTS] = 0" "[0..<MAX_CLIENTS] \<noteq> []" "0 < MAX_CLIENTS"
    by (simp_all add: MAX_CLIENTS_def del: upt_rec_numeral)
  consider "(db', i) = (db, -1)" "if ptp then used (clientTable db ! 0) else \<forall>j < MAX_CLIENTS. used (clientTable db ! j)"
    | j where "j < MAX_CLIENTS" "\<not> used (clientTable db ! j)" "(db', i) =
        (db\<lparr>clientTable := (clientTable db)[j := \<lparr>addr = a, used = True, capabilities = caps, rcvbuf = rcv\<rparr>],
          nr := nr db + 1\<rparr>, int j)"
    using add_loop_spec [of db a caps rcv ptp "[0..<MAX_CLIENTS]"] loop hd0 by (auto split: if_splits)
  then show ?thesis
  proof cases
    case 1
    then show ?thesis using inv new hd0 by (auto simp: valid_def)
  next
    case (2 j)
    have len: "length (clientTable db) = MAX_CLIENTS" using inv by (simp add: db_inv_def)
    from 2 add_new_inv [OF inv 2(1,2) new refl, of caps rcv] len show ?thesis
      by (auto simp: ipIsEqual_def valid_def)
  qed
qed

lemma lookup_remove:
  assumes inv: "db_inv db" and i: "i < MAX_CLIENTS"
  shows "lookupParticipant (removeParticipant db i) a =
    (if lookupParticipant db a = int i then -1 else lookupParticipant db a)"
proof -
  have len: "length (clientTable db) = MAX_CLIENTS" using inv by (simp add: db_inv_def)
  have adr: "addr (clientTable (removeParticipant db i) ! j) = addr (clientTable db ! j)" for j
    using len i by (cases "j = i") (simp_all add: removeParticipant_def)
  note inv' = removeParticipant_inv [OF inv i]
  show ?thesis
  proof (cases "\<exists>j \<in> valid db. ipIsEqual (addr (clientTable db ! j)) a")
    case True
    then obtain j where j: "j \<in> valid db" "ipIsEqual (addr (clientTable db ! j)) a" by blast
    note l = lookup_unique [OF inv j]
    show ?thesis
    proof (cases "j = i")
      case True
      then have "\<forall>m \<in> valid (removeParticipant db i). \<not> ipIsEqual (addr (clientTable (removeParticipant db i) ! m)) a"
        using inv j unfolding valid_remove [OF len] adr db_inv_def ipIsEqual_def
        by (metis Diff_iff insertI1)
      then show ?thesis using lookup_cases [of "removeParticipant db i" a] l True by auto
    next
      case False
      then have "lookupParticipant (removeParticipant db i) a = int j"
        using lookup_unique [OF inv', of j a] j by (simp add: valid_remove [OF len] adr)
      then show ?thesis using l False by simp
    qed
  next
    case False
    then have "lookupParticipant db a = -1" using lookup_cases [of db a] by auto
    moreover have "lookupParticipant (removeParticipant db i) a = -1"
      using False lookup_cases [of "removeParticipant db i" a] by (auto simp: valid_remove [OF len] adr)
    ultimately show ?thesis by simp
  qed
qed

lemma addParticipant_lookup:
  assumes "db_inv db" and "addParticipant db a caps rcv ptp = (db', i)"
  shows "lookupParticipant db' a = i"
proof (cases "i = -1")
  case True
  then show ?thesis using addParticipant_spec [OF assms] lookup_cases [of db a] by auto
next
  case False
  then have "nat i \<in> valid db'" "ipIsEqual (addr (clientTable db' ! nat i)) a" "db_inv db'" "0 \<le> i"
    using addParticipant_spec [OF assms] by auto
  then show ?thesis using False addParticipant_spec [OF assms] lookup_unique [of db' "nat i" a] by simp
qed

subsection \<open>The table as its users see it\<close>

text \<open>
  The negotiation and the network thread use the table through this contract: what a lookup
  returns after an entry is added or removed, and that the table stays consistent.
\<close>

locale address_table =
  fixes inv :: "'t \<Rightarrow> bool" and slots :: "'t \<Rightarrow> nat set" and lookup :: "'t \<Rightarrow> 'a \<Rightarrow> int"
    and remove :: "'t \<Rightarrow> nat \<Rightarrow> 't" and add :: "'t \<Rightarrow> 'a \<Rightarrow> 't \<times> int"
  assumes lookup_law: "inv t \<Longrightarrow> lookup t a = -1 \<or> (\<exists>k \<in> slots t. lookup t a = int k)"
    and add_law: "inv t \<Longrightarrow> add t a = (t', i) \<Longrightarrow>
      inv t' \<and> lookup t' a = i \<and> -1 \<le> i \<and> (if i = -1 then t' = t else slots t' = insert (nat i) (slots t))"
    and remove_law: "inv t \<Longrightarrow> k \<in> slots t \<Longrightarrow>
      inv (remove t k) \<and> slots (remove t k) = slots t - {k}
      \<and> lookup (remove t k) a = (if lookup t a = int k then -1 else lookup t a)"
begin

lemma disconnect:
  assumes "inv t" and "0 \<le> lookup t a"
  shows "inv (remove t (nat (lookup t a)))" and "slots (remove t (nat (lookup t a))) = slots t - {nat (lookup t a)}"
    and "lookup (remove t (nat (lookup t a))) a = -1"
proof -
  have i: "nat (lookup t a) \<in> slots t" using lookup_law [OF assms(1), of a] assms(2) by auto
  show "inv (remove t (nat (lookup t a)))" "slots (remove t (nat (lookup t a))) = slots t - {nat (lookup t a)}"
    "lookup (remove t (nat (lookup t a))) a = -1"
    using remove_law [OF assms(1) i, of a] assms(2) by simp_all
qed

lemma reconnect:
  assumes "inv t" and "0 \<le> lookup t a" and "add (remove t (nat (lookup t a))) a = (t', i)" and "i \<noteq> -1"
  shows "inv t' \<and> lookup t' a = i \<and> slots t' = insert (nat i) (slots t - {nat (lookup t a)})"
  using add_law [OF disconnect(1) [OF assms(1,2)] assms(3)] assms(4) by (simp add: disconnect(2) [OF assms(1,2)])

end

lemma addParticipant_range:
  assumes "db_inv pdb" and "addParticipant pdb a caps rcv ptp = (pdb', i)"
  shows "-1 \<le> i \<and> i < int MAX_CLIENTS"
  using addParticipant_spec [OF assms] by (auto simp: MAX_CLIENTS_def split: if_splits)

interpretation table: address_table db_inv valid lookupParticipant removeParticipant "\<lambda>db a. addParticipant db a caps rcv ptp"
  for caps rcv ptp
proof
  fix db a assume "db_inv db"
  then show "lookupParticipant db a = -1 \<or> (\<exists>i \<in> valid db. lookupParticipant db a = int i)"
    using lookup_cases [of db a] by blast
next
  fix db a db' i assume inv: "db_inv db" and add: "addParticipant db a caps rcv ptp = (db', i)"
  show "db_inv db' \<and> lookupParticipant db' a = i \<and> -1 \<le> i \<and> (if i = -1 then db' = db else valid db' = insert (nat i) (valid db))"
    using addParticipant_spec [OF inv add] addParticipant_lookup [OF inv add] addParticipant_range [OF inv add] by auto
next
  fix db i a assume inv: "db_inv db" and "i \<in> valid db"
  then have i: "i < MAX_CLIENTS" "length (clientTable db) = MAX_CLIENTS" by (auto simp: valid_def db_inv_def)
  show "db_inv (removeParticipant db i) \<and> valid (removeParticipant db i) = valid db - {i}
      \<and> lookupParticipant (removeParticipant db i) a = (if lookupParticipant db a = int i then -1 else lookupParticipant db a)"
    using removeParticipant_inv [OF inv i(1)] valid_remove [OF i(2)] lookup_remove [OF inv i(1)] by simp
qed

subsection \<open>Properties\<close>

text \<open>
  C26.  \<^verbatim>\<open>addParticipant\<close> keeps the table consistent (the counter is the number of
  used slots, one slot per address); it returns a slot that holds the address, the old one
  for a known address, and \<open>-1\<close> only for an unknown address when the table is full, or,
  in point-to-point mode, when the first slot is taken.
\<close>

theorem addParticipant_correct:
  assumes "db_inv db" and "addParticipant db a caps rcv ptp = (db', i)"
  shows "db_inv db' \<and> lookupParticipant db' a = i \<and>
    (if i = -1 then db' = db \<and> (if ptp then 0 \<in> valid db else valid db = {..<MAX_CLIENTS})
     else valid db' = insert (nat i) (valid db))"
  using addParticipant_spec [OF assms] addParticipant_lookup [OF assms] by simp

theorem addParticipant_correct_witness:
  "\<exists>db' i. addParticipant makeParticipantsDb \<lparr>sin_family = 2, sin_port = 7, sin_addr = 9\<rparr> 1 0 False = (db', i)
     \<and> db_inv db' \<and> lookupParticipant db' \<lparr>sin_family = 2, sin_port = 7, sin_addr = 9\<rparr> = i"
proof -
  obtain db' i where "addParticipant makeParticipantsDb \<lparr>sin_family = 2, sin_port = 7, sin_addr = 9\<rparr> 1 0 False = (db', i)"
    by force
  with addParticipant_correct [OF makeParticipantsDb_inv this] show ?thesis by blast
qed

text \<open>
  C27.  \<^verbatim>\<open>removeParticipant\<close> keeps the table consistent, frees exactly the given slot
  (once: a second call changes nothing), and afterwards the address that was there is unknown
  while every other address is found where it was.
\<close>

theorem removeParticipant_correct:
  assumes "db_inv db" and "i < MAX_CLIENTS"
  shows "db_inv (removeParticipant db i) \<and> valid (removeParticipant db i) = valid db - {i}
    \<and> lookupParticipant (removeParticipant db i) a =
        (if lookupParticipant db a = int i then -1 else lookupParticipant db a)
    \<and> removeParticipant (removeParticipant db i) i = removeParticipant db i"
proof -
  have "length (clientTable db) = MAX_CLIENTS" using assms(1) by (simp add: db_inv_def)
  then show ?thesis
    using removeParticipant_inv [OF assms] valid_remove lookup_remove [OF assms] assms(2)
    by (simp add: removeParticipant_def)
qed

theorem removeParticipant_correct_witness:
  "db_inv makeParticipantsDb \<and> (3 :: nat) < MAX_CLIENTS \<and> db_inv (removeParticipant makeParticipantsDb 3)
   \<and> valid (removeParticipant makeParticipantsDb 3) = valid makeParticipantsDb - {3}"
proof -
  have "3 < MAX_CLIENTS" by (simp add: MAX_CLIENTS_def)
  with removeParticipant_correct [OF makeParticipantsDb_inv this] makeParticipantsDb_inv show ?thesis by blast
qed

end
