(* ===== verification/Protocol.thy ===== *)
theory Protocol
  imports Socklib
begin

text \<open>
  The messages of \<^verbatim>\<open>src/udpc-protoc.h\<close> and the configuration of
  \<^verbatim>\<open>src/udpcast.h\<close> that the sender and the receiver share.  Message fields hold what
  is in the packet, in network byte order; a C \<^verbatim>\<open>int\<close> field is read as the signed
  value of its word.
\<close>

subsection \<open>Opcodes\<close>

definition CMD_OK :: "16 word" where "CMD_OK = 0"
definition CMD_RETRANSMIT :: "16 word" where "CMD_RETRANSMIT = 1"
definition CMD_GO :: "16 word" where "CMD_GO = 2"
definition CMD_CONNECT_REQ :: "16 word" where "CMD_CONNECT_REQ = 3"
definition CMD_DISCONNECT :: "16 word" where "CMD_DISCONNECT = 4"
definition CMD_REQACK :: "16 word" where "CMD_REQACK = 6"
definition CMD_CONNECT_REPLY :: "16 word" where "CMD_CONNECT_REPLY = 7"
definition CMD_DATA :: "16 word" where "CMD_DATA = 8"
definition CMD_FEC :: "16 word" where "CMD_FEC = 9"
definition CMD_HELLO_NEW :: "16 word" where "CMD_HELLO_NEW = 10"
definition CMD_HELLO_STREAMING :: "16 word" where "CMD_HELLO_STREAMING = 11"
definition CMD_HELLO :: "16 word" where "CMD_HELLO = 0x0500"

lemmas cmd_defs = CMD_OK_def CMD_RETRANSMIT_def CMD_GO_def CMD_CONNECT_REQ_def CMD_DISCONNECT_def
  CMD_REQACK_def CMD_CONNECT_REPLY_def CMD_DATA_def CMD_FEC_def CMD_HELLO_NEW_def
  CMD_HELLO_STREAMING_def CMD_HELLO_def

subsection \<open>Messages\<close>

record message =
  \<comment> \<open>\<^verbatim>\<open>union message\<close>, receiver to sender: the fields of \<^verbatim>\<open>ok\<close> and \<^verbatim>\<open>retransmit\<close>\<close>
  m_opCode :: "16 word"
  m_sliceNo :: u32
  m_rxmit :: u32
  m_map :: "byte list"

record serverDataMsg =
  \<comment> \<open>\<^verbatim>\<open>union serverDataMsg\<close>, sender to receiver: the fields of \<^verbatim>\<open>dataBlock\<close>,
      \<^verbatim>\<open>fecBlock\<close> (with \<^verbatim>\<open>stripes\<close>) and \<^verbatim>\<open>reqack\<close> (with \<^verbatim>\<open>rxmit\<close>)\<close>
  d_opCode :: "16 word"
  d_stripes :: "16 word"
  d_sliceNo :: u32
  d_blockNo :: "16 word"
  d_bytes :: u32
  d_rxmit :: u32

definition htonl_int :: "int \<Rightarrow> u32" where
  "htonl_int i = htonl (word_of_int i)"

definition ntohl_int :: "u32 \<Rightarrow> int" where
  "ntohl_int w = sint (ntohl w)"

lemma ntohl_htonl_int [simp]: "-(2^31) \<le> i \<Longrightarrow> i < 2^31 \<Longrightarrow> ntohl_int (htonl_int i) = i"
  by (simp add: ntohl_int_def htonl_int_def sint_sbintrunc' signed_take_bit_int_eq_self_iff)

subsection \<open>The configuration\<close>

datatype discovery = DSC_DOUBLING | DSC_REDUCING

record net_config =
  blockSize :: nat
  sliceSize :: nat
  flags :: u32
  discovery :: discovery
  default_slice_size :: nat
  max_slice_size :: nat
  retriesUntilDrop :: int
  fec_redundancy :: nat
  fec_stripesize :: nat
  fec_stripes :: nat
  rehelloOffset :: nat

definition has_flag :: "'a net_config_scheme \<Rightarrow> u32 \<Rightarrow> bool" where
  "has_flag c f \<longleftrightarrow> flags c AND f \<noteq> 0"

definition MAX_SLICE_SIZE :: nat where "MAX_SLICE_SIZE = 1024"

end
