(* ===== verification/NetIf.thy ===== *)
theory NetIf
  imports Socklib "HOL-Library.Sublist"
begin

text \<open>
  The choice of the network interface and the addresses derived from it, in
  \<^verbatim>\<open>src/socklib.c\<close>.  What the system answers about an interface (its address, whether
  it has link, its broadcast address) is data of the model: the list of \<open>ifreq\<close>s; so is
  the address a string stands for (\<^verbatim>\<open>inet_aton\<close>).
\<close>

subsection \<open>Interfaces\<close>

record net_if =
  if_addr :: u32
  if_bcast :: u32
  if_name :: string

record ifreq =
  ifr_name :: string
  ifr_inet :: bool \<comment> \<open>the address family is \<^verbatim>\<open>PF_INET\<close>\<close>
  ifr_addr :: u32
  ifr_broadaddr :: "u32 option" \<comment> \<open>\<open>None\<close>: the \<^verbatim>\<open>ioctl\<close> fails\<close>
  ifr_link :: int \<comment> \<open>what \<^verbatim>\<open>hasLink\<close> returns\<close>

definition base_goodness :: "string option \<Rightarrow> u32 option \<Rightarrow> ifreq \<Rightarrow> nat option" where
  \<comment> \<open>\<open>wantedAddress\<close> is given when the name wanted is an address; \<open>None\<close>: no match\<close>
  "base_goodness wanted wantedAddress i =
     (case wanted of
        Some w \<Rightarrow>
          if wantedAddress = Some (ifr_addr i) then Some 8
          else if w = ifr_name i then Some 12
          else if prefix w (ifr_name i) then Some 7
          else None
      | None \<Rightarrow>
          Some (if ifr_addr i = 0 then 1
                else if ifr_addr i = htonl 0x7f000001 then 2
                else if ifr_name i \<in> {''eth0'', ''en0''} then 6
                else if prefix ''eth0:'' (ifr_name i) then 5
                else if prefix ''eth'' (ifr_name i) \<or> prefix ''en'' (ifr_name i) then 4
                else 3))"

fun choose_loop :: "string option \<Rightarrow> u32 option \<Rightarrow> ifreq list \<Rightarrow> ifreq option \<Rightarrow> nat \<Rightarrow> ifreq option outcome" where
  "choose_loop wanted wantedAddress [] chosen lastGoodness = Done chosen"
| "choose_loop wanted wantedAddress (i # is) chosen lastGoodness =
     (if \<not> ifr_inet i then choose_loop wanted wantedAddress is chosen lastGoodness
      else case base_goodness wanted wantedAddress i of
        None \<Rightarrow> choose_loop wanted wantedAddress is chosen lastGoodness
      | Some goodness \<Rightarrow>
          let goodness = (if ifr_link i \<noteq> 0 then goodness + 3 else goodness);
              goodness = goodness * 2
          in and_then
               (if goodness \<ge> lastGoodness then
                  (case ifr_broadaddr i of
                     None \<Rightarrow> Aborts
                   | Some b \<Rightarrow> Done (if b \<noteq> 0 then goodness + 1 else goodness))
                else Done goodness)
               (\<lambda>goodness.
                  if goodness > lastGoodness then choose_loop wanted wantedAddress is (Some i) goodness
                  else choose_loop wanted wantedAddress is chosen lastGoodness))"

definition getNetIf :: "(string \<Rightarrow> u32 option) \<Rightarrow> string option \<Rightarrow> ifreq list \<Rightarrow> string option \<Rightarrow> net_if outcome" where
  \<comment> \<open>\<open>ifname\<close> is the environment variable \<^verbatim>\<open>IFNAME\<close>\<close>
  "getNetIf aton ifname ifs wanted =
     (let wanted = (if wanted = None then ifname else wanted);
          wantedAddress = Option.bind wanted aton
      in and_then (choose_loop wanted wantedAddress ifs None 0) (\<lambda>chosen.
           case chosen of
             None \<Rightarrow> Aborts
           | Some i \<Rightarrow>
               (case ifr_broadaddr i of
                  None \<Rightarrow> Aborts
                | Some b \<Rightarrow> Done \<lparr>if_addr = ifr_addr i, if_bcast = b, if_name = ifr_name i\<rparr>)))"

subsection \<open>Addresses\<close>

datatype addr_type = ADDR_TYPE_UCAST | ADDR_TYPE_MCAST | ADDR_TYPE_BCAST

definition initSockAddress :: "addr_type \<Rightarrow> net_if option \<Rightarrow> u32 \<Rightarrow> 16 word \<Rightarrow> sockaddr_in outcome" where
  "initSockAddress addr_type nif ip port =
     (if nif = None \<and> addr_type \<noteq> ADDR_TYPE_MCAST then Aborts
      else Done \<lparr>sin_family = AF_INET, sin_port = htons port,
        sin_addr = (case addr_type of
            ADDR_TYPE_UCAST \<Rightarrow> if_addr (the nif)
          | ADDR_TYPE_BCAST \<Rightarrow> if_bcast (the nif)
          | ADDR_TYPE_MCAST \<Rightarrow> ip)\<rparr>)"

definition getMyAddress :: "net_if option \<Rightarrow> sockaddr_in outcome" where
  "getMyAddress nif = initSockAddress ADDR_TYPE_UCAST nif 0 0"

definition getBroadCastAddress :: "net_if option \<Rightarrow> 16 word \<Rightarrow> sockaddr_in outcome" where
  "getBroadCastAddress nif port =
     and_then (initSockAddress ADDR_TYPE_BCAST nif 0 port) (\<lambda>addr.
       if sin_addr addr = 0 then
         and_then (initSockAddress ADDR_TYPE_UCAST nif 0 port) (\<lambda>ucast.
           Done (if ntohl (sin_addr ucast) AND 0xff000000 = 0x7f000000
                 then addr\<lparr>sin_addr := sin_addr ucast\<rparr> else addr))
       else Done addr)"

definition safe_inet_aton :: "(string \<Rightarrow> u32 option) \<Rightarrow> string \<Rightarrow> u32 outcome" where
  "safe_inet_aton aton s = or_abort (aton s)"

definition getMcastAllAddress :: "(string \<Rightarrow> u32 option) \<Rightarrow> string option \<Rightarrow> 16 word \<Rightarrow> sockaddr_in outcome" where
  "getMcastAllAddress aton address port =
     and_then (safe_inet_aton aton (if address = None \<or> address = Some '''' then ''224.0.0.1'' else the address)) (\<lambda>ip.
       initSockAddress ADDR_TYPE_MCAST None ip port)"

definition setIpFromString :: "(string \<Rightarrow> u32 option) \<Rightarrow> sockaddr_in \<Rightarrow> string \<Rightarrow> sockaddr_in outcome" where
  "setIpFromString aton addr ip = and_then (safe_inet_aton aton ip) (\<lambda>a. Done (addr\<lparr>sin_addr := a, sin_family := AF_INET\<rparr>))"

definition getIpString :: "sockaddr_in \<Rightarrow> nat list" where
  \<comment> \<open>the four numbers printed\<close>
  "getIpString addr =
     (let iaddr = htonl (sin_addr addr)
      in map (\<lambda>n. unat (drop_bit n iaddr AND 0xff)) [24, 16, 8, 0])"

subsection \<open>The best interface\<close>

definition rank :: "string option \<Rightarrow> u32 option \<Rightarrow> ifreq \<Rightarrow> nat" where
  \<comment> \<open>0: the interface does not match\<close>
  "rank wanted wantedAddress i =
     (if \<not> ifr_inet i then 0
      else case base_goodness wanted wantedAddress i of
        None \<Rightarrow> 0
      | Some g \<Rightarrow> 2 * (if ifr_link i \<noteq> 0 then g + 3 else g) + (if ifr_broadaddr i \<in> {None, Some 0} then 0 else 1))"

lemma base_goodness_pos: "base_goodness w a i = Some g \<Longrightarrow> 0 < g"
  by (auto simp: base_goodness_def split: option.splits if_splits)

lemma choose_loop_best:
  assumes "choose_loop w a is chosen lg = Done c" and "case chosen of None \<Rightarrow> lg = 0 | Some i \<Rightarrow> lg = rank w a i \<and> 0 < lg"
  shows "(\<forall>i \<in> set is. rank w a i \<le> (case c of None \<Rightarrow> 0 | Some j \<Rightarrow> rank w a j))
    \<and> lg \<le> (case c of None \<Rightarrow> 0 | Some j \<Rightarrow> rank w a j)
    \<and> (c = chosen \<or> (\<exists>j pre post. c = Some j \<and> is = pre @ j # post \<and> lg < rank w a j \<and> (\<forall>i \<in> set pre. rank w a i < rank w a j)))"
  using assms
proof (induction "is" arbitrary: chosen lg)
  case (Cons i "is")
  let ?best = "case c of None \<Rightarrow> 0 | Some j \<Rightarrow> rank w a j"
  have skip: ?case if s: "choose_loop w a is chosen lg = Done c" and r: "rank w a i \<le> lg"
  proof -
    note IH = Cons.IH [OF s Cons.prems(2)]
    then consider "c = chosen" | j pre post where "c = Some j" "is = pre @ j # post" "lg < rank w a j" "\<forall>i \<in> set pre. rank w a i < rank w a j"
      by blast
    then show ?thesis
    proof cases
      case 1
      then show ?thesis using IH r by simp
    next
      case (2 j pre post)
      then have "i # is = (i # pre) @ j # post" "\<forall>x \<in> set (i # pre). rank w a x < rank w a j" using r by auto
      then have "\<exists>k pre post. c = Some k \<and> i # is = pre @ k # post \<and> lg < rank w a k \<and> (\<forall>x \<in> set pre. rank w a x < rank w a k)"
        using 2(1,3) by blast
      then show ?thesis using IH r by simp
    qed
  qed
  have take: ?case if s: "choose_loop w a is (Some i) (rank w a i) = Done c" and r: "lg < rank w a i"
  proof -
    have "case Some i of None \<Rightarrow> rank w a i = 0 | Some k \<Rightarrow> rank w a i = rank w a k \<and> 0 < rank w a i" using r by simp
    note IH = Cons.IH [OF s this]
    then consider "c = Some i" | j pre post where "c = Some j" "is = pre @ j # post" "rank w a i < rank w a j" "\<forall>i \<in> set pre. rank w a i < rank w a j"
      by blast
    then show ?thesis
    proof cases
      case 1
      have "i # is = [] @ i # is" "\<forall>x \<in> set []. rank w a x < rank w a i" by simp_all
      then show ?thesis using IH r 1 by fastforce
    next
      case (2 j pre post)
      have e: "i # is = (i # pre) @ j # post" "\<forall>x \<in> set (i # pre). rank w a x < rank w a j" using r 2 by auto
      have "lg < rank w a j" using r 2(3) by simp
      then have "\<exists>k pre post. c = Some k \<and> i # is = pre @ k # post \<and> lg < rank w a k \<and> (\<forall>x \<in> set pre. rank w a x < rank w a k)"
        using 2(1) e by blast
      then show ?thesis using IH r 2(1,3) by simp
    qed
  qed
  show ?case
  proof (cases "ifr_inet i")
    case False
    then show ?thesis using skip Cons.prems by (simp add: rank_def)
  next
    case True
    show ?thesis
    proof (cases "base_goodness w a i")
      case None
      then show ?thesis using skip Cons.prems True by (simp add: rank_def)
    next
      case (Some g)
      define h where "h = 2 * (if ifr_link i \<noteq> 0 then g + 3 else g)"
      have r: "rank w a i = h + (if ifr_broadaddr i \<in> {None, Some 0} then 0 else 1)"
        using True Some by (simp add: rank_def h_def)
      show ?thesis
      proof (cases "h \<ge> lg")
        case False
        then show ?thesis using skip Cons.prems(1) True Some r by (simp add: h_def mult.commute split: if_splits)
      next
        case ge: True
        then obtain b where b: "ifr_broadaddr i = Some b"
          using Cons.prems(1) True Some by (cases "ifr_broadaddr i") (auto simp: h_def mult.commute split: if_splits)
        have "choose_loop w a (i # is) chosen lg =
          (if rank w a i > lg then choose_loop w a is (Some i) (rank w a i) else choose_loop w a is chosen lg)"
          using True Some ge b r by (simp add: h_def mult.commute)
        then show ?thesis using skip take Cons.prems(1) by (simp split: if_splits)
      qed
    qed
  qed
qed (auto split: option.splits)


definition sample_ifs :: "ifreq list" where
  "sample_ifs = [\<lparr>ifr_name = ''lo'', ifr_inet = True, ifr_addr = htonl 0x7f000001, ifr_broadaddr = Some 0, ifr_link = -1\<rparr>,
     \<lparr>ifr_name = ''eth0'', ifr_inet = True, ifr_addr = 5, ifr_broadaddr = Some 7, ifr_link = 0\<rparr>,
     \<lparr>ifr_name = ''eth1'', ifr_inet = True, ifr_addr = 9, ifr_broadaddr = Some 11, ifr_link = 1\<rparr>]"

lemma sample_if: "getNetIf (\<lambda>_. None) None sample_ifs None = Done \<lparr>if_addr = 9, if_bcast = 11, if_name = ''eth1''\<rparr>"
  by code_simp


end
