(* ===== verification/RateLimit.thy ===== *)
theory RateLimit
  imports Prelude "HOL-Library.Signed_Division"
begin

text \<open>
  The rate limiter of the sender, \<^verbatim>\<open>src/rate-limit.c\<close>, and \<^verbatim>\<open>parseSize\<close> of
  \<^verbatim>\<open>src/socklib.c\<close>, on a machine with 64-bit \<^verbatim>\<open>long\<close>.  A C string is the list
  of its characters before the final NUL; \<^verbatim>\<open>strtoul\<close> is the function of the C standard
  for base 10.  The clock is an argument; \<^verbatim>\<open>usleep\<close> is the value it is called with.
\<close>

subsection \<open>Numbers on the command line\<close>

definition ULONG_MAX :: nat where "ULONG_MAX = 2 ^ 64 - 1"

definition isdigit :: "char \<Rightarrow> bool" where
  "isdigit c \<longleftrightarrow> (48 :: nat) \<le> of_char c \<and> of_char c \<le> (57 :: nat)"

definition isspace :: "char \<Rightarrow> bool" where
  "isspace c \<longleftrightarrow> (of_char c :: nat) \<in> {9, 10, 11, 12, 13, 32}"

definition number :: "string \<Rightarrow> nat" where
  "number ds = foldl (\<lambda>n c. 10 * n + (of_char c - 48)) 0 ds"

definition strtoul :: "string \<Rightarrow> nat \<times> bool \<times> string" where
  \<comment> \<open>the value, whether \<^verbatim>\<open>errno\<close> is set to \<^verbatim>\<open>ERANGE\<close>, the string at \<^verbatim>\<open>eptr\<close>\<close>
  "strtoul s =
     (let t = dropWhile isspace s;
          neg = (t \<noteq> [] \<and> hd t = CHR ''-'');
          u = (if t \<noteq> [] \<and> hd t \<in> {CHR ''-'', CHR ''+''} then tl t else t);
          ds = takeWhile isdigit u
      in if ds = [] then (0, False, s)
         else if number ds > ULONG_MAX then (ULONG_MAX, True, dropWhile isdigit u)
         else (if neg then (2 ^ 64 - number ds) mod 2 ^ 64 else number ds, False, dropWhile isdigit u))"

definition hexval :: "char \<Rightarrow> nat" where
  \<comment> \<open>the value of a digit; 16 for another character\<close>
  "hexval c =
     (let n = (of_char c :: nat)
      in if 48 \<le> n \<and> n \<le> 57 then n - 48 else if 97 \<le> n \<and> n \<le> 102 then n - 87 else if 65 \<le> n \<and> n \<le> 70 then n - 55 else 16)"

definition parseSpeed :: "bool \<Rightarrow> string \<Rightarrow> nat outcome" where
  \<comment> \<open>\<open>erange\<close>: whether \<^verbatim>\<open>errno\<close> is \<^verbatim>\<open>ERANGE\<close> before the call\<close>
  "parseSpeed erange s =
     (if s = [] then Aborts
      else if \<not> isdigit (hd s) then Aborts
      else
        let (speed, range, e) = strtoul s
        in if speed = ULONG_MAX \<and> (range \<or> erange) then Aborts
           else and_then
             (case e of
                [] \<Rightarrow> Done speed
              | u # rest \<Rightarrow>
                  and_then
                    (if u \<in> {CHR ''g'', CHR ''G''} then
                       (if speed > ULONG_MAX div 1000000000 then Aborts else Done (speed * 1000000000))
                     else if u \<in> {CHR ''m'', CHR ''M''} then
                       (if speed > ULONG_MAX div 1000000 then Aborts else Done (speed * 1000000))
                     else if u \<in> {CHR ''k'', CHR ''K''} then
                       (if speed > ULONG_MAX div 1000 then Aborts else Done (speed * 1000))
                     else Aborts)
                    (\<lambda>speed. if rest \<noteq> [] then Aborts else Done speed))
             (\<lambda>speed. if speed < 1 then Aborts else Done speed))"

definition parseSize :: "string \<Rightarrow> nat outcome" where
  "parseSize s =
     (let (n, _, e) = strtoul s
      in case e of
           [] \<Rightarrow> Done n
         | u # _ \<Rightarrow>
             if u \<in> {CHR ''m'', CHR ''M''} then Done (n * (1024 * 1024) mod 2 ^ 64)
             else if u \<in> {CHR ''k'', CHR ''K''} then Done (n * 1024 mod 2 ^ 64)
             else Aborts)"

subsection \<open>The rate limiter\<close>

record rate_limit =
  date :: "64 word" \<comment> \<open>\<^verbatim>\<open>long long\<close>, as the other times in microseconds\<close>
  realDate :: "64 word"
  bitrate :: "64 word"
  queueSize :: "64 word"

definition LLMILLION :: "64 word" where "LLMILLION = 1000000"

definition getLongLongDate :: "64 word \<Rightarrow> 64 word \<Rightarrow> 64 word" where
  \<comment> \<open>from the two fields of \<^verbatim>\<open>struct timeval\<close>\<close>
  "getLongLongDate sec usec = sec * LLMILLION + usec"

definition allocRateLimit :: "64 word \<Rightarrow> rate_limit" where
  "allocRateLimit now = \<lparr>date = now, realDate = 0, bitrate = 0, queueSize = 0\<rparr>"

definition MAX_BITRATE :: string where "MAX_BITRATE = ''maxBitrate''"

definition rl_setProp :: "bool \<Rightarrow> rate_limit \<Rightarrow> string \<Rightarrow> string \<Rightarrow> rate_limit outcome" where
  "rl_setProp erange rl key v =
     (if key = MAX_BITRATE then and_then (parseSpeed erange v) (\<lambda>n. Done (rl\<lparr>bitrate := of_nat n\<rparr>))
      else Done rl)"

definition doRateLimit :: "64 word \<Rightarrow> 64 word \<Rightarrow> rate_limit \<Rightarrow> (rate_limit \<times> u32 option) outcome" where
  \<comment> \<open>with the argument of \<^verbatim>\<open>usleep\<close>, when it is called\<close>
  "doRateLimit now sz rl =
     (let elapsed = now - date rl;
          bits = elapsed * bitrate rl div LLMILLION;
          sz = sz + 28
      in if bits \<ge> queueSize rl * 8 then Done (rl\<lparr>queueSize := sz, date := now\<rparr>, None)
         else
           let rl = rl\<lparr>queueSize := queueSize rl - bits div 8\<rparr>
           in and_then (in_bounds (bitrate rl \<noteq> 0)) (\<lambda>_.
             let rl = rl\<lparr>date := date rl + bits * LLMILLION div bitrate rl\<rparr>;
                 rl = rl\<lparr>realDate := now\<rparr>;
                 sleepTime = sint (ucast (queueSize rl * 8 * LLMILLION div bitrate rl) :: u32)
             in if sleepTime > 40000 \<or> queueSize rl \<ge> 100000 then
                  and_then (in_bounds (- (2 ^ 31) \<le> sleepTime - 10000)) (\<lambda>_.
                    let sleepTime = sleepTime - 10000;
                        sleepTime = sleepTime - sleepTime smod 10000
                    in Done (rl\<lparr>queueSize := queueSize rl + sz\<rparr>, Some (word_of_int sleepTime)))
                else Done (rl\<lparr>queueSize := queueSize rl + sz\<rparr>, None)))"

subsection \<open>Parsing\<close>

lemma isdigit_not:
  assumes "isdigit c"
  shows "\<not> isspace c" and "c \<noteq> CHR ''-''" and "c \<noteq> CHR ''+''"
  using assms by (auto simp: isdigit_def isspace_def)

lemma strtoul_digits:
  assumes "s \<noteq> []" and "isdigit (hd s)"
  shows "strtoul s = (let ds = takeWhile isdigit s; r = dropWhile isdigit s
     in if number ds > ULONG_MAX then (ULONG_MAX, True, r) else (number ds, False, r))"
proof -
  obtain c u where s: "s = c # u" "isdigit c" using assms by (cases s) auto
  have "dropWhile isspace s = s" "hd s \<notin> {CHR ''-'', CHR ''+''}" "takeWhile isdigit s \<noteq> []"
    using isdigit_not [OF s(2)] s by auto
  then show ?thesis unfolding strtoul_def by (simp add: Let_def)
qed

definition unit_factor :: "string \<Rightarrow> nat option" where
  \<comment> \<open>the units of a speed\<close>
  "unit_factor u =
     (if u = [] then Some 1
      else if u \<in> {''k'', ''K''} then Some 1000
      else if u \<in> {''m'', ''M''} then Some 1000000
      else if u \<in> {''g'', ''G''} then Some 1000000000
      else None)"

lemma mult_le_div: "0 < k \<Longrightarrow> (n :: nat) \<le> m div k \<longleftrightarrow> n * k \<le> m"
  by (simp add: less_eq_div_iff_mult_less_eq)

lemma parse_unit:
  "and_then
     (case e of
        [] \<Rightarrow> Done n
      | u # rest \<Rightarrow>
          and_then
            (if u \<in> {CHR ''g'', CHR ''G''} then
               (if n > ULONG_MAX div 1000000000 then Aborts else Done (n * 1000000000))
             else if u \<in> {CHR ''m'', CHR ''M''} then
               (if n > ULONG_MAX div 1000000 then Aborts else Done (n * 1000000))
             else if u \<in> {CHR ''k'', CHR ''K''} then
               (if n > ULONG_MAX div 1000 then Aborts else Done (n * 1000))
             else Aborts)
            (\<lambda>n. if rest \<noteq> [] then Aborts else Done n))
     (\<lambda>n. if n < 1 then Aborts else Done n) =
   (case unit_factor e of
      Some f \<Rightarrow> if n = 0 \<or> n * f > ULONG_MAX then Aborts else Done (n * f)
    | None \<Rightarrow> Aborts)" if "n \<le> ULONG_MAX"
proof (cases e)
  case (Cons u rest)
  have d: "n > ULONG_MAX div k \<longleftrightarrow> n * k > ULONG_MAX" if "0 < k" for k
    using mult_le_div [OF that, of n ULONG_MAX] by linarith
  show ?thesis
    by (cases rest) (auto simp: Cons unit_factor_def d)
qed (use that in \<open>auto simp: unit_factor_def\<close>)


text \<open>
  \<^verbatim>\<open>parseSpeed\<close> accepts exactly the strings of decimal digits with an optional
  unit \<open>k\<close>, \<open>m\<close> or \<open>g\<close>, and returns their value, neither 0 nor out of the range
  of an \<^verbatim>\<open>unsigned long\<close>; everything else ends the program.
\<close>

lemma parseSpeed_exact:
  "parseSpeed False s = Done v \<longleftrightarrow>
     takeWhile isdigit s \<noteq> [] \<and> 0 < v \<and> v \<le> ULONG_MAX
       \<and> map_option (\<lambda>f. number (takeWhile isdigit s) * f) (unit_factor (dropWhile isdigit s)) = Some v"
proof (cases "s \<noteq> [] \<and> isdigit (hd s)")
  case False
  then have "takeWhile isdigit s = []" by (cases s) auto
  then show ?thesis using False by (auto simp: parseSpeed_def)
next
  case True
  define n where "n = number (takeWhile isdigit s)"
  define e where "e = dropWhile isdigit s"
  have ne: "takeWhile isdigit s \<noteq> []" using True by (cases s) auto
  have st: "strtoul s = (if n > ULONG_MAX then (ULONG_MAX, True, e) else (n, False, e))"
    using strtoul_digits True by (simp add: n_def e_def Let_def)
  have pos: "unit_factor e = Some f \<Longrightarrow> n \<le> n * f" for f by (auto simp: unit_factor_def split: if_splits)
  show ?thesis
  proof (cases "n > ULONG_MAX")
    case True
    then have "unit_factor e = Some f \<Longrightarrow> \<not> n * f \<le> ULONG_MAX" for f using pos [of f] by linarith
    then show ?thesis using True \<open>s \<noteq> [] \<and> isdigit (hd s)\<close>
      by (auto simp: parseSpeed_def st n_def [symmetric] e_def [symmetric])
  next
    case False
    then have "parseSpeed False s = (case unit_factor e of
        Some f \<Rightarrow> if n = 0 \<or> n * f > ULONG_MAX then Aborts else Done (n * f) | None \<Rightarrow> Aborts)"
      using True parse_unit [of n e] by (simp add: parseSpeed_def st)
    moreover have "unit_factor e = Some f \<Longrightarrow> 0 < f" for f by (auto simp: unit_factor_def split: if_splits)
    ultimately show ?thesis using ne
      by (auto simp: n_def [symmetric] e_def [symmetric] split: option.splits)
  qed
qed


lemma parseSize_overflow: "parseSize ''17592186044416m'' = Done 0"
  by (simp add: parseSize_def strtoul_def isspace_def isdigit_def number_def ULONG_MAX_def Let_def)

subsection \<open>The rate\<close>

lemma unat_of_nat_64: "n < 2 ^ 64 \<Longrightarrow> unat (of_nat n :: 64 word) = n"
  by (simp add: unat_of_nat take_bit_nat_eq_self_iff)

lemma unat_sub_le: "unat b \<le> unat a \<Longrightarrow> unat (a - b :: 64 word) = unat a - unat b"
  by (simp add: unat_sub word_le_nat_alt)

lemma unat_mult_small: "unat a * unat b < 2 ^ 64 \<Longrightarrow> unat (a * b :: 64 word) = unat a * unat b"
  by (simp add: unat_word_ariths)

lemma unat_add_small: "unat a + unat b < 2 ^ 64 \<Longrightarrow> unat (a + b :: 64 word) = unat a + unat b"
  by (simp add: unat_word_ariths)

definition sleep_time :: "nat \<Rightarrow> int" where
  \<comment> \<open>the argument of \<^verbatim>\<open>usleep\<close>, from the time the queue takes\<close>
  "sleep_time t = (int t - 10000) - (int t - 10000) smod 10000"

lemma sleep_time_range:
  assumes "0 < t"
  shows "0 \<le> sleep_time t \<and> int t - 19999 \<le> sleep_time t \<and> sleep_time t \<le> int t"
proof (cases "t < 10000")
  case True
  then have "(10000 - int t) mod 10000 = 10000 - int t" using assms by (intro mod_pos_pos_trivial) simp_all
  then have "- int t mod 10000 = 10000 - int t" by simp
  then have "(int t - 10000) smod 10000 = int t - 10000"
    using True by (simp add: signed_modulo_int_def sgn_if abs_if)
  then show ?thesis using True by (simp add: sleep_time_def)
next
  case False
  then have "(int t - 10000) smod 10000 = (int t - 10000) mod 10000"
    by (simp add: signed_modulo_int_def sgn_if)
  moreover have "0 \<le> (int t - 10000) mod 10000 \<and> (int t - 10000) mod 10000 < 10000 \<and> (int t - 10000) mod 10000 \<le> int t - 10000"
    using False by (simp add: zmod_le_nonneg_dividend del: minus_mod_self2)
  ultimately show ?thesis unfolding sleep_time_def by linarith
qed

lemma doRateLimit_nat:
  assumes now: "unat (date rl) \<le> unat now" and r: "r = unat (bitrate rl)" "0 < r"
    and e: "(unat now - unat (date rl)) * r < 2 ^ 64"
    and q: "q = unat (queueSize rl)" "q < 2 * 10 ^ 12" and sz: "unat sz < 2 ^ 32"
    and b: "b = (unat now - unat (date rl)) * r div 1000000" and x: "x = q - b div 8" and t: "t = x * 8000000 div r" "t < 2 ^ 31"
  shows "\<exists>rl' slept. doRateLimit now sz rl = Done (rl', slept) \<and> bitrate rl' = bitrate rl \<and>
     (if b \<ge> q * 8 then unat (queueSize rl') = unat sz + 28 \<and> unat (date rl') = unat now \<and> slept = None
      else unat (queueSize rl') = x + (unat sz + 28) \<and> unat (date rl') = unat (date rl) + b * 1000000 div r
        \<and> slept = (if t > 40000 \<or> x \<ge> 100000 then Some (word_of_int (sleep_time t)) else None))"
proof -
  define bits where "bits = (now - date rl) * bitrate rl div LLMILLION"
  have bits: "unat bits = b"
    using now e r by (simp add: bits_def b unat_div unat_mult_small unat_sub_le LLMILLION_def)
  have q8: "unat (queueSize rl * 8) = q * 8" using q by (simp add: unat_mult_small)
  have s: "unat (sz + 28) = unat sz + 28" using sz by (simp add: unat_add_small)
  have cmp: "queueSize rl * 8 \<le> bits \<longleftrightarrow> q * 8 \<le> b" by (simp add: word_le_nat_alt q8 bits)
  show ?thesis
  proof (cases "q * 8 \<le> b")
    case True
    then have "doRateLimit now sz rl = Done (rl\<lparr>queueSize := sz + 28, date := now\<rparr>, None)"
      using cmp by (simp add: doRateLimit_def bits_def [symmetric] Let_def)
    then show ?thesis using True s by simp
  next
    case False
    define ql where "ql = queueSize rl - bits div 8"
    have b8: "b div 8 \<le> q" using False by linarith
    have ql: "unat ql = x" using b8 by (simp add: ql_def x unat_sub_le unat_div bits q(1))
    have xq: "x \<le> q" using x by simp
    have b40: "b < 16 * 10 ^ 12" using False q(2) by simp
    have adv: "unat (bits * LLMILLION div bitrate rl) = b * 1000000 div r"
      using b40 by (simp add: unat_div unat_mult_small LLMILLION_def bits r(1))
    have le: "b * 1000000 div r \<le> unat now - unat (date rl)"
    proof -
      have "b * 1000000 \<le> (unat now - unat (date rl)) * r" unfolding b by simp
      then have "b * 1000000 div r \<le> (unat now - unat (date rl)) * r div r" by (rule div_le_mono)
      then show ?thesis using r(2) by simp
    qed
    have lt: "unat now < 2 ^ 64" by (rule order_less_le_trans [OF unsigned_less]) simp
    have d: "unat (date rl + bits * LLMILLION div bitrate rl) = unat (date rl) + b * 1000000 div r"
      using le now lt by (subst unat_add_small) (simp_all add: adv)
    have "unat (ql * 8) = x * 8" using xq q(2) by (subst unat_mult_small) (simp_all add: ql)
    then have "unat (ql * 8 * LLMILLION) = x * 8 * 1000000"
      using xq q(2) by (subst unat_mult_small) (simp_all add: LLMILLION_def)
    then have tw: "unat (ql * 8 * LLMILLION div bitrate rl) = t" by (simp add: unat_div r(1) t mult.commute)
    have st: "sint (ucast (ql * 8 * LLMILLION div bitrate rl) :: u32) = int t"
    proof -
      have "unat (ucast (ql * 8 * LLMILLION div bitrate rl) :: u32) = t"
        using t(2) tw by (simp add: unsigned_ucast_eq take_bit_nat_eq_self_iff)
      then have "uint (ucast (ql * 8 * LLMILLION div bitrate rl) :: u32) = int t" by (metis of_nat_unat)
      then show ?thesis using t(2) by (simp add: sint_uint signed_take_bit_int_eq_self_iff)
    qed
    have nz: "bitrate rl \<noteq> 0" using r by auto
    have big: "ql \<ge> 100000 \<longleftrightarrow> x \<ge> 100000" by (simp add: word_le_nat_alt ql)
    have qs: "unat (ql + (sz + 28)) = x + (unat sz + 28)" using s sz xq q(2) by (subst unat_add_small) (simp_all add: ql)
    show ?thesis
      using False cmp nz qs d big st
      by (simp add: doRateLimit_def bits_def [symmetric] ql_def [symmetric] Let_def sleep_time_def)
  qed
qed


inductive governed :: "nat \<Rightarrow> nat \<Rightarrow> nat \<Rightarrow> rate_limit \<Rightarrow> nat \<Rightarrow> nat \<Rightarrow> nat \<Rightarrow> bool" for r M T0 where
  \<comment> \<open>the limiter for rate \<open>r\<close> after \<open>n\<close> calls with at most \<open>M\<close> bytes each, \<open>sent\<close> bytes in all,
      headers included; the last call returned at time \<open>awake\<close>, or later calls came then at the earliest\<close>
  start: "T0 < 2 ^ 62 \<Longrightarrow> governed r M T0 ((allocRateLimit (of_nat T0))\<lparr>bitrate := of_nat r\<rparr>) 0 0 T0"
| call: "governed r M T0 rl n sent awake \<Longrightarrow> awake \<le> now \<Longrightarrow> now < 2 ^ 62 \<Longrightarrow> (now - unat (date rl)) * r < 2 ^ 63 \<Longrightarrow> sz \<le> M
    \<Longrightarrow> doRateLimit (of_nat now) (of_nat sz) rl = Done (rl', slept)
    \<Longrightarrow> governed r M T0 rl' (n + 1) (sent + sz + 28) (now + (case slept of None \<Rightarrow> 0 | Some u \<Rightarrow> unat u))"

definition limit_inv :: "nat \<Rightarrow> nat \<Rightarrow> nat \<Rightarrow> rate_limit \<Rightarrow> nat \<Rightarrow> nat \<Rightarrow> nat \<Rightarrow> bool" where
  "limit_inv r M T0 rl n sent awake \<longleftrightarrow>
     unat (bitrate rl) = r \<and> T0 \<le> unat (date rl) \<and> unat (date rl) \<le> awake \<and> unat (queueSize rl) \<le> sent
     \<and> 8000000 * (sent - unat (queueSize rl)) \<le> r * (unat (date rl) - T0 + n)
     \<and> 8000000 * unat (queueSize rl) \<le> r * (awake - unat (date rl) + 40001) + 8000000 * (M + 28)"

lemma removed_bits:
  assumes b: "b = e * r div 1000000" and r: "0 < (r :: nat)" and lt: "b < q * 8"
  shows "b * 1000000 div r \<le> e" and "8000000 * (b div 8) \<le> r * (b * 1000000 div r + 1)"
    and "8000000 * (q - b div 8) + e * r \<le> 8000000 * q + 8000000"
proof -
  have le: "b * 1000000 \<le> e * r" unfolding b by simp
  then have "b * 1000000 div r \<le> e * r div r" by (rule div_le_mono)
  then show "b * 1000000 div r \<le> e" using r by simp
  have "b * 1000000 < r * (b * 1000000 div r + 1)"
    using r dividend_less_times_div [of r "b * 1000000"] by simp
  moreover have "8000000 * (b div 8) \<le> b * 1000000"
    using mult_div_mod_eq [of 8 b] by linarith
  ultimately show "8000000 * (b div 8) \<le> r * (b * 1000000 div r + 1)" by linarith
  define c where "c = b div 8"
  have "e * r < 1000000 * (b + 1)" unfolding b using dividend_less_times_div [of 1000000 "e * r"] by simp
  moreover have "b < 8 * (c + 1)" using dividend_less_times_div [of 8 b] by (simp add: c_def)
  moreover have "c \<le> q" using lt by (simp add: c_def)
  ultimately show "8000000 * (q - b div 8) + e * r \<le> 8000000 * q + 8000000"
    unfolding c_def [symmetric] by (simp add: diff_mult_distrib2)
qed

lemma limit_call:
  assumes inv: "limit_inv r M T0 rl n sent awake" and r: "1000 \<le> r" "r \<le> 8 * 10 ^ 11" and M: "M \<le> 65535"
    and now: "awake \<le> now" "now < 2 ^ 62" and e: "(now - unat (date rl)) * r < 2 ^ 63" and sz: "sz \<le> M"
  shows "\<exists>rl' slept. doRateLimit (of_nat now) (of_nat sz) rl = Done (rl', slept)
    \<and> limit_inv r M T0 rl' (n + 1) (sent + sz + 28) (now + (case slept of None \<Rightarrow> 0 | Some u \<Rightarrow> unat u))"
proof -
  define q where "q = unat (queueSize rl)"
  define d where "d = unat (date rl)"
  define el where "el = now - d"
  define b where "b = el * r div 1000000"
  define x where "x = q - b div 8"
  define t where "t = x * 8000000 div r"
  define adv where "adv = b * 1000000 div r"
  have rpos: "0 < r" using r by simp
  have un: "unat (of_nat now :: 64 word) = now" "unat (of_nat sz :: 64 word) = sz"
    using now sz M by (simp_all add: unat_of_nat_64)
  have inv': "unat (bitrate rl) = r" "T0 \<le> d" "d \<le> awake" "q \<le> sent" "8000000 * (sent - q) \<le> r * (d - T0 + n)"
    "8000000 * q \<le> r * (awake - d + 40001) + 8000000 * (M + 28)"
    using inv unfolding limit_inv_def q_def d_def by blast+
  have dn: "d \<le> now" using inv' now by simp
  have elr: "r * (awake - d) \<le> el * r" using now by (simp add: el_def diff_le_mono)
  have q2: "8000000 * q \<le> el * r + r * 40001 + 8000000 * (M + 28)" using inv'(6) elr unfolding distrib_left by linarith
  have q40: "q < 2 * 10 ^ 12"
  proof -
    have "el * r < 9223372036854775808" using e by (simp add: el_def d_def)
    moreover have "r * 40001 \<le> 800000000000 * 40001" using r(2) by (intro mult_le_mono1) simp
    moreover have "8000000 * (M + 28) \<le> 8000000 * 65563" using M by simp
    ultimately have "8000000 * q < 16000000000000000000" using q2 by simp
    then show ?thesis by simp
  qed
  have x_le: "8000000 * x \<le> r * 40001 + 8000000 * (M + 29)" if "b < q * 8"
    using removed_bits(3) [OF b_def rpos that] q2 by (simp add: x_def)
  have t31: "t < 2 ^ 31" if "b < q * 8"
  proof -
    have "8000000 * (M + 29) \<le> 8000000 * 65564" using M by simp
    also have "\<dots> \<le> r * 524512000" using r(1) by simp
    finally have "x * 8000000 \<le> r * 524552001" using x_le [OF that] by (simp add: distrib_left)
    then have "t \<le> r * 524552001 div r" unfolding t_def by (rule div_le_mono)
    then show ?thesis using rpos by simp
  qed
  show ?thesis
  proof (cases "b \<ge> q * 8")
    case True
    have "b < q * 8 \<or> q * 8 \<le> b" by linarith
    define elapsed where "elapsed = (of_nat now :: 64 word) - date rl"
    have ed: "elapsed * bitrate rl div LLMILLION \<ge> queueSize rl * 8"
    proof -
      have "unat (elapsed * bitrate rl div LLMILLION) = b"
        using dn e by (simp add: elapsed_def unat_div unat_mult_small unat_sub_le LLMILLION_def un inv'(1) b_def el_def d_def)
      moreover have "unat (queueSize rl * 8) = q * 8" using q40 by (simp add: unat_mult_small q_def)
      ultimately show ?thesis using True by (simp add: word_le_nat_alt)
    qed
    have s28: "unat (of_nat sz + 28 :: 64 word) = sz + 28" using sz M by (subst unat_add_small) (simp_all add: un)
    define rl' where "rl' = rl\<lparr>queueSize := of_nat sz + 28, date := of_nat now\<rparr>"
    have "doRateLimit (of_nat now) (of_nat sz) rl = Done (rl', None)"
      using ed by (simp add: doRateLimit_def elapsed_def rl'_def Let_def)
    moreover have "limit_inv r M T0 rl' (n + 1) (sent + sz + 28) now"
    proof -
      have "8000000 * q \<le> b * 1000000" using True by simp
      also have "\<dots> \<le> el * r" unfolding b_def by simp
      finally have "8000000 * sent \<le> r * (d - T0 + n) + el * r" using inv'(4,5) by (simp add: diff_mult_distrib2)
      also have "\<dots> = r * (now - T0 + n)"
      proof -
        have "now - T0 + n = (d - T0 + n) + (now - d)" using inv'(2) dn by simp
        then show ?thesis by (simp add: el_def distrib_left mult.commute)
      qed
      finally show ?thesis using inv' dn sz by (simp add: limit_inv_def rl'_def un s28 distrib_left)
    qed
    ultimately show ?thesis by auto
  next
    case False
    then have bq: "b < q * 8" by simp
    obtain rl' slept where c: "doRateLimit (of_nat now) (of_nat sz) rl = Done (rl', slept)" "bitrate rl' = bitrate rl"
        "unat (queueSize rl') = x + (sz + 28)" "unat (date rl') = d + adv"
        "slept = (if t > 40000 \<or> x \<ge> 100000 then Some (word_of_int (sleep_time t)) else None)"
      using doRateLimit_nat [of rl "of_nat now" r q "of_nat sz" b x t] dn rpos e q40 t31 [OF bq] sz M False inv'(1)
      by (auto simp: un q_def d_def b_def el_def x_def t_def adv_def)
    have x_t: "8000000 * x < r * (t + 1)" using dividend_less_times_div [OF rpos, of "x * 8000000"] by (simp add: t_def mult.commute)
    define w where "w = (case slept of None \<Rightarrow> 0 | Some u \<Rightarrow> unat u)"
    have w: "t \<le> w + 40000"
    proof (cases "t > 40000 \<or> x \<ge> 100000")
      case True
      have "0 < t"
      proof (cases "t > 40000")
        case False
        then have "r \<le> x * 8000000" using True r(2) by simp
        then show ?thesis using rpos by (simp add: t_def div_greater_zero_iff)
      qed simp
      note s = sleep_time_range [OF this]
      have "int t < 2 ^ 31" using t31 [OF bq] by simp
      then have "sleep_time t < 2 ^ 32" using s by simp
      then have "take_bit 32 (sleep_time t) = sleep_time t" using s by (intro take_bit_int_eq_self) simp_all
      then have "w = nat (sleep_time t)" using True by (simp add: w_def c(5) unat_eq_nat_uint uint_word_of_int_eq)
      then show ?thesis using s by linarith
    qed (simp)
    have q3: "8000000 * (x + (sz + 28)) \<le> r * (now + w - (d + adv) + 40001) + 8000000 * (M + 28)"
    proof -
      have "adv \<le> now - d" using removed_bits(1) [OF b_def rpos bq] by (simp add: adv_def el_def)
      then have "t + 1 \<le> now + w - (d + adv) + 40001" using w dn by linarith
      then have "r * (t + 1) \<le> r * (now + w - (d + adv) + 40001)" by (rule mult_le_mono2)
      then have a: "8000000 * x \<le> r * (now + w - (d + adv) + 40001)" using x_t by (rule order_trans [OF less_imp_le, rotated])
      have "8000000 * (sz + 28) \<le> 8000000 * (M + 28)" using sz by simp
      with a show ?thesis unfolding distrib_left [of 8000000 x "sz + 28"] by (rule add_mono)
    qed
    have s3: "8000000 * (sent + sz + 28 - (x + (sz + 28))) \<le> r * (d + adv - T0 + (n + 1))"
    proof -
      have "b div 8 \<le> q" using bq by linarith
      then have "sent + sz + 28 - (x + (sz + 28)) = (sent - q) + b div 8" using inv'(4) by (simp add: x_def)
      moreover have "8000000 * (b div 8) \<le> r * (adv + 1)" using removed_bits(2) [OF b_def rpos bq] by (simp add: adv_def)
      moreover have "(d - T0 + n) + (adv + 1) = d + adv - T0 + (n + 1)" using inv'(2) by linarith
      then have "r * (d - T0 + n) + r * (adv + 1) = r * (d + adv - T0 + (n + 1))" by (metis distrib_left)
      ultimately show ?thesis using inv'(5) by (simp add: distrib_left)
    qed
    have "x \<le> q" by (simp add: x_def)
    moreover have "adv \<le> now - d" using removed_bits(1) [OF b_def rpos bq] by (simp add: adv_def el_def)
    ultimately have "limit_inv r M T0 rl' (n + 1) (sent + sz + 28) (now + w)"
      unfolding limit_inv_def c(2,3,4) using inv' dn q3 s3 by simp
    then show ?thesis using c(1) by (auto simp: w_def)
  qed
qed


lemma governed_inv:
  assumes "governed r M T0 rl n sent awake" and "1000 \<le> r" "r \<le> 8 * 10 ^ 11" and "M \<le> 65535"
  shows "limit_inv r M T0 rl n sent awake"
  using assms
proof (induction rule: governed.induct)
  case start
  then show ?case by (simp add: limit_inv_def allocRateLimit_def unat_of_nat_64)
next
  case (call rl n sent awake now sz rl' slept)
  then show ?case using limit_call [of r M T0 rl n sent awake now sz] by auto
qed

text \<open>
  C20.  The limiter keeps the rate: whenever it has returned, at time \<open>awake\<close>, from \<open>n\<close> calls
  since time \<open>T0\<close>, the bytes it has let through (with 28 bytes of headers for each packet)
  are at most what \<open>r\<close> bits per second allow in the time passed, plus 40 milliseconds, plus one
  microsecond per call (the rounding of the date), plus the last packet; and the next call
  returns.  The caller does not call again before \<^verbatim>\<open>usleep\<close> is over.
\<close>

theorem rate_limit_holds:
  assumes "governed r M T0 rl n sent awake" and "1000 \<le> r" and "r \<le> 8 * 10 ^ 11" and "M \<le> 65535"
  shows "8000000 * sent \<le> r * (awake - T0 + n + 40001) + 8000000 * (M + 28)
    \<and> (\<forall>now sz. awake \<le> now \<and> now < 2 ^ 62 \<and> (now - unat (date rl)) * r < 2 ^ 63 \<and> sz \<le> M
         \<longrightarrow> (\<exists>res. doRateLimit (of_nat now) (of_nat sz) rl = Done res))"
proof (intro conjI allI impI)
  have inv: "limit_inv r M T0 rl n sent awake" by (rule governed_inv [OF assms])
  then have i: "T0 \<le> unat (date rl)" "unat (date rl) \<le> awake" "unat (queueSize rl) \<le> sent"
    "8000000 * (sent - unat (queueSize rl)) \<le> r * (unat (date rl) - T0 + n)"
    "8000000 * unat (queueSize rl) \<le> r * (awake - unat (date rl) + 40001) + 8000000 * (M + 28)"
    unfolding limit_inv_def by blast+
  have "awake - T0 + n + 40001 = (unat (date rl) - T0 + n) + (awake - unat (date rl) + 40001)" using i(1,2) by simp
  then have "r * (awake - T0 + n + 40001) = r * (unat (date rl) - T0 + n) + r * (awake - unat (date rl) + 40001)"
    by (simp only: distrib_left)
  then show "8000000 * sent \<le> r * (awake - T0 + n + 40001) + 8000000 * (M + 28)"
    using i(3-5) by linarith
  fix now sz
  assume "awake \<le> now \<and> now < 2 ^ 62 \<and> (now - unat (date rl)) * r < 2 ^ 63 \<and> sz \<le> M"
  then show "\<exists>res. doRateLimit (of_nat now) (of_nat sz) rl = Done res"
    using limit_call [OF inv assms(2-4), of now sz] by auto
qed

lemma sample_governed:
  "governed 8000000 1500 1000 \<lparr>date = 2000, realDate = 0, bitrate = 8000000, queueSize = 1500\<rparr> 1 1500 2000"
proof -
  have s: "governed 8000000 1500 1000 ((allocRateLimit 1000)\<lparr>bitrate := 8000000\<rparr>) 0 0 1000"
    using governed.start [of 1000 8000000 1500] by simp
  have "doRateLimit (of_nat 2000) (of_nat 1472) ((allocRateLimit 1000)\<lparr>bitrate := 8000000\<rparr>) =
    Done (\<lparr>date = 2000, realDate = 0, bitrate = 8000000, queueSize = 1500\<rparr>, None)"
    by (simp add: doRateLimit_def allocRateLimit_def LLMILLION_def)
  from governed.call [OF s _ _ _ _ this] show ?thesis by (simp add: allocRateLimit_def)
qed

theorem rate_limit_holds_witness:
  "8000000 * (1500 :: nat) \<le> 8000000 * (2000 - 1000 + 1 + 40001) + 8000000 * (1500 + 28)
    \<and> (\<exists>res. doRateLimit (of_nat 2500) (of_nat 1000) \<lparr>date = 2000, realDate = 0, bitrate = 8000000, queueSize = 1500\<rparr> = Done res)"
proof -
  note r = rate_limit_holds [OF sample_governed]
  have "\<exists>res. doRateLimit (of_nat 2500) (of_nat 1000) \<lparr>date = 2000, realDate = 0, bitrate = 8000000, queueSize = 1500\<rparr> = Done res"
    using r by (simp del: of_nat_numeral)
  then show ?thesis by simp
qed

text \<open>
  With a bit rate above 800 Gbit/s and a queue of 100000 bytes or more, the time to
  sleep is 0, from which the limiter takes 10 milliseconds away: \<^verbatim>\<open>usleep\<close> gets
  4294957296 microseconds, more than an hour.
\<close>

lemma fast_limiter_oversleeps:
  assumes "unat (bitrate rl) > 8000000 * unat (queueSize rl)" and "100000 \<le> unat (queueSize rl)"
    and "now = date rl"
  shows "\<exists>rl'. doRateLimit now sz rl = Done (rl', Some 4294957296)"
proof -
  define t where "t = queueSize rl * 8 * LLMILLION div bitrate rl"
  have b: "unat (bitrate rl) < 2 ^ 64" by (rule order_less_le_trans [OF unsigned_less]) simp
  have q8: "unat (queueSize rl * 8) = unat (queueSize rl) * 8" using assms(1) b by (simp add: unat_mult_small)
  have "unat (queueSize rl * 8 * LLMILLION) = unat (queueSize rl) * 8000000"
    using assms(1) b q8 by (subst unat_mult_small) (simp_all add: LLMILLION_def)
  then have "unat t = 0" using assms(1) by (simp add: t_def unat_div)
  then have "t = 0" by (simp add: unat_eq_zero)
  moreover have "bitrate rl \<noteq> 0" using assms(1) by auto
  moreover have "\<not> queueSize rl * 8 \<le> 0" using q8 assms(2) by (simp add: word_le_nat_alt)
  moreover have "100000 \<le> queueSize rl" using assms(2) by (simp add: word_le_nat_alt)
  ultimately show ?thesis
    using t_def by (simp add: doRateLimit_def assms(3) Let_def signed_modulo_int_def)
qed

lemma fast_limiter_sample:
  "\<exists>rl'. doRateLimit 5 1456 \<lparr>date = 5, realDate = 0, bitrate = 1000000000000, queueSize = 100000\<rparr> = Done (rl', Some 4294957296)"
  by (rule fast_limiter_oversleeps) simp_all

end
