(* ===== verification/SendData.thy ===== *)
theory SendData
  imports Fifo Participants Protocol
begin

text \<open>
  The network thread of the sender, \<^verbatim>\<open>src/senddata.c\<close>: slices, their transmission and
  retransmission, the requests for acknowledgement and the handling of the answers.

  A slice is an index into the array of \<^verbatim>\<open>NR_SLICES\<close> slices.  What goes out on the
  network is the list \<open>trace\<close> of the state (with the calls of the rate governors).  Values
  that the code keeps non-negative (sizes, block numbers) are naturals; the counters of
  answers, which are decremented, and the numbers of slices and of requests are integers.
  \<^verbatim>\<open>volatile\<close> reads of what the other threads change during a function are
  arguments: whether a message waits after block \<open>i\<close>, and how a timed wait ends.
\<close>

subsection \<open>State\<close>

definition FLAG_SN :: u32 where "FLAG_SN = 0x0001"
definition FLAG_ASYNC :: u32 where "FLAG_ASYNC = 0x0004"
definition FLAG_FEC :: u32 where "FLAG_FEC = 0x0010"
definition FLAG_STREAMING :: u32 where "FLAG_STREAMING = 0x0100"

datatype slice_state = SLICE_FREE | SLICE_NEW | SLICE_XMITTED | SLICE_ACKED | SLICE_PRE_FREE

record slice =
  base :: nat
  sliceNo :: int
  bytes :: nat
  nextBlock :: nat
  state :: slice_state
  rxmitMap :: "byte list"
  isXmittedMap :: "byte list"
  rxmitId :: int
  readySet :: "byte list"
  answeredSet :: "byte list"
  nrReady :: int
  nrAnswered :: int
  needRxmit :: bool
  lastGoodBlock :: nat
  fec_data :: nat \<comment> \<open>offset in the FEC memory of the sender\<close>

definition MAP_BYTES :: nat where "MAP_BYTES = MAX_SLICE_SIZE div 8"
definition SET_BYTES :: nat where "SET_BYTES = MAX_CLIENTS div 8"

definition zero_slice :: slice where
  \<comment> \<open>\<^verbatim>\<open>BZERO(*slice)\<close>\<close>
  "zero_slice = \<lparr>base = 0, sliceNo = 0, bytes = 0, nextBlock = 0, state = SLICE_FREE,
     rxmitMap = replicate MAP_BYTES 0, isXmittedMap = replicate MAP_BYTES 0, rxmitId = 0,
     readySet = replicate SET_BYTES 0, answeredSet = replicate SET_BYTES 0, nrReady = 0, nrAnswered = 0,
     needRxmit = False, lastGoodBlock = 0, fec_data = 0\<rparr>"

definition QUEUE_SIZE :: nat where "QUEUE_SIZE = 256"
definition NR_SLICES :: nat where "NR_SLICES = 2"

record sender_stats =
  totalBytes :: nat
  retransmissions :: nat
  clNo :: nat

datatype event =
    RgWait nat
  | SendData serverDataMsg "byte list" \<comment> \<open>a data or FEC block with its payload\<close>
  | SendReqack serverDataMsg "byte list" \<comment> \<open>with the set of the ready participants\<close>
  | SendHello bool

record sender_state =
  fifo :: fifo
  config :: net_config
  stats :: sender_stats
  slices :: "slice list"
  free_slices_pc :: produconsum
  fec_data_pc :: produconsum
  fec_memory :: "byte list"
  incoming :: produconsum
  freeSpace :: produconsum
  q :: "(nat \<times> message) list"
  participantsDb :: participantsDb
  trace :: "event list"

definition slice_at :: "sender_state \<Rightarrow> nat \<Rightarrow> slice" where
  "slice_at st k = slices st ! k"

definition upd_slice :: "nat \<Rightarrow> (slice \<Rightarrow> slice) \<Rightarrow> sender_state \<Rightarrow> sender_state" where
  "upd_slice k f st = st\<lparr>slices := (slices st)[k := f (slices st ! k)]\<rparr>"

definition emit :: "event \<Rightarrow> sender_state \<Rightarrow> sender_state" where
  "emit e st = st\<lparr>trace := trace st @ [e]\<rparr>"

subsection \<open>Statistics (\<^verbatim>\<open>src/statistics.c\<close>)\<close>

definition senderStatsAddBytes :: "sender_stats \<Rightarrow> nat \<Rightarrow> sender_stats" where
  "senderStatsAddBytes ss n = ss\<lparr>totalBytes := totalBytes ss + n\<rparr>"

definition senderStatsAddRetransmissions :: "sender_stats \<Rightarrow> nat \<Rightarrow> sender_stats" where
  "senderStatsAddRetransmissions ss n = ss\<lparr>retransmissions := retransmissions ss + n\<rparr>"

definition senderSetAnswered :: "sender_stats \<Rightarrow> nat \<Rightarrow> sender_stats" where
  "senderSetAnswered ss c = ss\<lparr>clNo := c\<rparr>"

subsection \<open>Slices\<close>

definition getSliceBlocks :: "slice \<Rightarrow> net_config \<Rightarrow> nat" where
  "getSliceBlocks sl c = (bytes sl + blockSize c - 1) div blockSize c"

definition isSliceAcked :: "slice \<Rightarrow> bool" where
  "isSliceAcked sl = (state sl = SLICE_ACKED)"

definition isSliceXmitted :: "slice \<Rightarrow> bool" where
  "isSliceXmitted sl = (state sl = SLICE_XMITTED)"

fun free_loop :: "nat \<Rightarrow> sender_state \<Rightarrow> sender_state outcome" where
  \<comment> \<open>the \<^verbatim>\<open>while(1)\<close> of \<^verbatim>\<open>freeSlice\<close>; \<open>Blocks\<close> when the rounds run out\<close>
  "free_loop 0 st = Blocks"
| "free_loop (Suc n) st =
     (let pos = unat (pc_getProducerPosition (free_slices_pc st))
      in if state (slice_at st pos) = SLICE_PRE_FREE then
           let st = upd_slice pos (state_update (\<lambda>_. SLICE_FREE)) st
           in and_then (or_abort (pc_produce (free_slices_pc st) 1)) (\<lambda>pc.
                free_loop n (st\<lparr>free_slices_pc := pc\<rparr>))
         else Done st)"

definition freeSlice :: "sender_state \<Rightarrow> nat \<Rightarrow> sender_state outcome" where
  "freeSlice st k = free_loop (NR_SLICES + 1) (upd_slice k (state_update (\<lambda>_. SLICE_PRE_FREE)) st)"

definition slice_bytes :: "net_config \<Rightarrow> nat \<Rightarrow> nat" where
  \<comment> \<open>how much of the bytes available \<^verbatim>\<open>makeSlice\<close> takes\<close>
  "slice_bytes c n =
     (let b = (if n > blockSize c * sliceSize c then blockSize c * sliceSize c else n)
      in if b > blockSize c then b - b mod blockSize c else b)"

definition makeSlice :: "sender_state \<Rightarrow> int \<Rightarrow> (sender_state \<times> nat) outcome" where
  "makeSlice st no =
     and_then (or_block (pc_consume (free_slices_pc st) 1 [])) (\<lambda>(fpc, _).
       let i = unat (pc_getConsumerPosition fpc)
       in and_then (check (state (slice_at st i) = SLICE_FREE)) (\<lambda>_.
         let st = upd_slice i (\<lambda>_. zero_slice) st;
             st = st\<lparr>free_slices_pc := pc_consumed fpc 1\<rparr>;
             b = unat (pc_getConsumerPosition (data (fifo st)))
         in and_then (or_block (pc_consume (data (fifo st)) (of_nat (10 * blockSize (config st))) [])) (\<lambda>(dpc, avail).
           let n = slice_bytes (config st) (unat avail);
               st = st\<lparr>fifo := (fifo st)\<lparr>data := pc_consumed dpc (of_nat n)\<rparr>\<rparr>;
               sl = zero_slice\<lparr>base := b, sliceNo := no, bytes := n, nextBlock := 0, state := SLICE_NEW,
                      readySet := replicate SET_BYTES 0, nrReady := 0,
                      fec_data := i * fec_stripes (config st) * fec_redundancy (config st) * blockSize (config st)\<rparr>
           in Done (upd_slice i (\<lambda>_. sl) st, i))))"

subsection \<open>Transmission\<close>

definition sendRawData :: "serverDataMsg \<Rightarrow> nat \<Rightarrow> byte list \<Rightarrow> sender_state \<Rightarrow> sender_state" where
  "sendRawData msg headerSize payload st =
     emit (SendData msg payload) (emit (RgWait (length payload + headerSize)) st)"

definition data_msg :: "slice \<Rightarrow> nat \<Rightarrow> serverDataMsg" where
  "data_msg sl i = \<lparr>d_opCode = htons CMD_DATA, d_stripes = 0, d_sliceNo = htonl_int (sliceNo sl),
     d_blockNo = htons (of_nat i), d_bytes = htonl_int (int (bytes sl)), d_rxmit = 0\<rparr>"

definition block_payload :: "fifo \<Rightarrow> net_config \<Rightarrow> slice \<Rightarrow> nat \<Rightarrow> byte list" where
  \<comment> \<open>\<open>size\<close> bytes at the address of block \<open>i\<close>; the subtraction stops at 0 as in the code\<close>
  "block_payload f c sl i =
     (let sz = bytes sl - i * blockSize c;
          sz = (if sz > blockSize c then blockSize c else sz)
      in take sz (drop ((base sl + i * blockSize c) mod unat (dataBufSize f)) (dataBuffer f)))"

definition transmitDataBlock :: "sender_state \<Rightarrow> nat \<Rightarrow> nat \<Rightarrow> sender_state outcome" where
  "transmitDataBlock st k i =
     and_then (check (i < MAX_SLICE_SIZE)) (\<lambda>_.
       Done (sendRawData (data_msg (slice_at st k) i) 16 (block_payload (fifo st) (config st) (slice_at st k) i) st))"

definition fec_msg :: "net_config \<Rightarrow> slice \<Rightarrow> nat \<Rightarrow> serverDataMsg" where
  "fec_msg c sl i = \<lparr>d_opCode = htons CMD_FEC, d_stripes = htons (of_nat (fec_stripes c)),
     d_sliceNo = htonl_int (sliceNo sl), d_blockNo = htons (of_nat i), d_bytes = htonl_int (int (bytes sl)), d_rxmit = 0\<rparr>"

definition transmitFecBlock :: "sender_state \<Rightarrow> nat \<Rightarrow> nat \<Rightarrow> sender_state outcome" where
  "transmitFecBlock st k i =
     (let c = config st; sl = slice_at st k
      in if bytes sl = 0 \<and> \<not> has_flag c FLAG_ASYNC then Done st
         else and_then (check (i < fec_redundancy c * fec_stripes c)) (\<lambda>_.
           Done (sendRawData (fec_msg c sl i) 16
             (take (blockSize c) (drop (fec_data sl + i * blockSize c) (fec_memory st))) st)))"

definition block_start :: "nat \<Rightarrow> bool \<Rightarrow> int \<Rightarrow> nat \<Rightarrow> sender_state \<Rightarrow> sender_state" where
  \<comment> \<open>a retransmitted block is marked; in streaming mode a hello goes out before block \<open>rehello\<close>\<close>
  "block_start k retransmitting rehello i st =
     (let st = (if retransmitting then upd_slice k (isXmittedMap_update (SET_BIT i)) st else st)
      in if int i = rehello then emit (SendHello True) st else st)"

function send_loop :: "(nat \<Rightarrow> bool) \<Rightarrow> nat \<Rightarrow> bool \<Rightarrow> nat \<Rightarrow> nat \<Rightarrow> int \<Rightarrow> nat \<Rightarrow> nat \<Rightarrow> sender_state
    \<Rightarrow> (sender_state \<times> nat \<times> nat) outcome" where
  \<comment> \<open>the loop over the blocks \<open>i < lim\<close> of slice \<open>k\<close>; \<open>retr\<close> counts the retransmissions\<close>
  "send_loop msgs k retransmitting nrBlocks lim rehello i retr st =
     (if i < lim then
        let sl = slice_at st k
        in if retransmitting \<and> (\<not> BIT_ISSET i (rxmitMap sl) \<or> BIT_ISSET i (isXmittedMap sl)) then
             send_loop msgs k retransmitting nrBlocks lim rehello (i + 1) retr
               (if i > lastGoodBlock sl then upd_slice k (lastGoodBlock_update (\<lambda>_. i)) st else st)
           else
             let st = block_start k retransmitting rehello i st;
                 retr = (if retransmitting then retr + 1 else retr)
             in and_then (if i < nrBlocks then transmitDataBlock st k i else transmitFecBlock st k (i - nrBlocks)) (\<lambda>st.
                  if \<not> retransmitting \<and> msgs i then Done (st, retr, i + 1)
                  else send_loop msgs k retransmitting nrBlocks lim rehello (i + 1) retr st)
      else Done (st, retr, i))"
  by pat_completeness auto
termination
  by (relation "measure (\<lambda>(msgs, k, retransmitting, nrBlocks, lim, rehello, i, retr, st). lim - i)") auto

declare send_loop.simps [simp del]

lemma send_loop_end: "\<not> i < lim \<Longrightarrow> send_loop msgs k rt nb lim rh i retr st = Done (st, retr, i)"
  by (subst send_loop.simps) simp

lemma send_loop_skip:
  assumes "i < lim" and "rt \<and> (\<not> BIT_ISSET i (rxmitMap (slice_at st k)) \<or> BIT_ISSET i (isXmittedMap (slice_at st k)))"
  shows "send_loop msgs k rt nb lim rh i retr st = send_loop msgs k rt nb lim rh (i + 1) retr
    (if i > lastGoodBlock (slice_at st k) then upd_slice k (lastGoodBlock_update (\<lambda>_. i)) st else st)"
  by (subst send_loop.simps) (simp only: assms(1) Let_def if_True if_P [OF assms(2)])

lemma send_loop_send:
  assumes "i < lim" and "\<not> (rt \<and> (\<not> BIT_ISSET i (rxmitMap (slice_at st k)) \<or> BIT_ISSET i (isXmittedMap (slice_at st k))))"
  shows "send_loop msgs k rt nb lim rh i retr st =
    and_then (if i < nb then transmitDataBlock (block_start k rt rh i st) k i
              else transmitFecBlock (block_start k rt rh i st) k (i - nb)) (\<lambda>st.
      if \<not> rt \<and> msgs i then Done (st, if rt then retr + 1 else retr, i + 1)
      else send_loop msgs k rt nb lim rh (i + 1) (if rt then retr + 1 else retr) st)"
  by (subst send_loop.simps) (simp only: assms(1) Let_def if_True if_not_P [OF assms(2)])

definition fec_blocks :: "net_config \<Rightarrow> bool \<Rightarrow> nat" where
  "fec_blocks c retransmitting =
     (if has_flag c FLAG_FEC \<and> \<not> retransmitting then fec_redundancy c * fec_stripes c else 0)"

definition rehello_block :: "net_config \<Rightarrow> nat \<Rightarrow> int" where
  "rehello_block c nrBlocks =
     (if has_flag c FLAG_STREAMING then
        (let r = int nrBlocks - int (rehelloOffset c) in if r < 0 then 0 else r)
      else -1)"

definition sendSlice :: "(nat \<Rightarrow> bool) \<Rightarrow> sender_state \<Rightarrow> nat \<Rightarrow> bool \<Rightarrow> (sender_state \<times> nat) outcome" where
  \<comment> \<open>with the value returned: 0 nothing done, 1 interrupted, 2 complete\<close>
  "sendSlice msgs st k retransmitting =
     (let st = (if retransmitting then upd_slice k (nextBlock_update (\<lambda>_. 0)) st else st)
      in if state (slice_at st k) \<noteq> (if retransmitting then SLICE_XMITTED else SLICE_NEW) then Done (st, 0)
         else
           let c = config st;
               nrBlocks = getSliceBlocks (slice_at st k) c;
               lim = nrBlocks + fec_blocks c retransmitting
           in and_then (send_loop msgs k retransmitting nrBlocks lim (rehello_block c nrBlocks)
                          (nextBlock (slice_at st k)) 0 st) (\<lambda>(st, retr, i).
                let st = (if retr \<noteq> 0 then st\<lparr>stats := senderStatsAddRetransmissions (stats st) retr\<rparr> else st);
                    st = upd_slice k (nextBlock_update (\<lambda>_. i)) st
                in if i = lim then
                     let st = upd_slice k (needRxmit_update (\<lambda>_. False)) st
                     in Done (if \<not> retransmitting then upd_slice k (state_update (\<lambda>_. SLICE_XMITTED)) st else st, 2)
                   else Done (st, 1)))"

subsection \<open>Acknowledgement and slice size\<close>

definition double_sliceSize :: "net_config \<Rightarrow> net_config" where
  "double_sliceSize c =
     (if \<not> has_flag c FLAG_SN \<and> discovery c = DSC_DOUBLING then
        let n = sliceSize c + sliceSize c div 4
        in if n \<ge> max_slice_size c then c\<lparr>sliceSize := max_slice_size c, discovery := DSC_REDUCING\<rparr>
           else c\<lparr>sliceSize := n\<rparr>
      else c)"

definition ackSlice :: "sender_state \<Rightarrow> nat \<Rightarrow> sender_state outcome" where
  "ackSlice st k =
     (if state (slice_at st k) = SLICE_ACKED then Done st
      else
        let st = st\<lparr>config := double_sliceSize (config st)\<rparr>;
            st = upd_slice k (state_update (\<lambda>_. SLICE_ACKED)) st;
            n = bytes (slice_at st k)
        in and_then (or_abort (pc_produce (freeMemQueue (fifo st)) (of_nat n))) (\<lambda>pc.
             Done (st\<lparr>fifo := (fifo st)\<lparr>freeMemQueue := pc\<rparr>, stats := senderStatsAddBytes (stats st) n\<rparr>)))"

definition reduce_sliceSize :: "slice \<Rightarrow> net_config \<Rightarrow> net_config" where
  "reduce_sliceSize sl c =
     (if \<not> has_flag c FLAG_SN \<and> rxmitId sl \<noteq> 0 \<and> lastGoodBlock sl \<noteq> 0
         \<and> lastGoodBlock sl < getSliceBlocks sl c then
        let n = (if lastGoodBlock sl < sliceSize c div 2 then sliceSize c div 2 else lastGoodBlock sl)
        in c\<lparr>discovery := DSC_REDUCING, sliceSize := (if n < 32 then 32 else n)\<rparr>
      else c)"

definition reqack_msg :: "slice \<Rightarrow> serverDataMsg" where
  "reqack_msg sl = \<lparr>d_opCode = htons CMD_REQACK, d_stripes = 0, d_sliceNo = htonl_int (sliceNo sl),
     d_blockNo = 0, d_bytes = htonl_int (int (bytes sl)), d_rxmit = htonl_int (rxmitId sl)\<rparr>"

definition reqack_reset :: "slice \<Rightarrow> slice" where
  "reqack_reset sl = sl\<lparr>lastGoodBlock := 0, answeredSet := readySet sl, nrAnswered := nrReady sl,
     needRxmit := False, rxmitMap := replicate MAP_BYTES 0, isXmittedMap := replicate MAP_BYTES 0\<rparr>"

definition sendReqack :: "sender_state \<Rightarrow> nat \<Rightarrow> sender_state outcome" where
  "sendReqack st k =
     (if has_flag (config st) FLAG_ASYNC \<and> bytes (slice_at st k) \<noteq> 0 then ackSlice st k
      else if has_flag (config st) FLAG_ASYNC \<and> has_flag (config st) FLAG_FEC then Done st
      else
        let st = st\<lparr>config := reduce_sliceSize (slice_at st k) (config st)\<rparr>;
            st = upd_slice k reqack_reset st;
            sl = slice_at st k
        in Done (emit (SendReqack (reqack_msg sl) (readySet sl)) (emit (RgWait (16 + SET_BYTES)) st)))"

definition doRetransmissions :: "(nat \<Rightarrow> bool) \<Rightarrow> sender_state \<Rightarrow> nat \<Rightarrow> sender_state outcome" where
  "doRetransmissions msgs st k =
     (if state (slice_at st k) = SLICE_ACKED then Done st
      else if needRxmit (slice_at st k) then and_then (sendSlice msgs st k True) (\<lambda>(st, _). Done st)
      else Done st)"

subsection \<open>Answers of the participants\<close>

definition markParticipantAnswered :: "slice \<Rightarrow> nat \<Rightarrow> slice" where
  "markParticipantAnswered sl c =
     (if BIT_ISSET c (answeredSet sl) then sl
      else sl\<lparr>nrAnswered := nrAnswered sl + 1, answeredSet := SET_BIT c (answeredSet sl)\<rparr>)"

definition handleOk :: "sender_state \<Rightarrow> nat option \<Rightarrow> nat \<Rightarrow> sender_state" where
  "handleOk st slo c =
     (case slo of
        None \<Rightarrow> st
      | Some k \<Rightarrow>
          if \<not> isParticipantValid (participantsDb st) c then st
          else if BIT_ISSET c (readySet (slice_at st k)) then st
          else
            let st = upd_slice k (\<lambda>sl. sl\<lparr>readySet := SET_BIT c (readySet sl), nrReady := nrReady sl + 1\<rparr>) st;
                st = st\<lparr>stats := senderSetAnswered (stats st) c\<rparr>
            in upd_slice k (\<lambda>sl. markParticipantAnswered sl c) st)"

definition handleRetransmit :: "sender_state \<Rightarrow> nat option \<Rightarrow> nat \<Rightarrow> byte list \<Rightarrow> int \<Rightarrow> sender_state" where
  "handleRetransmit st slo c rmap rxmit =
     (if \<not> isParticipantValid (participantsDb st) c then st
      else
        case slo of
          None \<Rightarrow> st
        | Some k \<Rightarrow>
            if rxmit < rxmitId (slice_at st k) then st
            else
              upd_slice k (\<lambda>sl.
                let sl = sl\<lparr>rxmitMap := fold (\<lambda>i m. m[i := (m ! i) OR NOT (rmap ! i)]) [0..<MAP_BYTES] (rxmitMap sl)\<rparr>;
                    sl = sl\<lparr>needRxmit := True\<rparr>
                in markParticipantAnswered sl c) st)"

definition handleDisconnect1 :: "slice \<Rightarrow> nat \<Rightarrow> slice" where
  "handleDisconnect1 sl c =
     (let sl = (if BIT_ISSET c (readySet sl)
                then sl\<lparr>readySet := CLR_BIT c (readySet sl), nrReady := nrReady sl - 1\<rparr> else sl)
      in if BIT_ISSET c (answeredSet sl)
         then sl\<lparr>nrAnswered := nrAnswered sl - 1, answeredSet := CLR_BIT c (answeredSet sl)\<rparr> else sl)"

definition disconnect_slice :: "nat option \<Rightarrow> nat \<Rightarrow> sender_state \<Rightarrow> sender_state" where
  "disconnect_slice slo c st = (case slo of None \<Rightarrow> st | Some k \<Rightarrow> upd_slice k (\<lambda>sl. handleDisconnect1 sl c) st)"

definition handleDisconnect :: "sender_state \<Rightarrow> nat option \<Rightarrow> nat option \<Rightarrow> nat \<Rightarrow> sender_state" where
  "handleDisconnect st sl1 sl2 c =
     (let st = disconnect_slice sl2 c (disconnect_slice sl1 c st)
      in st\<lparr>participantsDb := removeParticipant (participantsDb st) c\<rparr>)"

definition findSlice :: "sender_state \<Rightarrow> nat option \<Rightarrow> nat option \<Rightarrow> int \<Rightarrow> nat option" where
  "findSlice st sl1 sl2 no =
     (case sl1 of
        Some k \<Rightarrow> if sliceNo (slice_at st k) = no then Some k
                  else (case sl2 of Some j \<Rightarrow> if sliceNo (slice_at st j) = no then Some j else None | None \<Rightarrow> None)
      | None \<Rightarrow> (case sl2 of Some j \<Rightarrow> if sliceNo (slice_at st j) = no then Some j else None | None \<Rightarrow> None))"

definition handleNextMessage :: "sender_state \<Rightarrow> nat option \<Rightarrow> nat option \<Rightarrow> sender_state outcome" where
  "handleNextMessage st xmitSlice rexmitSlice =
     (let pos = unat (pc_getConsumerPosition (incoming st));
          c = fst (q st ! pos); msg = snd (q st ! pos)
      in and_then (or_block (pc_consumeAny (incoming st) [])) (\<lambda>(ipc, _).
           let st = st\<lparr>incoming := ipc\<rparr>;
               op = ntohs (m_opCode msg);
               st = (if op = CMD_OK then
                       handleOk st (findSlice st xmitSlice rexmitSlice (ntohl_int (m_sliceNo msg))) c
                     else if op = CMD_DISCONNECT then handleDisconnect st xmitSlice rexmitSlice c
                     else if op = CMD_RETRANSMIT then
                       handleRetransmit st (findSlice st xmitSlice rexmitSlice (ntohl_int (m_sliceNo msg))) c
                         (m_map msg) (sint (m_rxmit msg))
                     else st);
               st = st\<lparr>incoming := pc_consumed (incoming st) 1\<rparr>
           in and_then (or_abort (pc_produce (freeSpace st) 1)) (\<lambda>pc. Done (st\<lparr>freeSpace := pc\<rparr>))))"

subsection \<open>The return channel\<close>

definition initReturnChannel :: "sender_state \<Rightarrow> sender_state outcome" where
  "initReturnChannel st =
     and_then (or_abort (pc_produce (pc_makeProduconsum (of_nat QUEUE_SIZE)) (of_nat QUEUE_SIZE))) (\<lambda>pc.
       Done (st\<lparr>freeSpace := pc, incoming := pc_makeProduconsum (of_nat QUEUE_SIZE)\<rparr>))"

definition returnChannelMain :: "sender_state \<Rightarrow> sockaddr_in \<Rightarrow> message \<Rightarrow> sender_state outcome" where
  \<comment> \<open>one round: message \<open>msg\<close> is received from \<open>src\<close>\<close>
  "returnChannelMain st src msg =
     (let pos = unat (pc_getConsumerPosition (freeSpace st))
      in and_then (or_block (pc_consumeAny (freeSpace st) [])) (\<lambda>(fpc, _).
           let st = st\<lparr>freeSpace := fpc, q := (q st)[pos := (fst (q st ! pos), msg)]\<rparr>;
               c = lookupParticipant (participantsDb st) src
           in if c < 0 then Done st
              else
                let st = st\<lparr>q := (q st)[pos := (nat c, msg)], freeSpace := pc_consumed (freeSpace st) 1\<rparr>
                in and_then (or_abort (pc_produce (incoming st) 1)) (\<lambda>pc. Done (st\<lparr>incoming := pc\<rparr>))))"

subsection \<open>The main loop\<close>

record main_state =
  sender :: sender_state
  atEnd :: bool
  nrWaited :: nat
  xmitSlice :: "nat option"
  rexmitSlice :: "nat option"
  nextSliceNo :: int

datatype loop_next = Continue main_state | Exit main_state

definition init_sliceSize :: "net_config \<Rightarrow> net_config" where
  \<comment> \<open>the slice size chosen at the start of \<^verbatim>\<open>netSenderMain\<close>\<close>
  "init_sliceSize c =
     (let c = (if default_slice_size c = 0 then
                 c\<lparr>sliceSize := (if has_flag c FLAG_FEC then fec_stripesize c * fec_stripes c
                                else if has_flag c FLAG_ASYNC then 1024
                                else if has_flag c FLAG_SN then 112 else 130),
                   discovery := DSC_DOUBLING\<rparr>
               else
                 c\<lparr>sliceSize := (if has_flag c FLAG_FEC \<and> default_slice_size c > 128 * fec_stripes c
                                then 128 * fec_stripes c else default_slice_size c)\<rparr>);
          c = (if has_flag c FLAG_FEC \<and> max_slice_size c > fec_stripes c * 128
               then c\<lparr>max_slice_size := fec_stripes c * 128\<rparr> else c)
      in if sliceSize c > max_slice_size c then c\<lparr>sliceSize := max_slice_size c\<rparr> else c)"

definition main_start :: "sender_state \<Rightarrow> main_state outcome" where
  "main_start st =
     (let st = st\<lparr>config := init_sliceSize (config st)\<rparr>
      in and_then (check (sliceSize (config st) \<le> MAX_SLICE_SIZE)) (\<lambda>_.
           Done \<lparr>sender = st, atEnd = False, nrWaited = 0, xmitSlice = None, rexmitSlice = None, nextSliceNo = 0\<rparr>))"

definition main_cleanup :: "main_state \<Rightarrow> main_state outcome" where
  \<comment> \<open>cleanup of the slice being retransmitted\<close>
  "main_cleanup m =
     (case rexmitSlice m of
        None \<Rightarrow> Done m
      | Some k \<Rightarrow>
          and_then (if nrReady (slice_at (sender m) k) = nrParticipants (participantsDb (sender m))
                    then ackSlice (sender m) k else Done (sender m)) (\<lambda>st.
            if isSliceAcked (slice_at st k) then
              and_then (freeSlice st k) (\<lambda>st. Done (m\<lparr>sender := st, rexmitSlice := None\<rparr>))
            else Done (m\<lparr>sender := st\<rparr>)))"

definition main_shift :: "main_state \<Rightarrow> main_state outcome" where
  \<comment> \<open>the transmitted slice moves to the slot for retransmission\<close>
  "main_shift m =
     (case (rexmitSlice m, xmitSlice m) of
        (None, Some k) \<Rightarrow>
          if isSliceXmitted (slice_at (sender m) k) then
            and_then (sendReqack (sender m) k) (\<lambda>st. Done (m\<lparr>sender := st, rexmitSlice := Some k, xmitSlice := None\<rparr>))
          else Done m
      | _ \<Rightarrow> Done m)"

definition main_reqack :: "main_state \<Rightarrow> main_state outcome" where
  \<comment> \<open>all participants answered: ask again\<close>
  "main_reqack m =
     (case rexmitSlice m of
        Some k \<Rightarrow>
          if nrAnswered (slice_at (sender m) k) = nrParticipants (participantsDb (sender m)) then
            and_then (sendReqack (upd_slice k (\<lambda>sl. sl\<lparr>rxmitId := rxmitId sl + 1\<rparr>) (sender m)) k) (\<lambda>st.
              Done (m\<lparr>sender := st\<rparr>))
          else Done m
      | None \<Rightarrow> Done m)"

definition main_new_slice :: "main_state \<Rightarrow> main_state outcome" where
  "main_new_slice m =
     (if xmitSlice m = None \<and> \<not> atEnd m \<and> (has_flag (config (sender m)) FLAG_SN \<or> rexmitSlice m = None) then
        and_then
          (if has_flag (config (sender m)) FLAG_FEC then
             and_then (or_block (pc_consume (fec_data_pc (sender m)) 1 [])) (\<lambda>(pc, _).
               Done (m\<lparr>sender := (sender m)\<lparr>fec_data_pc := pc_consumed pc 1\<rparr>,
                       xmitSlice := Some (unat (pc_getConsumerPosition pc))\<rparr>))
           else
             and_then (makeSlice (sender m) (nextSliceNo m)) (\<lambda>(st, k).
               Done (m\<lparr>sender := st, xmitSlice := Some k, nextSliceNo := nextSliceNo m + 1\<rparr>)))
          (\<lambda>m. Done (if bytes (slice_at (sender m) (the (xmitSlice m))) = 0 then m\<lparr>atEnd := True\<rparr> else m))
      else Done m)"

fun drop_clients :: "nat list \<Rightarrow> nat \<Rightarrow> sender_state \<Rightarrow> sender_state \<times> bool" where
  \<comment> \<open>the clients dropped because of the timeout; whether nobody is left\<close>
  "drop_clients [] k st = (st, False)"
| "drop_clients (i # is) k st =
     (if isParticipantValid (participantsDb st) i \<and> \<not> BIT_ISSET i (readySet (slice_at st k)) then
        let st = st\<lparr>participantsDb := removeParticipant (participantsDb st) i\<rparr>
        in if nrParticipants (participantsDb st) = 0 then (st, True) else drop_clients is k st
      else drop_clients is k st)"

definition main_timeout :: "main_state \<Rightarrow> nat \<Rightarrow> loop_next outcome" where
  \<comment> \<open>nobody answered in time; \<open>k\<close> is the slice being retransmitted\<close>
  "main_timeout m k =
     (let m = m\<lparr>nrWaited := (if nrWaited m > 5 then 0 else nrWaited m) + 1\<rparr>
      in if rxmitId (slice_at (sender m) k) > retriesUntilDrop (config (sender m)) then
           (let (st, none_left) = drop_clients [0..<MAX_CLIENTS] k (sender m)
            in Done (if none_left then Exit (m\<lparr>sender := st\<rparr>) else Continue (m\<lparr>sender := st\<rparr>)))
         else
           and_then (sendReqack (upd_slice k (\<lambda>sl. sl\<lparr>rxmitId := rxmitId sl + 1\<rparr>) (sender m)) k) (\<lambda>st.
             Done (Continue (m\<lparr>sender := st\<rparr>))))"

definition main_wait :: "wakeup list \<Rightarrow> main_state \<Rightarrow> loop_next outcome" where
  \<comment> \<open>the timed wait for a message and what follows it\<close>
  "main_wait wakes m =
     (if atEnd m \<and> rexmitSlice m = None \<and> xmitSlice m = None then Done (Exit m)
      else if has_flag (config (sender m)) FLAG_ASYNC then Done (Exit m)
      else
        and_then (check (rexmitSlice m \<noteq> None)) (\<lambda>_.
          and_then (or_block (pc_consumeAnyWithTimeout (incoming (sender m)) wakes)) (\<lambda>(pc, n).
            let m = m\<lparr>sender := (sender m)\<lparr>incoming := pc\<rparr>\<rparr>
            in if n \<noteq> 0 then Done (Continue (m\<lparr>nrWaited := 0\<rparr>))
               else main_timeout m (the (rexmitSlice m)))))"

definition main_body :: "(nat \<Rightarrow> bool) \<Rightarrow> wakeup list \<Rightarrow> main_state \<Rightarrow> loop_next outcome" where
  \<comment> \<open>one round of the \<^verbatim>\<open>do\<close> loop of \<^verbatim>\<open>netSenderMain\<close>\<close>
  "main_body msgs wakes m =
     and_then (main_cleanup m) (\<lambda>m.
     and_then (main_shift m) (\<lambda>m.
       if pc_getWaiting (incoming (sender m)) \<noteq> 0 then
         and_then (handleNextMessage (sender m) (xmitSlice m) (rexmitSlice m)) (\<lambda>st. Done (Continue (m\<lparr>sender := st\<rparr>)))
       else if \<exists>k \<in> set_option (rexmitSlice m). needRxmit (slice_at (sender m) k) then
         and_then (doRetransmissions msgs (sender m) (the (rexmitSlice m))) (\<lambda>st. Done (Continue (m\<lparr>sender := st\<rparr>)))
       else
         and_then (main_reqack m) (\<lambda>m.
         and_then (main_new_slice m) (\<lambda>m.
           if \<exists>k \<in> set_option (xmitSlice m). state (slice_at (sender m) k) = SLICE_NEW then
             and_then (sendSlice msgs (sender m) (the (xmitSlice m)) False) (\<lambda>(st, _). Done (Continue (m\<lparr>sender := st\<rparr>)))
           else main_wait wakes m))))"

definition main_round :: "(nat \<Rightarrow> bool) \<Rightarrow> wakeup list \<Rightarrow> main_state \<Rightarrow> loop_next outcome" where
  \<comment> \<open>with the condition of the loop; the end of the loop closes the free memory queue\<close>
  "main_round msgs wakes m =
     and_then (main_body msgs wakes m) (\<lambda>r.
       let close = (\<lambda>m. m\<lparr>sender := (sender m)\<lparr>fifo := (fifo (sender m))\<lparr>freeMemQueue :=
                          pc_produceEnd (freeMemQueue (fifo (sender m)))\<rparr>\<rparr>\<rparr>)
       in Done (case r of
            Exit m \<Rightarrow> Exit (close m)
          | Continue m \<Rightarrow>
              if nrParticipants (participantsDb (sender m)) \<noteq> 0 \<or> has_flag (config (sender m)) FLAG_ASYNC
              then Continue m else Exit (close m)))"

end
