(* ===== verification/SendAnswers.thy ===== *)
theory SendAnswers
  imports SendData
begin

text \<open>
  What the sender counts: the number of participants that are ready, or have answered, for a slice
  is kept beside the set of them.  The locales state how a counter goes with its set; the
  invariant \<open>answers_inv\<close> of \<^verbatim>\<open>src/senddata.c\<close> rests on their interpretations.
\<close>

subsection \<open>Counted sets\<close>

locale counted =
  fixes ok :: "'s \<Rightarrow> bool" and elems :: "'s \<Rightarrow> nat set" and count :: "'s \<Rightarrow> int"
  assumes finite_elems: "ok s \<Longrightarrow> finite (elems s)"
    and count_law: "ok s \<Longrightarrow> count s = int (card (elems s))"
begin

lemma count_nonneg: "ok s \<Longrightarrow> 0 \<le> count s"
  by (simp add: count_law)

lemma count_zero: "ok s \<Longrightarrow> count s = 0 \<longleftrightarrow> elems s = {}"
  by (simp add: count_law finite_elems)

end

locale roll_call = present: counted okp elemsp countp + expected: counted oke elemse counte
  for okp :: "'p \<Rightarrow> bool" and elemsp countp and oke :: "'e \<Rightarrow> bool" and elemse counte
begin

lemma all_present:
  assumes "okp p" and "oke e" and "elemsp p \<subseteq> elemse e" and "countp p = counte e"
  shows "elemsp p = elemse e"
proof (rule card_subset_eq)
  show "finite (elemse e)" by (rule expected.finite_elems [OF assms(2)])
  show "elemsp p \<subseteq> elemse e" by (rule assms(3))
  show "card (elemsp p) = card (elemse e)"
    using assms(4) present.count_law [OF assms(1)] expected.count_law [OF assms(2)] by simp
qed

end

subsection \<open>The invariant of a slice\<close>

definition slice_inv :: "slice \<Rightarrow> bool" where
  "slice_inv sl \<longleftrightarrow> length (rxmitMap sl) = MAP_BYTES \<and> length (isXmittedMap sl) = MAP_BYTES
     \<and> length (readySet sl) = SET_BYTES \<and> length (answeredSet sl) = SET_BYTES
     \<and> nrReady sl = int (card (bits_of (readySet sl)))
     \<and> nrAnswered sl = int (card (bits_of (answeredSet sl)))
     \<and> bits_of (readySet sl) \<subseteq> bits_of (answeredSet sl)"

interpretation ready: roll_call slice_inv "\<lambda>sl. bits_of (readySet sl)" nrReady db_inv valid nrParticipants
  by unfold_locales (simp_all add: slice_inv_def db_inv_def nrParticipants_def)

interpretation answered: roll_call slice_inv "\<lambda>sl. bits_of (answeredSet sl)" nrAnswered db_inv valid nrParticipants
  by unfold_locales (simp_all add: slice_inv_def)

lemma set_bytes_8: "8 * SET_BYTES = MAX_CLIENTS"
  by (simp add: SET_BYTES_def MAX_CLIENTS_def)

lemma map_bytes_8: "8 * MAP_BYTES = MAX_SLICE_SIZE"
  by (simp add: MAP_BYTES_def MAX_SLICE_SIZE_def)

lemma zero_slice_inv: "slice_inv zero_slice"
  by (simp add: slice_inv_def zero_slice_def)

lemma mark_inv [inv_intros]:
  assumes inv: "slice_inv sl" and c: "c < MAX_CLIENTS"
  shows "slice_inv (markParticipantAnswered sl c)"
proof -
  have lt: "c < 8 * length (answeredSet sl)" using inv c by (simp add: slice_inv_def set_bytes_8)
  show ?thesis
  proof (cases "BIT_ISSET c (answeredSet sl)")
    case True
    then show ?thesis using inv by (simp add: markParticipantAnswered_def)
  next
    case False
    then have "c \<notin> bits_of (answeredSet sl)" using BIT_ISSET_iff_bits_of [OF lt] by simp
    then show ?thesis using inv lt False
      by (auto simp: markParticipantAnswered_def slice_inv_def)
  qed
qed

lemma mark_sel [simp]:
  "readySet (markParticipantAnswered sl c) = readySet sl" "nrReady (markParticipantAnswered sl c) = nrReady sl"
  "state (markParticipantAnswered sl c) = state sl"
  "isXmittedMap (markParticipantAnswered sl c) = isXmittedMap sl" "sliceNo (markParticipantAnswered sl c) = sliceNo sl"
  "rxmitMap (markParticipantAnswered sl c) = rxmitMap sl" "bytes (markParticipantAnswered sl c) = bytes sl"
  by (simp_all add: markParticipantAnswered_def)

lemma mark_answered:
  assumes "slice_inv sl" and "c < MAX_CLIENTS"
  shows "bits_of (answeredSet (markParticipantAnswered sl c)) = insert c (bits_of (answeredSet sl))"
proof -
  have lt: "c < 8 * length (answeredSet sl)" using assms by (simp add: slice_inv_def set_bytes_8)
  then show ?thesis using BIT_ISSET_iff_bits_of [OF lt] by (auto simp: markParticipantAnswered_def)
qed

definition ok_slice :: "nat \<Rightarrow> slice \<Rightarrow> slice" where
  "ok_slice c sl =
     (if BIT_ISSET c (readySet sl) then sl
      else markParticipantAnswered (sl\<lparr>readySet := SET_BIT c (readySet sl), nrReady := nrReady sl + 1\<rparr>) c)"

lemma ok_slice_inv [inv_intros]:
  assumes inv: "slice_inv sl" and c: "c < MAX_CLIENTS"
  shows "slice_inv (ok_slice c sl) \<and> bits_of (readySet (ok_slice c sl)) = insert c (bits_of (readySet sl))
    \<and> state (ok_slice c sl) = state sl"
proof -
  have lt: "c < 8 * length (readySet sl)" "c < 8 * length (answeredSet sl)"
    using inv c by (simp_all add: slice_inv_def set_bytes_8)
  note r = BIT_ISSET_iff_bits_of [OF lt(1)] and a = BIT_ISSET_iff_bits_of [OF lt(2)]
  show ?thesis
  proof (cases "c \<in> bits_of (readySet sl)")
    case True
    then show ?thesis using inv r by (auto simp: ok_slice_def)
  next
    case False
    then have "nrReady sl + 1 = int (card (insert c (bits_of (readySet sl))))"
      using inv by (simp add: slice_inv_def)
    moreover have "nrAnswered (ok_slice c sl) = int (card (bits_of (answeredSet (ok_slice c sl))))"
      using inv False r a lt by (auto simp: ok_slice_def markParticipantAnswered_def slice_inv_def)
    moreover have "bits_of (answeredSet (ok_slice c sl)) = insert c (bits_of (answeredSet sl))"
      using False r a lt by (auto simp: ok_slice_def markParticipantAnswered_def)
    moreover have "length (answeredSet (ok_slice c sl)) = SET_BYTES"
      using inv by (simp add: ok_slice_def markParticipantAnswered_def slice_inv_def)
    ultimately show ?thesis using inv False r lt by (auto simp: ok_slice_def slice_inv_def)
  qed
qed

lemma disconnect_inv [inv_intros]:
  assumes inv: "slice_inv sl" and c: "c < MAX_CLIENTS"
  shows "slice_inv (handleDisconnect1 sl c)
    \<and> bits_of (readySet (handleDisconnect1 sl c)) = bits_of (readySet sl) - {c}
    \<and> bits_of (answeredSet (handleDisconnect1 sl c)) = bits_of (answeredSet sl) - {c}
    \<and> state (handleDisconnect1 sl c) = state sl"
proof -
  have lt: "c < 8 * length (readySet sl)" "c < 8 * length (answeredSet sl)"
    using inv c by (simp_all add: slice_inv_def set_bytes_8)
  note r = BIT_ISSET_iff_bits_of [OF lt(1)] and a = BIT_ISSET_iff_bits_of [OF lt(2)]
  have card: "int (card (A - {c})) = int (card A) - 1" if "c \<in> A" "finite A" for A
    using that by (metis card_Suc_Diff1 of_nat_Suc add_diff_cancel_left')
  have "bits_of (readySet (handleDisconnect1 sl c)) = bits_of (readySet sl) - {c}"
    "nrReady (handleDisconnect1 sl c) = int (card (bits_of (readySet sl) - {c}))"
    using inv r lt card by (auto simp: handleDisconnect1_def Let_def slice_inv_def simp del: card_Diff_singleton card_Diff_insert)
  moreover have "bits_of (answeredSet (handleDisconnect1 sl c)) = bits_of (answeredSet sl) - {c}"
    "nrAnswered (handleDisconnect1 sl c) = int (card (bits_of (answeredSet sl) - {c}))"
    using inv a lt card by (auto simp: handleDisconnect1_def Let_def slice_inv_def simp del: card_Diff_singleton card_Diff_insert)
  moreover have "length (readySet (handleDisconnect1 sl c)) = SET_BYTES" "length (answeredSet (handleDisconnect1 sl c)) = SET_BYTES"
    "length (rxmitMap (handleDisconnect1 sl c)) = MAP_BYTES" "length (isXmittedMap (handleDisconnect1 sl c)) = MAP_BYTES"
    "state (handleDisconnect1 sl c) = state sl"
    using inv by (simp_all add: handleDisconnect1_def Let_def slice_inv_def)
  ultimately show ?thesis using inv by (auto simp: slice_inv_def)
qed

definition merge_map :: "byte list \<Rightarrow> byte list \<Rightarrow> byte list" where
  "merge_map rmap m = fold (\<lambda>i m. m[i := (m ! i) OR NOT (rmap ! i)]) [0..<MAP_BYTES] m"

lemma merge_map_bits:
  assumes "length m = MAP_BYTES"
  shows "length (merge_map rmap m) = MAP_BYTES
    \<and> (\<forall>x < MAX_SLICE_SIZE. BIT_ISSET x (merge_map rmap m) \<longleftrightarrow> BIT_ISSET x m \<or> \<not> BIT_ISSET x rmap)"
proof -
  have p: "length (merge_map rmap m) = length m
      \<and> (\<forall>i < length m. merge_map rmap m ! i = (m ! i) OR NOT (rmap ! i))"
    using fold_pointwise [of MAP_BYTES m "\<lambda>i v. v OR NOT (rmap ! i)"] assms
    by (simp add: merge_map_def)
  have "x div 8 < MAP_BYTES" if "x < MAX_SLICE_SIZE" for x
    using that map_bytes_8 by (metis less_mult_imp_div_less mult.commute)
  then show ?thesis using p assms by (simp add: BIT_ISSET_def bit_or_iff bit_not_iff)
qed

lemma retransmit_inv:
  assumes inv: "slice_inv sl" and c: "c < MAX_CLIENTS"
  shows "slice_inv (markParticipantAnswered (sl\<lparr>rxmitMap := merge_map rmap (rxmitMap sl), needRxmit := True\<rparr>) c)"
proof (rule mark_inv [OF _ c])
  show "slice_inv (sl\<lparr>rxmitMap := merge_map rmap (rxmitMap sl), needRxmit := True\<rparr>)"
    using inv merge_map_bits [of "rxmitMap sl" rmap] by (simp add: slice_inv_def)
qed
subsection \<open>What the steps change\<close>

lemma upd_slice_sel [simp]:
  "fifo (upd_slice k f st) = fifo st" "config (upd_slice k f st) = config st" "stats (upd_slice k f st) = stats st"
  "free_slices_pc (upd_slice k f st) = free_slices_pc st" "fec_data_pc (upd_slice k f st) = fec_data_pc st"
  "fec_memory (upd_slice k f st) = fec_memory st" "incoming (upd_slice k f st) = incoming st"
  "freeSpace (upd_slice k f st) = freeSpace st" "q (upd_slice k f st) = q st"
  "participantsDb (upd_slice k f st) = participantsDb st" "trace (upd_slice k f st) = trace st"
  "length (slices (upd_slice k f st)) = length (slices st)"
  by (simp_all add: upd_slice_def)

lemma slice_at_upd [simp]:
  "k < length (slices st) \<Longrightarrow> slice_at (upd_slice k f st) j = (if j = k then f (slice_at st k) else slice_at st j)"
  by (auto simp: slice_at_def upd_slice_def)

lemma emit_sel [simp]:
  "fifo (emit e st) = fifo st" "config (emit e st) = config st" "stats (emit e st) = stats st"
  "free_slices_pc (emit e st) = free_slices_pc st" "fec_data_pc (emit e st) = fec_data_pc st"
  "fec_memory (emit e st) = fec_memory st" "incoming (emit e st) = incoming st"
  "freeSpace (emit e st) = freeSpace st" "q (emit e st) = q st"
  "participantsDb (emit e st) = participantsDb st" "slices (emit e st) = slices st"
  "slice_at (emit e st) j = slice_at st j"
  by (simp_all add: emit_def slice_at_def)

lemma slice_at_fields [simp]:
  "slice_at (st\<lparr>fifo := x1\<rparr>) j = slice_at st j" "slice_at (st\<lparr>config := x2\<rparr>) j = slice_at st j"
  "slice_at (st\<lparr>stats := x3\<rparr>) j = slice_at st j" "slice_at (st\<lparr>free_slices_pc := x4\<rparr>) j = slice_at st j"
  "slice_at (st\<lparr>fec_data_pc := x5\<rparr>) j = slice_at st j" "slice_at (st\<lparr>incoming := x6\<rparr>) j = slice_at st j"
  "slice_at (st\<lparr>freeSpace := x7\<rparr>) j = slice_at st j" "slice_at (st\<lparr>q := x8\<rparr>) j = slice_at st j"
  "slice_at (st\<lparr>participantsDb := x9\<rparr>) j = slice_at st j" "slice_at (st\<lparr>trace := x10\<rparr>) j = slice_at st j"
  by (simp_all add: slice_at_def)

lemma slice_at_cong: "slices st' = slices st \<Longrightarrow> slice_at st' j = slice_at st j"
  by (simp add: slice_at_def)

definition ans_view :: "slice \<Rightarrow> int \<times> byte list \<times> byte list \<times> int \<times> int \<times> nat \<times> nat" where
  "ans_view sl = (sliceNo sl, readySet sl, answeredSet sl, nrReady sl, nrAnswered sl, length (rxmitMap sl), length (isXmittedMap sl))"

definition queue_view :: "sender_state \<Rightarrow> produconsum \<times> produconsum \<times> (nat \<times> message) list \<times> produconsum \<times> u32 \<times> u32 \<times> u32" where
  \<comment> \<open>what the network thread leaves to the others: the queue of messages, that of the FEC thread, and whether there is one\<close>
  "queue_view st = (incoming st, freeSpace st, q st, fec_data_pc st, consumed (free_slices_pc st), pc_size (free_slices_pc st), flags (config st))"

lemma queue_view_upd [simp]: "queue_view (upd_slice k f st) = queue_view st" "queue_view (emit e st) = queue_view st"
  by (simp_all add: queue_view_def)

lemma queue_view_sel:
  assumes "queue_view st' = queue_view st"
  shows "incoming st' = incoming st" "freeSpace st' = freeSpace st" "q st' = q st" "fec_data_pc st' = fec_data_pc st"
    "consumed (free_slices_pc st') = consumed (free_slices_pc st)" "pc_size (free_slices_pc st') = pc_size (free_slices_pc st)"
    "has_flag (config st') = has_flag (config st)"
  using assms by (auto simp: queue_view_def has_flag_def fun_eq_iff)

definition keeps :: "sender_state \<Rightarrow> sender_state \<Rightarrow> bool" where
  "keeps st st' \<longleftrightarrow> participantsDb st' = participantsDb st \<and> length (slices st') = length (slices st)
     \<and> queue_view st' = queue_view st
     \<and> (\<forall>j < length (slices st). ans_view (slice_at st' j) = ans_view (slice_at st j))"

lemma keeps_refl [intro!, simp]: "keeps st st"
  by (simp add: keeps_def)

lemma keeps_trans: "keeps st st' \<Longrightarrow> keeps st' st'' \<Longrightarrow> keeps st st''"
  by (simp add: keeps_def)

lemma keeps_upd:
  assumes "k < length (slices st)" and "ans_view (f (slice_at st k)) = ans_view (slice_at st k)"
  shows "keeps st (upd_slice k f st)"
  using assms by (simp add: keeps_def)

lemma keeps_cong:
  assumes "keeps st st'" and "participantsDb st'' = participantsDb st'" "slices st'' = slices st'"
    "queue_view st'' = queue_view st'"
  shows "keeps st st''"
  using assms by (simp add: keeps_def slice_at_cong [of st'' st'])

definition tracks :: "nat set \<Rightarrow> sender_state \<Rightarrow> sender_state \<Rightarrow> bool" where
  \<comment> \<open>no slice is made or renumbered, and new slices stay new, except those in \<open>K\<close>\<close>
  "tracks K st st' \<longleftrightarrow> queue_view st' = queue_view st \<and> length (slices st') = length (slices st)
     \<and> (\<forall>j < length (slices st). sliceNo (slice_at st' j) = sliceNo (slice_at st j)
          \<and> (state (slice_at st' j) = SLICE_NEW \<longrightarrow> state (slice_at st j) = SLICE_NEW)
          \<and> (j \<notin> K \<longrightarrow> state (slice_at st j) = SLICE_NEW \<longrightarrow> state (slice_at st' j) = SLICE_NEW))"

lemma tracks_refl [simp]: "tracks K st st"
  by (simp add: tracks_def)

lemma tracks_trans: "tracks K st st' \<Longrightarrow> tracks K st' st'' \<Longrightarrow> tracks K st st''"
  unfolding tracks_def by metis

lemma tracks_mono: "tracks K st st' \<Longrightarrow> K \<subseteq> L \<Longrightarrow> tracks L st st'"
  by (auto simp: tracks_def)

lemma tracks_same: "slices st' = slices st \<Longrightarrow> queue_view st' = queue_view st \<Longrightarrow> tracks K st st'"
  by (simp add: tracks_def slice_at_def)

lemma tracksD:
  assumes "tracks K st st'" and "k < length (slices st)"
  shows "sliceNo (slice_at st' k) = sliceNo (slice_at st k)"
    and "state (slice_at st' k) = SLICE_NEW \<Longrightarrow> state (slice_at st k) = SLICE_NEW"
    and "k \<notin> K \<Longrightarrow> state (slice_at st k) = SLICE_NEW \<Longrightarrow> state (slice_at st' k) = SLICE_NEW"
proof -
  note a = assms(1) [unfolded tracks_def, THEN conjunct2, THEN conjunct2, THEN spec, THEN mp, OF assms(2)]
  show "sliceNo (slice_at st' k) = sliceNo (slice_at st k)" by (rule conjunct1 [OF a])
  show "state (slice_at st' k) = SLICE_NEW \<Longrightarrow> state (slice_at st k) = SLICE_NEW" by (rule mp [OF conjunct1 [OF conjunct2 [OF a]]])
  show "k \<notin> K \<Longrightarrow> state (slice_at st k) = SLICE_NEW \<Longrightarrow> state (slice_at st' k) = SLICE_NEW"
    by (rule mp [OF mp [OF conjunct2 [OF conjunct2 [OF a]]]])
qed

lemma tracks_sel:
  assumes "tracks K st st'"
  shows "incoming st' = incoming st" "freeSpace st' = freeSpace st" "q st' = q st" "fec_data_pc st' = fec_data_pc st"
  by (rule queue_view_sel [OF conjunct1 [OF assms [unfolded tracks_def]]])+

lemma tracks_cong:
  assumes "tracks K st st'" and "slices u = slices st" "slices u' = slices st'" and "queue_view u' = queue_view u"
  shows "tracks K u u'"
  using assms(1,4) unfolding tracks_def slice_at_def assms(2,3) by (elim conjE, intro conjI)

lemma tracks_upd:
  assumes "k < length (slices st)" and "sliceNo (f (slice_at st k)) = sliceNo (slice_at st k)" "state (f (slice_at st k)) = state (slice_at st k)"
  shows "tracks K st (upd_slice k f st)"
  using assms by (simp add: tracks_def)

lemma keeps_tracks:
  assumes "keeps st st'"
    and "\<And>j. j < length (slices st) \<Longrightarrow> state (slice_at st' j) = SLICE_NEW \<Longrightarrow> state (slice_at st j) = SLICE_NEW"
    and "\<And>j. j < length (slices st) \<Longrightarrow> j \<notin> K \<Longrightarrow> state (slice_at st j) = SLICE_NEW \<Longrightarrow> state (slice_at st' j) = SLICE_NEW"
  shows "tracks K st st'"
  using assms by (auto simp: tracks_def keeps_def ans_view_def)

lemma slice_inv_view: "ans_view sl = ans_view sl' \<Longrightarrow> slice_inv sl = slice_inv sl'"
  by (simp add: ans_view_def slice_inv_def)

lemma ready_view: "ans_view sl = ans_view sl' \<Longrightarrow> readySet sl = readySet sl'"
  by (simp add: ans_view_def)

definition same_states :: "sender_state \<Rightarrow> sender_state \<Rightarrow> bool" where
  "same_states st st' \<longleftrightarrow> (\<forall>j < length (slices st). state (slice_at st' j) = state (slice_at st j))"

lemma transmit_keeps:
  "transmitDataBlock st k i = Done st' \<Longrightarrow> slices st' = slices st \<and> participantsDb st' = participantsDb st
     \<and> queue_view st' = queue_view st"
  "transmitFecBlock st k i = Done st' \<Longrightarrow> slices st' = slices st \<and> participantsDb st' = participantsDb st
     \<and> queue_view st' = queue_view st"
  by (auto simp: transmitDataBlock_def transmitFecBlock_def sendRawData_def Let_def outcome_Done queue_view_def split: if_splits)

lemma block_start_keeps:
  assumes "k < length (slices st)"
  shows "keeps st (block_start k rt rh i st) \<and> same_states st (block_start k rt rh i st)
    \<and> length (slices (block_start k rt rh i st)) = length (slices st)"
  using assms by (auto simp: block_start_def same_states_def keeps_def ans_view_def queue_view_def Let_def)

lemma send_loop_keeps:
  assumes "send_loop msgs k rt nb lim rh i retr st = Done (st', retr', i')" and "k < length (slices st)"
  shows "keeps st st' \<and> same_states st st'"
  using assms
proof (induction msgs k rt nb lim rh i retr st rule: send_loop.induct)
  case (1 msgs k rt nb lim rh i retr st)
  show ?case
  proof (cases "i < lim")
    case False
    then show ?thesis using "1.prems" by (simp add: send_loop_end same_states_def)
  next
    case lt: True
    show ?thesis
    proof (cases "rt \<and> (\<not> BIT_ISSET i (rxmitMap (slice_at st k)) \<or> BIT_ISSET i (isXmittedMap (slice_at st k)))")
      case True
      define st1 where "st1 = (if i > lastGoodBlock (slice_at st k)
        then upd_slice k (lastGoodBlock_update (\<lambda>_. i)) st else st)"
      have "keeps st st1" "same_states st st1" "length (slices st1) = length (slices st)"
        using "1.prems"(2) by (auto simp: st1_def same_states_def ans_view_def intro!: keeps_upd)
      moreover have "send_loop msgs k rt nb lim rh (i + 1) retr st1 = Done (st', retr', i')"
        using "1.prems"(1) send_loop_skip [OF lt True] by (simp add: st1_def)
      ultimately show ?thesis
        using "1.IH"(1) [OF lt refl True] "1.prems"(2) keeps_trans [of st st1 st']
        by (simp add: st1_def [symmetric] same_states_def)
    next
      case False
      define st2 where "st2 = block_start k rt rh i st"
      define retr2 where "retr2 = (if rt then retr + 1 else retr)"
      have k2: "keeps st st2 \<and> same_states st st2 \<and> length (slices st2) = length (slices st)"
        using block_start_keeps [OF "1.prems"(2)] by (simp add: st2_def)
      obtain st3 where t: "(if i < nb then transmitDataBlock st2 k i else transmitFecBlock st2 k (i - nb)) = Done st3"
        and r: "(if \<not> rt \<and> msgs i then Done (st3, retr2, i + 1)
                  else send_loop msgs k rt nb lim rh (i + 1) retr2 st3) = Done (st', retr', i')"
        using "1.prems"(1) unfolding send_loop_send [OF lt False] and_then_Done st2_def retr2_def by blast
      have s3: "slices st3 = slices st2 \<and> participantsDb st3 = participantsDb st2 \<and> queue_view st3 = queue_view st2"
        using t transmit_keeps [of st2 k] by (auto split: if_splits)
      then have k3: "keeps st st3" "same_states st st3" "length (slices st3) = length (slices st)"
        using k2 by (auto simp: same_states_def slice_at_cong [of st3 st2] intro: keeps_cong [of st st2])
      show ?thesis
      proof (cases "\<not> rt \<and> msgs i")
        case True
        then show ?thesis using r k3 by simp
      next
        case no: False
        then have "send_loop msgs k rt nb lim rh (i + 1) retr2 st3 = Done (st', retr', i')" using r by auto
        with "1.IH"(2) [OF lt refl False st2_def retr2_def no, of st3] k3 "1.prems"(2)
        have "keeps st3 st' \<and> same_states st3 st'" by simp
        then show ?thesis using k3 keeps_trans [of st st3 st'] by (simp add: same_states_def)
      qed
    qed
  qed
qed

lemma sendSlice_keeps:
  assumes "sendSlice msgs st k rt = Done (st', r)" and "k < length (slices st)"
  shows "keeps st st' \<and> (\<forall>j < length (slices st). j \<noteq> k \<or> rt \<longrightarrow> state (slice_at st' j) = state (slice_at st j))
    \<and> (state (slice_at st' k) = state (slice_at st k)
       \<or> state (slice_at st k) = SLICE_NEW \<and> state (slice_at st' k) = SLICE_XMITTED)"
proof -
  define st1 where "st1 = (if rt then upd_slice k (nextBlock_update (\<lambda>_. 0)) st else st)"
  have k1: "keeps st st1" "same_states st st1" "length (slices st1) = length (slices st)"
    using assms(2) by (auto simp: st1_def same_states_def ans_view_def intro!: keeps_upd)
  show ?thesis
  proof (cases "state (slice_at st1 k) \<noteq> (if rt then SLICE_XMITTED else SLICE_NEW)")
    case True
    then have "st' = st1" using assms(1) by (simp add: sendSlice_def st1_def [symmetric] Let_def)
    then show ?thesis using k1 assms(2) by (simp add: same_states_def)
  next
    case False
    define nb where "nb = getSliceBlocks (slice_at st1 k) (config st1)"
    define lim where "lim = nb + fec_blocks (config st1) rt"
    obtain st2 retr i where l: "send_loop msgs k rt nb lim (rehello_block (config st1) nb)
        (nextBlock (slice_at st1 k)) 0 st1 = Done (st2, retr, i)"
      and r: "(let st = (if retr \<noteq> 0 then st2\<lparr>stats := senderStatsAddRetransmissions (stats st2) retr\<rparr> else st2);
                  st = upd_slice k (nextBlock_update (\<lambda>_. i)) st
              in if i = lim then
                   let st = upd_slice k (needRxmit_update (\<lambda>_. False)) st
                   in Done (if \<not> rt then upd_slice k (state_update (\<lambda>_. SLICE_XMITTED)) st else st, 2)
                 else Done (st, 1)) = Done (st', r)"
      using assms(1) False
      by (auto simp: sendSlice_def st1_def [symmetric] Let_def nb_def lim_def and_then_Done)
    have k2: "keeps st1 st2 \<and> same_states st1 st2" using send_loop_keeps [OF l] k1 assms(2) by simp
    then have len2: "length (slices st2) = length (slices st)" using k1 by (simp add: keeps_def)
    define st3 where "st3 = (if retr \<noteq> 0 then st2\<lparr>stats := senderStatsAddRetransmissions (stats st2) retr\<rparr> else st2)"
    have sl3: "slices st3 = slices st2" "participantsDb st3 = participantsDb st2" "queue_view st3 = queue_view st2"
      by (simp_all add: st3_def queue_view_def)
    have k3: "keeps st st3" using keeps_cong [OF _ sl3(2,1,3)] k1 k2 keeps_trans by blast
    have s3: "state (slice_at st3 j) = state (slice_at st j)" if "j < length (slices st)" for j
      using k1 k2 that slice_at_cong [OF sl3(1)] by (simp add: same_states_def)
    have "keeps st3 st'" and "\<forall>j < length (slices st). state (slice_at st' j) =
        (if j = k \<and> i = lim \<and> \<not> rt then SLICE_XMITTED else state (slice_at st3 j))"
      using r len2 sl3 assms(2) unfolding st3_def [symmetric]
      by (auto simp: Let_def keeps_def ans_view_def split: if_splits)
    then show ?thesis
      using keeps_trans [OF k3] s3 assms(2) False k1 by (auto simp: same_states_def split: if_splits)
  qed
qed

subsection \<open>The invariant of the answers\<close>

definition answers_inv :: "sender_state \<Rightarrow> nat option \<Rightarrow> nat option \<Rightarrow> bool" where
  \<comment> \<open>\<open>xm\<close> is the slice in its first transmission, \<open>rm\<close> the one being retransmitted\<close>
  "answers_inv st xm rm \<longleftrightarrow> db_inv (participantsDb st) \<and> length (slices st) = NR_SLICES
     \<and> (\<forall>k < NR_SLICES. slice_inv (slice_at st k)
          \<and> (state (slice_at st k) = SLICE_NEW \<longrightarrow> bits_of (readySet (slice_at st k)) = {}))
     \<and> (\<forall>k \<in> set_option xm. k < NR_SLICES \<and> bits_of (readySet (slice_at st k)) = {}
          \<and> state (slice_at st k) \<in> {SLICE_NEW, SLICE_XMITTED})
     \<and> (\<forall>k \<in> set_option rm. k < NR_SLICES \<and> bits_of (readySet (slice_at st k)) \<subseteq> valid (participantsDb st)
          \<and> state (slice_at st k) \<in> {SLICE_XMITTED, SLICE_ACKED})
     \<and> set_option xm \<inter> set_option rm = {} \<and> pc_size (free_slices_pc st) = of_nat NR_SLICES"

lemma answers_inv_cong:
  assumes "answers_inv st xm rm" and "participantsDb st' = participantsDb st" and "slices st' = slices st"
    and "pc_size (free_slices_pc st') = pc_size (free_slices_pc st)"
  shows "answers_inv st' xm rm"
  using assms by (simp add: answers_inv_def slice_at_cong [OF assms(3)])

lemma answers_inv_keeps:
  assumes inv: "answers_inv st xm rm" and k: "keeps st st'"
    and new: "\<And>j. j < NR_SLICES \<Longrightarrow> state (slice_at st' j) = SLICE_NEW \<Longrightarrow> state (slice_at st j) = SLICE_NEW"
    and xm: "\<And>j. xm = Some j \<Longrightarrow> state (slice_at st' j) \<in> {SLICE_NEW, SLICE_XMITTED}"
    and rm: "\<And>j. rm = Some j \<Longrightarrow> state (slice_at st' j) \<in> {SLICE_XMITTED, SLICE_ACKED}"
  shows "answers_inv st' xm rm"
proof -
  have len: "length (slices st) = NR_SLICES" using inv by (simp add: answers_inv_def)
  have v: "slice_inv (slice_at st' j) = slice_inv (slice_at st j)" "readySet (slice_at st' j) = readySet (slice_at st j)"
    if "j < NR_SLICES" for j
  proof -
    have "ans_view (slice_at st' j) = ans_view (slice_at st j)" using k that len by (simp add: keeps_def)
    then show "slice_inv (slice_at st' j) = slice_inv (slice_at st j)" "readySet (slice_at st' j) = readySet (slice_at st j)"
      by (rule slice_inv_view, rule ready_view)
  qed
  have db: "participantsDb st' = participantsDb st" "length (slices st') = NR_SLICES"
    "pc_size (free_slices_pc st') = pc_size (free_slices_pc st)"
    using k len by (simp_all add: keeps_def queue_view_def)
  have "\<forall>j<NR_SLICES. slice_inv (slice_at st' j)
      \<and> (state (slice_at st' j) = SLICE_NEW \<longrightarrow> bits_of (readySet (slice_at st' j)) = {})"
    using inv v new by (simp add: answers_inv_def)
  moreover have "\<forall>j \<in> set_option xm. j < NR_SLICES \<and> bits_of (readySet (slice_at st' j)) = {}
      \<and> state (slice_at st' j) \<in> {SLICE_NEW, SLICE_XMITTED}"
    using inv v xm by (auto simp: answers_inv_def)
  moreover have "\<forall>j \<in> set_option rm. j < NR_SLICES \<and> bits_of (readySet (slice_at st' j)) \<subseteq> valid (participantsDb st')
      \<and> state (slice_at st' j) \<in> {SLICE_XMITTED, SLICE_ACKED}"
    using inv v rm db by (auto simp: answers_inv_def)
  ultimately show ?thesis using inv db by (simp add: answers_inv_def)
qed

lemma answers_inv_upd:
  assumes inv: "answers_inv st xm rm" and k: "k < NR_SLICES" and sl: "slice_inv (f (slice_at st k))"
    and st: "state (f (slice_at st k)) = state (slice_at st k)"
    and new: "bits_of (readySet (f (slice_at st k))) \<subseteq> insert c (bits_of (readySet (slice_at st k)))"
    and c: "bits_of (readySet (f (slice_at st k))) \<subseteq> bits_of (readySet (slice_at st k))
      \<or> c \<in> valid (participantsDb st) \<and> xm \<noteq> Some k \<and> state (slice_at st k) \<noteq> SLICE_NEW"
  shows "answers_inv (upd_slice k f st) xm rm"
proof -
  have len: "k < length (slices st)" using inv k by (simp add: answers_inv_def)
  note at = slice_at_upd [OF len]
  have all: "slice_inv (slice_at st j)" "state (slice_at st j) = SLICE_NEW \<Longrightarrow> bits_of (readySet (slice_at st j)) = {}"
    if "j < NR_SLICES" for j using inv that by (simp_all add: answers_inv_def)
  have ixm: "bits_of (readySet (slice_at st j)) = {}" "state (slice_at st j) \<in> {SLICE_NEW, SLICE_XMITTED}"
    if "xm = Some j" for j using inv that by (simp_all add: answers_inv_def)
  have irm: "bits_of (readySet (slice_at st j)) \<subseteq> valid (participantsDb st)" "state (slice_at st j) \<in> {SLICE_XMITTED, SLICE_ACKED}"
    if "rm = Some j" for j using inv that by (simp_all add: answers_inv_def)
  have "slice_inv (slice_at (upd_slice k f st) j)
      \<and> (state (slice_at (upd_slice k f st) j) = SLICE_NEW \<longrightarrow> bits_of (readySet (slice_at (upd_slice k f st) j)) = {})"
    if "j < NR_SLICES" for j
    unfolding at using all [OF that] all(2) [OF k] sl st c by (cases "j = k") auto
  moreover have "bits_of (readySet (slice_at (upd_slice k f st) j)) = {}
      \<and> state (slice_at (upd_slice k f st) j) \<in> {SLICE_NEW, SLICE_XMITTED}" if "xm = Some j" for j
    unfolding at using ixm [OF that] st c that by (cases "j = k") auto
  moreover have "bits_of (readySet (slice_at (upd_slice k f st) j)) \<subseteq> valid (participantsDb st)
      \<and> state (slice_at (upd_slice k f st) j) \<in> {SLICE_XMITTED, SLICE_ACKED}" if "rm = Some j" for j
    unfolding at using irm [OF that] st new c by (cases "j = k") auto
  ultimately show ?thesis using inv unfolding answers_inv_def by simp
qed

subsection \<open>Acknowledging and freeing\<close>

lemma ackSlice_keeps:
  assumes "ackSlice st k = Done st'" and "k < length (slices st)"
  shows "keeps st st' \<and> (\<forall>j < length (slices st). state (slice_at st' j) =
      (if j = k then SLICE_ACKED else state (slice_at st j)))"
proof (cases "state (slice_at st k) = SLICE_ACKED")
  case True
  then show ?thesis using assms by (simp add: ackSlice_def)
next
  case False
  define st1 where "st1 = upd_slice k (state_update (\<lambda>_. SLICE_ACKED)) (st\<lparr>config := double_sliceSize (config st)\<rparr>)"
  have "slices st' = slices st1 \<and> participantsDb st' = participantsDb st1 \<and> queue_view st' = queue_view st1"
    using assms(1) False by (auto simp: ackSlice_def Let_def outcome_Done st1_def [symmetric] queue_view_def)
  moreover have "queue_view st1 = queue_view st" by (simp add: st1_def) (simp add: queue_view_def double_sliceSize_def Let_def)
  ultimately have "slices st' = slices st1" "participantsDb st' = participantsDb st1" "queue_view st' = queue_view st" by simp_all
  then show ?thesis
    using assms(2) by (auto simp: keeps_def ans_view_def queue_view_def st1_def slice_at_cong [of st' st1])
qed

lemma sendReqack_inv:
  assumes inv: "answers_inv st xm (Some k)" and r: "sendReqack st k = Done st'"
  shows "answers_inv st' xm (Some k) \<and> tracks {} st st'"
proof -
  have len: "k < length (slices st)" "k < NR_SLICES" and xm: "xm \<noteq> Some k" using inv by (auto simp: answers_inv_def)
  define st2 where "st2 = upd_slice k reqack_reset (st\<lparr>config := reduce_sliceSize (slice_at st k) (config st)\<rparr>)"
  consider (ack) "ackSlice st k = Done st'" | (same) "st' = st"
    | (req) "slices st' = slices st2" "participantsDb st' = participantsDb st2" "queue_view st' = queue_view st2"
  proof -
    have "ackSlice st k = Done st' \<or> st' = st \<or> st' = emit (SendReqack (reqack_msg (slice_at st2 k)) (readySet (slice_at st2 k)))
        (emit (RgWait (16 + SET_BYTES)) st2)"
      using r unfolding st2_def by (simp add: sendReqack_def Let_def split: if_splits)
    then show thesis using ack same req by auto
  qed
  then show ?thesis
  proof cases
    case ack
    note a = ackSlice_keeps [OF ack len(1)]
    have "answers_inv st' xm (Some k)"
      by (rule answers_inv_keeps [OF inv]) (use a inv xm in \<open>auto simp: answers_inv_def split: if_splits\<close>)
    moreover have "state (slice_at st k) \<noteq> SLICE_NEW" using inv by (auto simp: answers_inv_def)
    then have "tracks {} st st'" using a by (intro keeps_tracks) (auto split: if_splits)
    ultimately show ?thesis ..
  next
    case same
    then show ?thesis using inv by simp
  next
    case req
    let ?st1 = "st\<lparr>config := reduce_sliceSize (slice_at st k) (config st)\<rparr>"
    have inv1: "answers_inv ?st1 xm (Some k)" by (rule answers_inv_cong [OF inv]) simp_all
    have "slice_inv (slice_at ?st1 k)" using inv len by (simp add: answers_inv_def)
    then have inv2: "answers_inv st2 xm (Some k)"
      unfolding st2_def
      by (intro answers_inv_upd [OF inv1 len(2), where c = 0]) (auto simp: slice_inv_def reqack_reset_def)
    have "queue_view ?st1 = queue_view st" by (simp add: queue_view_def reduce_sliceSize_def Let_def)
    then have "tracks {} st ?st1" by (intro tracks_same) simp_all
    moreover have "tracks {} ?st1 st2" unfolding st2_def using len by (intro tracks_upd) (simp_all add: reqack_reset_def)
    moreover have "tracks {} st2 st'" using req by (intro tracks_same) simp_all
    ultimately have "tracks {} st st'" by (meson tracks_trans)
    moreover have "answers_inv st' xm (Some k)"
      using inv2 by (rule answers_inv_cong) (simp_all add: req queue_view_sel [OF req(3)])
    ultimately show ?thesis by simp
  qed
qed

lemma free_loop_keeps:
  assumes "free_loop n st = Done st'"
  shows "participantsDb st' = participantsDb st \<and> length (slices st') = length (slices st) \<and> queue_view st' = queue_view st
    \<and> (\<forall>j < length (slices st). slice_at st' j = slice_at st j
         \<or> state (slice_at st j) = SLICE_PRE_FREE \<and> slice_at st' j = (slice_at st j)\<lparr>state := SLICE_FREE\<rparr>)"
  using assms
proof (induction n arbitrary: st)
  case (Suc n)
  define pos where "pos = unat (pc_getProducerPosition (free_slices_pc st))"
  show ?case
  proof (cases "state (slice_at st pos) = SLICE_PRE_FREE")
    case False
    then show ?thesis using Suc.prems by (simp add: pos_def Let_def)
  next
    case True
    define st1 where "st1 = upd_slice pos (state_update (\<lambda>_. SLICE_FREE)) st"
    obtain pc where pc: "free_loop n (st1\<lparr>free_slices_pc := pc\<rparr>) = Done st'"
      and "pc_produce (free_slices_pc st1) 1 = Some pc"
      using Suc.prems True by (auto simp: pos_def [symmetric] st1_def [symmetric] Let_def outcome_Done)
    then have "pc_size pc = pc_size (free_slices_pc st) \<and> consumed pc = consumed (free_slices_pc st)"
      by (auto simp: st1_def pc_produce_def wakeConsumer_def Let_def split: if_splits)
    then have sz: "queue_view (st1\<lparr>free_slices_pc := pc\<rparr>) = queue_view st" by (simp add: queue_view_def st1_def)
    show ?thesis
    proof (cases "pos < length (slices st)")
      case pos: True
      have "slice_at st' j = slice_at st j
          \<or> state (slice_at st j) = SLICE_PRE_FREE \<and> slice_at st' j = (slice_at st j)\<lparr>state := SLICE_FREE\<rparr>"
        if "j < length (slices st)" for j
        using Suc.IH [OF pc] True pos that by (cases "j = pos") (auto simp: st1_def)
      then show ?thesis using Suc.IH [OF pc] sz by (simp add: st1_def)
    next
      case False
      then have "slices st1 = slices st" by (simp add: st1_def upd_slice_def list_update_beyond)
      then have "\<forall>j. slice_at st1 j = slice_at st j" by (simp add: slice_at_def)
      then show ?thesis using Suc.IH [OF pc] sz by simp (simp add: st1_def)
    qed
  qed
qed simp

lemma freeSlice_inv:
  assumes inv: "answers_inv st xm (Some k)" and f: "freeSlice st k = Done st'"
  shows "answers_inv st' xm None \<and> tracks {} st st'"
proof -
  have k: "k < NR_SLICES" "k < length (slices st)" "length (slices st) = NR_SLICES" and xm: "xm \<noteq> Some k"
    using inv by (auto simp: answers_inv_def)
  define st1 where "st1 = upd_slice k (state_update (\<lambda>_. SLICE_PRE_FREE)) st"
  have f1: "free_loop (NR_SLICES + 1) st1 = Done st'" using f by (simp add: freeSlice_def st1_def)
  note fl = free_loop_keeps [OF f1]
  have len1: "length (slices st1) = NR_SLICES" using k by (simp add: st1_def)
  have s: "ans_view (slice_at st' j) = ans_view (slice_at st j)
      \<and> (j \<noteq> k \<longrightarrow> state (slice_at st' j) = state (slice_at st j) \<or> state (slice_at st j) = SLICE_PRE_FREE \<and> state (slice_at st' j) = SLICE_FREE)
      \<and> (j = k \<longrightarrow> state (slice_at st' j) \<in> {SLICE_PRE_FREE, SLICE_FREE})" if "j < NR_SLICES" for j
    using fl that k len1 by (cases "j = k") (auto simp: ans_view_def st1_def)
  have inv0: "answers_inv st xm None" using inv by (simp add: answers_inv_def)
  have kp: "keeps st st'" using fl s k by (simp add: keeps_def st1_def)
  then have "answers_inv st' xm None"
  proof (rule answers_inv_keeps [OF inv0])
    show "state (slice_at st j) = SLICE_NEW" if "j < NR_SLICES" "state (slice_at st' j) = SLICE_NEW" for j
      using s [OF that(1)] that(2) by auto
    show "state (slice_at st' j) \<in> {SLICE_NEW, SLICE_XMITTED}" if "xm = Some j" for j
    proof -
      have "j < NR_SLICES" "j \<noteq> k" "state (slice_at st j) \<in> {SLICE_NEW, SLICE_XMITTED}"
        using inv that xm by (auto simp: answers_inv_def)
      then show ?thesis using s [of j] by auto
    qed
  qed simp
  moreover have "state (slice_at st k) \<noteq> SLICE_NEW" using inv by (auto simp: answers_inv_def)
  then have "tracks {} st st'"
  proof (intro keeps_tracks [OF kp])
    fix j assume "j < length (slices st)"
    then have j: "j < NR_SLICES" using k(3) by simp
    show "state (slice_at st j) = SLICE_NEW" if "state (slice_at st' j) = SLICE_NEW"
      using s [OF j] that by (cases "j = k") auto
    show "state (slice_at st' j) = SLICE_NEW" if "state (slice_at st j) = SLICE_NEW" "state (slice_at st k) \<noteq> SLICE_NEW"
      using s [OF j] that by (cases "j = k") auto
  qed
  ultimately show ?thesis ..
qed

end
