(* ===== verification/SendLoop.thy ===== *)
theory SendLoop
  imports SendAnswers
begin

text \<open>
  The handlers of the answers and the main loop of \<^verbatim>\<open>src/senddata.c\<close> keep the invariant
  of the answers of SendAnswers, branch by branch; what this gives for the slices acknowledged.
  Here the answers the loop handles are assumed \<open>timely\<close>, and the slices the FEC thread hands
  over new (\<open>fec_ready\<close>): that is all the network thread needs from its neighbours, and
  SendSystem proves that they provide it.
\<close>

subsection \<open>Handlers and loop\<close>

lemma findSlice_cases:
  "findSlice st xm rm no = Some k \<Longrightarrow> (xm = Some k \<or> rm = Some k) \<and> sliceNo (slice_at st k) = no"
  by (auto simp: findSlice_def split: option.splits if_splits)

lemma handleOk_inv:
  assumes inv: "answers_inv st xm rm" and c: "c < MAX_CLIENTS" and slo: "\<And>k. slo = Some k \<Longrightarrow> rm = Some k"
  shows "answers_inv (handleOk st slo c) xm rm"
proof (cases slo)
  case None
  then show ?thesis using inv by (simp add: handleOk_def)
next
  case (Some k)
  then have rm: "rm = Some k" by (rule slo)
  then have k: "k < NR_SLICES" "k < length (slices st)" and st: "state (slice_at st k) \<noteq> SLICE_NEW" and xm: "xm \<noteq> Some k"
    and sl: "slice_inv (slice_at st k)" using inv by (auto simp: answers_inv_def)
  note o = ok_slice_inv [OF sl c]
  show ?thesis
  proof (cases "isParticipantValid (participantsDb st) c \<and> \<not> BIT_ISSET c (readySet (slice_at st k))")
    case False
    then show ?thesis using inv Some by (auto simp: handleOk_def)
  next
    case True
    then have v: "c \<in> valid (participantsDb st)" using c by (simp add: isParticipantValid_def valid_def)
    have a: "answers_inv (upd_slice k (ok_slice c) st) xm rm"
      by (rule answers_inv_upd [OF inv k(1), where c = c]) (use o v xm st in auto)
    have b: "slices (handleOk st slo c) = slices (upd_slice k (ok_slice c) st)"
      using True Some k by (simp add: handleOk_def upd_slice_def ok_slice_def slice_at_def Let_def)
    have d: "participantsDb (handleOk st slo c) = participantsDb st"
      "free_slices_pc (handleOk st slo c) = free_slices_pc st"
      using True Some by (simp_all add: handleOk_def Let_def)
    show ?thesis by (rule answers_inv_cong [OF a]) (simp_all add: b d)
  qed
qed

lemma handleRetransmit_inv:
  assumes inv: "answers_inv st xm rm" and c: "c < MAX_CLIENTS" and slo: "\<And>k. slo = Some k \<Longrightarrow> k < NR_SLICES"
  shows "answers_inv (handleRetransmit st slo c rmap rxmit) xm rm"
proof (cases "\<exists>k. slo = Some k \<and> isParticipantValid (participantsDb st) c \<and> \<not> rxmit < rxmitId (slice_at st k)")
  case False
  then show ?thesis using inv by (auto simp: handleRetransmit_def split: option.split)
next
  case True
  then obtain k where k: "slo = Some k" "isParticipantValid (participantsDb st) c" "\<not> rxmit < rxmitId (slice_at st k)" by auto
  let ?f = "\<lambda>sl. markParticipantAnswered (sl\<lparr>rxmitMap := merge_map rmap (rxmitMap sl), needRxmit := True\<rparr>) c"
  have "slice_inv (slice_at st k)" using inv slo [OF k(1)] by (simp add: answers_inv_def)
  then have "answers_inv (upd_slice k ?f st) xm rm"
    by (intro answers_inv_upd [OF inv slo [OF k(1)], where c = 0] retransmit_inv c) auto
  moreover have "handleRetransmit st slo c rmap rxmit = upd_slice k ?f st"
    using k by (simp add: handleRetransmit_def Let_def merge_map_def)
  ultimately show ?thesis by simp
qed

lemma handleDisconnect_inv:
  assumes inv: "answers_inv st xm rm" and c: "c < MAX_CLIENTS"
  shows "answers_inv (handleDisconnect st xm rm c) xm rm"
proof -
  define st1 where "st1 = disconnect_slice rm c (disconnect_slice xm c st)"
  have len: "length (slices st) = NR_SLICES" and disj: "set_option xm \<inter> set_option rm = {}"
    and sl: "\<And>k. k < NR_SLICES \<Longrightarrow> slice_inv (slice_at st k)"
    and lt: "\<And>k. xm = Some k \<Longrightarrow> k < NR_SLICES" "\<And>k. rm = Some k \<Longrightarrow> k < NR_SLICES"
    using inv by (auto simp: answers_inv_def)
  have at: "slice_at st1 j = (if j \<in> set_option xm \<union> set_option rm then handleDisconnect1 (slice_at st j) c else slice_at st j)"
    for j using len disj lt by (auto simp: st1_def disconnect_slice_def split: option.split)
  have st1: "participantsDb st1 = participantsDb st" "length (slices st1) = NR_SLICES" "free_slices_pc st1 = free_slices_pc st"
    using len by (auto simp: st1_def disconnect_slice_def split: option.split)
  have v: "valid (removeParticipant (participantsDb st) c) = valid (participantsDb st) - {c}"
    using inv by (intro valid_remove) (simp add: answers_inv_def db_inv_def)
  have d: "slice_inv (slice_at st1 j) \<and> state (slice_at st1 j) = state (slice_at st j)
      \<and> bits_of (readySet (slice_at st1 j)) = (if j \<in> set_option xm \<union> set_option rm then bits_of (readySet (slice_at st j)) - {c}
          else bits_of (readySet (slice_at st j)))" if "j < NR_SLICES" for j
    using disconnect_inv [OF sl [OF that] c] sl [OF that] by (simp add: at)
  have "\<forall>j < NR_SLICES. slice_inv (slice_at st1 j)
      \<and> (state (slice_at st1 j) = SLICE_NEW \<longrightarrow> bits_of (readySet (slice_at st1 j)) = {})"
    using d inv by (auto simp: answers_inv_def)
  moreover have "\<forall>j \<in> set_option xm. j < NR_SLICES \<and> bits_of (readySet (slice_at st1 j)) = {}
      \<and> state (slice_at st1 j) \<in> {SLICE_NEW, SLICE_XMITTED}"
    using d inv by (auto simp: answers_inv_def)
  moreover have "\<forall>j \<in> set_option rm. j < NR_SLICES \<and> bits_of (readySet (slice_at st1 j)) \<subseteq> valid (participantsDb st) - {c}
      \<and> state (slice_at st1 j) \<in> {SLICE_XMITTED, SLICE_ACKED}"
    using d inv by (auto simp: answers_inv_def)
  ultimately show ?thesis
    using inv removeParticipant_inv [OF _ c] st1 v
    by (simp add: handleDisconnect_def st1_def [symmetric] answers_inv_def)
qed

definition timely :: "sender_state \<Rightarrow> nat option \<Rightarrow> nat option \<Rightarrow> bool" where
  \<comment> \<open>the next message comes from a slot of the table, and does not confirm a slice before
     the confirmation was asked for\<close>
  "timely st xm rm \<longleftrightarrow>
     (let pos = unat (pc_getConsumerPosition (incoming st)); msg = snd (q st ! pos)
      in fst (q st ! pos) < MAX_CLIENTS
         \<and> (ntohs (m_opCode msg) = CMD_OK \<longrightarrow> findSlice st xm rm (ntohl_int (m_sliceNo msg)) \<in> insert None {rm}))"

lemma queue_view_stats [simp]:
  "queue_view (st\<lparr>stats := x\<rparr>) = queue_view st" "queue_view (st\<lparr>participantsDb := y\<rparr>) = queue_view st"
  by (simp_all add: queue_view_def)

lemma disconnect1_sel [simp]: "sliceNo (handleDisconnect1 sl c) = sliceNo sl" "state (handleDisconnect1 sl c) = state sl"
  by (simp_all add: handleDisconnect1_def Let_def)

lemma disconnect_tracks:
  assumes "\<And>k. slo = Some k \<Longrightarrow> k < length (slices st)"
  shows "tracks {} st (disconnect_slice slo c st)" and "length (slices (disconnect_slice slo c st)) = length (slices st)"
  using assms by (auto simp: disconnect_slice_def intro!: tracks_upd split: option.split)

lemma handlers_track:
  assumes "\<And>k. slo = Some k \<Longrightarrow> k < length (slices st)" and "\<And>k. sl2 = Some k \<Longrightarrow> k < length (slices st)"
  shows "tracks {} st (handleOk st slo c)" "tracks {} st (handleDisconnect st slo sl2 c)"
    "tracks {} st (handleRetransmit st slo c rmap rx)"
proof -
  show "tracks {} st (handleOk st slo c)"
    using assms(1) by (auto simp: handleOk_def Let_def tracks_def split: option.split)
  have "tracks {} st (disconnect_slice sl2 c (disconnect_slice slo c st))"
    using disconnect_tracks [of slo st c, OF assms(1)] disconnect_tracks(1) [of sl2 "disconnect_slice slo c st" c] assms(2)
    by (auto intro: tracks_trans)
  moreover have "tracks {} x (x\<lparr>participantsDb := y\<rparr>)" for x y by (rule tracks_same) simp_all
  ultimately show "tracks {} st (handleDisconnect st slo sl2 c)"
    unfolding handleDisconnect_def Let_def by (rule tracks_trans)
  show "tracks {} st (handleRetransmit st slo c rmap rx)"
    using assms(1) by (auto simp: handleRetransmit_def Let_def intro!: tracks_upd split: option.split)
qed

lemma handleNextMessage_inv:
  assumes inv: "answers_inv st xm rm" and t: "timely st xm rm" and h: "handleNextMessage st xm rm = Done st'"
  shows "answers_inv st' xm rm \<and> (\<exists>ipc n pc st2. pc_consumeAny (incoming st) [] = Some (ipc, n) \<and> pc_produce (freeSpace st) 1 = Some pc
    \<and> tracks {} (st\<lparr>incoming := ipc\<rparr>) st2 \<and> st' = st2\<lparr>incoming := pc_consumed ipc 1, freeSpace := pc\<rparr>)"
proof -
  define pos where "pos = unat (pc_getConsumerPosition (incoming st))"
  define c where "c = fst (q st ! pos)"
  define msg where "msg = snd (q st ! pos)"
  obtain ipc n where ipc: "pc_consumeAny (incoming st) [] = Some (ipc, n)"
    using h by (auto simp: handleNextMessage_def Let_def outcome_Done)
  define st1 where "st1 = st\<lparr>incoming := ipc\<rparr>"
  define st2 where "st2 = (let op = ntohs (m_opCode msg) in
      if op = CMD_OK then handleOk st1 (findSlice st1 xm rm (ntohl_int (m_sliceNo msg))) c
      else if op = CMD_DISCONNECT then handleDisconnect st1 xm rm c
      else if op = CMD_RETRANSMIT then
        handleRetransmit st1 (findSlice st1 xm rm (ntohl_int (m_sliceNo msg))) c (m_map msg) (sint (m_rxmit msg))
      else st1)"
  have e: "handleNextMessage st xm rm = and_then (or_abort (pc_produce (freeSpace st2) 1)) (\<lambda>pc.
      Done (st2\<lparr>incoming := pc_consumed (incoming st2) 1, freeSpace := pc\<rparr>))"
    by (simp add: handleNextMessage_def ipc pos_def [symmetric] c_def [symmetric] msg_def [symmetric] st1_def [symmetric] Let_def)
      (simp add: st2_def Let_def)
  then obtain pc where pc: "pc_produce (freeSpace st2) 1 = Some pc" "st' = st2\<lparr>incoming := pc_consumed (incoming st2) 1, freeSpace := pc\<rparr>"
    using h unfolding e by (auto simp: outcome_Done)
  then have st': "slices st' = slices st2 \<and> participantsDb st' = participantsDb st2 \<and> free_slices_pc st' = free_slices_pc st2"
    by simp
  have inv1: "answers_inv st1 xm rm" by (rule answers_inv_cong [OF inv]) (simp_all add: st1_def)
  have find: "findSlice st1 xm rm no = findSlice st xm rm no" for no by (auto simp: findSlice_def st1_def split: option.split)
  have lt: "k < NR_SLICES" if "findSlice st1 xm rm no = Some k" for no k
    using findSlice_cases [OF that] inv by (auto simp: answers_inv_def)
  have cl: "c < MAX_CLIENTS" using t by (simp add: timely_def Let_def c_def pos_def)
  have "answers_inv st2 xm rm"
  proof -
    consider "ntohs (m_opCode msg) = CMD_OK" | "ntohs (m_opCode msg) \<noteq> CMD_OK" "ntohs (m_opCode msg) = CMD_DISCONNECT"
      | "ntohs (m_opCode msg) \<noteq> CMD_OK" "ntohs (m_opCode msg) \<noteq> CMD_DISCONNECT" "ntohs (m_opCode msg) = CMD_RETRANSMIT"
      | "ntohs (m_opCode msg) \<noteq> CMD_OK" "ntohs (m_opCode msg) \<noteq> CMD_DISCONNECT" "ntohs (m_opCode msg) \<noteq> CMD_RETRANSMIT"
      by blast
    then show ?thesis
    proof cases
      case 1
      have "rm = Some k" if "findSlice st1 xm rm (ntohl_int (m_sliceNo msg)) = Some k" for k
        using t 1 that by (simp add: timely_def Let_def find msg_def pos_def)
      then show ?thesis using 1 handleOk_inv [OF inv1 cl] by (simp add: st2_def)
    next
      case 2
      then show ?thesis using handleDisconnect_inv [OF inv1 cl] by (simp add: st2_def)
    next
      case 3
      then show ?thesis using handleRetransmit_inv [OF inv1 cl lt] by (simp add: st2_def)
    next
      case 4
      then show ?thesis using inv1 by (simp add: st2_def)
    qed
  qed
  then have inv': "answers_inv st' xm rm" by (rule answers_inv_cong) (simp_all add: st')
  have b: "findSlice st1 xm rm no = Some k \<Longrightarrow> k < length (slices st1)" "xm = Some k \<Longrightarrow> k < length (slices st1)"
      "rm = Some k \<Longrightarrow> k < length (slices st1)" for no k
    using lt inv by (auto simp: answers_inv_def st1_def)
  have "tracks {} st1 (handleOk st1 (findSlice st1 xm rm no) c)" "tracks {} st1 (handleRetransmit st1 (findSlice st1 xm rm no) c mp rx)"
      "tracks {} st1 (handleDisconnect st1 xm rm c)" for no mp rx
    using handlers_track(1) [of "findSlice st1 xm rm no" st1 None, OF b(1)] handlers_track(3) [of "findSlice st1 xm rm no" st1 None, OF b(1)]
      handlers_track(2) [of xm st1 rm, OF b(2,3)] by simp_all
  then have tr: "tracks {} st1 st2" by (simp add: st2_def Let_def)
  then have "incoming st2 = ipc" "freeSpace st2 = freeSpace st"
    using queue_view_sel [of st2 st1] by (simp_all add: tracks_def st1_def)
  then show ?thesis using inv' ipc pc tr unfolding st1_def by metis
qed

lemma main_cleanup_inv:
  assumes inv: "answers_inv (sender m) (xmitSlice m) (rexmitSlice m)" and c: "main_cleanup m = Done m'"
  shows "answers_inv (sender m') (xmitSlice m') (rexmitSlice m') \<and> xmitSlice m' = xmitSlice m
    \<and> tracks {} (sender m) (sender m') \<and> nextSliceNo m' = nextSliceNo m
    \<and> (rexmitSlice m' = rexmitSlice m \<or> rexmitSlice m' = None)"
proof (cases "rexmitSlice m")
  case None
  then show ?thesis using assms by (simp add: main_cleanup_def)
next
  case (Some k)
  then have k: "k < length (slices (sender m))" and xm: "xmitSlice m \<noteq> Some k" and inv': "answers_inv (sender m) (xmitSlice m) (Some k)"
    using inv by (auto simp: answers_inv_def)
  obtain st where st: "(if nrReady (slice_at (sender m) k) = nrParticipants (participantsDb (sender m))
                    then ackSlice (sender m) k else Done (sender m)) = Done st"
    and r: "(if isSliceAcked (slice_at st k) then
              and_then (freeSlice st k) (\<lambda>st. Done (m\<lparr>sender := st, rexmitSlice := None\<rparr>))
            else Done (m\<lparr>sender := st\<rparr>)) = Done m'"
    using c Some by (auto simp: main_cleanup_def and_then_Done)
  have inv1: "answers_inv st (xmitSlice m) (Some k) \<and> tracks {} (sender m) st"
  proof (cases "nrReady (slice_at (sender m) k) = nrParticipants (participantsDb (sender m))")
    case True
    then have a: "ackSlice (sender m) k = Done st" using st by simp
    note ak = ackSlice_keeps [OF a k]
    have "answers_inv st (xmitSlice m) (Some k)"
      by (rule answers_inv_keeps [OF inv']) (use ak inv' xm in \<open>auto simp: answers_inv_def split: if_splits\<close>)
    moreover have "state (slice_at (sender m) k) \<noteq> SLICE_NEW" using inv' by (auto simp: answers_inv_def)
    then have "tracks {} (sender m) st" using ak by (intro keeps_tracks) (auto split: if_splits)
    ultimately show ?thesis ..
  next
    case False
    then show ?thesis using st inv' by simp
  qed
  show ?thesis
  proof (cases "isSliceAcked (slice_at st k)")
    case True
    then obtain st2 where "freeSlice st k = Done st2" "m' = m\<lparr>sender := st2, rexmitSlice := None\<rparr>"
      using r by (auto simp: and_then_Done)
    then show ?thesis using freeSlice_inv [of st "xmitSlice m" k st2] inv1 tracks_trans by auto
  next
    case False
    then show ?thesis using r inv1 Some by auto
  qed
qed

lemma main_shift_inv:
  assumes inv: "answers_inv (sender m) (xmitSlice m) (rexmitSlice m)" and c: "main_shift m = Done m'"
  shows "answers_inv (sender m') (xmitSlice m') (rexmitSlice m')
    \<and> tracks {} (sender m) (sender m') \<and> nextSliceNo m' = nextSliceNo m
    \<and> (xmitSlice m' = xmitSlice m \<and> rexmitSlice m' = rexmitSlice m
       \<or> rexmitSlice m = None \<and> rexmitSlice m' = xmitSlice m \<and> xmitSlice m' = None)"
proof (cases "rexmitSlice m = None \<and> (\<exists>k. xmitSlice m = Some k \<and> isSliceXmitted (slice_at (sender m) k))")
  case False
  then have "m' = m" using c by (auto simp: main_shift_def split: option.splits if_splits)
  then show ?thesis using inv by simp
next
  case True
  then obtain k where k: "rexmitSlice m = None" "xmitSlice m = Some k" "state (slice_at (sender m) k) = SLICE_XMITTED"
    by (auto simp: isSliceXmitted_def)
  then obtain st where st: "sendReqack (sender m) k = Done st" "m' = m\<lparr>sender := st, rexmitSlice := Some k, xmitSlice := None\<rparr>"
    using c by (auto simp: main_shift_def isSliceXmitted_def and_then_Done)
  have "answers_inv (sender m) None (Some k)" using inv k by (simp add: answers_inv_def)
  from sendReqack_inv [OF this st(1)] show ?thesis using st k by simp
qed

lemma rexmit_reqack_inv:
  assumes inv: "answers_inv st xm (Some k)"
    and r: "sendReqack (upd_slice k (\<lambda>sl. sl\<lparr>rxmitId := rxmitId sl + 1\<rparr>) st) k = Done st'"
  shows "answers_inv st' xm (Some k) \<and> tracks {} st st'"
proof -
  have k: "k < NR_SLICES" "slice_inv (slice_at st k)" using inv by (auto simp: answers_inv_def)
  have "answers_inv (upd_slice k (\<lambda>sl. sl\<lparr>rxmitId := rxmitId sl + 1\<rparr>) st) xm (Some k)"
    by (rule answers_inv_upd [OF inv k(1), where c = 0]) (use k in \<open>auto simp: slice_inv_def\<close>)
  from sendReqack_inv [OF this r]
  have "answers_inv st' xm (Some k)" "tracks {} (upd_slice k (\<lambda>sl. sl\<lparr>rxmitId := rxmitId sl + 1\<rparr>) st) st'" by simp_all
  moreover have "tracks {} st (upd_slice k (\<lambda>sl. sl\<lparr>rxmitId := rxmitId sl + 1\<rparr>) st)"
    using k(1) inv by (intro tracks_upd) (simp_all add: answers_inv_def)
  ultimately show ?thesis using tracks_trans by blast
qed

lemma main_reqack_inv:
  assumes inv: "answers_inv (sender m) (xmitSlice m) (rexmitSlice m)" and c: "main_reqack m = Done m'"
  shows "answers_inv (sender m') (xmitSlice m') (rexmitSlice m')
    \<and> xmitSlice m' = xmitSlice m \<and> rexmitSlice m' = rexmitSlice m \<and> tracks {} (sender m) (sender m') \<and> nextSliceNo m' = nextSliceNo m"
proof (cases "\<exists>k. rexmitSlice m = Some k \<and> nrAnswered (slice_at (sender m) k) = nrParticipants (participantsDb (sender m))")
  case False
  then have "m' = m" using c by (auto simp: main_reqack_def split: option.splits)
  then show ?thesis using inv by simp
next
  case True
  then obtain k st where k: "rexmitSlice m = Some k" and
    st: "sendReqack (upd_slice k (\<lambda>sl. sl\<lparr>rxmitId := rxmitId sl + 1\<rparr>) (sender m)) k = Done st" "m' = m\<lparr>sender := st\<rparr>"
    using c by (auto simp: main_reqack_def and_then_Done)
  then show ?thesis using rexmit_reqack_inv [OF _ st(1), of "xmitSlice m"] inv by simp
qed

lemma makeSlice_inv:
  assumes inv: "answers_inv st None rm" and mk: "makeSlice st no = Done (st', i)"
  shows "answers_inv st' (Some i) rm \<and> slice_inv (slice_at st' i)"
proof -
  obtain fpc a where f: "pc_consume (free_slices_pc st) 1 [] = Some (fpc, a)"
    using mk by (auto simp: makeSlice_def outcome_Done)
  have sz: "pc_size fpc = of_nat NR_SLICES"
    using consumeAny_spec [of "free_slices_pc st" 1 "[]" fpc a] f inv by (simp add: pc_consume_def answers_inv_def)
  define j where "j = unat (pc_getConsumerPosition fpc)"
  have j: "j < NR_SLICES" using position_lt [of fpc] by (simp add: j_def sz NR_SLICES_def)
  have len: "length (slices st) = NR_SLICES" using inv by (simp add: answers_inv_def)
  obtain n b d fo where free: "state (slice_at st j) = SLICE_FREE" and ij: "i = j"
    and st': "st' = upd_slice j (\<lambda>_. zero_slice\<lparr>base := b, sliceNo := no, bytes := n, nextBlock := 0, state := SLICE_NEW,
                      readySet := replicate SET_BYTES 0, nrReady := 0, fec_data := d\<rparr>)
      ((upd_slice j (\<lambda>_. zero_slice) st)\<lparr>free_slices_pc := pc_consumed fpc 1, fifo := fo\<rparr>)"
    using mk f by (auto simp: makeSlice_def outcome_Done j_def Let_def)
  have rm: "rm \<noteq> Some j" using inv free by (auto simp: answers_inv_def)
  have at: "slice_at st' m = (if m = j then zero_slice\<lparr>base := b, sliceNo := no, bytes := n, nextBlock := 0, state := SLICE_NEW,
        readySet := replicate SET_BYTES 0, nrReady := 0, fec_data := d\<rparr> else slice_at st m)" for m
    using j len by (simp add: st')
  have fresh: "slice_inv (zero_slice\<lparr>base := b, sliceNo := no, bytes := n, nextBlock := 0, state := SLICE_NEW,
        readySet := replicate SET_BYTES 0, nrReady := 0, fec_data := d\<rparr>)"
    by (simp add: slice_inv_def zero_slice_def)
  have db: "participantsDb st' = participantsDb st" by (simp add: st')
  have "\<forall>m < NR_SLICES. slice_inv (slice_at st' m) \<and> (state (slice_at st' m) = SLICE_NEW \<longrightarrow> bits_of (readySet (slice_at st' m)) = {})"
    using inv fresh by (auto simp: at answers_inv_def)
  moreover have "\<forall>m \<in> set_option rm. m < NR_SLICES \<and> bits_of (readySet (slice_at st' m)) \<subseteq> valid (participantsDb st')
      \<and> state (slice_at st' m) \<in> {SLICE_XMITTED, SLICE_ACKED}"
    using inv rm by (auto simp: at answers_inv_def db)
  moreover have "pc_size (free_slices_pc st') = of_nat NR_SLICES" using sz by (simp add: st' pc_consumed_def Let_def)
  moreover have "length (slices st') = NR_SLICES" "participantsDb st' = participantsDb st" using len by (simp_all add: st')
  ultimately show ?thesis using inv rm j fresh by (simp add: answers_inv_def ij at)
qed

definition fec_ready :: "main_state \<Rightarrow> bool" where
  \<comment> \<open>what the FEC thread hands over is a new slice\<close>
  "fec_ready m \<longleftrightarrow> (let pos = unat (pc_getConsumerPosition (fec_data_pc (sender m)))
     in has_flag (config (sender m)) FLAG_FEC \<longrightarrow> pc_consume (fec_data_pc (sender m)) 1 [] \<noteq> None
       \<longrightarrow> pos < NR_SLICES \<and> state (slice_at (sender m) pos) = SLICE_NEW)"

lemma main_new_slice_inv:
  assumes inv: "answers_inv (sender m) (xmitSlice m) (rexmitSlice m)" and f: "fec_ready m"
    and c: "main_new_slice m = Done m'"
  shows "answers_inv (sender m') (xmitSlice m') (rexmitSlice m') \<and> rexmitSlice m' = rexmitSlice m"
proof (cases "xmitSlice m = None \<and> \<not> atEnd m \<and> (has_flag (config (sender m)) FLAG_SN \<or> rexmitSlice m = None)")
  case False
  then have "m' = m" using c unfolding main_new_slice_def by (auto split: if_splits)
  then show ?thesis using inv by simp
next
  case True
  then obtain m1 where
    m1: "(if has_flag (config (sender m)) FLAG_FEC then
             and_then (or_block (pc_consume (fec_data_pc (sender m)) 1 [])) (\<lambda>(pc, _).
               Done (m\<lparr>sender := (sender m)\<lparr>fec_data_pc := pc_consumed pc 1\<rparr>,
                       xmitSlice := Some (unat (pc_getConsumerPosition pc))\<rparr>))
           else
             and_then (makeSlice (sender m) (nextSliceNo m)) (\<lambda>(st, k).
               Done (m\<lparr>sender := st, xmitSlice := Some k, nextSliceNo := nextSliceNo m + 1\<rparr>))) = Done m1"
    and m': "m' = (if bytes (slice_at (sender m1) (the (xmitSlice m1))) = 0 then m1\<lparr>atEnd := True\<rparr> else m1)"
    using c by (auto simp: main_new_slice_def and_then_Done)
  have inv0: "answers_inv (sender m) None (rexmitSlice m)" using inv True by simp
  have "answers_inv (sender m1) (xmitSlice m1) (rexmitSlice m1) \<and> rexmitSlice m1 = rexmitSlice m"
  proof (cases "has_flag (config (sender m)) FLAG_FEC")
    case True
    then obtain pc a where p: "pc_consume (fec_data_pc (sender m)) 1 [] = Some (pc, a)"
      "m1 = m\<lparr>sender := (sender m)\<lparr>fec_data_pc := pc_consumed pc 1\<rparr>, xmitSlice := Some (unat (pc_getConsumerPosition pc))\<rparr>"
      using m1 by (auto simp: outcome_Done)
    have "pc_getConsumerPosition pc = pc_getConsumerPosition (fec_data_pc (sender m))"
      using consumeAny_spec [of "fec_data_pc (sender m)" 1 "[]" pc a] p(1)
      by (simp add: pc_consume_def pc_getConsumerPosition_def)
    then have pos: "unat (pc_getConsumerPosition pc) < NR_SLICES" "state (slice_at (sender m) (unat (pc_getConsumerPosition pc))) = SLICE_NEW"
      using f True p(1) by (simp_all add: fec_ready_def Let_def)
    then have "rexmitSlice m \<noteq> Some (unat (pc_getConsumerPosition pc))" using inv0 by (auto simp: answers_inv_def)
    then have "answers_inv (sender m) (Some (unat (pc_getConsumerPosition pc))) (rexmitSlice m)"
      using inv0 pos by (simp add: answers_inv_def)
    then have "answers_inv (sender m1) (Some (unat (pc_getConsumerPosition pc))) (rexmitSlice m)"
      by (rule answers_inv_cong) (simp_all add: p(2))
    then show ?thesis by (simp add: p(2))
  next
    case False
    then obtain st k where "makeSlice (sender m) (nextSliceNo m) = Done (st, k)"
      "m1 = m\<lparr>sender := st, xmitSlice := Some k, nextSliceNo := nextSliceNo m + 1\<rparr>"
      using m1 by (auto simp: outcome_Done)
    then show ?thesis using makeSlice_inv [OF inv0] by simp
  qed
  then show ?thesis by (auto simp: m')
qed

lemma drop_clients_inv:
  assumes inv: "answers_inv st xm (Some k)" and "\<forall>i \<in> set is. i < MAX_CLIENTS" and "drop_clients is k st = (st', b)"
  shows "answers_inv st' xm (Some k) \<and> slices st' = slices st \<and> queue_view st' = queue_view st"
  using assms
proof (induction "is" arbitrary: st)
  case (Cons i "is")
  show ?case
  proof (cases "isParticipantValid (participantsDb st) i \<and> \<not> BIT_ISSET i (readySet (slice_at st k))")
    case False
    have "drop_clients is k st = (st', b)" using Cons.prems(3) by (simp only: drop_clients.simps if_not_P [OF False])
    then show ?thesis using Cons by auto
  next
    case True
    define st1 where "st1 = st\<lparr>participantsDb := removeParticipant (participantsDb st) i\<rparr>"
    have i: "i < MAX_CLIENTS" using Cons.prems(2) by simp
    have sl: "slice_inv (slice_at st k)" using Cons.prems(1) by (auto simp: answers_inv_def)
    then have "i \<notin> bits_of (readySet (slice_at st k))" using True by (auto simp: bits_of_def)
    moreover have "valid (participantsDb st1) = valid (participantsDb st) - {i}"
      unfolding st1_def using Cons.prems(1) by (simp add: valid_remove answers_inv_def db_inv_def)
    ultimately have "answers_inv st1 xm (Some k)"
      using Cons.prems(1) removeParticipant_inv [OF _ i] by (auto simp: answers_inv_def st1_def)
    then show ?thesis using Cons True by (auto simp: st1_def [symmetric] Let_def split: if_splits) (auto simp: st1_def)
  qed
qed simp

lemma main_timeout_inv:
  assumes inv: "answers_inv (sender m) (xmitSlice m) (rexmitSlice m)" and k: "rexmitSlice m = Some k"
    and c: "main_timeout m k = Done r"
  shows "\<forall>m'. r = Continue m' \<or> r = Exit m' \<longrightarrow> answers_inv (sender m') (xmitSlice m') (rexmitSlice m')
    \<and> xmitSlice m' = xmitSlice m \<and> nextSliceNo m' = nextSliceNo m \<and> tracks {} (sender m) (sender m')"
proof -
  define m1 where "m1 = m\<lparr>nrWaited := (if nrWaited m > 5 then 0 else nrWaited m) + 1\<rparr>"
  have inv': "answers_inv (sender m1) (xmitSlice m1) (Some k)" "rexmitSlice m1 = Some k"
    using inv k by (simp_all add: m1_def)
  have eq: "main_timeout m k = (if rxmitId (slice_at (sender m1) k) > retriesUntilDrop (config (sender m1)) then
           (let (st, none_left) = drop_clients [0..<MAX_CLIENTS] k (sender m1)
            in Done (if none_left then Exit (m1\<lparr>sender := st\<rparr>) else Continue (m1\<lparr>sender := st\<rparr>)))
         else
           and_then (sendReqack (upd_slice k (\<lambda>sl. sl\<lparr>rxmitId := rxmitId sl + 1\<rparr>) (sender m1)) k) (\<lambda>st.
             Done (Continue (m1\<lparr>sender := st\<rparr>))))"
    unfolding main_timeout_def m1_def Let_def ..
  show ?thesis
  proof (cases "rxmitId (slice_at (sender m1) k) > retriesUntilDrop (config (sender m1))")
    case True
    obtain st b where d: "drop_clients [0..<MAX_CLIENTS] k (sender m1) = (st, b)" by force
    have "answers_inv st (xmitSlice m1) (Some k) \<and> tracks {} (sender m1) st"
      using drop_clients_inv [OF inv'(1) _ d] by (auto intro: tracks_same)
    moreover have "r = (if b then Exit (m1\<lparr>sender := st\<rparr>) else Continue (m1\<lparr>sender := st\<rparr>))"
      using c True d by (simp add: eq)
    ultimately show ?thesis using inv'(2) by (auto simp: m1_def)
  next
    case False
    then obtain st where "sendReqack (upd_slice k (\<lambda>sl. sl\<lparr>rxmitId := rxmitId sl + 1\<rparr>) (sender m1)) k = Done st"
      "r = Continue (m1\<lparr>sender := st\<rparr>)"
      using c by (auto simp: eq and_then_Done)
    then show ?thesis using rexmit_reqack_inv [OF inv'(1)] inv'(2) by (auto simp: m1_def)
  qed
qed

lemma main_wait_inv:
  assumes inv: "answers_inv (sender m) (xmitSlice m) (rexmitSlice m)" and c: "main_wait wakes m = Done r"
  shows "(\<forall>m'. r = Continue m' \<or> r = Exit m' \<longrightarrow> answers_inv (sender m') (xmitSlice m') (rexmitSlice m'))
    \<and> (\<forall>m'. r = Continue m' \<longrightarrow> xmitSlice m' = xmitSlice m \<and> nextSliceNo m' = nextSliceNo m
      \<and> (\<exists>pc n. pc_consumeAnyWithTimeout (incoming (sender m)) wakes = Some (pc, n) \<and> tracks {} ((sender m)\<lparr>incoming := pc\<rparr>) (sender m')))"
proof (cases "atEnd m \<and> rexmitSlice m = None \<and> xmitSlice m = None \<or> has_flag (config (sender m)) FLAG_ASYNC")
  case True
  then have "r = Exit m" using c by (auto simp: main_wait_def split: if_splits)
  then show ?thesis using inv by simp
next
  case False
  have "main_wait wakes m = and_then (check (rexmitSlice m \<noteq> None)) (\<lambda>_.
          and_then (or_block (pc_consumeAnyWithTimeout (incoming (sender m)) wakes)) (\<lambda>(pc, n).
            if n \<noteq> 0 then Done (Continue (m\<lparr>sender := (sender m)\<lparr>incoming := pc\<rparr>, nrWaited := 0\<rparr>))
            else main_timeout (m\<lparr>sender := (sender m)\<lparr>incoming := pc\<rparr>\<rparr>) (the (rexmitSlice m))))"
    using False by (simp add: main_wait_def Let_def cong: if_cong)
  then have w: "and_then (check (rexmitSlice m \<noteq> None)) (\<lambda>_.
          and_then (or_block (pc_consumeAnyWithTimeout (incoming (sender m)) wakes)) (\<lambda>(pc, n).
            if n \<noteq> 0 then Done (Continue (m\<lparr>sender := (sender m)\<lparr>incoming := pc\<rparr>, nrWaited := 0\<rparr>))
            else main_timeout (m\<lparr>sender := (sender m)\<lparr>incoming := pc\<rparr>\<rparr>) (the (rexmitSlice m)))) = Done r"
    by (rule trans [OF sym c])
  obtain u where u: "check (rexmitSlice m \<noteq> None) = Done u"
    and w2: "and_then (or_block (pc_consumeAnyWithTimeout (incoming (sender m)) wakes)) (\<lambda>(pc, n).
            if n \<noteq> 0 then Done (Continue (m\<lparr>sender := (sender m)\<lparr>incoming := pc\<rparr>, nrWaited := 0\<rparr>))
            else main_timeout (m\<lparr>sender := (sender m)\<lparr>incoming := pc\<rparr>\<rparr>) (the (rexmitSlice m))) = Done r"
    using iffD1 [OF and_then_Done w] by blast
  obtain pcn :: "produconsum \<times> u32" where pn: "(case pcn of (pc, n) \<Rightarrow> if n \<noteq> 0 then Done (Continue (m\<lparr>sender := (sender m)\<lparr>incoming := pc\<rparr>, nrWaited := 0\<rparr>))
            else main_timeout (m\<lparr>sender := (sender m)\<lparr>incoming := pc\<rparr>\<rparr>) (the (rexmitSlice m))) = Done r"
    and pd: "or_block (pc_consumeAnyWithTimeout (incoming (sender m)) wakes) = Done pcn"
    using iffD1 [OF and_then_Done w2] by blast
  obtain pc and n :: u32 where pcn: "pcn = (pc, n)" by (cases pcn)
  moreover obtain k where k: "rexmitSlice m = Some k" using u by (auto simp: check_Done)
  ultimately have r: "(if n \<noteq> 0 then Done (Continue (m\<lparr>sender := (sender m)\<lparr>incoming := pc\<rparr>, nrWaited := 0\<rparr>))
             else main_timeout (m\<lparr>sender := (sender m)\<lparr>incoming := pc\<rparr>\<rparr>) k) = Done r" using pn by (simp only: prod.case option.sel)
  have inv1: "answers_inv ((sender m)\<lparr>incoming := pc\<rparr>) (xmitSlice m) (rexmitSlice m)"
    by (rule answers_inv_cong [OF inv]) simp_all
  have cons: "pc_consumeAnyWithTimeout (incoming (sender m)) wakes = Some (pc, n)"
    using pd unfolding pcn by (simp add: outcome_Done)
  define m1 where "m1 = m\<lparr>sender := (sender m)\<lparr>incoming := pc\<rparr>\<rparr>"
  show ?thesis
  proof (cases "n = 0")
    case True
    then have mt: "main_timeout m1 k = Done r" using r by (simp add: m1_def)
    have "answers_inv (sender m1) (xmitSlice m1) (rexmitSlice m1)" "rexmitSlice m1 = Some k" using inv1 k by (simp_all add: m1_def)
    note t = main_timeout_inv [OF this mt]
    have "sender m1 = (sender m)\<lparr>incoming := pc\<rparr>" "xmitSlice m1 = xmitSlice m" "nextSliceNo m1 = nextSliceNo m"
      by (simp_all add: m1_def)
    note t [unfolded this]
    then show ?thesis using cons by blast
  next
    case False
    then show ?thesis using r inv1 unfolding cons by auto
  qed
qed

lemma sendSlice_inv:
  assumes inv: "answers_inv st xm rm" and s: "sendSlice msgs st k rt = Done (st', r)"
    and k: "rt \<and> rm = Some k \<or> \<not> rt \<and> xm = Some k"
  shows "answers_inv st' xm rm \<and> tracks (if rt then {} else {k}) st st'"
proof
  have len: "length (slices st) = NR_SLICES" "k < NR_SLICES" using inv k by (auto simp: answers_inv_def)
  have kl: "k < length (slices st)" using len by simp
  note sk = sendSlice_keeps [OF s kl]
  have "state (slice_at st' j) = SLICE_NEW \<Longrightarrow> state (slice_at st j) = SLICE_NEW"
      "j \<notin> (if rt then {} else {k}) \<Longrightarrow> state (slice_at st j) = SLICE_NEW \<Longrightarrow> state (slice_at st' j) = SLICE_NEW"
    if j: "j < length (slices st)" for j
  proof -
    have "state (slice_at st' j) = state (slice_at st j) \<or> j = k \<and> \<not> rt \<and> state (slice_at st' j) = SLICE_XMITTED"
    proof (cases "j \<noteq> k \<or> rt")
      case True
      show ?thesis by (rule disjI1) (rule conjunct1 [OF conjunct2 [OF sk], THEN spec, THEN mp, THEN mp, OF j True])
    next
      case False
      then show ?thesis using conjunct2 [OF conjunct2 [OF sk]] by (elim disjE) simp_all
    qed
    then show "state (slice_at st' j) = SLICE_NEW \<Longrightarrow> state (slice_at st j) = SLICE_NEW"
      "j \<notin> (if rt then {} else {k}) \<Longrightarrow> state (slice_at st j) = SLICE_NEW \<Longrightarrow> state (slice_at st' j) = SLICE_NEW" by auto
  qed
  then show "tracks (if rt then {} else {k}) st st'" using sk by (intro keeps_tracks) auto
  show "answers_inv st' xm rm"
  proof (rule answers_inv_keeps [OF inv conjunct1 [OF sk]])
    show "state (slice_at st j) = SLICE_NEW" if "j < NR_SLICES" "state (slice_at st' j) = SLICE_NEW" for j
      using sk that len by (cases "j = k") auto
    show "state (slice_at st' j) \<in> {SLICE_NEW, SLICE_XMITTED}" if "xm = Some j" for j
    proof -
      have "j < NR_SLICES" "state (slice_at st j) \<in> {SLICE_NEW, SLICE_XMITTED}" using inv that by (auto simp: answers_inv_def)
      then show ?thesis using sk len by (cases "j = k") auto
    qed
    show "state (slice_at st' j) \<in> {SLICE_XMITTED, SLICE_ACKED}" if "rm = Some j" for j
    proof -
      have "j < NR_SLICES" "state (slice_at st j) \<in> {SLICE_XMITTED, SLICE_ACKED}" "j = k \<or> j \<noteq> k \<and> xm \<noteq> Some j"
        using inv that k by (auto simp: answers_inv_def)
      then show ?thesis using sk len by (cases "j = k") auto
    qed
  qed
qed

definition main_inv :: "main_state \<Rightarrow> bool" where
  "main_inv m \<longleftrightarrow> answers_inv (sender m) (xmitSlice m) (rexmitSlice m)"

lemma main_inv_produceEnd:
  "main_inv m \<Longrightarrow> main_inv (m\<lparr>sender := (sender m)\<lparr>fifo := f\<rparr>\<rparr>)"
  by (auto simp: main_inv_def intro: answers_inv_cong)

subsection \<open>A sample state\<close>

definition sample_db :: participantsDb where
  \<comment> \<open>one participant, in slot 3\<close>
  "sample_db = makeParticipantsDb\<lparr>clientTable := (clientTable makeParticipantsDb)[3 :=
     \<lparr>addr = \<lparr>sin_family = 2, sin_port = 7, sin_addr = 9\<rparr>, used = True, capabilities = 1, rcvbuf = 0\<rparr>],
     nr := nr makeParticipantsDb + 1\<rparr>"

lemma sample_db: "db_inv sample_db" "valid sample_db = {3}" "nrParticipants sample_db = 1"
proof -
  have v: "valid makeParticipantsDb = {}" by (auto simp: valid_def makeParticipantsDb_def)
  have "(3::nat) < MAX_CLIENTS" "\<not> used (clientTable makeParticipantsDb ! 3)"
    by (simp_all add: MAX_CLIENTS_def makeParticipantsDb_def)
  from add_new_inv [OF makeParticipantsDb_inv this _ sample_db_def] v
  show "db_inv sample_db" "valid sample_db = {3}" by simp_all
  show "nrParticipants sample_db = 1" by (simp add: nrParticipants_def sample_db_def makeParticipantsDb_def)
qed

definition sample_config :: net_config where
  "sample_config = \<lparr>blockSize = 2, sliceSize = 4, flags = 0, discovery = DSC_DOUBLING, default_slice_size = 4,
     max_slice_size = 8, retriesUntilDrop = 5, fec_redundancy = 0, fec_stripesize = 0, fec_stripes = 0, rehelloOffset = 0\<rparr>"

definition sample_sender :: "slice \<Rightarrow> sender_state" where
  \<comment> \<open>with a given slice in slot 0, the slot of slice 1 handed back\<close>
  "sample_sender sl = \<lparr>fifo = \<lparr>dataBuffer = [1, 2, 3, 4, 5, 6, 7, 8], dataBufSize = 8,
       freeMemQueue = (pc_makeProduconsum 8)\<lparr>produced := 5\<rparr>, data = (pc_makeProduconsum 8)\<lparr>produced := 3, consumed := 3\<rparr>\<rparr>,
     config = sample_config, stats = \<lparr>totalBytes = 0, retransmissions = 0, clNo = 0\<rparr>, slices = [sl, zero_slice],
     free_slices_pc = (pc_makeProduconsum 2)\<lparr>produced := 2, consumed := 1\<rparr>, fec_data_pc = pc_makeProduconsum 2,
     fec_memory = [], incoming = pc_makeProduconsum 256, freeSpace = pc_makeProduconsum 256,
     q = replicate 256 (0, \<lparr>m_opCode = 0x0400, m_sliceNo = 0, m_rxmit = 0, m_map = []\<rparr>),
     participantsDb = sample_db, trace = []\<rparr>"

definition sample_acked :: main_state where
  \<comment> \<open>the participant has confirmed the slice\<close>
  "sample_acked = \<lparr>sender = sample_sender (ok_slice 3 (zero_slice\<lparr>bytes := 3, state := SLICE_XMITTED\<rparr>)), atEnd = False,
     nrWaited = 0, xmitSlice = None, rexmitSlice = Some 0, nextSliceNo = 1\<rparr>"

lemma less_NR_SLICES: "k < NR_SLICES \<longleftrightarrow> k = 0 \<or> k = 1"
  by (auto simp: NR_SLICES_def)

lemma sample_sender_inv:
  assumes "slice_inv sl" and "state sl \<noteq> SLICE_NEW \<or> bits_of (readySet sl) = {}"
    and "xm = None \<or> xm = Some 0 \<and> state sl = SLICE_NEW" and "rm = None \<or> rm = Some 0 \<and> state sl = SLICE_XMITTED"
    and "bits_of (readySet sl) \<subseteq> {3}"
  shows "answers_inv (sample_sender sl) xm rm"
proof -
  have at: "slice_at (sample_sender sl) 0 = sl" "slice_at (sample_sender sl) (Suc 0) = zero_slice"
    by (simp_all add: slice_at_def sample_sender_def)
  have z: "bits_of (readySet zero_slice) = {}" by (simp add: zero_slice_def)
  have f: "participantsDb (sample_sender sl) = sample_db" "length (slices (sample_sender sl)) = NR_SLICES"
    "pc_size (free_slices_pc (sample_sender sl)) = of_nat NR_SLICES"
    by (simp_all add: sample_sender_def NR_SLICES_def pc_makeProduconsum_def)
  show ?thesis
    unfolding answers_inv_def f less_NR_SLICES
    using assms zero_slice_inv by (auto simp: at z sample_db)
qed

lemma ntohs_disconnect: "ntohs 0x0400 = 4"
  by code_simp

lemma sample_acked_inv: "main_inv sample_acked"
proof -
  have "slice_inv (zero_slice\<lparr>bytes := 3, state := SLICE_XMITTED\<rparr>)" by (simp add: slice_inv_def zero_slice_def)
  from ok_slice_inv [OF this, of 3] have "slice_inv (ok_slice 3 (zero_slice\<lparr>bytes := 3, state := SLICE_XMITTED\<rparr>))"
    "bits_of (readySet (ok_slice 3 (zero_slice\<lparr>bytes := 3, state := SLICE_XMITTED\<rparr>))) = {3}"
    by (simp_all add: MAX_CLIENTS_def zero_slice_def)
  moreover have "state (ok_slice 3 (zero_slice\<lparr>bytes := 3, state := SLICE_XMITTED\<rparr>)) = SLICE_XMITTED"
    by (simp add: ok_slice_def markParticipantAnswered_def)
  ultimately show ?thesis by (auto simp: main_inv_def sample_acked_def intro!: sample_sender_inv)
qed

lemma sample_ack:
  assumes "state sl = SLICE_XMITTED" and "bytes sl = 3"
  shows "\<exists>st. ackSlice (sample_sender sl) 0 = Done st \<and> slices st = [sl\<lparr>state := SLICE_ACKED\<rparr>, zero_slice]
    \<and> free_slices_pc st = (pc_makeProduconsum 2)\<lparr>produced := 2, consumed := 1\<rparr>"
  by (simp add: ackSlice_def slice_at_def assms upd_slice_def Let_def)
    (simp add: sample_sender_def pc_produce_def pc_makeProduconsum_def wakeConsumer_def assms)

lemma sample_free:
  assumes "slices st = [sl, zero_slice]" and "free_slices_pc st = (pc_makeProduconsum 2)\<lparr>produced := 2, consumed := 1\<rparr>"
  shows "\<exists>st'. freeSlice st 0 = Done st'"
proof -
  have f: "free_loop (Suc (Suc n)) (upd_slice 0 (state_update (\<lambda>_. SLICE_PRE_FREE)) st) = Done (st
      \<lparr>slices := [sl\<lparr>state := SLICE_FREE\<rparr>, zero_slice],
       free_slices_pc := (pc_makeProduconsum 2)\<lparr>produced := 3, consumed := 1\<rparr>\<rparr>)" for n
    by (simp add: slice_at_def upd_slice_def assms pc_getProducerPosition_def pc_makeProduconsum_def pc_produce_def
        wakeConsumer_def Let_def)
      (simp add: zero_slice_def)
  have "NR_SLICES + 1 = Suc (Suc 1)" by (simp add: NR_SLICES_def)
  then show ?thesis by (simp only: freeSlice_def f) blast
qed

lemma sample_acked_cleanup:
  "\<exists>m'. main_cleanup sample_acked = Done m' \<and> rexmitSlice m' = None"
proof -
  define sl where "sl = ok_slice 3 (zero_slice\<lparr>bytes := 3, state := SLICE_XMITTED\<rparr>)"
  have "\<not> BIT_ISSET 3 (replicate SET_BYTES 0)" by (rule BIT_ISSET_zero) (simp add: SET_BYTES_def MAX_CLIENTS_def)
  then have s: "nrReady sl = 1" "state sl = SLICE_XMITTED" "bytes sl = 3"
    by (simp_all add: sl_def ok_slice_def markParticipantAnswered_def zero_slice_def)
  obtain st where st: "ackSlice (sample_sender sl) 0 = Done st" "slices st = [sl\<lparr>state := SLICE_ACKED\<rparr>, zero_slice]"
    "free_slices_pc st = (pc_makeProduconsum 2)\<lparr>produced := 2, consumed := 1\<rparr>" using sample_ack [OF s(2,3)] by blast
  obtain st' where "freeSlice st 0 = Done st'" using sample_free [OF st(2,3)] by blast
  moreover have "nrReady (slice_at (sample_sender sl) 0) = nrParticipants (participantsDb (sample_sender sl))"
    using s by (simp add: slice_at_def sample_sender_def sample_db)
  ultimately show ?thesis
    by (simp add: main_cleanup_def sample_acked_def sl_def [symmetric] st(1) isSliceAcked_def slice_at_def st(2))
qed

subsection \<open>Properties\<close>





end
