(* ===== verification/SendFec.thy ===== *)
theory SendFec
  imports SendData Fec
begin

text \<open>
  The FEC thread of the sender, \<^verbatim>\<open>src/senddata.c\<close>: \<^verbatim>\<open>fec_encode_all_stripes\<close>,
  \<^verbatim>\<open>fecMain\<close> as one round of its loop, and \<^verbatim>\<open>spawnNetSender\<close>.  The tables of
  the coder, global variables in C, are the argument \<open>T\<close>.  An access outside the ring or
  outside the FEC memory is \<open>Undefined\<close>.
\<close>

subsection \<open>Encoding\<close>

definition sADR :: "fifo \<Rightarrow> slice \<Rightarrow> nat \<Rightarrow> nat \<Rightarrow> nat" where
  \<comment> \<open>the macro \<^verbatim>\<open>ADR\<close>\<close>
  "sADR f sl x bs = (base sl + x * bs) mod unat (dataBufSize f)"

definition data_block :: "fifo \<Rightarrow> slice \<Rightarrow> nat \<Rightarrow> nat \<Rightarrow> byte list" where
  "data_block f sl bs x = take bs (drop (sADR f sl x bs) (dataBuffer f))"

definition fec_adr :: "net_config \<Rightarrow> slice \<Rightarrow> nat \<Rightarrow> nat" where
  \<comment> \<open>of FEC block \<open>b\<close>\<close>
  "fec_adr c sl b = fec_data sl + blockSize c * b"

definition fec_block :: "sender_state \<Rightarrow> slice \<Rightarrow> nat \<Rightarrow> byte list" where
  "fec_block st sl b = take (blockSize (config st)) (drop (fec_adr (config st) sl b) (fec_memory st))"

definition encode_stripe :: "gf_tables \<Rightarrow> nat \<Rightarrow> nat \<Rightarrow> sender_state \<Rightarrow> sender_state outcome" where
  \<comment> \<open>one round of the loop over the stripes\<close>
  "encode_stripe T k stripe st =
     (let c = config st; sl = slice_at st k; bs = blockSize c;
          js = stripe_blocks stripe (fec_stripes c) (getSliceBlocks sl c);
          adrs = map (\<lambda>i. fec_adr c sl (stripe + i * fec_stripes c)) [0..<fec_redundancy c]
      in and_then (in_bounds (length js \<le> 128 \<and> (\<forall>j \<in> set js. sADR (fifo st) sl j bs + bs \<le> length (dataBuffer (fifo st)))
                       \<and> (\<forall>a \<in> set adrs. a + bs \<le> length (fec_memory st)))) (\<lambda>_.
         and_then (or_abort (fec_encode T bs (map (data_block (fifo st) sl bs) js) (length js)
                       (map (\<lambda>a. take bs (drop a (fec_memory st))) adrs) (fec_redundancy c))) (\<lambda>enc.
           Done (st\<lparr>fec_memory := fold (\<lambda>(a, b). write_at a b) (zip adrs enc) (fec_memory st)\<rparr>))))"

definition pad_last :: "nat \<Rightarrow> sender_state \<Rightarrow> sender_state outcome" where
  \<comment> \<open>the rest of an incomplete last block is set to zero\<close>
  "pad_last k st =
     (let c = config st; f = fifo st; sl = slice_at st k; bs = blockSize c;
          leftOver = bytes sl mod bs; lastBlock = sADR f sl (getSliceBlocks sl c - 1) bs
      in if leftOver \<noteq> 0 then
           and_then (in_bounds (lastBlock + bs \<le> length (dataBuffer f))) (\<lambda>_.
             Done (st\<lparr>fifo := f\<lparr>dataBuffer := write_at (lastBlock + leftOver) (replicate (bs - leftOver) 0) (dataBuffer f)\<rparr>\<rparr>))
         else Done st)"

definition fec_encode_all_stripes :: "gf_tables \<Rightarrow> sender_state \<Rightarrow> nat \<Rightarrow> sender_state outcome" where
  "fec_encode_all_stripes T st k =
     and_then (in_bounds (blockSize (config st) \<noteq> 0)) (\<lambda>_.
     and_then (pad_last k st) (\<lambda>st.
       each (encode_stripe T k) [0..<fec_stripes (config st)] st))"

subsection \<open>The threads\<close>

definition sfecMain :: "gf_tables \<Rightarrow> sender_state \<Rightarrow> int \<Rightarrow> (sender_state \<times> int) outcome" where
  \<comment> \<open>with the number of the next slice\<close>
  "sfecMain T st no =
     and_then (makeSlice st no) (\<lambda>(st, k).
     and_then (fec_encode_all_stripes T st k) (\<lambda>st.
     and_then (or_abort (pc_produce (fec_data_pc st) 1)) (\<lambda>pc.
       Done (st\<lparr>fec_data_pc := pc\<rparr>, no + 1))))"

definition zero_queue :: produconsum where
  \<comment> \<open>a pointer that is not set yet\<close>
  "zero_queue = pc_makeProduconsum 0"

definition spawnNetSender :: "(nat \<Rightarrow> byte list) \<Rightarrow> message \<Rightarrow> fifo \<Rightarrow> net_config \<Rightarrow> participantsDb \<Rightarrow> sender_stats \<Rightarrow> sender_state outcome" where
  \<comment> \<open>\<open>xmalloc n\<close> is what new memory of \<open>n\<close> bytes holds, \<open>m0\<close> the cleared message\<close>
  "spawnNetSender xmalloc m0 f c db ss =
     (let st = \<lparr>fifo = f, config = c, stats = ss, slices = replicate NR_SLICES zero_slice,
             free_slices_pc = zero_queue, fec_data_pc = zero_queue,
             fec_memory = (if has_flag c FLAG_FEC then xmalloc (NR_SLICES * fec_stripes c * fec_redundancy c * blockSize c) else []),
             incoming = zero_queue, freeSpace = zero_queue, q = replicate QUEUE_SIZE (0, m0),
             participantsDb = db, trace = []\<rparr>
      in and_then (initReturnChannel st) (\<lambda>st.
         and_then (or_abort (pc_produce (pc_makeProduconsum (of_nat NR_SLICES)) (of_nat NR_SLICES))) (\<lambda>pc.
           let st = st\<lparr>free_slices_pc := pc\<rparr>;
               st = fold (\<lambda>i. upd_slice i (state_update (\<lambda>_. SLICE_FREE))) [0..<NR_SLICES] st
           in Done (if has_flag c FLAG_FEC then st\<lparr>fec_data_pc := pc_makeProduconsum (of_nat NR_SLICES)\<rparr> else st))))"

subsection \<open>What the encoding computes\<close>

lemma write_blocks:
  assumes "length vs = length as" and "\<forall>v \<in> set vs. length v = bs" and "\<forall>a \<in> set as. a + bs \<le> length m"
    and "\<forall>i < length as. \<forall>j < length as. i \<noteq> j \<longrightarrow> as ! i + bs \<le> as ! j \<or> as ! j + bs \<le> as ! i"
    and "m' = fold (\<lambda>(a, b). write_at a b) (zip as vs) m"
  shows "length m' = length m \<and> (\<forall>i < length as. take bs (drop (as ! i) m') = vs ! i)
    \<and> (\<forall>q. (\<forall>a \<in> set as. a + bs \<le> q \<or> q + bs \<le> a) \<longrightarrow> take bs (drop q m') = take bs (drop q m))"
  using assms
proof (induction as arbitrary: vs m)
  case (Cons a as)
  obtain v ws where vs: "vs = v # ws" using Cons.prems(1) by (cases vs) auto
  define m1 where "m1 = write_at a v m"
  have v: "length v = bs" "a + length v \<le> length m" using Cons.prems(2,3) by (auto simp: vs)
  have l: "length m1 = length m" using v by (simp add: m1_def)
  have apart: "as ! i + bs \<le> as ! j \<or> as ! j + bs \<le> as ! i" if "i < length as" "j < length as" "i \<noteq> j" for i j
    using Cons.prems(4) that by (metis Suc_less_eq length_Cons nat.inject nth_Cons_Suc)
  have a_apart: "a + bs \<le> as ! i \<or> as ! i + bs \<le> a" if "i < length as" for i
    using Cons.prems(4) that by (metis Suc_less_eq length_Cons nat.distinct(1) nth_Cons_0 nth_Cons_Suc zero_less_Suc)
  have IH: "length m' = length m1 \<and> (\<forall>i < length as. take bs (drop (as ! i) m') = ws ! i)
    \<and> (\<forall>q. (\<forall>a \<in> set as. a + bs \<le> q \<or> q + bs \<le> a) \<longrightarrow> take bs (drop q m') = take bs (drop q m1))"
    by (rule Cons.IH) (use Cons.prems apart in \<open>simp_all add: vs l m1_def [symmetric]\<close>)
  have "take bs (drop a m') = take bs (drop a m1)"
    using IH a_apart by (metis in_set_conv_nth)
  also have "\<dots> = v" using read_write_same [OF v(2)] v(1) by (simp add: m1_def)
  finally have first: "take bs (drop a m') = v" .
  have "take bs (drop q m') = take bs (drop q m)" if "\<forall>b \<in> set (a # as). b + bs \<le> q \<or> q + bs \<le> b" for q
    using IH that read_write_apart [OF v(2), of q bs] v(1) by (simp add: m1_def)
  then show ?case using IH first l by (auto simp: vs nth_Cons split: nat.split)
qed simp

definition encodable :: "sender_state \<Rightarrow> slice \<Rightarrow> bool" where
  \<comment> \<open>the ring, the FEC memory and the slice fit together\<close>
  "encodable st sl \<longleftrightarrow>
     (let c = config st; f = fifo st; bs = blockSize c; n = getSliceBlocks sl c; L = unat (dataBufSize f)
      in 0 < bs \<and> bs dvd L \<and> MAX_SLICE_SIZE * bs \<le> L \<and> length (dataBuffer f) = L \<and> bs dvd base sl
         \<and> 0 < n \<and> n \<le> MAX_SLICE_SIZE \<and> n \<le> 128 * fec_stripes c \<and> fec_redundancy c \<le> 128
         \<and> fec_data sl + bs * (fec_redundancy c * fec_stripes c) \<le> length (fec_memory st))"

lemma data_block_adr:
  assumes "encodable st sl"
  shows "blockSize (config st) dvd sADR (fifo st) sl j (blockSize (config st))
    \<and> sADR (fifo st) sl j (blockSize (config st)) + blockSize (config st) \<le> length (dataBuffer (fifo st))"
  using assms ring_adr_block [of "blockSize (config st)" "unat (dataBufSize (fifo st))" "base sl" j]
  by (auto simp: encodable_def Let_def sADR_def MAX_SLICE_SIZE_def)

lemma length_data_block: "encodable st sl \<Longrightarrow> length (data_block (fifo st) sl (blockSize (config st)) j) = blockSize (config st)"
  using data_block_adr [of st sl j] by (auto simp: data_block_def min_def)

lemma pad_last_blocks:
  assumes e: "encodable st sl" and sl: "sl = slice_at st k" and bs: "bs = blockSize (config st)"
    and n: "n = getSliceBlocks sl (config st)" and lo: "lo = bytes sl mod bs"
  shows "\<exists>buf. pad_last k st = Done (st\<lparr>fifo := (fifo st)\<lparr>dataBuffer := buf\<rparr>\<rparr>) \<and> length buf = length (dataBuffer (fifo st))
    \<and> (\<forall>j < n. data_block ((fifo st)\<lparr>dataBuffer := buf\<rparr>) sl bs j = padded lo n j (data_block (fifo st) sl bs j))"
proof (cases "lo = 0")
  case True
  then have "pad_last k st = Done (st\<lparr>fifo := (fifo st)\<lparr>dataBuffer := dataBuffer (fifo st)\<rparr>\<rparr>)"
    by (simp add: pad_last_def Let_def sl [symmetric] bs [symmetric] lo [symmetric])
  then show ?thesis using True by (intro exI [of _ "dataBuffer (fifo st)"]) (simp add: padded_def)
next
  case False
  define A where "A j = sADR (fifo st) sl j bs" for j
  define buf where "buf = write_at (A (n - 1) + lo) (replicate (bs - lo) 0) (dataBuffer (fifo st))"
  have pos: "0 < bs" "0 < n" "n \<le> MAX_SLICE_SIZE" "MAX_SLICE_SIZE * bs \<le> unat (dataBufSize (fifo st))"
    using e by (simp_all add: encodable_def Let_def bs n)
  have lt: "lo < bs" using pos by (simp add: lo)
  have adr: "bs dvd A j \<and> A j + bs \<le> length (dataBuffer (fifo st))" for j
    using data_block_adr [OF e, of j] by (simp add: A_def bs)
  have fits: "A (n - 1) + lo + length (replicate (bs - lo) (0 :: byte)) \<le> length (dataBuffer (fifo st))"
    using adr [of "n - 1"] lt by simp
  have p: "pad_last k st = Done (st\<lparr>fifo := (fifo st)\<lparr>dataBuffer := buf\<rparr>\<rparr>)"
    using False adr [of "n - 1"] by (simp add: pad_last_def Let_def sl [symmetric] bs [symmetric] n [symmetric] lo [symmetric] A_def buf_def)
  have blk: "take bs (drop (A j) buf) = padded lo n j (take bs (drop (A j) (dataBuffer (fifo st))))" if j: "j < n" for j
  proof (cases "j = n - 1")
    case True
    have "take bs (drop (A j) buf) = take lo (drop (A j) (dataBuffer (fifo st))) @ replicate (bs - lo) 0"
      using read_write_tail [of "A j" bs "dataBuffer (fifo st)" lo "replicate (bs - lo) 0"] adr [of j] lt True by (simp add: buf_def)
    moreover have "length (take bs (drop (A j) (dataBuffer (fifo st)))) = bs" using adr [of j] by (auto simp: min_def)
    ultimately show ?thesis using True pos False lt by (simp add: padded_def)
  next
    case other: False
    have "n - 1 < MAX_SLICE_SIZE" "j < MAX_SLICE_SIZE" using pos j by linarith+
    then have "A (n - 1) \<noteq> A j" using other
      ring_adr_inj [of bs MAX_SLICE_SIZE "unat (dataBufSize (fifo st))" "n - 1" j "base sl"] pos by (auto simp: A_def sADR_def)
    then have "A (n - 1) + bs \<le> A j \<or> A j + bs \<le> A (n - 1)" using dvd_apart adr by blast
    then have "take bs (drop (A j) buf) = take bs (drop (A j) (dataBuffer (fifo st)))"
      unfolding buf_def using lt by (intro read_write_apart [OF fits]) auto
    moreover have "j + 1 \<noteq> n" using other by auto
    ultimately show ?thesis by (simp add: padded_def)
  qed
  have "length buf = length (dataBuffer (fifo st))" unfolding buf_def by (rule length_write_at [OF fits])
  then show ?thesis using p blk by (intro exI [of _ buf]) (simp add: data_block_def sADR_def A_def)
qed

definition encoded_stripe :: "gf_tables \<Rightarrow> sender_state \<Rightarrow> slice \<Rightarrow> (nat \<Rightarrow> byte list) \<Rightarrow> nat \<Rightarrow> bool" where
  \<comment> \<open>the FEC memory holds the FEC blocks of stripe \<open>s\<close> of the data \<open>D\<close>\<close>
  "encoded_stripe T st sl D s \<longleftrightarrow>
     (let c = config st; js = stripe_blocks s (fec_stripes c) (getSliceBlocks sl c)
      in \<exists>fecs enc. blocks (fec_redundancy c) (blockSize c) fecs
         \<and> fec_encode T (blockSize c) (map D js) (length js) fecs (fec_redundancy c) = Some enc
         \<and> (\<forall>i < fec_redundancy c. fec_block st sl (s + i * fec_stripes c) = enc ! i))"

lemma stripe_blocks_length:
  assumes "s < st" and "n \<le> 128 * st"
  shows "length (stripe_blocks s st n) \<le> 128"
proof -
  have "(n + st - 1 - s) div st < 129"
    using assms by (subst div_less_iff_less_mult) auto
  then show ?thesis by (simp add: stripe_blocks_def)
qed

lemma encode_stripe_spec:
  assumes T: "gf_arith T" and e: "encodable st sl" and sl: "sl = slice_at st k" and c: "c = config st"
    and s: "s < fec_stripes c" and D: "\<forall>j < getSliceBlocks sl c. D j = data_block (fifo st) sl (blockSize c) j"
  shows "\<exists>m. encode_stripe T k s st = Done (st\<lparr>fec_memory := m\<rparr>) \<and> length m = length (fec_memory st)
    \<and> encoded_stripe T (st\<lparr>fec_memory := m\<rparr>) sl D s
    \<and> (\<forall>b. b mod fec_stripes c \<noteq> s \<longrightarrow> fec_block (st\<lparr>fec_memory := m\<rparr>) sl b = fec_block st sl b)"
proof -
  define bs where "bs = blockSize c"
  define str where "str = fec_stripes c"
  define red where "red = fec_redundancy c"
  define js where "js = stripe_blocks s str (getSliceBlocks sl c)"
  define as where "as = map (\<lambda>i. fec_adr c sl (s + i * str)) [0..<red]"
  define old where "old = map (\<lambda>a. take bs (drop a (fec_memory st))) as"
  have f: "0 < bs" "getSliceBlocks sl c \<le> 128 * str" "red \<le> 128" "fec_data sl + bs * (red * str) \<le> length (fec_memory st)"
    using e by (simp_all add: encodable_def Let_def c bs_def str_def red_def)
  have s': "s < str" using s by (simp add: str_def)
  have len: "length js \<le> 128" unfolding js_def by (rule stripe_blocks_length [OF s' f(2)])
  have in_js: "set js = {i. i < getSliceBlocks sl c \<and> i mod str = s}" using stripe_blocks_nth [OF s'] by (simp add: js_def)
  have as_le: "a + bs \<le> length (fec_memory st)" if a: "a \<in> set as" for a
  proof -
    obtain i where i: "i < red" "a = fec_data sl + bs * (s + i * str)"
      using a unfolding as_def fec_adr_def set_map set_upt bs_def by auto
    have "s + i * str + 1 \<le> red * str"
    proof -
      have "s + i * str + 1 \<le> Suc i * str" using s' by simp
      also have "\<dots> \<le> red * str" using i(1) by (intro mult_le_mono1) simp
      finally show ?thesis .
    qed
    then have "bs * (s + i * str + 1) \<le> bs * (red * str)" by (rule mult_le_mono2)
    then show ?thesis using f(4) i(2) by simp
  qed
  have "fec_adr c sl (s + i * str) + bs \<le> length (fec_memory st)" if "i < red" for i
    using as_le [of "fec_adr c sl (s + i * str)"] that by (simp add: as_def)
  then have old: "blocks red bs old" by (force simp: blocks_def old_def as_def min_def)
  obtain enc where enc: "fec_encode T bs (map (data_block (fifo st) sl bs) js) (length js) old red = Some enc" "blocks red bs enc"
  proof (cases "length js = 0")
    case True
    then have "fec_encode T bs (map (data_block (fifo st) sl bs) js) (length js) old red = Some old"
      using f(3) gf_arith.initialized [OF T] by (simp add: fec_encode_def)
    then show ?thesis using that old by blast
  next
    case False
    then show ?thesis using fec_encode_spec [OF T old _ len f(3), of "map (data_block (fifo st) sl bs) js"] that by blast
  qed
  define m where "m = fold (\<lambda>(a, b). write_at a b) (zip as enc) (fec_memory st)"
  have apart: "fec_adr c sl b + bs \<le> fec_adr c sl b' \<or> fec_adr c sl b' + bs \<le> fec_adr c sl b" if "b \<noteq> b'" for b b'
  proof -
    have "bs * b \<noteq> bs * b'" using that f(1) by simp
    then show ?thesis using dvd_apart [of bs "bs * b" "bs * b'"] by (auto simp: fec_adr_def bs_def)
  qed
  have "length m = length (fec_memory st) \<and> (\<forall>i < length as. take bs (drop (as ! i) m) = enc ! i)
    \<and> (\<forall>q. (\<forall>a \<in> set as. a + bs \<le> q \<or> q + bs \<le> a) \<longrightarrow> take bs (drop q m) = take bs (drop q (fec_memory st)))"
  proof (rule write_blocks [OF _ _ _ _ m_def])
    show "\<forall>i < length as. \<forall>j < length as. i \<noteq> j \<longrightarrow> as ! i + bs \<le> as ! j \<or> as ! j + bs \<le> as ! i"
      using apart s' by (simp add: as_def)
  qed (use enc(2) as_le in \<open>auto simp: blocks_def as_def in_set_conv_nth\<close>)
  note w = this
  have dec: "encode_stripe T k s st = Done (st\<lparr>fec_memory := m\<rparr>)"
    unfolding encode_stripe_def Let_def sl [symmetric] c [symmetric] bs_def [symmetric] str_def [symmetric] red_def [symmetric]
      js_def [symmetric] as_def [symmetric] old_def [symmetric]
    using len data_block_adr [OF e] as_le enc(1) by (simp add: c [symmetric] bs_def [symmetric] m_def)
  have Djs: "map D js = map (data_block (fifo st) sl bs) js" using D in_js by (simp add: bs_def)
  have "fec_block (st\<lparr>fec_memory := m\<rparr>) sl (s + i * str) = enc ! i" if "i < red" for i
    using w that by (simp add: fec_block_def c [symmetric] bs_def [symmetric] as_def)
  then have "encoded_stripe T (st\<lparr>fec_memory := m\<rparr>) sl D s"
    unfolding encoded_stripe_def Let_def
    by (intro exI [of _ old] exI [of _ enc])
      (use enc(1) old in \<open>simp add: Djs c [symmetric] bs_def [symmetric] str_def [symmetric] red_def [symmetric] js_def [symmetric]\<close>)
  moreover have "fec_block (st\<lparr>fec_memory := m\<rparr>) sl b = fec_block st sl b" if b: "b mod str \<noteq> s" for b
  proof -
    have "a + bs \<le> fec_adr c sl b \<or> fec_adr c sl b + bs \<le> a" if a: "a \<in> set as" for a
    proof -
      obtain i where i: "a = fec_adr c sl (s + i * str)" using a by (auto simp: as_def)
      have "s + i * str \<noteq> b" using b s' by auto
      then show ?thesis using apart by (simp add: i)
    qed
    then show ?thesis using w by (simp add: fec_block_def c [symmetric] bs_def [symmetric])
  qed
  ultimately show ?thesis using dec w by (auto simp: str_def)
qed

lemma encoded_stripe_cong:
  assumes "encoded_stripe T st sl D s" and "config st' = config st" and "s < fec_stripes (config st)"
    and "\<forall>b. b mod fec_stripes (config st) = s \<longrightarrow> fec_block st' sl b = fec_block st sl b"
  shows "encoded_stripe T st' sl D s"
  using assms unfolding encoded_stripe_def Let_def by simp

lemma encode_all_spec:
  assumes T: "gf_arith T" and e: "encodable st sl" and sl: "sl = slice_at st k" and c: "c = config st"
    and lo: "lo = bytes sl mod blockSize c" and n: "n = getSliceBlocks sl c"
  shows "\<exists>buf m. fec_encode_all_stripes T st k = Done (st\<lparr>fifo := (fifo st)\<lparr>dataBuffer := buf\<rparr>, fec_memory := m\<rparr>)
    \<and> length buf = length (dataBuffer (fifo st)) \<and> length m = length (fec_memory st)
    \<and> (\<forall>j < n. data_block ((fifo st)\<lparr>dataBuffer := buf\<rparr>) sl (blockSize c) j = padded lo n j (data_block (fifo st) sl (blockSize c) j))
    \<and> (\<forall>s < fec_stripes c. encoded_stripe T (st\<lparr>fifo := (fifo st)\<lparr>dataBuffer := buf\<rparr>, fec_memory := m\<rparr>) sl
         (data_block ((fifo st)\<lparr>dataBuffer := buf\<rparr>) sl (blockSize c)) s)"
proof -
  obtain buf where p: "pad_last k st = Done (st\<lparr>fifo := (fifo st)\<lparr>dataBuffer := buf\<rparr>\<rparr>)" "length buf = length (dataBuffer (fifo st))"
      "\<forall>j < n. data_block ((fifo st)\<lparr>dataBuffer := buf\<rparr>) sl (blockSize c) j = padded lo n j (data_block (fifo st) sl (blockSize c) j)"
    using pad_last_blocks [OF e sl refl refl refl] unfolding c n lo by blast
  define st1 where "st1 = st\<lparr>fifo := (fifo st)\<lparr>dataBuffer := buf\<rparr>\<rparr>"
  define D where "D = data_block ((fifo st)\<lparr>dataBuffer := buf\<rparr>) sl (blockSize c)"
  have st1: "config st1 = c" "slice_at st1 k = sl" "fec_memory st1 = fec_memory st"
    by (simp_all add: st1_def c sl slice_at_def)
  define P where "P s st' \<longleftrightarrow> (\<exists>m. st' = st1\<lparr>fec_memory := m\<rparr> \<and> length m = length (fec_memory st) \<and> (\<forall>s' < s. encoded_stripe T st' sl D s'))" for s st'
  have "\<exists>st'. each (encode_stripe T k) [0..<fec_stripes c] st1 = Done st' \<and> P (fec_stripes c) st'"
  proof (rule each_upt [where P = P])
    have "st1 = st1\<lparr>fec_memory := fec_memory st1\<rparr>" by simp
    then show "P 0 st1" unfolding P_def by (intro exI [of _ "fec_memory st1"]) (simp add: st1)
  next
    fix s st' assume s: "s < fec_stripes c" and "P s st'"
    then obtain m where m: "st' = st1\<lparr>fec_memory := m\<rparr>" "length m = length (fec_memory st)" "\<forall>s' < s. encoded_stripe T st' sl D s'"
      unfolding P_def by blast
    have st': "config st' = c" "slice_at st' k = sl" "fifo st' = (fifo st)\<lparr>dataBuffer := buf\<rparr>" "fec_memory st' = m"
      by (simp_all add: m(1) st1_def c sl slice_at_def)
    have e': "encodable st' sl" using e p(2) m(2) by (simp add: encodable_def Let_def st' c)
    obtain m' where m': "encode_stripe T k s st' = Done (st'\<lparr>fec_memory := m'\<rparr>)" "length m' = length m"
        "encoded_stripe T (st'\<lparr>fec_memory := m'\<rparr>) sl D s"
        "\<forall>b. b mod fec_stripes c \<noteq> s \<longrightarrow> fec_block (st'\<lparr>fec_memory := m'\<rparr>) sl b = fec_block st' sl b"
      using encode_stripe_spec [OF T e' st'(2) [symmetric] st'(1) [symmetric] s, of D] by (auto simp: st' D_def)
    have "encoded_stripe T (st'\<lparr>fec_memory := m'\<rparr>) sl D s'" if "s' < Suc s" for s'
    proof (cases "s' = s")
      case False
      show ?thesis
        by (rule encoded_stripe_cong [of T st']) (use m(3) m'(4) that False s in \<open>auto simp: st'\<close>)
    qed (use m'(3) in simp)
    then have "P (Suc s) (st'\<lparr>fec_memory := m'\<rparr>)"
      unfolding P_def using m m'(2) by (intro exI [of _ m']) simp
    then show "\<exists>st''. encode_stripe T k s st' = Done st'' \<and> P (Suc s) st''" using m'(1) by blast
  qed
  then obtain st' m where l: "each (encode_stripe T k) [0..<fec_stripes c] st1 = Done st'" "st' = st1\<lparr>fec_memory := m\<rparr>"
      "length m = length (fec_memory st)" "\<forall>s < fec_stripes c. encoded_stripe T st' sl D s"
    unfolding P_def by blast
  have "0 < blockSize c" using e by (simp add: encodable_def Let_def c)
  then have "fec_encode_all_stripes T st k = Done st'"
    using p(1) l(1) by (simp add: fec_encode_all_stripes_def c [symmetric] st1_def [symmetric] st1)
  moreover have "st' = st\<lparr>fifo := (fifo st)\<lparr>dataBuffer := buf\<rparr>, fec_memory := m\<rparr>" by (simp add: l(2) st1_def)
  ultimately show ?thesis using p l unfolding D_def by blast
qed

text \<open>
  C13.  The FEC thread encodes a slice: it returns, no access is outside the ring or the FEC
  memory, an incomplete last block is filled up with zeros and no other block changes, and the
  FEC blocks of every stripe in the memory of the slice are those of \<^verbatim>\<open>fec_encode\<close> for
  the data blocks of the stripe.
\<close>

theorem slice_encoded:
  assumes "lens_ok T" and "encodable st sl" and "sl = slice_at st k"
  shows "\<exists>st'. fec_encode_all_stripes (fec_init T) st k = Done st' \<and> config st' = config st \<and> slices st' = slices st
    \<and> (\<forall>j < getSliceBlocks sl (config st). data_block (fifo st') sl (blockSize (config st)) j =
         padded (bytes sl mod blockSize (config st)) (getSliceBlocks sl (config st)) j (data_block (fifo st) sl (blockSize (config st)) j))
    \<and> (\<forall>s < fec_stripes (config st).
         encoded_stripe (fec_init T) st' sl (data_block (fifo st') sl (blockSize (config st))) s)"
proof -
  obtain buf m where "fec_encode_all_stripes (fec_init T) st k = Done (st\<lparr>fifo := (fifo st)\<lparr>dataBuffer := buf\<rparr>, fec_memory := m\<rparr>)"
    "\<forall>j < getSliceBlocks sl (config st). data_block ((fifo st)\<lparr>dataBuffer := buf\<rparr>) sl (blockSize (config st)) j =
       padded (bytes sl mod blockSize (config st)) (getSliceBlocks sl (config st)) j (data_block (fifo st) sl (blockSize (config st)) j)"
    "\<forall>s < fec_stripes (config st). encoded_stripe (fec_init T) (st\<lparr>fifo := (fifo st)\<lparr>dataBuffer := buf\<rparr>, fec_memory := m\<rparr>) sl
         (data_block ((fifo st)\<lparr>dataBuffer := buf\<rparr>) sl (blockSize (config st))) s"
    using encode_all_spec [OF gf_arith_ready [OF fec_init_ready [OF assms(1)]] assms(2,3) refl refl refl] by blast
  then show ?thesis by (intro exI [of _ "st\<lparr>fifo := (fifo st)\<lparr>dataBuffer := buf\<rparr>, fec_memory := m\<rparr>"]) simp
qed

definition sample_fec_config :: net_config where
  "sample_fec_config = \<lparr>blockSize = 2, sliceSize = 4, flags = FLAG_FEC, discovery = DSC_DOUBLING, default_slice_size = 4,
     max_slice_size = 8, retriesUntilDrop = 5, fec_redundancy = 1, fec_stripesize = 4, fec_stripes = 2, rehelloOffset = 0\<rparr>"

definition sample_fec_slice :: slice where
  "sample_fec_slice = zero_slice\<lparr>bytes := 3, state := SLICE_NEW\<rparr>"

definition sample_fec_sender :: sender_state where
  \<comment> \<open>a slice of three bytes, in two stripes of one block each\<close>
  "sample_fec_sender = \<lparr>fifo = \<lparr>dataBuffer = [1, 2, 3, 4] @ replicate 2044 9, dataBufSize = 2048,
       freeMemQueue = pc_makeProduconsum 2048, data = pc_makeProduconsum 2048\<rparr>,
     config = sample_fec_config, stats = \<lparr>totalBytes = 0, retransmissions = 0, clNo = 0\<rparr>, slices = [sample_fec_slice, zero_slice],
     free_slices_pc = pc_makeProduconsum 2, fec_data_pc = pc_makeProduconsum 2,
     fec_memory = replicate 8 0, incoming = pc_makeProduconsum 256, freeSpace = pc_makeProduconsum 256,
     q = [], participantsDb = makeParticipantsDb, trace = []\<rparr>"

lemma sample_encodable: "encodable sample_fec_sender sample_fec_slice" "sample_fec_slice = slice_at sample_fec_sender 0"
  by (simp_all add: encodable_def Let_def sample_fec_sender_def sample_fec_config_def sample_fec_slice_def getSliceBlocks_def
      zero_slice_def MAX_SLICE_SIZE_def slice_at_def)

theorem slice_encoded_witness:
  "\<exists>st'. fec_encode_all_stripes (fec_init static_tables) sample_fec_sender 0 = Done st'
    \<and> data_block (fifo st') sample_fec_slice 2 1 = [3, 0] \<and> encoded_stripe (fec_init static_tables) st' sample_fec_slice
        (data_block (fifo st') sample_fec_slice 2) 1"
proof -
  have c: "blockSize (config sample_fec_sender) = 2" "fec_stripes (config sample_fec_sender) = 2"
    "getSliceBlocks sample_fec_slice (config sample_fec_sender) = 2" "bytes sample_fec_slice = 3"
    by (simp_all add: sample_fec_sender_def sample_fec_config_def sample_fec_slice_def getSliceBlocks_def zero_slice_def)
  have d: "data_block (fifo sample_fec_sender) sample_fec_slice 2 1 = [3, 4]"
    by (simp add: data_block_def sADR_def sample_fec_sender_def sample_fec_slice_def zero_slice_def)
  obtain st' where "fec_encode_all_stripes (fec_init static_tables) sample_fec_sender 0 = Done st'"
    "\<forall>j < 2. data_block (fifo st') sample_fec_slice 2 j = padded 1 2 j (data_block (fifo sample_fec_sender) sample_fec_slice 2 j)"
    "\<forall>s < 2. encoded_stripe (fec_init static_tables) st' sample_fec_slice (data_block (fifo st') sample_fec_slice 2) s"
    using slice_encoded [OF lens_ok_static sample_encodable] by (auto simp: c)
  then show ?thesis using d by (auto simp: padded_def)
qed

end
