(* ===== verification/SendSystem.thy ===== *)
theory SendSystem
  imports SendLoop SendFec
begin

text \<open>
  The threads of the sender together.  \<open>sender_reaches\<close> is the transition system of
  \<^verbatim>\<open>netSenderMain\<close>, \<^verbatim>\<open>returnChannelMain\<close> and \<^verbatim>\<open>fecMain\<close> from the state that
  \<^verbatim>\<open>spawnNetSender\<close> makes; its invariant \<open>system_inv\<close> adds to that of the answers what the
  threads hand over in their queues, and discharges what the main loop expects of its neighbours.
  What is assumed of the network is that a receiver confirms a slice only after the sender has asked
  (\<open>honest\<close>), as receivers do.
\<close>

subsection \<open>The queues between the threads\<close>

definition next_no :: "main_state \<Rightarrow> int \<Rightarrow> int" where
  \<comment> \<open>the number of the next slice; \<open>fn\<close> is that of the FEC thread\<close>
  "next_no m fn = (if has_flag (config (sender m)) FLAG_FEC then fn else nextSliceNo m)"

definition fresh :: "main_state \<Rightarrow> nat \<Rightarrow> bool" where
  \<comment> \<open>a slice whose acknowledgement has not been asked for\<close>
  "fresh m k \<longleftrightarrow> k < NR_SLICES \<and> (state (slice_at (sender m) k) = SLICE_NEW \<or> xmitSlice m = Some k)"

definition asked :: "main_state \<Rightarrow> int \<Rightarrow> int \<Rightarrow> bool" where
  "asked m fn no \<longleftrightarrow> (\<forall>k. fresh m k \<longrightarrow> no < sliceNo (slice_at (sender m) k)) \<and> no < next_no m fn"

definition honest :: "main_state \<Rightarrow> int \<Rightarrow> message \<Rightarrow> bool" where
  "honest m fn msg \<longleftrightarrow> (ntohs (m_opCode msg) = CMD_OK \<longrightarrow> asked m fn (ntohl_int (m_sliceNo msg)))"

definition messages_inv :: "sender_state \<Rightarrow> (message \<Rightarrow> bool) \<Rightarrow> bool" where
  \<comment> \<open>\<open>P\<close> messages have been received and \<open>C\<close> handled; those between satisfy \<open>ok\<close>\<close>
  "messages_inv st ok \<longleftrightarrow> (\<exists>P C. counts (incoming st) P C \<and> counts (freeSpace st) (C + QUEUE_SIZE) P
     \<and> cap (incoming st) = QUEUE_SIZE \<and> cap (freeSpace st) = QUEUE_SIZE
     \<and> \<not> produconsum.atEnd (incoming st) \<and> \<not> produconsum.atEnd (freeSpace st) \<and> length (q st) = QUEUE_SIZE
     \<and> (\<forall>i. C \<le> i \<longrightarrow> i < P \<longrightarrow> fst (q st ! (i mod QUEUE_SIZE)) < MAX_CLIENTS \<and> ok (snd (q st ! (i mod QUEUE_SIZE)))))"

definition fec_inv :: "sender_state \<Rightarrow> nat option \<Rightarrow> bool" where
  \<comment> \<open>the FEC thread has made \<open>P\<close> slices, the network thread taken \<open>C\<close> of them; those between are new\<close>
  "fec_inv st xm \<longleftrightarrow> (has_flag (config st) FLAG_FEC \<longrightarrow>
     (\<exists>P C. counts (fec_data_pc st) P C \<and> cap (fec_data_pc st) = NR_SLICES \<and> \<not> produconsum.atEnd (fec_data_pc st)
        \<and> unat (consumed (free_slices_pc st)) = P mod (2 * NR_SLICES)
        \<and> (\<forall>i. C \<le> i \<longrightarrow> i < P \<longrightarrow> state (slice_at st (i mod NR_SLICES)) = SLICE_NEW \<and> xm \<noteq> Some (i mod NR_SLICES))))"

definition system_inv :: "main_state \<Rightarrow> int \<Rightarrow> bool" where
  "system_inv m fn \<longleftrightarrow> main_inv m \<and> messages_inv (sender m) (honest m fn) \<and> fec_inv (sender m) (xmitSlice m)"

lemma consumeAny_keeps:
  assumes "consumeAny pc n [] = Some (pc', a)"
  shows "counts pc' P C = counts pc P C" "cap pc' = cap pc" "produconsum.atEnd pc' = produconsum.atEnd pc"
    "pc_getConsumerPosition pc' = pc_getConsumerPosition pc"
  using assms by (auto simp: consumeAny_now counts_def cap_def pc_getConsumerPosition_def split: if_splits)

lemma messages_inv_mono:
  assumes "messages_inv st ok" and "incoming st' = incoming st" "freeSpace st' = freeSpace st" "q st' = q st"
    and "\<And>x. ok x \<Longrightarrow> ok' x"
  shows "messages_inv st' ok'"
  using assms(1,5) unfolding messages_inv_def assms(2-4) by blast

lemma system_inv_tracks:
  \<comment> \<open>what the network thread does to its slices keeps the rest of the invariant\<close>
  assumes inv: "system_inv m fn" and a: "answers_inv (sender m') (xmitSlice m') (rexmitSlice m')"
    and t: "tracks (set_option (xmitSlice m)) (sender m) (sender m')"
    and xm: "xmitSlice m' = xmitSlice m \<or> xmitSlice m' = None" and no: "nextSliceNo m' = nextSliceNo m"
  shows "system_inv m' fn"
proof -
  have len: "length (slices (sender m)) = NR_SLICES" using inv by (simp add: system_inv_def main_inv_def answers_inv_def)
  have qv: "queue_view (sender m') = queue_view (sender m)" using t by (simp add: tracks_def)
  note v = queue_view_sel [OF qv]
  have s: "sliceNo (slice_at (sender m') k) = sliceNo (slice_at (sender m) k)"
      "state (slice_at (sender m') k) = SLICE_NEW \<Longrightarrow> state (slice_at (sender m) k) = SLICE_NEW"
      "xmitSlice m \<noteq> Some k \<Longrightarrow> state (slice_at (sender m) k) = SLICE_NEW \<Longrightarrow> state (slice_at (sender m') k) = SLICE_NEW"
    if "k < NR_SLICES" for k
  proof -
    have k: "k < length (slices (sender m))" using that len by simp
    show "sliceNo (slice_at (sender m') k) = sliceNo (slice_at (sender m) k)" by (rule tracksD(1) [OF t k])
    show "state (slice_at (sender m') k) = SLICE_NEW \<Longrightarrow> state (slice_at (sender m) k) = SLICE_NEW" by (rule tracksD(2) [OF t k])
    show "xmitSlice m \<noteq> Some k \<Longrightarrow> state (slice_at (sender m) k) = SLICE_NEW \<Longrightarrow> state (slice_at (sender m') k) = SLICE_NEW"
      by (rule tracksD(3) [OF t k]) simp_all
  qed
  have fr: "fresh m k" if "fresh m' k" for k using that xm by (auto simp: fresh_def dest: s(2))
  have h: "honest m' fn msg" if "honest m fn msg" for msg
    unfolding honest_def asked_def
  proof (intro impI conjI allI)
    assume ok: "ntohs (m_opCode msg) = CMD_OK"
    then have a: "asked m fn (ntohl_int (m_sliceNo msg))" using that by (simp add: honest_def)
    show "ntohl_int (m_sliceNo msg) < next_no m' fn" using a no by (auto simp: asked_def next_no_def v split: if_splits)
    fix k assume f: "fresh m' k"
    then have k: "k < NR_SLICES" by (simp add: fresh_def)
    have "ntohl_int (m_sliceNo msg) < sliceNo (slice_at (sender m) k)" using a fr [OF f] unfolding asked_def by blast
    then show "ntohl_int (m_sliceNo msg) < sliceNo (slice_at (sender m') k)" unfolding s(1) [OF k] .
  qed
  have "messages_inv (sender m) (honest m fn)" using inv by (simp add: system_inv_def)
  from messages_inv_mono [OF this v(1-3) h] have "messages_inv (sender m') (honest m' fn)" .
  moreover have "fec_inv (sender m') (xmitSlice m')"
    unfolding fec_inv_def v
  proof
    assume "has_flag (config (sender m)) FLAG_FEC"
    then obtain P C where pc: "counts (fec_data_pc (sender m)) P C" "cap (fec_data_pc (sender m)) = NR_SLICES"
        "\<not> produconsum.atEnd (fec_data_pc (sender m))" "unat (consumed (free_slices_pc (sender m))) = P mod (2 * NR_SLICES)"
      and w: "\<forall>i. C \<le> i \<longrightarrow> i < P \<longrightarrow> state (slice_at (sender m) (i mod NR_SLICES)) = SLICE_NEW \<and> xmitSlice m \<noteq> Some (i mod NR_SLICES)"
      using inv by (auto simp: system_inv_def fec_inv_def)
    have "i mod NR_SLICES < NR_SLICES" for i by (simp add: NR_SLICES_def)
    then have "\<forall>i. C \<le> i \<longrightarrow> i < P \<longrightarrow> state (slice_at (sender m') (i mod NR_SLICES)) = SLICE_NEW \<and> xmitSlice m' \<noteq> Some (i mod NR_SLICES)"
      using w s(3) xm by auto
    then show "\<exists>P C. counts (fec_data_pc (sender m)) P C \<and> cap (fec_data_pc (sender m)) = NR_SLICES
        \<and> \<not> produconsum.atEnd (fec_data_pc (sender m)) \<and> unat (consumed (free_slices_pc (sender m))) = P mod (2 * NR_SLICES)
        \<and> (\<forall>i. C \<le> i \<longrightarrow> i < P \<longrightarrow> state (slice_at (sender m') (i mod NR_SLICES)) = SLICE_NEW \<and> xmitSlice m' \<noteq> Some (i mod NR_SLICES))"
      using pc by blast
  qed
  ultimately show ?thesis using a by (simp add: system_inv_def main_inv_def)
qed

lemma system_inv_queues:
  \<comment> \<open>only the queue of messages changes\<close>
  assumes inv: "system_inv m fn" and st: "sender m' = (sender m)\<lparr>incoming := i, freeSpace := f, q := x\<rparr>"
    and ms: "xmitSlice m' = xmitSlice m" "rexmitSlice m' = rexmitSlice m" "nextSliceNo m' = nextSliceNo m"
    and ok: "messages_inv (sender m') (honest m fn)"
  shows "system_inv m' fn"
proof -
  have sl: "slice_at (sender m') k = slice_at (sender m) k" for k unfolding st by simp
  have h: "honest m' fn = honest m fn"
    unfolding honest_def asked_def fresh_def next_no_def sl ms by (simp add: st)
  have "answers_inv (sender m') (xmitSlice m) (rexmitSlice m)"
    by (rule answers_inv_cong [of "sender m"]) (use inv in \<open>simp_all add: system_inv_def main_inv_def st\<close>)
  moreover have "fec_inv (sender m') (xmitSlice m) = fec_inv (sender m) (xmitSlice m)" unfolding fec_inv_def sl by (simp add: st)
  ultimately show ?thesis using inv ok unfolding system_inv_def main_inv_def h ms by blast
qed

lemma unat_1: "unat (1 :: u32) = 1"
  by simp

lemma messages_handled:
  assumes inv: "messages_inv st ok" and w: "getProducedAmount (incoming st) \<noteq> 0"
  shows "fst (q st ! unat (pc_getConsumerPosition (incoming st))) < MAX_CLIENTS"
    "ok (snd (q st ! unat (pc_getConsumerPosition (incoming st))))"
    "\<exists>pc. pc_produce (freeSpace st) 1 = Some pc \<and> messages_inv (st\<lparr>incoming := pc_consumed (incoming st) 1, freeSpace := pc\<rparr>) ok"
proof -
  obtain P C where pc: "counts (incoming st) P C" "counts (freeSpace st) (C + QUEUE_SIZE) P" "cap (incoming st) = QUEUE_SIZE"
      "cap (freeSpace st) = QUEUE_SIZE" "\<not> produconsum.atEnd (incoming st)" "\<not> produconsum.atEnd (freeSpace st)" "length (q st) = QUEUE_SIZE"
    and good: "\<forall>i. C \<le> i \<longrightarrow> i < P \<longrightarrow> fst (q st ! (i mod QUEUE_SIZE)) < MAX_CLIENTS \<and> ok (snd (q st ! (i mod QUEUE_SIZE)))"
    using inv unfolding messages_inv_def by blast
  have "unat (getProducedAmount (incoming st)) \<noteq> 0" using w by (simp add: unat_eq_0)
  then have lt: "C < P" by (simp add: getProducedAmount_counts [OF pc(1)])
  have "fst (q st ! (C mod QUEUE_SIZE)) < MAX_CLIENTS \<and> ok (snd (q st ! (C mod QUEUE_SIZE)))" using good lt by blast
  then show "fst (q st ! unat (pc_getConsumerPosition (incoming st))) < MAX_CLIENTS"
      "ok (snd (q st ! unat (pc_getConsumerPosition (incoming st))))"
    unfolding position_counts(1) [OF pc(1)] pc(3) by simp_all
  have i: "counts (pc_consumed (incoming st) 1) P (C + 1)" "cap (pc_consumed (incoming st) 1) = QUEUE_SIZE"
      "produconsum.atEnd (pc_consumed (incoming st) 1) = produconsum.atEnd (incoming st)"
    using pc_consumed_counts [OF pc(1), of 1] lt pc(3) by simp_all
  obtain f where f: "pc_produce (freeSpace st) 1 = Some f" "counts f (C + QUEUE_SIZE + 1) P" "cap f = QUEUE_SIZE"
      "produconsum.atEnd f = produconsum.atEnd (freeSpace st)"
    using pc_produce_counts [OF pc(2), of 1] lt pc(4) by auto
  let ?st = "st\<lparr>incoming := pc_consumed (incoming st) 1, freeSpace := f\<rparr>"
  have "messages_inv ?st ok"
    unfolding messages_inv_def
    by (intro exI [of _ P] exI [of _ "C + 1"]) (use i f pc good in \<open>simp add: add.commute\<close>)
  then show "\<exists>pc. pc_produce (freeSpace st) 1 = Some pc \<and> messages_inv (st\<lparr>incoming := pc_consumed (incoming st) 1, freeSpace := pc\<rparr>) ok"
    using f(1) by blast
qed

lemma consume_messages:
  assumes "messages_inv st ok" and "consumeAny (incoming st) n [] = Some (ipc, a)"
  shows "messages_inv (st\<lparr>incoming := ipc\<rparr>) ok"
  using assms(1) consumeAny_keeps [OF assms(2)] by (simp add: messages_inv_def)

lemma system_inv_sel:
  assumes "system_inv m fn"
  shows "answers_inv (sender m) (xmitSlice m) (rexmitSlice m)" "messages_inv (sender m) (honest m fn)" "fec_inv (sender m) (xmitSlice m)"
    "length (slices (sender m)) = NR_SLICES"
  using assms by (simp_all add: system_inv_def main_inv_def answers_inv_def)

subsection \<open>The network thread\<close>

lemma system_timely:
  assumes inv: "system_inv m fn" and w: "pc_getWaiting (incoming (sender m)) \<noteq> 0"
  shows "timely (sender m) (xmitSlice m) (rexmitSlice m)"
proof -
  define e where "e = q (sender m) ! unat (pc_getConsumerPosition (incoming (sender m)))"
  have g: "fst e < MAX_CLIENTS" "honest m fn (snd e)"
    using messages_handled(1,2) [OF system_inv_sel(2) [OF inv]] w unfolding pc_getWaiting_def e_def by blast+
  have "findSlice (sender m) (xmitSlice m) (rexmitSlice m) (ntohl_int (m_sliceNo (snd e))) \<in> insert None {rexmitSlice m}"
    if ok: "ntohs (m_opCode (snd e)) = CMD_OK"
  proof (cases "findSlice (sender m) (xmitSlice m) (rexmitSlice m) (ntohl_int (m_sliceNo (snd e)))")
    case (Some k)
    note f = findSlice_cases [OF Some]
    have "asked m fn (ntohl_int (m_sliceNo (snd e)))" using g(2) ok by (simp add: honest_def)
    moreover have "fresh m k" if "xmitSlice m = Some k" using that system_inv_sel(1) [OF inv] by (simp add: fresh_def answers_inv_def)
    ultimately have "xmitSlice m \<noteq> Some k" using f by (fastforce simp: asked_def)
    then show ?thesis using f Some by simp
  qed simp
  then show ?thesis using g(1) by (simp add: timely_def Let_def e_def [symmetric])
qed

lemma handleNextMessage_system:
  assumes inv: "system_inv m fn" and w: "pc_getWaiting (incoming (sender m)) \<noteq> 0"
    and h: "handleNextMessage (sender m) (xmitSlice m) (rexmitSlice m) = Done st'"
  shows "system_inv (m\<lparr>sender := st'\<rparr>) fn"
proof -
  note hn = handleNextMessage_inv [OF system_inv_sel(1) [OF inv] system_timely [OF inv w] h]
  obtain ipc n pc st2 where e: "pc_consumeAny (incoming (sender m)) [] = Some (ipc, n)" "pc_produce (freeSpace (sender m)) 1 = Some pc"
      "tracks {} ((sender m)\<lparr>incoming := ipc\<rparr>) st2" "st' = st2\<lparr>incoming := pc_consumed ipc 1, freeSpace := pc\<rparr>"
    using hn by blast
  define m1 where "m1 = m\<lparr>sender := (sender m)\<lparr>incoming := ipc\<rparr>\<rparr>"
  have i1: "messages_inv ((sender m)\<lparr>incoming := ipc\<rparr>) (honest m fn)"
    using consume_messages [OF system_inv_sel(2) [OF inv]] e(1) by (simp add: pc_consumeAny_def)
  have inv1: "system_inv m1 fn"
    by (rule system_inv_queues [OF inv, where i = ipc and f = "freeSpace (sender m)" and x = "q (sender m)"]) (use i1 in \<open>simp_all add: m1_def\<close>)
  have "answers_inv st2 (xmitSlice m) (rexmitSlice m)"
    by (rule answers_inv_cong [OF conjunct1 [OF hn]]) (simp_all add: e(4))
  then have inv2: "system_inv (m\<lparr>sender := st2\<rparr>) fn"
    using e(3) by (intro system_inv_tracks [OF inv1]) (auto simp: m1_def intro: tracks_mono)
  have sel2: "incoming st2 = ipc" "freeSpace st2 = freeSpace (sender m)"
    using e(3) queue_view_sel [of st2 "(sender m)\<lparr>incoming := ipc\<rparr>"] by (simp_all add: tracks_def)
  have "getProducedAmount ipc \<noteq> 0" using e(1) w by (auto simp: pc_consumeAny_def consumeAny_now pc_getWaiting_def split: if_splits)
  then have "messages_inv st' (honest (m\<lparr>sender := st2\<rparr>) fn)"
    using messages_handled(3) [OF system_inv_sel(2) [OF inv2]] e(2) by (simp add: sel2 e(4))
  then show ?thesis
    by (intro system_inv_queues [OF inv2, where i = "pc_consumed ipc 1" and f = pc and x = "q st2"]) (simp_all add: e(4))
qed

lemma fec_inv_ready:
  assumes inv: "system_inv m fn"
  shows "fec_ready m"
proof -
  have "unat (pc_getConsumerPosition (fec_data_pc (sender m))) < NR_SLICES
      \<and> state (slice_at (sender m) (unat (pc_getConsumerPosition (fec_data_pc (sender m))))) = SLICE_NEW"
    if fec: "has_flag (config (sender m)) FLAG_FEC" and some: "pc_consume (fec_data_pc (sender m)) 1 [] \<noteq> None"
  proof -
    obtain P C where pc: "counts (fec_data_pc (sender m)) P C" "cap (fec_data_pc (sender m)) = NR_SLICES"
        "\<not> produconsum.atEnd (fec_data_pc (sender m))"
      and w: "\<forall>i. C \<le> i \<longrightarrow> i < P \<longrightarrow> state (slice_at (sender m) (i mod NR_SLICES)) = SLICE_NEW \<and> xmitSlice m \<noteq> Some (i mod NR_SLICES)"
      using system_inv_sel(3) [OF inv] fec unfolding fec_inv_def by blast
    have "1 \<le> getProducedAmount (fec_data_pc (sender m))"
      using some pc(3) by (auto simp: pc_consume_def consumeAny_now split: if_splits)
    then have "C < P" using getProducedAmount_counts [OF pc(1)] by (simp add: word_le_nat_alt)
    then show ?thesis using w unfolding position_counts(1) [OF pc(1)] pc(2) by (simp add: NR_SLICES_def)
  qed
  then show ?thesis by (simp add: fec_ready_def Let_def)
qed

lemma system_inv_cong:
  "system_inv m fn \<Longrightarrow> sender m' = sender m \<Longrightarrow> xmitSlice m' = xmitSlice m \<Longrightarrow> rexmitSlice m' = rexmitSlice m
    \<Longrightarrow> nextSliceNo m' = nextSliceNo m \<Longrightarrow> system_inv m' fn"
  by (rule system_inv_tracks) (simp_all add: system_inv_sel(1))

lemma makeSlice_effect:
  assumes mk: "makeSlice st no = Done (st', i)" and "length (slices st) = NR_SLICES" "pc_size (free_slices_pc st) = of_nat NR_SLICES"
  shows "i = unat (consumed (free_slices_pc st)) mod NR_SLICES" "state (slice_at st i) = SLICE_FREE"
    "state (slice_at st' i) = SLICE_NEW" "sliceNo (slice_at st' i) = no" "\<And>j. j \<noteq> i \<Longrightarrow> slice_at st' j = slice_at st j"
    "incoming st' = incoming st" "freeSpace st' = freeSpace st" "q st' = q st" "fec_data_pc st' = fec_data_pc st" "config st' = config st"
    "unat (consumed (free_slices_pc st)) < 2 * NR_SLICES \<Longrightarrow>
      unat (consumed (free_slices_pc st')) = (unat (consumed (free_slices_pc st)) + 1) mod (2 * NR_SLICES)"
proof -
  obtain fpc a where f: "pc_consume (free_slices_pc st) 1 [] = Some (fpc, a)"
    using mk by (auto simp: makeSlice_def outcome_Done)
  have c: "consumed fpc = consumed (free_slices_pc st)" "pc_size fpc = of_nat NR_SLICES"
    using f assms(3) by (auto simp: pc_consume_def consumeAny_now split: if_splits)
  define j where "j = unat (pc_getConsumerPosition fpc)"
  obtain n b d fo where free: "state (slice_at st j) = SLICE_FREE" and ij: "i = j"
    and st': "st' = upd_slice j (\<lambda>_. zero_slice\<lparr>base := b, sliceNo := no, bytes := n, nextBlock := 0, state := SLICE_NEW,
                      readySet := replicate SET_BYTES 0, nrReady := 0, fec_data := d\<rparr>)
      ((upd_slice j (\<lambda>_. zero_slice) st)\<lparr>free_slices_pc := pc_consumed fpc 1, fifo := fo\<rparr>)"
    using mk f by (auto simp: makeSlice_def outcome_Done j_def Let_def)
  show i: "i = unat (consumed (free_slices_pc st)) mod NR_SLICES"
    by (simp add: ij j_def pc_getConsumerPosition_def c unat_mod_distrib NR_SLICES_def unat_mod)
  then have j: "j < length (slices st)" using assms(2) by (simp add: ij NR_SLICES_def)
  show "state (slice_at st i) = SLICE_FREE" using free by (simp add: ij)
  show "state (slice_at st' i) = SLICE_NEW" "sliceNo (slice_at st' i) = no" "\<And>j. j \<noteq> i \<Longrightarrow> slice_at st' j = slice_at st j"
    using j by (simp_all add: st' ij)
  show "incoming st' = incoming st" "freeSpace st' = freeSpace st" "q st' = q st" "fec_data_pc st' = fec_data_pc st" "config st' = config st"
    by (simp_all add: st')
  assume lt: "unat (consumed (free_slices_pc st)) < 2 * NR_SLICES"
  have "free_slices_pc st' = pc_consumed fpc 1" by (simp add: st')
  then have e: "consumed (free_slices_pc st') = (if consumed (free_slices_pc st) \<ge> 3 then consumed (free_slices_pc st) + (1 - 4) else consumed (free_slices_pc st) + 1)"
    by (simp add: pc_consumed_def Let_def c NR_SLICES_def)
  have "consumed (free_slices_pc st) \<in> {0, 1, 2, 3}"
  proof -
    have "unat (consumed (free_slices_pc st)) \<in> {0, 1, 2, 3}" using lt by (auto simp: NR_SLICES_def)
    then show ?thesis by (auto simp: word_unat_eq_iff)
  qed
  then show "unat (consumed (free_slices_pc st')) = (unat (consumed (free_slices_pc st)) + 1) mod (2 * NR_SLICES)"
    unfolding e NR_SLICES_def by (auto simp: word_le_nat_alt)
qed

lemma main_new_slice_system:
  assumes inv: "system_inv m fn" and c: "main_new_slice m = Done m'"
  shows "system_inv m' fn \<and> incoming (sender m') = incoming (sender m)"
proof (cases "xmitSlice m = None \<and> \<not> SendData.main_state.atEnd m \<and> (has_flag (config (sender m)) FLAG_SN \<or> rexmitSlice m = None)")
  case False
  then have "m' = m" using c unfolding main_new_slice_def by (auto split: if_splits)
  then show ?thesis using inv by simp
next
  case True
  note a' = main_new_slice_inv [OF system_inv_sel(1) [OF inv] fec_inv_ready [OF inv] c]
  obtain m1 where
    m1: "(if has_flag (config (sender m)) FLAG_FEC then
             and_then (or_block (pc_consume (fec_data_pc (sender m)) 1 [])) (\<lambda>(pc, _).
               Done (m\<lparr>sender := (sender m)\<lparr>fec_data_pc := pc_consumed pc 1\<rparr>,
                       xmitSlice := Some (unat (pc_getConsumerPosition pc))\<rparr>))
           else
             and_then (makeSlice (sender m) (nextSliceNo m)) (\<lambda>(st, k).
               Done (m\<lparr>sender := st, xmitSlice := Some k, nextSliceNo := nextSliceNo m + 1\<rparr>))) = Done m1"
    and m': "m' = (if bytes (slice_at (sender m1) (the (xmitSlice m1))) = 0 then m1\<lparr>SendData.main_state.atEnd := True\<rparr> else m1)"
    using c True by (auto simp: main_new_slice_def and_then_Done)
  have sel: "sender m' = sender m1" "xmitSlice m' = xmitSlice m1" "rexmitSlice m' = rexmitSlice m1" "nextSliceNo m' = nextSliceNo m1"
    by (simp_all add: m')
  have a: "answers_inv (sender m1) (xmitSlice m1) (rexmitSlice m1)" using conjunct1 [OF a'] by (simp only: sel)
  have "system_inv m1 fn \<and> incoming (sender m1) = incoming (sender m)"
  proof (cases "has_flag (config (sender m)) FLAG_FEC")
    case fec: True
    obtain pc n where p: "pc_consume (fec_data_pc (sender m)) 1 [] = Some (pc, n)"
      "m1 = m\<lparr>sender := (sender m)\<lparr>fec_data_pc := pc_consumed pc 1\<rparr>, xmitSlice := Some (unat (pc_getConsumerPosition pc))\<rparr>"
      using m1 fec by (auto simp: outcome_Done)
    obtain P C where q: "counts (fec_data_pc (sender m)) P C" "cap (fec_data_pc (sender m)) = NR_SLICES"
        "\<not> produconsum.atEnd (fec_data_pc (sender m))" "unat (consumed (free_slices_pc (sender m))) = P mod (2 * NR_SLICES)"
      and w: "\<forall>i. C \<le> i \<longrightarrow> i < P \<longrightarrow> state (slice_at (sender m) (i mod NR_SLICES)) = SLICE_NEW \<and> xmitSlice m \<noteq> Some (i mod NR_SLICES)"
      using system_inv_sel(3) [OF inv] fec unfolding fec_inv_def by blast
    note k = consumeAny_keeps [OF p(1) [unfolded pc_consume_def]]
    have "1 \<le> getProducedAmount (fec_data_pc (sender m))"
      using p(1) q(3) by (auto simp: pc_consume_def consumeAny_now split: if_splits)
    then have lt: "C < P" using getProducedAmount_counts [OF q(1)] by (simp add: word_le_nat_alt)
    define i where "i = C mod NR_SLICES"
    have i: "unat (pc_getConsumerPosition pc) = i" unfolding k(4) position_counts(1) [OF q(1)] q(2) i_def ..
    have new: "state (slice_at (sender m) i) = SLICE_NEW" "i < NR_SLICES" using w lt by (auto simp: i_def NR_SLICES_def)
    have sl: "slice_at (sender m1) j = slice_at (sender m) j" for j by (simp add: p(2))
    have fr: "fresh m1 j \<longleftrightarrow> fresh m j" for j
      unfolding fresh_def sl using new True by (auto simp: p(2) i)
    have h: "honest m1 fn = honest m fn" unfolding honest_def asked_def fr sl next_no_def by (simp add: p(2))
    have mi: "messages_inv (sender m1) (honest m1 fn)"
      unfolding h by (rule messages_inv_mono [OF system_inv_sel(2) [OF inv]]) (simp_all add: p(2))
    have d: "counts (pc_consumed pc 1) P (C + 1)" "cap (pc_consumed pc 1) = NR_SLICES" "\<not> produconsum.atEnd (pc_consumed pc 1)"
      using pc_consumed_counts [of pc P C 1] lt k(1-3) q(1-3) by simp_all
    have "P \<le> C + NR_SLICES" using q(1,2) by (simp add: counts_def)
    then have ne: "j mod NR_SLICES \<noteq> i" if "C + 1 \<le> j" "j < P" for j
    proof -
      have "j = Suc C" using that \<open>P \<le> C + NR_SLICES\<close> by (simp add: NR_SLICES_def)
      then show ?thesis by (simp add: i_def NR_SLICES_def mod_Suc)
    qed
    have "fec_inv (sender m1) (xmitSlice m1)"
      unfolding fec_inv_def sl
    proof (intro impI exI conjI allI)
      show "counts (fec_data_pc (sender m1)) P (C + 1)" "cap (fec_data_pc (sender m1)) = NR_SLICES"
        "\<not> produconsum.atEnd (fec_data_pc (sender m1))" "unat (consumed (free_slices_pc (sender m1))) = P mod (2 * NR_SLICES)"
        using d q(4) by (simp_all add: p(2))
      fix j assume j: "C + 1 \<le> j" "j < P"
      show "state (slice_at (sender m) (j mod NR_SLICES)) = SLICE_NEW" using w j by simp
      show "xmitSlice m1 \<noteq> Some (j mod NR_SLICES)" using ne [OF j] by (simp add: p(2) i)
    qed
    moreover have "incoming (sender m1) = incoming (sender m)" by (simp add: p(2))
    ultimately show ?thesis using a mi unfolding system_inv_def main_inv_def by blast
  next
    case noFec: False
    obtain st i where mk: "makeSlice (sender m) (nextSliceNo m) = Done (st, i)"
      "m1 = m\<lparr>sender := st, xmitSlice := Some i, nextSliceNo := nextSliceNo m + 1\<rparr>"
      using m1 noFec by (auto simp: outcome_Done)
    have sz: "pc_size (free_slices_pc (sender m)) = of_nat NR_SLICES" using system_inv_sel(1) [OF inv] by (simp add: answers_inv_def)
    note e = makeSlice_effect [OF mk(1) system_inv_sel(4) [OF inv] sz]
    have "honest m1 fn msg" if h: "honest m fn msg" for msg
      unfolding honest_def asked_def
    proof (intro impI conjI allI)
      assume "ntohs (m_opCode msg) = CMD_OK"
      then have b: "asked m fn (ntohl_int (m_sliceNo msg))" using h by (simp add: honest_def)
      then have n: "ntohl_int (m_sliceNo msg) < nextSliceNo m" using noFec by (simp add: asked_def next_no_def)
      then show "ntohl_int (m_sliceNo msg) < next_no m1 fn" using noFec by (simp add: next_no_def mk(2) e(10))
      fix k assume f: "fresh m1 k"
      show "ntohl_int (m_sliceNo msg) < sliceNo (slice_at (sender m1) k)"
      proof (cases "k = i")
        case True
        then show ?thesis using n e(4) by (simp add: mk(2))
      next
        case False
        then have "fresh m k" using f e(5) by (simp add: fresh_def mk(2))
        then show ?thesis using b e(5) [OF False] by (simp add: asked_def mk(2))
      qed
    qed
    then have "messages_inv (sender m1) (honest m1 fn)"
      by (intro messages_inv_mono [OF system_inv_sel(2) [OF inv]]) (simp_all add: mk(2) e(6-8))
    moreover have "fec_inv (sender m1) (xmitSlice m1)" using noFec by (simp add: fec_inv_def mk(2) e(10))
    moreover have "incoming (sender m1) = incoming (sender m)" by (simp add: mk(2) e(6))
    ultimately show ?thesis using a unfolding system_inv_def main_inv_def by blast
  qed
  then show ?thesis using system_inv_cong [of m1 fn m'] sel by metis
qed

definition quiet :: "u32 \<Rightarrow> wakeup list \<Rightarrow> bool" where
  \<comment> \<open>the wake-ups of a wait in which nothing, or with \<open>p\<close> something, arrives; nobody ends the queue of messages\<close>
  "quiet p wakes \<longleftrightarrow> (\<forall>w \<in> set wakes. w = Signalled p False \<or> w = TimedOut p False)"

definition restore_incoming :: "main_state \<Rightarrow> main_state \<Rightarrow> main_state" where
  \<comment> \<open>\<open>m'\<close> with the number of messages received as in \<open>m\<close>\<close>
  "restore_incoming m m' = m'\<lparr>sender := (sender m')\<lparr>incoming := (incoming (sender m'))\<lparr>produced := produced (incoming (sender m))\<rparr>\<rparr>\<rparr>"

lemma wait_loop_quiet:
  assumes "wait_loop pc n wakes = Some (pc', a)" and "quiet p wakes"
  shows "\<exists>x \<in> {produced pc, p}. \<exists>e. pc' = pc\<lparr>produced := x, produconsum.atEnd := e\<rparr> \<and> (\<not> produconsum.atEnd pc \<longrightarrow> \<not> e)"
  using assms
proof (induction pc n wakes rule: wait_loop.induct)
  case (1 pc n wakes)
  show ?case
  proof (cases "getProducedAmount pc < n \<and> \<not> produconsum.atEnd pc")
    case False
    then have "pc' = pc" using "1.prems"(1) by (subst (asm) wait_loop.simps) auto
    then show ?thesis by (cases pc) auto
  next
    case True
    then obtain w ws where w: "wakes = w # ws" using "1.prems"(1) by (subst (asm) wait_loop.simps) (auto split: list.splits)
    have "w = Signalled p False \<or> w = TimedOut p False" using "1.prems"(2) by (simp add: w quiet_def)
    then show ?thesis
    proof
      assume s: "w = Signalled p False"
      have "wait_loop (pc\<lparr>produced := p, produconsum.atEnd := False\<rparr>) n ws = Some (pc', a)"
        using "1.prems"(1) True by (subst (asm) wait_loop.simps) (simp add: w s)
      then show ?thesis using "1.IH"(1) [OF refl True w s] "1.prems"(2) by (auto simp: w quiet_def)
    next
      assume s: "w = TimedOut p False"
      have "pc' = pc\<lparr>produced := p, produconsum.atEnd := False\<rparr>"
        using "1.prems"(1) True by (subst (asm) wait_loop.simps) (simp add: w s Let_def)
      then show ?thesis by blast
    qed
  qed
qed

lemma consumeAny_quiet:
  assumes "consumeAny pc n wakes = Some (pc', a)" and "quiet p wakes" and "\<not> produconsum.atEnd pc"
  shows "\<exists>x \<in> {produced pc, p}. pc' = pc\<lparr>produced := x, consumerIsWaiting := False\<rparr>"
proof (cases "getProducedAmount pc \<ge> n \<or> produconsum.atEnd pc")
  case True
  then show ?thesis using assms(1) by (auto simp: consumeAny_def Let_def)
next
  case False
  then obtain pc1 where w: "wait_loop (pc\<lparr>consumerIsWaiting := True\<rparr>) n wakes = Some (pc1, a)" "pc' = pc1\<lparr>consumerIsWaiting := False\<rparr>"
    using assms(1) by (auto simp: consumeAny_def Let_def split: option.splits)
  show ?thesis using wait_loop_quiet [OF w(1) assms(2)] assms(3) by (cases pc) (auto simp: w(2))
qed

lemma main_wait_system:
  assumes inv: "system_inv m fn" and c: "main_wait wakes m = Done (Continue m')" and w: "quiet p wakes"
  shows "system_inv (restore_incoming m m') fn \<and> produced (incoming (sender m')) \<in> {produced (incoming (sender m)), p}"
proof -
  obtain P C where "\<not> produconsum.atEnd (incoming (sender m))"
    using system_inv_sel(2) [OF inv] unfolding messages_inv_def by blast
  note mw = main_wait_inv [OF system_inv_sel(1) [OF inv] c]
  obtain pc n where pc: "pc_consumeAnyWithTimeout (incoming (sender m)) wakes = Some (pc, n)"
    and t: "tracks {} ((sender m)\<lparr>incoming := pc\<rparr>) (sender m')" and sel: "xmitSlice m' = xmitSlice m" "nextSliceNo m' = nextSliceNo m"
    using mw by blast
  obtain x where x: "pc = (incoming (sender m))\<lparr>produced := x, consumerIsWaiting := False\<rparr>" and xp: "x \<in> {produced (incoming (sender m)), p}"
    using consumeAny_quiet [OF pc [unfolded pc_consumeAnyWithTimeout_def] w \<open>\<not> produconsum.atEnd (incoming (sender m))\<close>] by blast
  have a: "answers_inv (sender m') (xmitSlice m') (rexmitSlice m')" using mw by blast
  define ipc where "ipc = (incoming (sender m))\<lparr>consumerIsWaiting := False\<rparr>"
  define m1 where "m1 = m\<lparr>sender := (sender m)\<lparr>incoming := ipc\<rparr>\<rparr>"
  have "messages_inv ((sender m)\<lparr>incoming := ipc\<rparr>) (honest m fn)"
    using system_inv_sel(2) [OF inv] by (simp add: messages_inv_def ipc_def counts_def cap_def)
  then have inv1: "system_inv m1 fn"
    by (intro system_inv_queues [OF inv, where i = ipc and f = "freeSpace (sender m)" and x = "q (sender m)"]) (simp_all add: m1_def)
  have in': "incoming (sender m') = pc" using t queue_view_sel(1) [of "sender m'" "(sender m)\<lparr>incoming := pc\<rparr>"] by (simp add: tracks_def)
  have r: "sender (restore_incoming m m') = (sender m')\<lparr>incoming := ipc\<rparr>" by (simp add: restore_incoming_def in' x ipc_def)
  have "tracks {} ((sender m)\<lparr>incoming := ipc\<rparr>) ((sender m')\<lparr>incoming := ipc\<rparr>)"
    using t by (rule tracks_cong) (use conjunct1 [OF t [unfolded tracks_def]] in \<open>simp_all add: queue_view_def\<close>)
  then have "tracks (set_option (xmitSlice m1)) (sender m1) (sender (restore_incoming m m'))"
    unfolding r by (simp add: m1_def tracks_mono [of "{}"])
  moreover have "answers_inv (sender (restore_incoming m m')) (xmitSlice m') (rexmitSlice m')"
    using a by (rule answers_inv_cong) (simp_all add: r)
  moreover have "xmitSlice (restore_incoming m m') = xmitSlice m'" "rexmitSlice (restore_incoming m m') = rexmitSlice m'"
      "nextSliceNo (restore_incoming m m') = nextSliceNo m'" by (simp_all add: restore_incoming_def)
  moreover have "xmitSlice m1 = xmitSlice m" "nextSliceNo m1 = nextSliceNo m" by (simp_all add: m1_def)
  ultimately have "system_inv (restore_incoming m m') fn" using system_inv_tracks [OF inv1, of "restore_incoming m m'"] sel by argo
  moreover have "produced (incoming (sender m')) \<in> {produced (incoming (sender m)), p}" using xp by (simp add: in' x)
  ultimately show ?thesis by blast
qed

lemma restore_same:
  "produced (incoming (sender m')) = produced (incoming (sender m)) \<Longrightarrow> restore_incoming m m' = m'"
  by (simp add: restore_incoming_def)

lemma handleNextMessage_produced:
  assumes "handleNextMessage st xm rm = Done st'" and "answers_inv st xm rm" and "timely st xm rm"
  shows "produced (incoming st') = produced (incoming st)"
proof -
  obtain ipc n pc st2 where "pc_consumeAny (incoming st) [] = Some (ipc, n)" "st' = st2\<lparr>incoming := pc_consumed ipc 1, freeSpace := pc\<rparr>"
    using handleNextMessage_inv [OF assms(2,3,1)] by blast
  then show ?thesis by (auto simp: pc_consumeAny_def consumeAny_now pc_consumed_def Let_def split: if_splits)
qed

lemma main_body_system:
  assumes inv: "system_inv m fn" and b: "main_body msgs wakes m = Done (Continue m')" and w: "quiet p wakes"
  shows "system_inv (restore_incoming m m') fn \<and> produced (incoming (sender m')) \<in> {produced (incoming (sender m)), p}"
proof -
  obtain m1 m2 where m1: "main_cleanup m = Done m1" and m2: "main_shift m1 = Done m2"
    and r: "(if pc_getWaiting (incoming (sender m2)) \<noteq> 0 then
         and_then (handleNextMessage (sender m2) (xmitSlice m2) (rexmitSlice m2)) (\<lambda>st. Done (Continue (m2\<lparr>sender := st\<rparr>)))
       else if \<exists>k \<in> set_option (rexmitSlice m2). needRxmit (slice_at (sender m2) k) then
         and_then (doRetransmissions msgs (sender m2) (the (rexmitSlice m2))) (\<lambda>st. Done (Continue (m2\<lparr>sender := st\<rparr>)))
       else
         and_then (main_reqack m2) (\<lambda>m.
         and_then (main_new_slice m) (\<lambda>m.
           if \<exists>k \<in> set_option (xmitSlice m). state (slice_at (sender m) k) = SLICE_NEW then
             and_then (sendSlice msgs (sender m) (the (xmitSlice m)) False) (\<lambda>(st, _). Done (Continue (m\<lparr>sender := st\<rparr>)))
           else main_wait wakes m))) = Done (Continue m')"
    using b unfolding main_body_def and_then_Done by blast
  note c1 = main_cleanup_inv [OF system_inv_sel(1) [OF inv] m1]
  have inv1: "system_inv m1 fn" using c1 by (intro system_inv_tracks [OF inv]) (auto intro: tracks_mono)
  note c2 = main_shift_inv [OF system_inv_sel(1) [OF inv1] m2]
  have inv2: "system_inv m2 fn" using c2 by (intro system_inv_tracks [OF inv1]) (auto intro: tracks_mono)
  have in2: "incoming (sender m2) = incoming (sender m)"
    using c1 c2 queue_view_sel(1) by (metis tracks_def)
  consider (msg) st where "pc_getWaiting (incoming (sender m2)) \<noteq> 0"
        "handleNextMessage (sender m2) (xmitSlice m2) (rexmitSlice m2) = Done st" "m' = m2\<lparr>sender := st\<rparr>"
    | (retr) k st where "rexmitSlice m2 = Some k" "doRetransmissions msgs (sender m2) k = Done st" "m' = m2\<lparr>sender := st\<rparr>"
    | (rest) m3 m4 where "main_reqack m2 = Done m3" "main_new_slice m3 = Done m4"
        "(if \<exists>k \<in> set_option (xmitSlice m4). state (slice_at (sender m4) k) = SLICE_NEW then
             and_then (sendSlice msgs (sender m4) (the (xmitSlice m4)) False) (\<lambda>(st, _). Done (Continue (m4\<lparr>sender := st\<rparr>)))
           else main_wait wakes m4) = Done (Continue m')"
    using r by (auto simp: and_then_Done split: if_splits)
  then show ?thesis
  proof cases
    case msg
    have "produced (incoming (sender m')) = produced (incoming (sender m))"
      using handleNextMessage_produced [OF msg(2) system_inv_sel(1) [OF inv2] system_timely [OF inv2 msg(1)]]
      by (simp add: msg(3) in2)
    then show ?thesis using handleNextMessage_system [OF inv2 msg(1,2)] by (simp add: restore_same msg(3))
  next
    case retr
    have st: "answers_inv st (xmitSlice m2) (rexmitSlice m2) \<and> tracks {} (sender m2) st"
      using sendSlice_inv [OF system_inv_sel(1) [OF inv2], of msgs k True] retr(1,2) system_inv_sel(1) [OF inv2]
      by (auto simp: doRetransmissions_def and_then_Done split: if_splits)
    then have "system_inv m' fn" by (intro system_inv_tracks [OF inv2]) (auto simp: retr(3) intro: tracks_mono)
    moreover have "incoming (sender m') = incoming (sender m2)"
      using tracks_sel(1) [OF conjunct2 [OF st]] by (simp add: retr(3))
    ultimately show ?thesis by (simp add: restore_same in2)
  next
    case rest
    note c3 = main_reqack_inv [OF system_inv_sel(1) [OF inv2] rest(1)]
    have inv3: "system_inv m3 fn" using c3 by (intro system_inv_tracks [OF inv2]) (auto intro: tracks_mono)
    note c4 = main_new_slice_system [OF inv3 rest(2)]
    have in4: "incoming (sender m4) = incoming (sender m)" using c3 c4 in2 queue_view_sel(1) by (metis tracks_def)
    show ?thesis
    proof (cases "\<exists>k \<in> set_option (xmitSlice m4). state (slice_at (sender m4) k) = SLICE_NEW")
      case False
      have "main_wait wakes m4 = Done (Continue m')" using rest(3) unfolding if_not_P [OF False] .
      from main_wait_system [OF conjunct1 [OF c4] this w] show ?thesis by (simp add: restore_incoming_def in4)
    next
      case True
      then obtain k st rr where k: "xmitSlice m4 = Some k" "sendSlice msgs (sender m4) k False = Done (st, rr)"
        "m' = m4\<lparr>sender := st\<rparr>"
        using rest(3) by (auto simp: and_then_Done)
      note t = sendSlice_inv [OF system_inv_sel(1) [OF conjunct1 [OF c4]] k(2)]
      have "system_inv m' fn" using t k(1) by (intro system_inv_tracks [OF conjunct1 [OF c4]]) (auto simp: k(3))
      moreover have "incoming (sender m') = incoming (sender m)"
        using tracks_sel(1) [OF conjunct2 [OF t]] k(1,3) in4 by simp
      ultimately show ?thesis by (simp add: restore_same)
    qed
  qed
qed

lemma main_round_body:
  assumes "main_round msgs wakes m = Done (Continue m')"
  shows "main_body msgs wakes m = Done (Continue m')"
proof -
  obtain r where r: "main_body msgs wakes m = Done r" using assms by (auto simp: main_round_def and_then_Done)
  have "r = Continue m'" using assms by (cases r) (simp_all add: main_round_def r Let_def split: if_splits)
  then show ?thesis using r by simp
qed

subsection \<open>The other threads\<close>

lemma encode_keeps:
  assumes "fec_encode_all_stripes T st k = Done st'"
  shows "slices st' = slices st \<and> queue_view st' = queue_view st \<and> participantsDb st' = participantsDb st
    \<and> free_slices_pc st' = free_slices_pc st \<and> config st' = config st"
proof -
  let ?R = "\<lambda>st st'. slices st' = slices st \<and> queue_view st' = queue_view st \<and> participantsDb st' = participantsDb st
    \<and> free_slices_pc st' = free_slices_pc st \<and> config st' = config st"
  obtain st1 where p: "pad_last k st = Done st1" and e: "each (encode_stripe T k) [0..<fec_stripes (config st1)] st1 = Done st'"
    using assms by (auto simp: fec_encode_all_stripes_def and_then_Done)
  have "?R st st1" using p by (auto simp: pad_last_def Let_def and_then_Done queue_view_def split: if_splits)
  then show "?R st st'"
    by (intro each_inv [OF e, where P = "?R st"]) (auto simp: encode_stripe_def Let_def and_then_Done queue_view_def)
qed

lemma sfecMain_system:
  assumes inv: "system_inv m fn" and fec: "has_flag (config (sender m)) FLAG_FEC" and f: "sfecMain T (sender m) fn = Done (st', fn')"
  shows "system_inv (m\<lparr>sender := st'\<rparr>) fn'"
proof -
  obtain st1 i st2 pc where mk: "makeSlice (sender m) fn = Done (st1, i)" and en: "fec_encode_all_stripes T st1 i = Done st2"
    and pr: "pc_produce (fec_data_pc st2) 1 = Some pc" and st': "st' = st2\<lparr>fec_data_pc := pc\<rparr>" "fn' = fn + 1"
    using f by (auto simp: sfecMain_def and_then_Done outcome_Done)
  have a0: "answers_inv (sender m) (xmitSlice m) (rexmitSlice m)" and len: "length (slices (sender m)) = NR_SLICES"
    using system_inv_sel [OF inv] by blast+
  then have sz: "pc_size (free_slices_pc (sender m)) = of_nat NR_SLICES" by (simp add: answers_inv_def)
  note e = makeSlice_effect [OF mk len sz]
  note k = encode_keeps [OF en]
  have sl: "slice_at st' j = slice_at st1 j" for j using k by (simp add: st' slice_at_def)
  obtain P C where q: "counts (fec_data_pc (sender m)) P C" "cap (fec_data_pc (sender m)) = NR_SLICES"
      "\<not> produconsum.atEnd (fec_data_pc (sender m))" "unat (consumed (free_slices_pc (sender m))) = P mod (2 * NR_SLICES)"
    and w: "\<forall>i. C \<le> i \<longrightarrow> i < P \<longrightarrow> state (slice_at (sender m) (i mod NR_SLICES)) = SLICE_NEW \<and> xmitSlice m \<noteq> Some (i mod NR_SLICES)"
    using system_inv_sel(3) [OF inv] fec unfolding fec_inv_def by blast
  have i: "i = P mod NR_SLICES" unfolding e(1) q(4) by (simp add: mod_mod_cancel)
  have il: "i < NR_SLICES" by (simp add: i NR_SLICES_def)
  have CP: "C \<le> P" "P \<le> C + NR_SLICES" using q(1,2) by (simp_all add: counts_def)
  have free: "j mod NR_SLICES \<noteq> i" if "C \<le> j" "j < P" for j
  proof
    assume "j mod NR_SLICES = i"
    then have "state (slice_at (sender m) i) = SLICE_NEW" using w that by auto
    then show False using e(2) by simp
  qed
  have lt: "P < C + NR_SLICES"
  proof (rule ccontr)
    assume "\<not> P < C + NR_SLICES"
    then have "P = C + NR_SLICES" using CP by simp
    then show False using free [of C] by (simp add: i NR_SLICES_def)
  qed
  have xm: "xmitSlice m \<noteq> Some i" "rexmitSlice m \<noteq> Some i" using a0 e(2) by (auto simp: answers_inv_def)
  have "answers_inv st1 (xmitSlice m) (rexmitSlice m)"
  proof -
    have "answers_inv (sender m) None (rexmitSlice m)" using a0 by (simp add: answers_inv_def)
    from conjunct1 [OF makeSlice_inv [OF this mk]] have a1: "answers_inv st1 (Some i) (rexmitSlice m)" .
    have "\<forall>k \<in> set_option (xmitSlice m). k < NR_SLICES \<and> bits_of (readySet (slice_at st1 k)) = {} \<and> state (slice_at st1 k) \<in> {SLICE_NEW, SLICE_XMITTED}"
    proof
      fix k assume "k \<in> set_option (xmitSlice m)"
      then have k: "xmitSlice m = Some k" by simp
      then show "k < NR_SLICES \<and> bits_of (readySet (slice_at st1 k)) = {} \<and> state (slice_at st1 k) \<in> {SLICE_NEW, SLICE_XMITTED}"
        using a0 xm(1) e(5) [of k] by (auto simp: answers_inv_def)
    qed
    then show ?thesis using a1 a0 by (simp add: answers_inv_def)
  qed
  then have a: "answers_inv st' (xmitSlice m) (rexmitSlice m)"
    by (rule answers_inv_cong) (use k in \<open>simp_all add: st'\<close>)
  note v = queue_view_sel [OF conjunct1 [OF conjunct2 [OF k]]]
  have "honest (m\<lparr>sender := st'\<rparr>) fn' msg" if h: "honest m fn msg" for msg
    unfolding honest_def asked_def
  proof (intro impI conjI allI)
    assume "ntohs (m_opCode msg) = CMD_OK"
    then have b: "asked m fn (ntohl_int (m_sliceNo msg))" using h by (simp add: honest_def)
    then have n: "ntohl_int (m_sliceNo msg) < fn" using fec by (simp add: asked_def next_no_def)
    then show "ntohl_int (m_sliceNo msg) < next_no (m\<lparr>sender := st'\<rparr>) fn'" using fec k e(10) by (simp add: next_no_def st')
    fix j assume f: "fresh (m\<lparr>sender := st'\<rparr>) j"
    show "ntohl_int (m_sliceNo msg) < sliceNo (slice_at (sender (m\<lparr>sender := st'\<rparr>)) j)"
    proof (cases "j = i")
      case True
      then show ?thesis using n e(4) by (simp add: sl)
    next
      case False
      then have "fresh m j" using f e(5) by (simp add: fresh_def sl)
      then show ?thesis using b e(5) [OF False] by (simp add: asked_def sl)
    qed
  qed
  then have mi: "messages_inv st' (honest (m\<lparr>sender := st'\<rparr>) fn')"
    by (intro messages_inv_mono [OF system_inv_sel(2) [OF inv]]) (simp_all add: st' v e(6-8))
  have fq: "fec_data_pc st2 = fec_data_pc (sender m)" by (simp add: v e(9))
  obtain pc' where "pc_produce (fec_data_pc (sender m)) 1 = Some pc'" "counts pc' (P + 1) C" "cap pc' = NR_SLICES"
      "produconsum.atEnd pc' = produconsum.atEnd (fec_data_pc (sender m))"
    using pc_produce_counts [OF q(1), of 1] lt q(2) by auto
  then have pc: "counts pc (P + 1) C" "cap pc = NR_SLICES" "\<not> produconsum.atEnd pc" using pr q(3) fq by simp_all
  have "unat (consumed (free_slices_pc (sender m))) < 2 * NR_SLICES" unfolding q(4) by (simp add: NR_SLICES_def)
  from e(11) [OF this] have fc: "unat (consumed (free_slices_pc st1)) = (P + 1) mod (2 * NR_SLICES)"
    unfolding q(4) by (simp add: mod_Suc_eq)
  have "fec_inv st' (xmitSlice m)"
    unfolding fec_inv_def sl
  proof (intro impI exI conjI allI)
    show "counts (fec_data_pc st') (P + 1) C" "cap (fec_data_pc st') = NR_SLICES" "\<not> produconsum.atEnd (fec_data_pc st')"
      "unat (consumed (free_slices_pc st')) = (P + 1) mod (2 * NR_SLICES)"
      using pc fc k by (simp_all add: st')
    fix j assume j: "C \<le> j" "j < P + 1"
    have "state (slice_at st1 (j mod NR_SLICES)) = SLICE_NEW \<and> xmitSlice m \<noteq> Some (j mod NR_SLICES)"
    proof (cases "j = P")
      case True
      then show ?thesis using e(3) xm(1) by (simp add: i [symmetric])
    next
      case False
      then have "j < P" using j by simp
      then show ?thesis using w j(1) e(5) [OF free [OF j(1)]] by simp
    qed
    then show "state (slice_at st1 (j mod NR_SLICES)) = SLICE_NEW" "xmitSlice m \<noteq> Some (j mod NR_SLICES)" by simp_all
  qed
  then show ?thesis using a mi by (simp add: system_inv_def main_inv_def)
qed

lemma returnChannel_system:
  assumes inv: "system_inv m fn" and h: "honest m fn msg"
  shows "returnChannelMain (sender m) src msg = Blocks
    \<or> (\<exists>st'. returnChannelMain (sender m) src msg = Done st' \<and> system_inv (m\<lparr>sender := st'\<rparr>) fn)"
proof (cases "consumeAny (freeSpace (sender m)) 1 []")
  case None
  then show ?thesis by (simp add: returnChannelMain_def Let_def pc_consumeAny_def)
next
  case (Some fpcn)
  obtain fpc n where fpc1: "consumeAny (freeSpace (sender m)) 1 [] = Some (fpc, n)" using Some by (cases fpcn) simp
  define st where "st = sender m"
  define c where "c = lookupParticipant (participantsDb st) src"
  obtain P C where pc: "counts (incoming st) P C" "counts (freeSpace st) (C + QUEUE_SIZE) P" "cap (incoming st) = QUEUE_SIZE"
      "cap (freeSpace st) = QUEUE_SIZE" "\<not> produconsum.atEnd (incoming st)" "\<not> produconsum.atEnd (freeSpace st)" "length (q st) = QUEUE_SIZE"
    and good: "\<forall>i. C \<le> i \<longrightarrow> i < P \<longrightarrow> fst (q st ! (i mod QUEUE_SIZE)) < MAX_CLIENTS \<and> honest m fn (snd (q st ! (i mod QUEUE_SIZE)))"
    using system_inv_sel(2) [OF inv] unfolding messages_inv_def st_def by blast
  define pos where "pos = P mod QUEUE_SIZE"
  have pos: "unat (pc_getConsumerPosition (freeSpace st)) = pos" unfolding position_counts(1) [OF pc(2)] pc(4) pos_def ..
  have posl: "pos < length (q st)" using pc(7) by (simp add: pos_def QUEUE_SIZE_def)
  have fpc: "consumeAny (freeSpace st) 1 [] = Some (fpc, n)" using fpc1 by (simp add: st_def)
  have rest: "returnChannelMain (sender m) src msg =
     (if c < 0 then Done (st\<lparr>freeSpace := fpc, q := (q st)[pos := (fst (q st ! pos), msg)]\<rparr>)
      else and_then (or_abort (pc_produce (incoming st) 1)) (\<lambda>pc. Done (st\<lparr>q := (q st)[pos := (nat c, msg)],
        freeSpace := pc_consumed fpc 1, incoming := pc\<rparr>)))"
    unfolding st_def [symmetric]
    by (simp add: returnChannelMain_def Let_def pc_consumeAny_def pos fpc c_def [symmetric])
  note k = consumeAny_keeps [OF fpc]
  have "1 \<le> getProducedAmount (freeSpace st)" using fpc pc(6) by (auto simp: consumeAny_now split: if_splits)
  then have lt: "P < C + QUEUE_SIZE" using getProducedAmount_counts [OF pc(2)] by (simp add: word_le_nat_alt)
  have CP: "C \<le> P" using pc(1) by (simp add: counts_def)
  have ne: "i mod QUEUE_SIZE \<noteq> pos" if "C \<le> i" "i < P" for i
  proof
    assume "i mod QUEUE_SIZE = pos"
    then have "QUEUE_SIZE dvd P - i" using that mod_eq_dvd_iff_nat [of i P QUEUE_SIZE] by (simp add: pos_def)
    moreover have "0 < P - i" "P - i < QUEUE_SIZE" using that lt by linarith+
    ultimately show False by (simp add: nat_dvd_not_less)
  qed
  show ?thesis
  proof (cases "c < 0")
    case True
    define st' where st': "st' = st\<lparr>freeSpace := fpc, q := (q st)[pos := (fst (q st ! pos), msg)]\<rparr>"
    have r: "returnChannelMain (sender m) src msg = Done st'" using rest True by (simp add: st')
    have same: "(q st)[pos := x] ! (i mod QUEUE_SIZE) = q st ! (i mod QUEUE_SIZE)" if "C \<le> i" "i < P" for x i
      using ne [OF that] by simp
    have "messages_inv st' (honest m fn)"
      unfolding messages_inv_def
      by (rule exI [of _ P], rule exI [of _ C]) (use pc k good in \<open>simp add: st' same\<close>)
    then have "system_inv (m\<lparr>sender := st'\<rparr>) fn"
      by (intro system_inv_queues [OF inv, where i = "incoming st" and f = fpc and x = "(q st)[pos := (fst (q st ! pos), msg)]"])
        (simp_all add: st' st_def)
    then show ?thesis using r by blast
  next
    case False
    obtain ipc where ipc: "pc_produce (incoming st) 1 = Some ipc" "counts ipc (P + 1) C" "cap ipc = QUEUE_SIZE"
        "produconsum.atEnd ipc = produconsum.atEnd (incoming st)"
      using pc_produce_counts [OF pc(1), of 1] lt pc(3) by auto
    define st' where st': "st' = st\<lparr>freeSpace := pc_consumed fpc 1, q := (q st)[pos := (nat c, msg)], incoming := ipc\<rparr>"
    have r: "returnChannelMain (sender m) src msg = Done st'" using rest False ipc(1) by (simp add: st')
    have "nat c < MAX_CLIENTS" using False lookup_cases [of "participantsDb st" src] by (auto simp: c_def valid_def)
    then have g: "fst (((q st)[pos := (nat c, msg)]) ! (i mod QUEUE_SIZE)) < MAX_CLIENTS
        \<and> honest m fn (snd (((q st)[pos := (nat c, msg)]) ! (i mod QUEUE_SIZE)))" if "C \<le> i" "i < P + 1" for i
    proof (cases "i = P")
      case True
      then show ?thesis using h posl \<open>nat c < MAX_CLIENTS\<close> by (simp add: pos_def [symmetric])
    next
      case False
      then have "i < P" using that(2) by simp
      then show ?thesis using ne [OF that(1) \<open>i < P\<close>] good that(1) by simp
    qed
    have f: "counts (pc_consumed fpc 1) (C + QUEUE_SIZE) (P + 1)" "cap (pc_consumed fpc 1) = QUEUE_SIZE" "\<not> produconsum.atEnd (pc_consumed fpc 1)"
      using pc_consumed_counts [of fpc "C + QUEUE_SIZE" P 1] k(1-3) pc(2,4,6) lt by simp_all
    have "messages_inv st' (honest m fn)"
      unfolding messages_inv_def
      by (rule exI [of _ "P + 1"], rule exI [of _ C]) (use pc(5,7) ipc f g in \<open>simp add: st'\<close>)
    then have "system_inv (m\<lparr>sender := st'\<rparr>) fn"
      by (intro system_inv_queues [OF inv, where i = ipc and f = "pc_consumed fpc 1" and x = "(q st)[pos := (nat c, msg)]"])
        (simp_all add: st' st_def)
    then show ?thesis using r by blast
  qed
qed

lemma full_queue:
  assumes "0 < unat sz" and "2 * unat sz < 2 ^ 31"
  shows "\<exists>pc. pc_produce (pc_makeProduconsum sz) sz = Some pc \<and> counts pc (unat sz) 0 \<and> cap pc = unat sz
    \<and> \<not> produconsum.atEnd pc \<and> pc_size pc = sz"
proof -
  have c: "cap (pc_makeProduconsum sz) = unat sz" "\<not> produconsum.atEnd (pc_makeProduconsum sz)" "pc_size (pc_makeProduconsum sz) = sz"
    by (simp_all add: cap_def pc_makeProduconsum_def)
  obtain pc where pc: "pc_produce (pc_makeProduconsum sz) sz = Some pc" "counts pc (0 + unat sz) 0" "cap pc = unat sz"
      "produconsum.atEnd pc = produconsum.atEnd (pc_makeProduconsum sz)"
    using pc_produce_counts [OF counts_make [OF assms], of sz] c by auto
  then show ?thesis using c pc_produce_size [OF pc(1)] by simp
qed

lemma init_flags: "flags (init_sliceSize c) = flags c"
  by (simp add: init_sliceSize_def Let_def)

lemma start_system:
  assumes s: "spawnNetSender xmalloc m0 f c db ss = Done st" and m: "main_start st = Done m" and db: "db_inv db"
  shows "system_inv m 0"
proof -
  obtain pc0 where q0: "pc_produce (pc_makeProduconsum (of_nat QUEUE_SIZE)) (of_nat QUEUE_SIZE) = Some pc0" "counts pc0 QUEUE_SIZE 0"
      "cap pc0 = QUEUE_SIZE" "\<not> produconsum.atEnd pc0"
    using full_queue [of "of_nat QUEUE_SIZE"] by (auto simp: QUEUE_SIZE_def)
  obtain pc1 where q1: "pc_produce (pc_makeProduconsum (of_nat NR_SLICES)) (of_nat NR_SLICES) = Some pc1" "counts pc1 NR_SLICES 0"
      "cap pc1 = NR_SLICES" "pc_size pc1 = of_nat NR_SLICES"
    using full_queue [of "of_nat NR_SLICES"] by (auto simp: NR_SLICES_def)
  have slots: "[0..<NR_SLICES] = [0, 1]" "replicate NR_SLICES zero_slice = [zero_slice, zero_slice]"
    by (simp_all add: NR_SLICES_def upt_rec numeral_2_eq_2)
  have free: "zero_slice\<lparr>state := SLICE_FREE\<rparr> = zero_slice" by (simp add: zero_slice_def)
  have st: "slices st = [zero_slice, zero_slice]" "participantsDb st = db" "incoming st = pc_makeProduconsum (of_nat QUEUE_SIZE)"
      "freeSpace st = pc0" "length (q st) = QUEUE_SIZE" "free_slices_pc st = pc1"
      "has_flag c FLAG_FEC \<longrightarrow> fec_data_pc st = pc_makeProduconsum (of_nat NR_SLICES)" "config st = c"
    using s by (auto simp: spawnNetSender_def initReturnChannel_def q0(1) q1(1) Let_def slots upd_slice_def free)
  have sender: "sender m = st\<lparr>config := init_sliceSize c\<rparr>" and sel: "xmitSlice m = None" "rexmitSlice m = None"
    using m by (auto simp: main_start_def Let_def and_then_Done st)
  have at: "slice_at (sender m) k = zero_slice" if "k < NR_SLICES" for k
    using that by (auto simp: slice_at_def sender st less_NR_SLICES)
  have "state zero_slice = SLICE_FREE" by (simp add: zero_slice_def)
  then have "answers_inv (sender m) None None"
    unfolding answers_inv_def using zero_slice_inv db at by (simp add: sender st q1(4) NR_SLICES_def)
  moreover have "messages_inv (sender m) (honest m 0)"
    unfolding messages_inv_def
    by (intro exI [of _ 0]) (use q0 counts_make [of "of_nat QUEUE_SIZE"] in \<open>simp add: sender st QUEUE_SIZE_def cap_def pc_makeProduconsum_def\<close>)
  moreover have "fec_inv (sender m) None"
    unfolding fec_inv_def
  proof (intro impI exI [of _ 0] conjI allI)
    assume "has_flag (config (sender m)) FLAG_FEC"
    then have "has_flag c FLAG_FEC" by (simp add: sender has_flag_def init_flags)
    then have fq: "fec_data_pc (sender m) = pc_makeProduconsum (of_nat NR_SLICES)" using st by (simp add: sender)
    show "counts (fec_data_pc (sender m)) 0 0" unfolding fq by (rule counts_make) (simp_all add: NR_SLICES_def)
    show "cap (fec_data_pc (sender m)) = NR_SLICES" "\<not> produconsum.atEnd (fec_data_pc (sender m))"
      unfolding fq by (simp_all add: cap_def pc_makeProduconsum_def NR_SLICES_def)
    show "unat (consumed (free_slices_pc (sender m))) = 0 mod (2 * NR_SLICES)" using q1(2) by (simp add: sender st counts_def)
  qed simp_all
  ultimately show ?thesis by (simp add: system_inv_def main_inv_def sel)
qed

subsection \<open>What the sender can reach\<close>

lemma system_inv_disk:
  assumes inv: "system_inv m fn" and m': "m' = m\<lparr>sender := (sender m)\<lparr>fifo := f\<rparr>\<rparr>"
  shows "system_inv m' fn"
proof (rule system_inv_tracks [OF inv])
  show "answers_inv (sender m') (xmitSlice m') (rexmitSlice m')"
    by (rule answers_inv_cong [of "sender m"]) (use system_inv_sel(1) [OF inv] in \<open>simp_all add: m'\<close>)
qed (simp_all add: m' tracks_same queue_view_def)

inductive sender_reaches :: "net_config \<Rightarrow> main_state \<Rightarrow> int \<Rightarrow> bool" for c where
  \<comment> \<open>\<open>sender_reaches c m fn\<close>: the threads of the sender with configuration \<open>c\<close> can be in state \<open>m\<close>
    between two rounds of the main loop, the FEC thread about to make slice \<open>fn\<close>\<close>
  start: "spawnNetSender xmalloc m0 f c db ss = Done st \<Longrightarrow> main_start st = Done m \<Longrightarrow> db_inv db \<Longrightarrow> sender_reaches c m 0"
| network: "sender_reaches c m fn \<Longrightarrow> quiet (produced (incoming (sender m))) wakes
    \<Longrightarrow> main_round msgs wakes m = Done (Continue m') \<Longrightarrow> sender_reaches c m' fn"
    \<comment> \<open>a round of \<^verbatim>\<open>netSenderMain\<close> with no message arriving in its wait\<close>
| woken: "sender_reaches c m fn \<Longrightarrow> quiet p wakes \<Longrightarrow> main_round msgs wakes m = Done (Continue m')
    \<Longrightarrow> honest (restore_incoming m m') fn msg
    \<Longrightarrow> returnChannelMain (sender (restore_incoming m m')) src msg = Done st \<Longrightarrow> produced (incoming st) = p
    \<Longrightarrow> sender_reaches c (m'\<lparr>sender := st\<rparr>) fn"
    \<comment> \<open>a round whose wait ends with the message\<close>
| answer: "sender_reaches c m fn \<Longrightarrow> honest m fn msg \<Longrightarrow> returnChannelMain (sender m) src msg = Done st
    \<Longrightarrow> sender_reaches c (m\<lparr>sender := st\<rparr>) fn"
| fec: "sender_reaches c m fn \<Longrightarrow> has_flag (config (sender m)) FLAG_FEC \<Longrightarrow> sfecMain T (sender m) fn = Done (st, fn')
    \<Longrightarrow> sender_reaches c (m\<lparr>sender := st\<rparr>) fn'"
| disk: "sender_reaches c m fn \<Longrightarrow> sender_reaches c (m\<lparr>sender := (sender m)\<lparr>fifo := f\<rparr>\<rparr>) fn"
    \<comment> \<open>the reader fills the buffer\<close>

lemma reachable_inv:
  assumes "sender_reaches c m fn"
  shows "system_inv m fn"
  using assms
proof induction
  case (start xmalloc m0 f db ss st m)
  then show ?case by (rule start_system)
next
  case (network m fn wakes msgs m')
  from main_body_system [OF network.IH main_round_body [OF network.hyps(3)] network.hyps(2)]
  have "system_inv (restore_incoming m m') fn" "produced (incoming (sender m')) = produced (incoming (sender m))" by simp_all
  then show ?case by (simp add: restore_same)
next
  case (woken m fn p wakes msgs m' msg src st)
  have "system_inv (restore_incoming m m') fn"
    by (rule conjunct1 [OF main_body_system [OF woken.IH main_round_body [OF woken.hyps(3)] woken.hyps(2)]])
  from returnChannel_system [OF this woken.hyps(4), of src] have "system_inv ((restore_incoming m m')\<lparr>sender := st\<rparr>) fn"
    using woken.hyps(5) by auto
  then show ?case by (simp add: restore_incoming_def)
next
  case (answer m fn msg src st)
  then show ?case using returnChannel_system [OF answer.IH answer.hyps(2), of src] by auto
next
  case (fec m fn T st fn')
  show ?case by (rule sfecMain_system [OF fec.IH fec.hyps(2,3)])
next
  case (disk m fn f)
  show ?case by (rule system_inv_disk [OF disk.IH refl])
qed

subsection \<open>What holds of every reachable state\<close>


lemma sample_sender_reached:
  "\<exists>m pc. sender_reaches sample_config m 0 \<and> pc_consumeAny (freeSpace (sender m)) [] = Some (pc, 256)"
proof -
  define m0 :: message where "m0 = \<lparr>m_opCode = 0, m_sliceNo = 0, m_rxmit = 0, m_map = []\<rparr>"
  define f where "f = fifo (sample_sender zero_slice)"
  have q: "pc_produce (pc_makeProduconsum 256) 256 = Some ((pc_makeProduconsum 256)\<lparr>produced := 256\<rparr>)"
    "pc_produce (pc_makeProduconsum 2) 2 = Some ((pc_makeProduconsum 2)\<lparr>produced := 2\<rparr>)"
    by (simp_all add: pc_produce_def pc_makeProduconsum_def wakeConsumer_def Let_def)
  obtain st where st: "spawnNetSender (\<lambda>n. replicate n 0) m0 f sample_config sample_db (stats (sample_sender zero_slice)) = Done st"
    "freeSpace st = (pc_makeProduconsum 256)\<lparr>produced := 256\<rparr>" "config st = sample_config"
    by (simp add: spawnNetSender_def initReturnChannel_def Let_def q QUEUE_SIZE_def NR_SLICES_def
      upd_slice_def upt_rec numeral_2_eq_2 sample_config_def has_flag_def)
  moreover obtain m where "main_start st = Done m" "sender m = st\<lparr>config := init_sliceSize sample_config\<rparr>"
    by (simp add: main_start_def Let_def st(3) init_sliceSize_def sample_config_def has_flag_def MAX_SLICE_SIZE_def)
  ultimately show ?thesis
    using sender_reaches.start [OF st(1) _ sample_db(1)]
    by (force simp: pc_consumeAny_def consumeAny_now pc_makeProduconsum_def getProducedAmount_def)
qed


end
