(* ===== verification/ReceiveData.thy ===== *)
theory ReceiveData
  imports Fifo Fec Protocol "HOL-Library.Signed_Division"
begin

text \<open>
  The network and FEC threads of the receiver, \<^verbatim>\<open>src/receivedata.c\<close>.

  A slice is an index into the array of slices.  An address is an offset into the data buffer
  of the fifo (\<open>Ring\<close>) or into the block of memory \<^verbatim>\<open>blockData\<close> that holds FEC blocks
  (\<open>Pool\<close>), so that the copies of the code, and what they overwrite, are the copies of the
  model.  Numbers read from a packet are used as they come; where they index an array
  unchecked, an access outside it is \<open>Undefined\<close>.

  The network thread and the FEC thread share the slices.  A loop that can only end when the
  other thread changes the state of a slice is \<open>Blocks\<close> after one turn round the slices.
\<close>

subsection \<open>State\<close>

definition RNR_SLICES :: nat where "RNR_SLICES = 4"
definition MAX_FEC_INTERLEAVE :: nat where "MAX_FEC_INTERLEAVE = 256"
definition NR_BLOCKS :: nat where "NR_BLOCKS = 4096"
definition NR_CLIENT_SOCKS :: nat where "NR_CLIENT_SOCKS = 4"
definition FLAG_RSTREAMING :: u32 where "FLAG_RSTREAMING = 0x200"
definition FLAG_IGNORE_LOST_DATA :: u32 where "FLAG_IGNORE_LOST_DATA = 0x400"

datatype rslice_state = RSLICE_FREE | SLICE_RECEIVING | SLICE_DONE | SLICE_FEC | SLICE_FEC_DONE

record fec_desc =
  adr :: "nat option" \<comment> \<open>offset in \<^verbatim>\<open>blockData\<close>\<close>
  fecBlockNo :: nat
  erasedBlockNo :: nat

record rslice =
  magic :: bool \<comment> \<open>is it \<^verbatim>\<open>SLICEMAGIC\<close>?\<close>
  rstate :: rslice_state
  rbase :: nat
  rsliceNo :: int
  blocksTransferred :: int
  dataBlocksTransferred :: int
  rbytes :: int
  bytesKnown :: bool
  freePos :: nat
  retransmit :: message
  missing_data_blocks :: "int list"
  rfec_stripes :: nat
  rfec_blocks :: "int list"
  fec_descs :: "fec_desc list"

datatype address = Ring nat | Pool nat

record receiver_stats =
  rtotalBytes :: int
  timerStarted :: bool

record client_state =
  rfifo :: fifo
  rconfig :: net_config
  exitWait :: nat
  serverAddr :: sockaddr_in
  clientNumber :: nat
  isStarted :: bool
  sender_is_newgen :: bool
  console :: bool \<comment> \<open>is there a console?\<close>
  socks :: "int list"
  Msg :: serverDataMsg
  iov_base :: address \<comment> \<open>\<^verbatim>\<open>data_iov[1].iov_base\<close>\<close>
  currentSlice :: "nat option"
  currentSliceNo :: int
  rstats :: receiver_stats
  rfree_slices_pc :: produconsum
  rslices :: "rslice list"
  receivedPtr :: nat
  receivedSliceNo :: int
  use_fec :: bool
  rfec_data_pc :: produconsum
  fec_slices :: "nat list"
  freeBlocks_pc :: produconsum
  blockAddresses :: "nat list"
  localBlockAddresses :: "nat list"
  localPos :: nat
  blockData :: "byte list"
  rnextBlock :: nat
  endReached :: nat
  netEndReached :: nat
  selectedFd :: int
  promptPrinted :: bool
  outbox :: "message list" \<comment> \<open>what was sent to the sender\<close>

definition zero_desc :: fec_desc where
  "zero_desc = \<lparr>adr = None, fecBlockNo = 0, erasedBlockNo = 0\<rparr>"

definition zero_message :: message where
  "zero_message = \<lparr>m_opCode = 0, m_sliceNo = 0, m_rxmit = 0, m_map = replicate (MAX_SLICE_SIZE div 8) 0\<rparr>"

definition rslice_at :: "client_state \<Rightarrow> nat \<Rightarrow> rslice" where
  "rslice_at cs k = rslices cs ! k"

definition upd_rslice :: "nat \<Rightarrow> (rslice \<Rightarrow> rslice) \<Rightarrow> client_state \<Rightarrow> client_state" where
  "upd_rslice k f cs = cs\<lparr>rslices := (rslices cs)[k := f (rslices cs ! k)]\<rparr>"

definition ADR :: "client_state \<Rightarrow> rslice \<Rightarrow> nat \<Rightarrow> nat" where
  "ADR cs sl x = (rbase sl + x * blockSize (rconfig cs)) mod unat (dataBufSize (rfifo cs))"

definition mem_at :: "client_state \<Rightarrow> address \<Rightarrow> byte list" where
  \<comment> \<open>the memory from an address on\<close>
  "mem_at cs a = (case a of Ring p \<Rightarrow> drop p (dataBuffer (rfifo cs)) | Pool p \<Rightarrow> drop p (blockData cs))"

definition mem_write :: "address \<Rightarrow> byte list \<Rightarrow> client_state \<Rightarrow> client_state" where
  "mem_write a bs cs =
     (case a of
        Ring p \<Rightarrow> cs\<lparr>rfifo := (rfifo cs)\<lparr>dataBuffer := write_at p bs (dataBuffer (rfifo cs))\<rparr>\<rparr>
      | Pool p \<Rightarrow> cs\<lparr>blockData := write_at p bs (blockData cs)\<rparr>)"

definition rmap :: "rslice \<Rightarrow> byte list" where
  "rmap sl = m_map (retransmit sl)"

definition slice_blocks :: "net_config \<Rightarrow> int \<Rightarrow> int" where
  \<comment> \<open>\<^verbatim>\<open>(bytes + blockSize - 1) / blockSize\<close>, a division that rounds towards 0\<close>
  "slice_blocks c bytes = (bytes + int (blockSize c) - 1) sdiv int (blockSize c)"

definition receiverStatsAddBytes :: "receiver_stats \<Rightarrow> int \<Rightarrow> receiver_stats" where
  "receiverStatsAddBytes rs n = rs\<lparr>rtotalBytes := rtotalBytes rs + n\<rparr>"

definition receiverStatsStartTimer :: "receiver_stats \<Rightarrow> receiver_stats" where
  "receiverStatsStartTimer rs = (if \<not> timerStarted rs then rs\<lparr>timerStarted := True\<rparr> else rs)"

definition printMissedBlockMap :: "client_state \<Rightarrow> rslice \<Rightarrow> nat list \<times> nat list" where
  \<comment> \<open>the numbers of the missed blocks and of the FEC blocks it prints\<close>
  "printMissedBlockMap cs sl =
     (filter (\<lambda>i. \<not> BIT_ISSET i (rmap sl)) [0..<nat (slice_blocks (rconfig cs) (rbytes sl))],
      if rfec_stripes sl \<noteq> 0 then
        map (\<lambda>i. fecBlockNo (fec_descs sl ! i))
          (filter (\<lambda>i. int (i div rfec_stripes sl) < rfec_blocks sl ! (i mod rfec_stripes sl)) [0..<MAX_SLICE_SIZE])
      else [])"

subsection \<open>Messages to the sender\<close>

definition sendOk :: "int \<Rightarrow> client_state \<Rightarrow> client_state" where
  "sendOk no cs = cs\<lparr>outbox := outbox cs @ [\<lparr>m_opCode = htons CMD_OK, m_sliceNo = htonl_int no, m_rxmit = 0, m_map = []\<rparr>]\<rparr>"

definition sendRetransmit :: "client_state \<Rightarrow> nat \<Rightarrow> int \<Rightarrow> client_state outcome" where
  "sendRetransmit cs k rxmit =
     and_then (check (magic (rslice_at cs k))) (\<lambda>_.
       let cs = upd_rslice k (\<lambda>sl. sl\<lparr>retransmit := (retransmit sl)\<lparr>m_opCode := htons CMD_RETRANSMIT,
                  m_sliceNo := htonl_int (rsliceNo sl), m_rxmit := htonl_int rxmit\<rparr>\<rparr>) cs
       in Done (cs\<lparr>outbox := outbox cs @ [retransmit (rslice_at cs k)]\<rparr>))"

subsection \<open>Blocks for FEC data\<close>

definition getBlockSpace :: "client_state \<Rightarrow> (client_state \<times> nat) outcome" where
  "getBlockSpace cs =
     (if localPos cs \<noteq> 0 then
        let cs = cs\<lparr>localPos := localPos cs - 1\<rparr> in Done (cs, localBlockAddresses cs ! localPos cs)
      else
        and_then (or_block (pc_consume (freeBlocks_pc cs) 1 [])) (\<lambda>(pc, _).
          Done (cs\<lparr>freeBlocks_pc := pc_consumed pc 1\<rparr>, blockAddresses cs ! unat (pc_getConsumerPosition pc))))"

definition freeBlockSpace :: "client_state \<Rightarrow> nat option \<Rightarrow> client_state outcome" where
  "freeBlockSpace cs block =
     (let pos = unat (pc_getProducerPosition (freeBlocks_pc cs))
      in case block of
           None \<Rightarrow> Aborts
         | Some b \<Rightarrow>
             let cs = cs\<lparr>blockAddresses := (blockAddresses cs)[pos := b]\<rparr>
             in and_then (or_abort (pc_produce (freeBlocks_pc cs) 1)) (\<lambda>pc. Done (cs\<lparr>freeBlocks_pc := pc\<rparr>)))"

definition setNextBlock :: "client_state \<Rightarrow> client_state outcome" where
  "setNextBlock cs = and_then (getBlockSpace cs) (\<lambda>(cs, b). Done (cs\<lparr>rnextBlock := b\<rparr>))"

subsection \<open>Slices\<close>

definition reset_slice :: "rslice \<Rightarrow> rslice" where
  \<comment> \<open>the fields set at the start of \<^verbatim>\<open>initSlice\<close>\<close>
  "reset_slice sl = sl\<lparr>magic := True, rstate := SLICE_RECEIVING, blocksTransferred := 0, dataBlocksTransferred := 0,
     retransmit := zero_message, freePos := 0, rbytes := 0\<rparr>"

definition clear_slice :: "int \<Rightarrow> rslice \<Rightarrow> rslice" where
  \<comment> \<open>and at its end\<close>
  "clear_slice no sl = sl\<lparr>bytesKnown := False, rsliceNo := no, missing_data_blocks := replicate MAX_FEC_INTERLEAVE 0,
     rfec_stripes := 0, rfec_blocks := replicate MAX_FEC_INTERLEAVE 0, fec_descs := replicate MAX_SLICE_SIZE zero_desc\<rparr>"

definition initSlice :: "client_state \<Rightarrow> nat \<Rightarrow> int \<Rightarrow> client_state outcome" where
  "initSlice cs k no =
     and_then (check (rstate (rslice_at cs k) = RSLICE_FREE \<or> rstate (rslice_at cs k) = SLICE_RECEIVING)) (\<lambda>_.
       let cs = upd_rslice k reset_slice cs
       in and_then
            (case currentSlice cs of
               None \<Rightarrow> Done cs
             | Some c \<Rightarrow>
                 if \<not> bytesKnown (rslice_at cs c) then Aborts
                 else if has_flag (rconfig cs) FLAG_IGNORE_LOST_DATA
                      then Done (upd_rslice k (rbytes_update (\<lambda>_. rbytes (rslice_at cs c))) cs)
                 else Done cs) (\<lambda>cs.
              if \<not> has_flag (rconfig cs) FLAG_RSTREAMING \<and> currentSliceNo cs \<noteq> no - 1 then Aborts
              else Done ((upd_rslice k (clear_slice no) cs)\<lparr>currentSlice := Some k, currentSliceNo := no\<rparr>)))"

definition newSlice :: "client_state \<Rightarrow> int \<Rightarrow> (client_state \<times> nat) outcome" where
  "newSlice cs no =
     and_then (or_block (pc_consume (rfree_slices_pc cs) 1 [])) (\<lambda>(pc, _).
       let i = unat (pc_getConsumerPosition pc); cs = cs\<lparr>rfree_slices_pc := pc_consumed pc 1\<rparr>
       in and_then (check (rstate (rslice_at cs i) = RSLICE_FREE)) (\<lambda>_.
         let cs = upd_rslice i (rbase_update (\<lambda>_. unat (pc_getConsumerPosition (freeMemQueue (rfifo cs))))) cs
         in and_then (or_block (pc_consume (freeMemQueue (rfifo cs)) (of_nat (blockSize (rconfig cs) * MAX_SLICE_SIZE)) [])) (\<lambda>(fq, _).
              and_then (initSlice (cs\<lparr>rfifo := (rfifo cs)\<lparr>freeMemQueue := fq\<rparr>\<rparr>) i no) (\<lambda>cs. Done (cs, i)))))"

definition setSliceBytes :: "nat \<Rightarrow> client_state \<Rightarrow> int \<Rightarrow> client_state outcome" where
  "setSliceBytes k cs bytes =
     and_then (check (magic (rslice_at cs k))) (\<lambda>_.
       if bytesKnown (rslice_at cs k) then
         (if rbytes (rslice_at cs k) \<noteq> bytes then Aborts else Done cs)
       else
         let cs = upd_rslice k (\<lambda>sl. sl\<lparr>bytesKnown := True, rbytes := bytes\<rparr>) cs;
             cs = (if bytes = 0 then cs\<lparr>netEndReached := 1\<rparr> else cs)
         in Done (if \<not> has_flag (rconfig cs) FLAG_RSTREAMING
                  then cs\<lparr>rfifo := (rfifo cs)\<lparr>freeMemQueue := pc_consumed (freeMemQueue (rfifo cs)) (word_of_int bytes)\<rparr>\<rparr>
                  else cs))"

fun advance_loop :: "nat \<Rightarrow> nat \<Rightarrow> client_state \<Rightarrow> client_state outcome" where
  "advance_loop 0 pos cs = Blocks"
| "advance_loop (Suc n) pos cs =
     (let sl = rslice_at cs pos
      in if rstate sl \<noteq> SLICE_FEC \<and> rstate sl \<noteq> SLICE_FEC_DONE \<and> rstate sl \<noteq> SLICE_DONE
         then Done (cs\<lparr>receivedPtr := pos\<rparr>)
         else advance_loop n (if pos + 1 \<ge> RNR_SLICES then pos + 1 - RNR_SLICES else pos + 1)
                (cs\<lparr>receivedSliceNo := rsliceNo sl\<rparr>))"

definition advanceReceivedPointer :: "client_state \<Rightarrow> client_state outcome" where
  "advanceReceivedPointer cs = advance_loop (RNR_SLICES + 1) (receivedPtr cs) cs"

fun cleanup_loop :: "nat \<Rightarrow> rslice_state \<Rightarrow> client_state \<Rightarrow> client_state outcome" where
  "cleanup_loop 0 doneState cs = Blocks"
| "cleanup_loop (Suc n) doneState cs =
     (let pos = unat (pc_getProducerPosition (rfree_slices_pc cs)); sl = rslice_at cs pos
      in if rstate sl \<noteq> doneState then Done cs
         else
           let cs = cs\<lparr>rstats := receiverStatsAddBytes (rstats cs) (rbytes sl)\<rparr>
           in and_then
                (if rbytes sl = 0 then Done (pc_produceEnd (data (rfifo cs)))
                 else or_abort (pc_produce (data (rfifo cs)) (word_of_int (rbytes sl)))) (\<lambda>d.
              let cs = upd_rslice pos (rstate_update (\<lambda>_. RSLICE_FREE)) (cs\<lparr>rfifo := (rfifo cs)\<lparr>data := d\<rparr>\<rparr>)
              in and_then (or_abort (pc_produce (rfree_slices_pc cs) 1)) (\<lambda>pc.
                   let cs = cs\<lparr>rfree_slices_pc := pc\<rparr>;
                       cs = (if rbytes sl = 0 then cs\<lparr>endReached := 2\<rparr> else cs)
                   in cleanup_loop n doneState cs)))"

definition cleanupSlices :: "client_state \<Rightarrow> rslice_state \<Rightarrow> client_state outcome" where
  "cleanupSlices cs doneState = cleanup_loop (RNR_SLICES + 1) doneState cs"

definition end_streaming :: "rslice \<Rightarrow> client_state \<Rightarrow> client_state" where
  \<comment> \<open>the first complete slice takes its memory\<close>
  "end_streaming sl cs =
     (if has_flag (rconfig cs) FLAG_RSTREAMING then
        cs\<lparr>rfifo := (rfifo cs)\<lparr>freeMemQueue := pc_consumed (freeMemQueue (rfifo cs)) (word_of_int (rbytes sl))\<rparr>,
           rconfig := (rconfig cs)\<lparr>flags := flags (rconfig cs) AND NOT FLAG_RSTREAMING\<rparr>\<rparr>
      else cs)"

definition checkSliceComplete :: "client_state \<Rightarrow> nat \<Rightarrow> client_state outcome" where
  "checkSliceComplete cs k =
     and_then (check (magic (rslice_at cs k))) (\<lambda>_.
       if rstate (rslice_at cs k) \<noteq> SLICE_RECEIVING then Done cs
       else
         and_then (check (blockSize (rconfig cs) \<noteq> 0)) (\<lambda>_.
           let blocksInSlice = slice_blocks (rconfig cs) (rbytes (rslice_at cs k))
           in if blocksInSlice = blocksTransferred (rslice_at cs k) then
                let cs = end_streaming (rslice_at cs k) cs
                in and_then
                     (if blocksInSlice = dataBlocksTransferred (rslice_at cs k)
                      then Done (upd_rslice k (rstate_update (\<lambda>_. SLICE_DONE)) cs)
                      else and_then (check (use_fec cs)) (\<lambda>_. Done (upd_rslice k (rstate_update (\<lambda>_. SLICE_FEC)) cs))) (\<lambda>cs.
                   and_then (advanceReceivedPointer cs) (\<lambda>cs.
                     if use_fec cs then
                       let n = unat (pc_getProducerPosition (rfec_data_pc cs))
                       in and_then (check (rstate (rslice_at cs k) = SLICE_DONE \<or> rstate (rslice_at cs k) = SLICE_FEC)) (\<lambda>_.
                            let cs = cs\<lparr>fec_slices := (fec_slices cs)[n := k]\<rparr>
                            in and_then (or_abort (pc_produce (rfec_data_pc cs) 1)) (\<lambda>pc. Done (cs\<lparr>rfec_data_pc := pc\<rparr>)))
                     else cleanupSlices cs SLICE_DONE))
              else Done cs))"

fun search_slice :: "nat \<Rightarrow> client_state \<Rightarrow> nat \<Rightarrow> int \<Rightarrow> nat option outcome" where
  \<comment> \<open>the slices from \<open>pos\<close> backwards\<close>
  "search_slice 0 cs pos no = Blocks"
| "search_slice (Suc n) cs pos no =
     (let sl = rslice_at cs pos
      in if rsliceNo sl = no then Done (Some pos)
         else if rstate sl = RSLICE_FREE then Done None
         else and_then (check (magic sl)) (\<lambda>_.
                search_slice n cs (if pos = 0 then RNR_SLICES - 1 else pos - 1) no))"

definition fakeSliceComplete :: "(client_state \<Rightarrow> int \<Rightarrow> (client_state \<times> nat option) outcome) \<Rightarrow> client_state
    \<Rightarrow> client_state outcome" where
  \<comment> \<open>\<open>finder\<close> is \<^verbatim>\<open>findSlice\<close>, which calls this function\<close>
  "fakeSliceComplete finder cs =
     and_then (finder cs (receivedSliceNo cs + 1)) (\<lambda>(cs, slo).
       case slo of
         None \<Rightarrow> Aborts
       | Some k \<Rightarrow>
           and_then (check (rstate (rslice_at cs k) \<noteq> SLICE_DONE)) (\<lambda>_.
           and_then (if \<not> bytesKnown (rslice_at cs k) then setSliceBytes k cs (rbytes (rslice_at cs k)) else Done cs) (\<lambda>cs.
             let n = slice_blocks (rconfig cs) (rbytes (rslice_at cs k))
             in checkSliceComplete (upd_rslice k (\<lambda>sl. sl\<lparr>blocksTransferred := n, dataBlocksTransferred := n\<rparr>) cs) k)))"

fun find_slice :: "nat \<Rightarrow> client_state \<Rightarrow> int \<Rightarrow> (client_state \<times> nat option) outcome"
  and catch_up :: "nat \<Rightarrow> client_state \<Rightarrow> int \<Rightarrow> (client_state \<times> nat option) outcome" where
  \<comment> \<open>\<^verbatim>\<open>findSlice\<close> and its loop over the slices skipped, for as many rounds and nested
     calls as the first argument says\<close>
  "find_slice 0 cs no = Blocks"
| "find_slice (Suc n) cs no =
     (case currentSlice cs of
        None \<Rightarrow> and_then (newSlice (cs\<lparr>currentSliceNo := no - 1\<rparr>) no) (\<lambda>(cs, k). Done (cs, Some k))
      | Some c \<Rightarrow>
          if no \<le> currentSliceNo cs then
            and_then (check (magic (rslice_at cs c))) (\<lambda>_.
              and_then (search_slice RNR_SLICES cs c no) (\<lambda>r. Done (cs, r)))
          else if has_flag (rconfig cs) FLAG_RSTREAMING \<and> no \<noteq> currentSliceNo cs then
            and_then (check (c = 0)) (\<lambda>_. and_then (initSlice cs c no) (\<lambda>cs. Done (cs, Some c)))
          else catch_up n cs no)"
| "catch_up 0 cs no = Blocks"
| "catch_up (Suc n) cs no =
     (if no > receivedSliceNo cs + 2 \<or> no \<noteq> currentSliceNo cs + 1 then
        and_then (find_slice n cs (receivedSliceNo cs + 1)) (\<lambda>(cs, _).
          if has_flag (rconfig cs) FLAG_IGNORE_LOST_DATA
          then and_then (fakeSliceComplete (find_slice n) cs) (\<lambda>cs. catch_up n cs no)
          else Aborts)
      else and_then (newSlice cs no) (\<lambda>(cs, k). Done (cs, Some k)))"

definition rfindSlice :: "client_state \<Rightarrow> int \<Rightarrow> (client_state \<times> nat option) outcome" where
  "rfindSlice cs no = find_slice (nat (no - receivedSliceNo cs) + 4) cs no"


subsection \<open>Repair of a slice\<close>

definition fec_decode_one_stripe :: "gf_tables \<Rightarrow> client_state \<Rightarrow> nat \<Rightarrow> nat \<Rightarrow> int \<Rightarrow> nat \<Rightarrow> nat \<Rightarrow> client_state outcome" where
  "fec_decode_one_stripe T cs k stripe bytes stripes nr_fec_blocks =
     (let sl = rslice_at cs k; bs = blockSize (rconfig cs);
          nrBlocks = nat (slice_blocks (rconfig cs) (rbytes sl));
          leftOver = nat bytes mod bs;
          missing = filter (\<lambda>i. \<not> BIT_ISSET i (rmap sl)) (stripe_blocks stripe stripes nrBlocks);
          own = map (\<lambda>j. stripe + j * stripes) [0..<nr_fec_blocks]
      in and_then (in_bounds (length missing \<le> nr_fec_blocks)) (\<lambda>_.
         and_then (check (length missing = nr_fec_blocks)) (\<lambda>_.
           let descs = fold (\<lambda>j descs. descs[own ! j := (descs ! (own ! j))\<lparr>erasedBlockNo := missing ! j\<rparr>])
                         [0..<nr_fec_blocks] (fec_descs sl);
               cs = upd_rslice k (fec_descs_update (\<lambda>_. descs)) cs;
               erased_blocks = map (\<lambda>i. i div stripes) missing;
               fec_block_nos = map (\<lambda>i. fecBlockNo (descs ! i) div stripes) own;
               fec_adrs = map (\<lambda>i. the (adr (descs ! i))) own;
               cs = (if leftOver \<noteq> 0
                     then mem_write (Ring (ADR cs sl (nrBlocks - 1) + leftOver)) (replicate (bs - leftOver) 0) cs else cs);
               data_adrs = map (ADR cs sl) (stripe_blocks stripe stripes nrBlocks)
           in and_then (in_bounds (length data_adrs \<le> 128)) (\<lambda>_.
                case fec_decode T bs (map (\<lambda>a. take bs (mem_at cs (Ring a))) data_adrs) (length data_adrs)
                       (map (\<lambda>a. take bs (mem_at cs (Pool a))) fec_adrs) fec_block_nos erased_blocks nr_fec_blocks of
                  None \<Rightarrow> Aborts
                | Some (data_blocks, fec_blocks) \<Rightarrow>
                    Done (fold (\<lambda>(a, b). mem_write (Pool a) b) (zip fec_adrs fec_blocks)
                           (fold (\<lambda>(a, b). mem_write (Ring a) b) (zip data_adrs data_blocks) cs))))))"

definition decode_stripes :: "gf_tables \<Rightarrow> nat \<Rightarrow> client_state \<Rightarrow> client_state outcome" where
  "decode_stripes T k cs =
     (let sl = rslice_at cs k
      in each (\<lambda>stripe cs. fec_decode_one_stripe T cs k stripe (rbytes sl) (rfec_stripes sl) (nat (rfec_blocks sl ! stripe)))
           [0..<rfec_stripes sl] cs)"

definition free_stripe :: "nat \<Rightarrow> nat \<Rightarrow> nat \<Rightarrow> client_state \<Rightarrow> client_state outcome" where
  \<comment> \<open>the FEC blocks of one stripe go back to the reservoir\<close>
  "free_stripe k stripes stripe cs =
     and_then (check (missing_data_blocks (rslice_at cs k) ! stripe \<ge> rfec_blocks (rslice_at cs k) ! stripe)) (\<lambda>_.
       each (\<lambda>i cs.
          and_then (freeBlockSpace cs (adr (fec_descs (rslice_at cs k) ! (stripe + i * stripes)))) (\<lambda>cs.
            Done (upd_rslice k (\<lambda>sl. sl\<lparr>fec_descs := (fec_descs sl)[stripe + i * stripes :=
                    (fec_descs sl ! (stripe + i * stripes))\<lparr>adr := None\<rparr>]\<rparr>) cs)))
         [0..<nat (rfec_blocks (rslice_at cs k) ! stripe)] cs)"

definition repair_slice :: "gf_tables \<Rightarrow> nat \<Rightarrow> client_state \<Rightarrow> client_state outcome" where
  \<comment> \<open>what \<^verbatim>\<open>fecMain\<close> does with a slice in state \<^verbatim>\<open>SLICE_FEC\<close>\<close>
  "repair_slice T k cs =
     (let stripes = rfec_stripes (rslice_at cs k)
      in and_then (decode_stripes T k cs) (\<lambda>cs.
           each (free_stripe k stripes) [0..<stripes] (upd_rslice k (rstate_update (\<lambda>_. SLICE_FEC_DONE)) cs)))"

definition rfecMain :: "gf_tables \<Rightarrow> client_state \<Rightarrow> client_state outcome" where
  \<comment> \<open>one round of the FEC thread\<close>
  "rfecMain T cs =
     and_then (check (unat (dataBufSize (rfifo cs)) mod blockSize (rconfig cs) = 0 \<and> blockSize (rconfig cs) \<noteq> 0)) (\<lambda>_.
     and_then (or_block (pc_consume (rfec_data_pc cs) 1 [])) (\<lambda>(pc, _).
       let k = fec_slices cs ! unat (pc_getConsumerPosition pc);
           cs = cs\<lparr>rfec_data_pc := pc_consumed pc 1\<rparr>
       in if rstate (rslice_at cs k) = SLICE_FEC then
            and_then (repair_slice T k cs) (\<lambda>cs. cleanupSlices cs SLICE_FEC_DONE)
          else if rstate (rslice_at cs k) = SLICE_DONE then
            cleanupSlices (upd_rslice k (rstate_update (\<lambda>_. SLICE_FEC_DONE)) cs) SLICE_FEC_DONE
          else Done cs))"

subsection \<open>Packets\<close>

definition count_missing :: "nat \<Rightarrow> nat \<Rightarrow> rslice \<Rightarrow> rslice outcome" where
  \<comment> \<open>the blocks of byte \<open>i\<close> of the map that are missing, counted per stripe\<close>
  "count_missing nb i sl =
     and_then (in_bounds (i < MAX_SLICE_SIZE div 8)) (\<lambda>_.
       if rmap sl ! i \<noteq> 0xff then
         each (\<lambda>j sl.
            if \<not> BIT_ISSET j (rmap sl) then
              and_then (in_bounds (rfec_stripes sl \<noteq> 0)) (\<lambda>_.
                let s = j mod rfec_stripes sl
                in Done (sl\<lparr>missing_data_blocks := (missing_data_blocks sl)[s := missing_data_blocks sl ! s + 1]\<rparr>))
            else Done sl) [i * 8..<min (i * 8 + 8) nb] sl
       else Done sl)"

definition initSliceForFec :: "client_state \<Rightarrow> nat \<Rightarrow> client_state outcome" where
  "initSliceForFec cs k =
     and_then (check (magic (rslice_at cs k))) (\<lambda>_.
     and_then (check (blockSize (rconfig cs) \<noteq> 0)) (\<lambda>_.
       let cs = cs\<lparr>use_fec := True\<rparr>; sl = rslice_at cs k;
           nb = nat (slice_blocks (rconfig cs) (rbytes sl))
       in and_then (in_bounds (rfec_stripes sl \<le> MAX_FEC_INTERLEAVE)) (\<lambda>_.
            let sl = fold (\<lambda>i sl. sl\<lparr>missing_data_blocks := (missing_data_blocks sl)[i := 0],
                                    rfec_blocks := (rfec_blocks sl)[i := 0]\<rparr>) [0..<rfec_stripes sl] sl
            in and_then (each (count_missing nb) [0..<(nb + 7) div 8] sl) (\<lambda>sl.
                 Done (upd_rslice k (\<lambda>_. sl) cs)))))"

definition finish_fec :: "client_state \<Rightarrow> nat \<Rightarrow> client_state outcome" where
  "finish_fec cs k = and_then (checkSliceComplete cs k) advanceReceivedPointer"

definition store_fec_block :: "client_state \<Rightarrow> nat \<Rightarrow> nat \<Rightarrow> nat \<Rightarrow> client_state outcome" where
  \<comment> \<open>the part of \<^verbatim>\<open>processFecBlock\<close> for a block that is useful\<close>
  "store_fec_block cs k stripes blockNo =
     (let sl = rslice_at cs k; stripe = blockNo mod rfec_stripes sl;
          a = nat (rfec_blocks sl ! stripe) * stripes + stripe
      in if \<exists>i \<in> set (stripe_blocks stripe stripes a). fecBlockNo (fec_descs sl ! i) = blockNo then Done cs
         else
           and_then (in_bounds (a < MAX_SLICE_SIZE)) (\<lambda>_.
             let should = Pool (rnextBlock cs);
                 cs = (if should \<noteq> iov_base cs
                       then mem_write should (take (blockSize (rconfig cs)) (mem_at cs (iov_base cs))) cs else cs);
                 cs = upd_rslice k (\<lambda>sl. sl\<lparr>
                        fec_descs := (fec_descs sl)[a := (fec_descs sl ! a)\<lparr>adr := Some (rnextBlock cs), fecBlockNo := blockNo\<rparr>],
                        rfec_blocks := (rfec_blocks sl)[stripe := rfec_blocks sl ! stripe + 1],
                        blocksTransferred := blocksTransferred sl + 1\<rparr>) cs
             in and_then (setNextBlock cs) (\<lambda>cs.
                  finish_fec (upd_rslice k (freePos_update (\<lambda>_. MAX_SLICE_SIZE)) cs) k)))"

definition processFecBlock :: "client_state \<Rightarrow> nat \<Rightarrow> int \<Rightarrow> nat \<Rightarrow> int \<Rightarrow> client_state outcome" where
  "processFecBlock cs stripes no blockNo bytes =
     and_then (rfindSlice cs no) (\<lambda>(cs, slo).
       case slo of
         None \<Rightarrow> Done cs
       | Some k \<Rightarrow>
           and_then (check (magic (rslice_at cs k))) (\<lambda>_.
             if rstate (rslice_at cs k) \<in> {RSLICE_FREE, SLICE_DONE, SLICE_FEC} then Done cs
             else
               and_then (setSliceBytes k cs bytes) (\<lambda>cs.
               and_then (if rfec_stripes (rslice_at cs k) = 0
                         then initSliceForFec (upd_rslice k (rfec_stripes_update (\<lambda>_. stripes)) cs) k else Done cs) (\<lambda>cs.
                 let sl = rslice_at cs k
                 in if rfec_stripes sl \<noteq> stripes then Done cs
                    else
                      and_then (in_bounds (rfec_stripes sl \<noteq> 0)) (\<lambda>_.
                      and_then (in_bounds (blockNo mod rfec_stripes sl < MAX_FEC_INTERLEAVE)) (\<lambda>_.
                        let stripe = blockNo mod rfec_stripes sl
                        in if missing_data_blocks sl ! stripe \<le> rfec_blocks sl ! stripe then
                             and_then (finish_fec cs k) (\<lambda>cs.
                               if \<not> use_fec cs then cleanupSlices cs SLICE_DONE else Done cs)
                           else store_fec_block cs k stripes blockNo))))))"

function advance_free :: "byte list \<Rightarrow> nat \<Rightarrow> nat" where
  "advance_free m p = (if p < MAX_SLICE_SIZE \<and> BIT_ISSET p m then advance_free m (p + 1) else p)"
  by pat_completeness auto
termination by (relation "measure (\<lambda>(m, p). MAX_SLICE_SIZE - p)") auto

declare advance_free.simps [simp del]

definition drop_fec_block :: "client_state \<Rightarrow> nat \<Rightarrow> nat \<Rightarrow> client_state outcome" where
  \<comment> \<open>a data block of a slice with FEC may make one of its FEC blocks superfluous\<close>
  "drop_fec_block cs k blockNo =
     (let sl = rslice_at cs k; stripe = blockNo mod rfec_stripes sl;
          cs = upd_rslice k (missing_data_blocks_update (\<lambda>m. m[stripe := m ! stripe - 1])) cs; sl = rslice_at cs k
      in and_then (check (missing_data_blocks sl ! stripe \<ge> 0)) (\<lambda>_.
           if missing_data_blocks sl ! stripe < rfec_blocks sl ! stripe then
             let cs = upd_rslice k (rfec_blocks_update (\<lambda>f. f[stripe := f ! stripe - 1])) cs; sl = rslice_at cs k;
                 blockIdx = stripe + nat (rfec_blocks sl ! stripe) * rfec_stripes sl
             in case adr (fec_descs sl ! blockIdx) of
                  None \<Rightarrow> Aborts
                | Some a \<Rightarrow>
                    let cs = cs\<lparr>localBlockAddresses := (localBlockAddresses cs)[localPos cs := a], localPos := localPos cs + 1\<rparr>
                    in Done (upd_rslice k (\<lambda>sl. sl\<lparr>
                         fec_descs := (fec_descs sl)[blockIdx := (fec_descs sl ! blockIdx)\<lparr>adr := None\<rparr>],
                         blocksTransferred := blocksTransferred sl - 1\<rparr>) cs)
           else Done cs))"

definition store_data_block :: "client_state \<Rightarrow> nat \<Rightarrow> nat \<Rightarrow> int \<Rightarrow> client_state outcome" where
  \<comment> \<open>the part of \<^verbatim>\<open>processDataBlock\<close> for a block that is new\<close>
  "store_data_block cs k blockNo bytes =
     (if rbase (rslice_at cs k) mod blockSize (rconfig cs) \<noteq> 0 then Aborts
      else
        let should = Ring (ADR cs (rslice_at cs k) blockNo);
            cs = (if should \<noteq> iov_base cs
                  then mem_write should (take (blockSize (rconfig cs)) (mem_at cs (iov_base cs))) cs else cs)
        in and_then (if sender_is_newgen cs \<and> bytes \<noteq> 0 then setSliceBytes k cs bytes else Done cs) (\<lambda>cs.
           let cs = (if sender_is_newgen cs \<and> bytes = 0 then cs\<lparr>netEndReached := 0\<rparr> else cs);
               cs = upd_rslice k (retransmit_update (m_map_update (SET_BIT blockNo))) cs
           in and_then (if rfec_stripes (rslice_at cs k) \<noteq> 0 then drop_fec_block cs k blockNo else Done cs) (\<lambda>cs.
                checkSliceComplete (upd_rslice k (\<lambda>sl. sl\<lparr>dataBlocksTransferred := dataBlocksTransferred sl + 1,
                    blocksTransferred := blocksTransferred sl + 1, freePos := advance_free (rmap sl) (freePos sl)\<rparr>) cs) k)))"

definition processDataBlock :: "client_state \<Rightarrow> int \<Rightarrow> nat \<Rightarrow> int \<Rightarrow> client_state outcome" where
  "processDataBlock cs no blockNo bytes =
     and_then (rfindSlice cs no) (\<lambda>(cs, slo).
       case slo of
         None \<Rightarrow> Done cs
       | Some k \<Rightarrow>
           and_then (check (magic (rslice_at cs k))) (\<lambda>_.
             if rstate (rslice_at cs k) \<in> {RSLICE_FREE, SLICE_DONE, SLICE_FEC, SLICE_FEC_DONE} then Done cs
             else if no > currentSliceNo cs + 2 then Aborts
             else
               and_then (in_bounds (blockNo < MAX_SLICE_SIZE)) (\<lambda>_.
                 if BIT_ISSET blockNo (rmap (rslice_at cs k)) then Done cs
                 else store_data_block cs k blockNo bytes)))"

definition processReqAck :: "client_state \<Rightarrow> int \<Rightarrow> int \<Rightarrow> int \<Rightarrow> client_state outcome" where
  "processReqAck cs no bytes rxmit =
     and_then (rfindSlice cs no) (\<lambda>(cs, slo).
       let readySet = mem_at cs (iov_base cs)
       in and_then (case slo of None \<Rightarrow> Done () | Some k \<Rightarrow> check (magic (rslice_at cs k))) (\<lambda>_.
          if BIT_ISSET (clientNumber cs) readySet then Done cs
          else
            case slo of
              None \<Rightarrow> Done (sendOk no cs)
            | Some k \<Rightarrow>
                and_then (setSliceBytes k cs bytes) (\<lambda>cs.
                and_then (check (blockSize (rconfig cs) \<noteq> 0)) (\<lambda>_.
                and_then (if slice_blocks (rconfig cs) (rbytes (rslice_at cs k)) = blocksTransferred (rslice_at cs k)
                          then Done (sendOk (rsliceNo (rslice_at cs k)) cs)
                          else sendRetransmit cs k rxmit) (\<lambda>cs.
                and_then (checkSliceComplete cs k) (\<lambda>cs.
                and_then (advanceReceivedPointer cs) (\<lambda>cs.
                  if \<not> use_fec cs then cleanupSlices cs SLICE_DONE else Done cs)))))))"


subsection \<open>Reception\<close>

definition closeAllExcept :: "client_state \<Rightarrow> int \<Rightarrow> client_state" where
  "closeAllExcept cs fd =
     (if selectedFd cs \<ge> 0 then cs
      else
        cs\<lparr>console := False, selectedFd := fd,
           socks := fold (\<lambda>i socks. if socks ! i \<noteq> -1 \<and> socks ! i \<noteq> fd then fst (closeSock socks i) else socks)
                      [1..<NR_CLIENT_SOCKS] (socks cs)\<rparr>)"

definition set_iov :: "client_state \<Rightarrow> client_state" where
  \<comment> \<open>where the payload of the next packet goes\<close>
  "set_iov cs =
     (case currentSlice cs of
        Some c \<Rightarrow>
          if freePos (rslice_at cs c) < MAX_SLICE_SIZE
          then cs\<lparr>iov_base := Ring (ADR cs (rslice_at cs c) (freePos (rslice_at cs c)))\<rparr>
          else cs\<lparr>iov_base := Pool (rnextBlock cs)\<rparr>
      | None \<Rightarrow> cs\<lparr>iov_base := Pool (rnextBlock cs)\<rparr>)"

datatype end_wait = Ended client_state | Socket int

fun end_loop :: "int set option list \<Rightarrow> client_state \<Rightarrow> end_wait outcome" where
  \<comment> \<open>the wait at the end of the transmission; each \<^verbatim>\<open>select\<close> fails (\<open>None\<close>), or the
      given descriptors have data before its timeout\<close>
  "end_loop ws cs =
     (if endReached cs = 0 \<and> netEndReached cs = 0 then Done (Socket (-1))
      else
        case ws of
          [] \<Rightarrow> Blocks
        | None # _ \<Rightarrow> Done (Socket (-1))
        | Some ready # ws \<Rightarrow>
            let (maxFd, read_set) = prepareForSelect (socks cs);
                fd = getSelectedSock (socks cs) (selected maxFd read_set ready)
            in if fd \<ge> 0 then Done (Socket fd)
               else if endReached cs \<ge> 2 then Done (Ended (cs\<lparr>endReached := 3\<rparr>))
               else end_loop ws cs)"

declare end_loop.simps [simp del]

datatype start_event = SelectError | StartTimeout | KeyPressed | SocketsReady "int set"
  \<comment> \<open>what ends \<^verbatim>\<open>selectWithConsole\<close>\<close>

datatype packet = Packet sockaddr_in serverDataMsg "byte list" | NoPacket | ReceiveTimeout
  \<comment> \<open>what \<^verbatim>\<open>recvmsg\<close> gives: the origin, the header and the payload of a packet, an error,
      or nothing within the receive timeout\<close>

definition sendGo :: "client_state \<Rightarrow> client_state" where
  "sendGo cs = cs\<lparr>outbox := outbox cs @ [\<lparr>m_opCode = htons CMD_GO, m_sliceNo = 0, m_rxmit = 0, m_map = []\<rparr>]\<rparr>"

definition start_transfer :: "client_state \<Rightarrow> int \<Rightarrow> client_state" where
  "start_transfer cs fd =
     (let cs = closeAllExcept cs fd in cs\<lparr>rstats := receiverStatsStartTimer (rstats cs), isStarted := True\<rparr>)"

definition dispatch_packet :: "client_state \<Rightarrow> int \<Rightarrow> (client_state \<times> int) outcome" where
  \<comment> \<open>the \<^verbatim>\<open>switch\<close> of \<^verbatim>\<open>dispatchMessage\<close>, with the value returned\<close>
  "dispatch_packet cs fd =
     (let op = ntohs (d_opCode (Msg cs)); msg = Msg cs
      in if op = CMD_DATA then
           and_then (processDataBlock (start_transfer cs fd) (ntohl_int (d_sliceNo msg)) (unat (ntohs (d_blockNo msg)))
             (ntohl_int (d_bytes msg))) (\<lambda>cs. Done (cs, 0))
         else if op = CMD_FEC then
           and_then (processFecBlock (start_transfer cs fd) (unat (ntohs (d_stripes msg))) (ntohl_int (d_sliceNo msg))
             (unat (ntohs (d_blockNo msg))) (ntohl_int (d_bytes msg))) (\<lambda>cs. Done (cs, 0))
         else if op = CMD_REQACK then
           and_then (processReqAck (start_transfer cs fd) (ntohl_int (d_sliceNo msg)) (ntohl_int (d_bytes msg))
             (ntohl_int (d_rxmit msg))) (\<lambda>cs. Done (cs, 0))
         else if op = CMD_HELLO_STREAMING \<or> op = CMD_HELLO_NEW \<or> op = CMD_HELLO then Done (cs, 0)
         else Done (cs, -1))"

definition receive_packet :: "client_state \<Rightarrow> int \<Rightarrow> packet \<Rightarrow> (client_state \<times> int) outcome" where
  "receive_packet cs fd pkt =
     (case pkt of
        NoPacket \<Rightarrow> Done (cs, -1)
      | ReceiveTimeout \<Rightarrow> Aborts
      | Packet from msg payload \<Rightarrow>
          let cs = mem_write (iov_base cs) (take (blockSize (rconfig cs)) payload) (cs\<lparr>Msg := msg\<rparr>)
          in if \<not> isAddressEqual from (serverAddr cs) then Done (cs, -1) else dispatch_packet cs fd)"

definition dispatchMessage :: "int set option list \<Rightarrow> start_event \<Rightarrow> packet \<Rightarrow> client_state \<Rightarrow> (client_state \<times> int) outcome" where
  "dispatchMessage waits start pkt cs =
     (let cs = set_iov cs
      in and_then (end_loop waits cs) (\<lambda>w.
           case w of
             Ended cs \<Rightarrow> Done (cs, 0)
           | Socket fd \<Rightarrow>
               let fd = (if fd < 0 then selectedFd cs else fd)
               in if fd < 0 then
                    let (maxFd, read_set) = prepareForSelect (socks cs); cs = cs\<lparr>promptPrinted := True\<rparr>
                    in case start of
                         SelectError \<Rightarrow> Done (cs, 0)
                       | StartTimeout \<Rightarrow>
                           Done (cs\<lparr>endReached := 3, netEndReached := 3,
                                   rfifo := (rfifo cs)\<lparr>data := pc_produceEnd (data (rfifo cs))\<rparr>\<rparr>, 1)
                       | KeyPressed \<Rightarrow> Done (sendGo (cs\<lparr>console := False\<rparr>), 0)
                       | SocketsReady ready \<Rightarrow>
                           receive_packet cs (getSelectedSock (socks cs) (selected (maxFd + 1) read_set ready)) pkt
                  else receive_packet cs fd pkt))"

definition netReceiverMain :: "client_state \<Rightarrow> client_state outcome" where
  \<comment> \<open>up to its loop, which is \<open>dispatchMessage\<close> while \<^verbatim>\<open>endReached < 3\<close>\<close>
  "netReceiverMain cs =
     (let cs = cs\<lparr>currentSliceNo := -1, currentSlice := None, promptPrinted := False\<rparr>
      in if \<not> has_flag (rconfig cs) FLAG_RSTREAMING then and_then (newSlice cs 0) (\<lambda>(cs, _). Done cs)
         else Done (cs\<lparr>currentSlice := None, currentSliceNo := 0\<rparr>))"

definition zero_rslice :: rslice where
  \<comment> \<open>a slice of the zeroed client state\<close>
  "zero_rslice = \<lparr>magic = False, rstate = RSLICE_FREE, rbase = 0, rsliceNo = 0, blocksTransferred = 0,
     dataBlocksTransferred = 0, rbytes = 0, bytesKnown = False, freePos = 0, retransmit = zero_message,
     missing_data_blocks = replicate MAX_FEC_INTERLEAVE 0, rfec_stripes = 0, rfec_blocks = replicate MAX_FEC_INTERLEAVE 0,
     fec_descs = replicate MAX_SLICE_SIZE zero_desc\<rparr>"

definition spawnNetReceiver :: "fifo \<Rightarrow> net_config \<Rightarrow> (nat \<Rightarrow> byte list) \<Rightarrow> client_state \<Rightarrow> client_state outcome" where
  \<comment> \<open>\<open>cs\<close> is the state with the configuration of the client; \<open>alloc n\<close> is \<open>n\<close> bytes from
      \<^verbatim>\<open>xmalloc\<close>\<close>
  "spawnNetReceiver f c alloc cs =
     and_then (or_abort (pc_produce (pc_makeProduconsum (of_nat RNR_SLICES)) (of_nat RNR_SLICES))) (\<lambda>free.
     and_then (or_abort (pc_produce (pc_makeProduconsum (of_nat NR_BLOCKS)) (of_nat NR_BLOCKS))) (\<lambda>fb.
       setNextBlock (cs\<lparr>rfifo := f, rconfig := c, endReached := 0, netEndReached := 0, selectedFd := -1,
         rfree_slices_pc := free, rslices := replicate RNR_SLICES (zero_rslice\<lparr>rsliceNo := -1\<rparr>),
         receivedPtr := 0, receivedSliceNo := -1, use_fec := False,
         rfec_data_pc := pc_makeProduconsum (of_nat RNR_SLICES), fec_slices := replicate RNR_SLICES 0,
         freeBlocks_pc := fb, blockAddresses := map (\<lambda>i. i * blockSize c) [0..<NR_BLOCKS],
         localBlockAddresses := replicate NR_BLOCKS 0, blockData := alloc (NR_BLOCKS * blockSize c), localPos := 0\<rparr>)))"

end
