(* ===== verification/ReceiveSlices.thy ===== *)
theory ReceiveSlices
  imports ReceiveData
begin

text \<open>
  What a slice of the receiver counts: its data blocks, the FEC blocks kept per stripe and the
  data blocks missing per stripe (\<open>counts_ok\<close>).  A data block and an FEC block keep the
  counts exact, the count at the first FEC block makes them so, and a slice that counts as
  complete has in every stripe as many FEC blocks as missing data blocks.
\<close>

subsection \<open>State access\<close>

lemma upd_rslice_sel [simp]:
  "rfifo (upd_rslice k f cs) = rfifo cs" "rconfig (upd_rslice k f cs) = rconfig cs" "iov_base (upd_rslice k f cs) = iov_base cs"
  "currentSlice (upd_rslice k f cs) = currentSlice cs" "currentSliceNo (upd_rslice k f cs) = currentSliceNo cs"
  "use_fec (upd_rslice k f cs) = use_fec cs" "blockData (upd_rslice k f cs) = blockData cs"
  "rnextBlock (upd_rslice k f cs) = rnextBlock cs" "localPos (upd_rslice k f cs) = localPos cs"
  "localBlockAddresses (upd_rslice k f cs) = localBlockAddresses cs" "sender_is_newgen (upd_rslice k f cs) = sender_is_newgen cs"
  "length (rslices (upd_rslice k f cs)) = length (rslices cs)" "outbox (upd_rslice k f cs) = outbox cs"
  "fec_slices (upd_rslice k f cs) = fec_slices cs" "rfec_data_pc (upd_rslice k f cs) = rfec_data_pc cs"
  "rfree_slices_pc (upd_rslice k f cs) = rfree_slices_pc cs" "receivedSliceNo (upd_rslice k f cs) = receivedSliceNo cs"
  by (simp_all add: upd_rslice_def)

lemma rslice_at_upd [simp]:
  "k < length (rslices cs) \<Longrightarrow> rslice_at (upd_rslice k f cs) j = (if j = k then f (rslice_at cs k) else rslice_at cs j)"
  by (simp add: rslice_at_def upd_rslice_def)

lemma mem_write_sel [simp]:
  "rslices (mem_write a bs cs) = rslices cs" "rconfig (mem_write a bs cs) = rconfig cs" "iov_base (mem_write a bs cs) = iov_base cs"
  "rnextBlock (mem_write a bs cs) = rnextBlock cs" "sender_is_newgen (mem_write a bs cs) = sender_is_newgen cs"
  "localPos (mem_write a bs cs) = localPos cs" "dataBufSize (rfifo (mem_write a bs cs)) = dataBufSize (rfifo cs)"
  "freeMemQueue (rfifo (mem_write a bs cs)) = freeMemQueue (rfifo cs)" "use_fec (mem_write a bs cs) = use_fec cs"
  "currentSlice (mem_write a bs cs) = currentSlice cs" "fec_slices (mem_write a bs cs) = fec_slices cs"
  "rfec_data_pc (mem_write a bs cs) = rfec_data_pc cs"
  by (cases a; simp add: mem_write_def)+

lemma rslice_at_cong: "rslices cs' = rslices cs \<Longrightarrow> rslice_at cs' k = rslice_at cs k"
  by (simp add: rslice_at_def)

lemma rslice_at_mem_write [simp]: "rslice_at (mem_write a bs cs) k = rslice_at cs k"
  by (rule rslice_at_cong) simp

subsection \<open>What a slice counts\<close>

definition lacks :: "nat \<Rightarrow> rslice \<Rightarrow> nat \<Rightarrow> nat set" where
  \<comment> \<open>the data blocks of stripe \<open>s\<close> that are missing, of \<open>n\<close> blocks\<close>
  "lacks n sl s = {i. i < n \<and> i mod rfec_stripes sl = s \<and> \<not> BIT_ISSET i (rmap sl)}"

definition counts_ok :: "nat \<Rightarrow> rslice \<Rightarrow> bool" where
  "counts_ok n sl \<longleftrightarrow> n \<le> MAX_SLICE_SIZE \<and> length (rmap sl) = MAX_SLICE_SIZE div 8 \<and> bits_of (rmap sl) \<subseteq> {..<n}
     \<and> dataBlocksTransferred sl = int (card (bits_of (rmap sl)))
     \<and> blocksTransferred sl = dataBlocksTransferred sl + (\<Sum>s<rfec_stripes sl. rfec_blocks sl ! s)
     \<and> rfec_stripes sl \<le> MAX_FEC_INTERLEAVE \<and> length (missing_data_blocks sl) = MAX_FEC_INTERLEAVE
     \<and> length (rfec_blocks sl) = MAX_FEC_INTERLEAVE \<and> length (fec_descs sl) = MAX_SLICE_SIZE
     \<and> (\<forall>s < rfec_stripes sl. missing_data_blocks sl ! s = int (card (lacks n sl s))
          \<and> 0 \<le> rfec_blocks sl ! s \<and> rfec_blocks sl ! s \<le> missing_data_blocks sl ! s
          \<and> (\<forall>j < nat (rfec_blocks sl ! s). adr (fec_descs sl ! (s + j * rfec_stripes sl)) \<noteq> None))"

lemma finite_lacks [simp]: "finite (lacks n sl s)"
  by (simp add: lacks_def)

lemma rmap_bytes: "length (rmap sl) = MAX_SLICE_SIZE div 8 \<Longrightarrow> 8 * length (rmap sl) = MAX_SLICE_SIZE"
  by (simp add: MAX_SLICE_SIZE_def)

lemma stripe_position:
  assumes "s < st" and "j < card {i. i < n \<and> i mod st = s}"
  shows "s + j * st < (n :: nat)"
proof (rule ccontr)
  assume n: "\<not> s + j * st < n"
  have "{i. i < n \<and> i mod st = s} \<subseteq> (\<lambda>m. s + m * st) ` {..<j}"
  proof
    fix i assume "i \<in> {i. i < n \<and> i mod st = s}"
    then have i: "i < n" "i = s + (i div st) * st" by (auto simp: mod_div_mult_eq)
    have "i div st < j"
    proof (rule ccontr)
      assume "\<not> i div st < j"
      then have "j * st \<le> (i div st) * st" by simp
      then show False using i n by linarith
    qed
    then show "i \<in> (\<lambda>m. s + m * st) ` {..<j}" using i(2) by blast
  qed
  then have "card {i. i < n \<and> i mod st = s} \<le> card ((\<lambda>m. s + m * st) ` {..<j})" by (rule card_mono [rotated]) simp
  also have "\<dots> \<le> card {..<j}" by (rule card_image_le) simp
  finally have "card {i. i < n \<and> i mod st = s} \<le> card {..<j}" .
  then show False using assms(2) by simp
qed

lemma lacks_position:
  assumes "s < rfec_stripes sl" and "j < card (lacks n sl s)"
  shows "s + j * rfec_stripes sl < n"
proof (rule stripe_position [OF assms(1)])
  have "card (lacks n sl s) \<le> card {i. i < n \<and> i mod rfec_stripes sl = s}"
    by (rule card_mono) (auto simp: lacks_def)
  then show "j < card {i. i < n \<and> i mod rfec_stripes sl = s}" using assms(2) by simp
qed

lemma lacks_partition:
  assumes "0 < rfec_stripes sl" and "bits_of (rmap sl) \<subseteq> {..<n}" and "length (rmap sl) = MAX_SLICE_SIZE div 8" and "n \<le> MAX_SLICE_SIZE"
  shows "n = card (bits_of (rmap sl)) + (\<Sum>s<rfec_stripes sl. card (lacks n sl s))"
proof -
  have "{..<n} = bits_of (rmap sl) \<union> (\<Union>s<rfec_stripes sl. lacks n sl s)"
    using assms rmap_bytes [OF assms(3)] by (auto simp: lacks_def bits_of_def)
  moreover have "bits_of (rmap sl) \<inter> (\<Union>s<rfec_stripes sl. lacks n sl s) = {}" by (auto simp: lacks_def bits_of_def)
  moreover have "card (\<Union>s<rfec_stripes sl. lacks n sl s) = (\<Sum>s<rfec_stripes sl. card (lacks n sl s))"
    by (rule card_UN_disjoint) (auto simp: lacks_def)
  ultimately show ?thesis by (metis card_Un_disjoint card_lessThan finite_UN finite_bits_of finite_lacks finite_lessThan)
qed

lemma complete_stripes:
  \<comment> \<open>a slice that counts as complete has, in every stripe, as many FEC blocks as missing blocks\<close>
  assumes c: "counts_ok n sl" and full: "blocksTransferred sl = int n" and s: "s < rfec_stripes sl"
  shows "rfec_blocks sl ! s = int (card (lacks n sl s))"
proof -
  let ?S = "{..<rfec_stripes sl}"
  have le: "\<And>t. t \<in> ?S \<Longrightarrow> rfec_blocks sl ! t \<le> int (card (lacks n sl t))" using c by (auto simp: counts_ok_def)
  have "int n = int (card (bits_of (rmap sl))) + (\<Sum>t\<in>?S. int (card (lacks n sl t)))"
    using lacks_partition [of sl n] c s by (simp add: counts_ok_def flip: of_nat_sum of_nat_add)
  moreover have "int n = int (card (bits_of (rmap sl))) + (\<Sum>t\<in>?S. rfec_blocks sl ! t)"
    using c full by (simp add: counts_ok_def)
  ultimately have eq: "(\<Sum>t\<in>?S. rfec_blocks sl ! t) = (\<Sum>t\<in>?S. int (card (lacks n sl t)))" by simp
  show ?thesis
  proof (rule ccontr)
    assume "rfec_blocks sl ! s \<noteq> int (card (lacks n sl s))"
    then have "rfec_blocks sl ! s < int (card (lacks n sl s))" using le [of s] s by simp
    then have "(\<Sum>t\<in>?S. rfec_blocks sl ! t) < (\<Sum>t\<in>?S. int (card (lacks n sl t)))"
      by (intro sum_strict_mono_ex1) (use le s in auto)
    then show False using eq by simp
  qed
qed

subsection \<open>A data block\<close>

definition data_block_slice :: "nat \<Rightarrow> rslice \<Rightarrow> rslice" where
  \<comment> \<open>what \<open>store_data_block\<close> does to the slice\<close>
  "data_block_slice i sl =
     (let sl = sl\<lparr>retransmit := m_map_update (SET_BIT i) (retransmit sl)\<rparr>; s = i mod rfec_stripes sl;
          sl = (if rfec_stripes sl = 0 then sl else sl\<lparr>missing_data_blocks := (missing_data_blocks sl)[s := missing_data_blocks sl ! s - 1]\<rparr>);
          a = s + nat (rfec_blocks sl ! s - 1) * rfec_stripes sl;
          sl = (if rfec_stripes sl \<noteq> 0 \<and> missing_data_blocks sl ! s < rfec_blocks sl ! s
                then sl\<lparr>rfec_blocks := (rfec_blocks sl)[s := rfec_blocks sl ! s - 1],
                        fec_descs := (fec_descs sl)[a := (fec_descs sl ! a)\<lparr>adr := None\<rparr>],
                        blocksTransferred := blocksTransferred sl - 1\<rparr> else sl)
      in sl\<lparr>dataBlocksTransferred := dataBlocksTransferred sl + 1, blocksTransferred := blocksTransferred sl + 1,
           freePos := advance_free (rmap sl) (freePos sl)\<rparr>)"

definition free_ok :: "rslice \<Rightarrow> bool" where
  \<comment> \<open>the place for the next block is not that of a block received\<close>
  "free_ok sl \<longleftrightarrow> (freePos sl < MAX_SLICE_SIZE \<longrightarrow> \<not> BIT_ISSET (freePos sl) (rmap sl))"

lemma advance_free_free: "advance_free m p < MAX_SLICE_SIZE \<Longrightarrow> \<not> BIT_ISSET (advance_free m p) m"
proof (induction m p rule: advance_free.induct)
  case (1 m p)
  show ?case
  proof (cases "p < MAX_SLICE_SIZE \<and> BIT_ISSET p m")
    case True
    have "advance_free m p = advance_free m (p + 1)" by (subst advance_free.simps) (simp add: True)
    then show ?thesis using 1(1) [OF True] 1(2) by simp
  next
    case False
    have "advance_free m p = p" by (subst advance_free.simps) (simp only: if_not_P [OF False])
    then show ?thesis using False 1(2) by auto
  qed
qed

lemma data_block_free: "free_ok (data_block_slice i sl)"
  by (auto simp: free_ok_def data_block_slice_def Let_def rmap_def dest: advance_free_free)

lemma sum_upd:
  "s < (n::nat) \<Longrightarrow> n \<le> length xs \<Longrightarrow> (\<Sum>t<n. xs[s := x] ! t) = (\<Sum>t<n. xs ! t) - xs ! s + (x :: int)"
proof -
  assume a: "s < n" "n \<le> length xs"
  have "(\<Sum>t<n. xs[s := x] ! t) = xs[s := x] ! s + (\<Sum>t\<in>{..<n}-{s}. xs[s := x] ! t)"
    by (rule sum.remove) (use a in auto)
  also have "(\<Sum>t\<in>{..<n}-{s}. xs[s := x] ! t) = (\<Sum>t\<in>{..<n}-{s}. xs ! t)" by (rule sum.cong) auto
  also have "(\<Sum>t<n. xs ! t) = xs ! s + (\<Sum>t\<in>{..<n}-{s}. xs ! t)" by (rule sum.remove) (use a in auto)
  ultimately show ?thesis using a by simp
qed

lemma data_block_counts:
  assumes c: "counts_ok n sl" and i: "i < n" and new: "\<not> BIT_ISSET i (rmap sl)"
  shows "counts_ok n (data_block_slice i sl)"
proof -
  have len: "8 * length (rmap sl) = MAX_SLICE_SIZE" "n \<le> MAX_SLICE_SIZE" using c rmap_bytes by (auto simp: counts_ok_def)
  then have i8: "i < 8 * length (rmap sl)" using i by simp
  have bits: "bits_of (SET_BIT i (rmap sl)) = insert i (bits_of (rmap sl))" "i \<notin> bits_of (rmap sl)"
    using i8 new by (auto simp: bits_of_def)
  have card: "int (card (insert i (bits_of (rmap sl)))) = int (card (bits_of (rmap sl))) + 1" using bits(2) by simp
  show ?thesis
  proof (cases "rfec_stripes sl = 0")
    case True
    then show ?thesis using c bits i card by (simp add: data_block_slice_def counts_ok_def rmap_def lacks_def)
  next
    case False
    define st where "st = rfec_stripes sl"
    define s where "s = i mod st"
    have s: "s < st" "st \<le> MAX_FEC_INTERLEAVE" using False c by (auto simp: s_def st_def counts_ok_def)
    let ?sl1 = "sl\<lparr>retransmit := m_map_update (SET_BIT i) (retransmit sl)\<rparr>"
    have l: "lacks n ?sl1 t = (if t = s then lacks n sl s - {i} else lacks n sl t)" if "t < st" for t
      using i8 by (auto simp: lacks_def rmap_def s_def st_def)
    have i_in: "i \<in> lacks n sl s" using i new by (simp add: lacks_def s_def st_def)
    then have pos: "0 < card (lacks n sl s)" by (auto simp: card_gt_0_iff)
    have cl: "int (card (lacks n ?sl1 t)) = (if t = s then int (card (lacks n sl s)) - 1 else int (card (lacks n sl t)))" if "t < st" for t
      using l [OF that] i_in pos by (simp add: of_nat_diff)
    have m: "missing_data_blocks sl ! t = int (card (lacks n sl t))" "0 \<le> rfec_blocks sl ! t"
       "rfec_blocks sl ! t \<le> int (card (lacks n sl t))"
       "\<And>j. j < nat (rfec_blocks sl ! t) \<Longrightarrow> adr (fec_descs sl ! (t + j * st)) \<noteq> None" if "t < st" for t
      using c that by (auto simp: counts_ok_def st_def)
    have lens: "length (missing_data_blocks sl) = MAX_FEC_INTERLEAVE" "length (rfec_blocks sl) = MAX_FEC_INTERLEAVE"
      "length (fec_descs sl) = MAX_SLICE_SIZE" using c by (auto simp: counts_ok_def)
    define drop where "drop \<longleftrightarrow> int (card (lacks n sl s)) - 1 < rfec_blocks sl ! s"
    define a where "a = s + nat (rfec_blocks sl ! s - 1) * st"
    define fb where "fb = (if drop then (rfec_blocks sl)[s := rfec_blocks sl ! s - 1] else rfec_blocks sl)"
    define fd where "fd = (if drop then (fec_descs sl)[a := (fec_descs sl ! a)\<lparr>adr := None\<rparr>] else fec_descs sl)"
    define md where "md = (missing_data_blocks sl)[s := missing_data_blocks sl ! s - 1]"
    have r: "data_block_slice i sl = ?sl1\<lparr>missing_data_blocks := md, rfec_blocks := fb, fec_descs := fd,
         blocksTransferred := (if drop then blocksTransferred sl - 1 else blocksTransferred sl) + 1,
         dataBlocksTransferred := dataBlocksTransferred sl + 1, freePos := advance_free (rmap ?sl1) (freePos sl)\<rparr>"
      using False s lens m(1) [OF s(1)]
      by (simp add: data_block_slice_def Let_def s_def [symmetric] st_def [symmetric] a_def rmap_def drop_def fb_def fd_def md_def)
    have mt: "md ! t = int (card (lacks n ?sl1 t))" if "t < st" for t
      using that cl [OF that] m(1) [OF that] m(1) [OF s(1)] s lens by (auto simp: md_def nth_list_update)
    have ft: "0 \<le> fb ! t \<and> fb ! t \<le> md ! t" if "t < st" for t
      using that m(2,3) [OF that] cl [OF that] mt [OF that] s lens pos by (auto simp: fb_def nth_list_update drop_def)
    have fsum: "(\<Sum>t < st. fb ! t) = (\<Sum>t < st. rfec_blocks sl ! t) - (if drop then 1 else 0)"
      using s lens by (simp add: fb_def sum_upd)
    have other: "t + j * st \<noteq> a" if "drop" "t < st" "j < nat (fb ! t)" for t j
    proof (cases "t = s")
      case True
      have "j < nat (rfec_blocks sl ! s - 1)" using that True s lens by (simp add: fb_def)
      then show ?thesis using True s by (simp add: a_def)
    next
      case False
      have "(t + j * st) mod st = t" "a mod st = s" using that s by (simp_all add: a_def)
      then show ?thesis using False by auto
    qed
    have ds: "adr (fd ! (t + j * st)) \<noteq> None" if "t < st" "j < nat (fb ! t)" for t j
    proof -
      have "j < nat (rfec_blocks sl ! t)" using that s lens by (auto simp: fb_def nth_list_update split: if_splits)
      then show ?thesis using m(4) [OF that(1)] other [OF _ that] by (auto simp: fd_def)
    qed
    have base: "n \<le> MAX_SLICE_SIZE" "length (rmap sl) = MAX_SLICE_SIZE div 8" "bits_of (rmap sl) \<subseteq> {..<n}"
      "dataBlocksTransferred sl = int (card (bits_of (rmap sl)))"
      "blocksTransferred sl = dataBlocksTransferred sl + (\<Sum>t < st. rfec_blocks sl ! t)"
      using c by (auto simp: counts_ok_def st_def)
    have lc: "lacks n (data_block_slice i sl) t = lacks n ?sl1 t" for t by (simp add: r lacks_def rmap_def)
    have sel: "rfec_stripes (data_block_slice i sl) = st" "rmap (data_block_slice i sl) = SET_BIT i (rmap sl)"
      "missing_data_blocks (data_block_slice i sl) = md" "rfec_blocks (data_block_slice i sl) = fb"
      "fec_descs (data_block_slice i sl) = fd" "dataBlocksTransferred (data_block_slice i sl) = dataBlocksTransferred sl + 1"
      "blocksTransferred (data_block_slice i sl) = (if drop then blocksTransferred sl - 1 else blocksTransferred sl) + 1"
      by (simp_all add: r rmap_def st_def)
    have "\<forall>t < st. md ! t = int (card (lacks n (data_block_slice i sl) t)) \<and> 0 \<le> fb ! t \<and> fb ! t \<le> md ! t
        \<and> (\<forall>j < nat (fb ! t). adr (fd ! (t + j * st)) \<noteq> None)"
      using mt ft ds by (simp add: lc)
    moreover have "\<forall>t < st. fb ! t \<le> int (card (lacks n (data_block_slice i sl) t))"
      unfolding lc using mt ft by metis
    moreover have "length md = MAX_FEC_INTERLEAVE" "length fb = MAX_FEC_INTERLEAVE" "length fd = MAX_SLICE_SIZE"
      using lens by (simp_all add: md_def fb_def fd_def)
    ultimately show ?thesis
      unfolding counts_ok_def sel
      using base i bits card s fsum by (intro conjI) simp_all
  qed
qed


subsection \<open>An FEC block\<close>

definition fec_block_slice :: "nat \<Rightarrow> nat \<Rightarrow> rslice \<Rightarrow> rslice" where
  \<comment> \<open>what \<open>store_fec_block\<close> does to the slice with block \<open>b\<close> stored at \<open>p\<close>\<close>
  "fec_block_slice p b sl =
     (let s = b mod rfec_stripes sl; a = nat (rfec_blocks sl ! s) * rfec_stripes sl + s
      in sl\<lparr>fec_descs := (fec_descs sl)[a := (fec_descs sl ! a)\<lparr>adr := Some p, fecBlockNo := b\<rparr>],
            rfec_blocks := (rfec_blocks sl)[s := rfec_blocks sl ! s + 1], blocksTransferred := blocksTransferred sl + 1\<rparr>)"

lemma fec_block_position:
  assumes c: "counts_ok n sl" and s: "s < rfec_stripes sl" and u: "rfec_blocks sl ! s < missing_data_blocks sl ! s"
  shows "nat (rfec_blocks sl ! s) * rfec_stripes sl + s < n"
proof -
  have "missing_data_blocks sl ! s = int (card (lacks n sl s))" "0 \<le> rfec_blocks sl ! s"
    using c s by (auto simp: counts_ok_def)
  then have "nat (rfec_blocks sl ! s) < card (lacks n sl s)" using u by linarith
  from lacks_position [OF s this] show ?thesis by (simp add: add.commute)
qed

lemma fec_block_counts:
  assumes c: "counts_ok n sl" and st: "rfec_stripes sl \<noteq> 0"
    and u: "rfec_blocks sl ! (b mod rfec_stripes sl) < missing_data_blocks sl ! (b mod rfec_stripes sl)"
  shows "counts_ok n (fec_block_slice p b sl)"
proof -
  define s where "s = b mod rfec_stripes sl"
  define a where "a = nat (rfec_blocks sl ! s) * rfec_stripes sl + s"
  define fb where "fb = (rfec_blocks sl)[s := rfec_blocks sl ! s + 1]"
  define fd where "fd = (fec_descs sl)[a := (fec_descs sl ! a)\<lparr>adr := Some p, fecBlockNo := b\<rparr>]"
  have s: "s < rfec_stripes sl" using st by (simp add: s_def)
  have a: "a < n" using fec_block_position [OF c s] u by (simp add: s_def a_def)
  have sel: "rfec_stripes (fec_block_slice p b sl) = rfec_stripes sl" "rmap (fec_block_slice p b sl) = rmap sl"
    "missing_data_blocks (fec_block_slice p b sl) = missing_data_blocks sl" "rfec_blocks (fec_block_slice p b sl) = fb"
    "fec_descs (fec_block_slice p b sl) = fd" "dataBlocksTransferred (fec_block_slice p b sl) = dataBlocksTransferred sl"
    "blocksTransferred (fec_block_slice p b sl) = blocksTransferred sl + 1"
    by (simp_all add: fec_block_slice_def s_def [symmetric] a_def [symmetric] fb_def fd_def rmap_def)
  have l: "lacks n (fec_block_slice p b sl) t = lacks n sl t" for t by (simp add: lacks_def sel)
  have base: "n \<le> MAX_SLICE_SIZE" "length (rmap sl) = MAX_SLICE_SIZE div 8" "bits_of (rmap sl) \<subseteq> {..<n}"
    "dataBlocksTransferred sl = int (card (bits_of (rmap sl)))"
    "blocksTransferred sl = dataBlocksTransferred sl + (\<Sum>t<rfec_stripes sl. rfec_blocks sl ! t)"
    "rfec_stripes sl \<le> MAX_FEC_INTERLEAVE" "length (missing_data_blocks sl) = MAX_FEC_INTERLEAVE"
    "length (rfec_blocks sl) = MAX_FEC_INTERLEAVE" "length (fec_descs sl) = MAX_SLICE_SIZE"
    using c by (auto simp: counts_ok_def)
  have m: "missing_data_blocks sl ! t = int (card (lacks n sl t))" "0 \<le> rfec_blocks sl ! t"
     "rfec_blocks sl ! t \<le> missing_data_blocks sl ! t"
     "\<And>j. j < nat (rfec_blocks sl ! t) \<Longrightarrow> adr (fec_descs sl ! (t + j * rfec_stripes sl)) \<noteq> None" if "t < rfec_stripes sl" for t
    using c that by (auto simp: counts_ok_def)
  have fsum: "(\<Sum>t<rfec_stripes sl. fb ! t) = (\<Sum>t<rfec_stripes sl. rfec_blocks sl ! t) + 1"
    using s base by (simp add: fb_def sum_upd)
  have ft: "0 \<le> fb ! t \<and> fb ! t \<le> missing_data_blocks sl ! t" if "t < rfec_stripes sl" for t
    using m [OF that] u s base by (auto simp: fb_def nth_list_update s_def [symmetric])
  have ds: "adr (fd ! (t + j * rfec_stripes sl)) \<noteq> None" if t: "t < rfec_stripes sl" and j: "j < nat (fb ! t)" for t j
  proof (cases "t + j * rfec_stripes sl = a")
    case True
    then show ?thesis using a base by (simp add: fd_def)
  next
    case False
    have "j < nat (rfec_blocks sl ! t)"
    proof (cases "t = s")
      case True
      then have "j \<le> nat (rfec_blocks sl ! s)" using j s base m(2) [OF s] by (simp add: fb_def)
      moreover have "j \<noteq> nat (rfec_blocks sl ! s)" using False True by (auto simp: a_def)
      ultimately show ?thesis using True by simp
    next
      case False
      then show ?thesis using j by (simp add: fb_def)
    qed
    then show ?thesis using m(4) [OF t] False by (simp add: fd_def)
  qed
  have "\<forall>t < rfec_stripes sl. missing_data_blocks sl ! t = int (card (lacks n (fec_block_slice p b sl) t)) \<and> 0 \<le> fb ! t
      \<and> fb ! t \<le> missing_data_blocks sl ! t \<and> (\<forall>j < nat (fb ! t). adr (fd ! (t + j * rfec_stripes sl)) \<noteq> None)"
    unfolding l using m(1) ft ds by blast
  moreover have "length fb = MAX_FEC_INTERLEAVE" "length fd = MAX_SLICE_SIZE" using base by (simp_all add: fb_def fd_def)
  moreover have "blocksTransferred sl + 1 = dataBlocksTransferred sl + (\<Sum>t<rfec_stripes sl. fb ! t)" using base(5) fsum by linarith
  ultimately show ?thesis unfolding counts_ok_def sel using base by blast
qed

subsection \<open>The start of FEC in a slice\<close>

definition bump :: "nat \<Rightarrow> rslice \<Rightarrow> rslice" where
  "bump j sl = (if BIT_ISSET j (rmap sl) then sl else
     sl\<lparr>missing_data_blocks := (missing_data_blocks sl)[j mod rfec_stripes sl := missing_data_blocks sl ! (j mod rfec_stripes sl) + 1]\<rparr>)"

definition counted :: "nat \<Rightarrow> rslice \<Rightarrow> rslice \<Rightarrow> bool" where
  \<comment> \<open>the missing blocks below \<open>j\<close> are counted, on top of \<open>sl\<close>\<close>
  "counted j sl sl' \<longleftrightarrow> (\<exists>m. sl' = sl\<lparr>missing_data_blocks := m\<rparr> \<and> length m = MAX_FEC_INTERLEAVE
     \<and> (\<forall>s < rfec_stripes sl. m ! s = int (card (lacks j sl s))))"

lemma lacks_Suc: "lacks (Suc j) sl s = (if j mod rfec_stripes sl = s \<and> \<not> BIT_ISSET j (rmap sl) then insert j (lacks j sl s) else lacks j sl s)"
  by (auto simp: lacks_def less_Suc_eq)

lemma counted_bump:
  assumes "counted j sl sl'" and st: "0 < rfec_stripes sl" "rfec_stripes sl \<le> MAX_FEC_INTERLEAVE"
  shows "counted (Suc j) sl (bump j sl')"
proof -
  obtain m where m: "sl' = sl\<lparr>missing_data_blocks := m\<rparr>" "length m = MAX_FEC_INTERLEAVE"
    "\<forall>s < rfec_stripes sl. m ! s = int (card (lacks j sl s))" using assms(1) by (auto simp: counted_def)
  have j: "j \<notin> lacks j sl s" for s by (simp add: lacks_def)
  define m' where "m' = (if BIT_ISSET j (rmap sl) then m else m[j mod rfec_stripes sl := m ! (j mod rfec_stripes sl) + 1])"
  have "bump j sl' = sl\<lparr>missing_data_blocks := m'\<rparr>" by (simp add: bump_def m(1) m'_def rmap_def)
  moreover have "m' ! s = int (card (lacks (Suc j) sl s))" if "s < rfec_stripes sl" for s
    using m that j [of s] st by (auto simp: lacks_Suc m'_def nth_list_update)
  moreover have "length m' = MAX_FEC_INTERLEAVE" using m by (simp add: m'_def)
  ultimately show ?thesis by (auto simp: counted_def)
qed

lemma counted_byte:
  assumes c: "counted (min (i * 8) nb) sl sl'" and st: "0 < rfec_stripes sl" "rfec_stripes sl \<le> MAX_FEC_INTERLEAVE"
    and i: "i * 8 < nb" "nb \<le> MAX_SLICE_SIZE"
  shows "\<exists>sl''. count_missing nb i sl' = Done sl'' \<and> counted (min (Suc i * 8) nb) sl sl''"
proof -
  have sel: "rmap sl' = rmap sl" "rfec_stripes sl' = rfec_stripes sl" using c by (auto simp: counted_def rmap_def)
  have i': "i < MAX_SLICE_SIZE div 8" using i by (simp add: MAX_SLICE_SIZE_def)
  let ?f = "\<lambda>j sl. if \<not> BIT_ISSET j (rmap sl) then
              and_then (in_bounds (rfec_stripes sl \<noteq> 0)) (\<lambda>_.
                let s = j mod rfec_stripes sl
                in Done (sl\<lparr>missing_data_blocks := (missing_data_blocks sl)[s := missing_data_blocks sl ! s + 1]\<rparr>))
            else Done sl"
  have loop: "\<exists>sl''. each ?f [i * 8..<b] sl' = Done sl'' \<and> counted b sl sl''" if "i * 8 \<le> b" "b \<le> nb" for b
    using that
  proof (induction b)
    case 0
    then show ?case using c by simp
  next
    case (Suc b)
    show ?case
    proof (cases "i * 8 = Suc b")
      case True
      then show ?thesis using c Suc.prems by (auto simp: min_def)
    next
      case False
      then obtain x where x: "each ?f [i * 8..<b] sl' = Done x" "counted b sl x" using Suc by auto
      have "rfec_stripes x = rfec_stripes sl" using x(2) by (auto simp: counted_def)
      then have "?f b x = Done (bump b x)" using st by (simp add: bump_def Let_def)
      then show ?thesis using x counted_bump [OF x(2) st] False Suc.prems by (simp add: each_append)
    qed
  qed
  have b: "i * 8 \<le> min (i * 8 + 8) nb" "min (i * 8 + 8) nb \<le> nb" using i by auto
  show ?thesis
  proof (cases "rmap sl ! i = 0xff")
    case True
    have skip: "counted b sl sl'" if "i * 8 \<le> b" "b \<le> i * 8 + 8" for b
    proof -
      have set: "BIT_ISSET j (rmap sl)" if "i * 8 \<le> j" "j < i * 8 + 8" for j
      proof -
        have "j div 8 = i" using that by auto
        moreover have "bit (0xff :: byte) (j mod 8)"
        proof -
          have "(0xff :: byte) = -1" by simp
          moreover have "bit (-1 :: byte) (j mod 8)" by simp
          ultimately show ?thesis by (simp only:)
        qed
        ultimately show ?thesis using True by (simp add: BIT_ISSET_def)
      qed
      have "x < b \<and> \<not> BIT_ISSET x (rmap sl) \<longleftrightarrow> x < i * 8 \<and> \<not> BIT_ISSET x (rmap sl)" for x
        using set [of x] that by (cases "x < i * 8") auto
      then have "lacks b sl s = lacks (i * 8) sl s" for s by (simp add: lacks_def) blast
      then show ?thesis using c i by (auto simp: counted_def min_def)
    qed
    then show ?thesis using True i i' by (auto simp: count_missing_def sel min_def)
  next
    case False
    then show ?thesis using loop [OF b] i' by (auto simp: count_missing_def sel ac_simps)
  qed
qed

lemma count_missing_all:
  assumes c: "counted 0 sl sl'" and st: "0 < rfec_stripes sl" "rfec_stripes sl \<le> MAX_FEC_INTERLEAVE" and n: "nb \<le> MAX_SLICE_SIZE"
  shows "\<exists>sl''. each (count_missing nb) [0..<(nb + 7) div 8] sl' = Done sl'' \<and> counted nb sl sl''"
proof -
  have "\<exists>sl''. each (count_missing nb) [0..<i] sl' = Done sl'' \<and> counted (min (i * 8) nb) sl sl''" if "i \<le> (nb + 7) div 8" for i
    using that
  proof (induction i)
    case 0
    then show ?case using c by simp
  next
    case (Suc i)
    then obtain x where x: "each (count_missing nb) [0..<i] sl' = Done x" "counted (min (i * 8) nb) sl x" by auto
    have "i * 8 < nb" using Suc.prems by linarith
    then show ?case using counted_byte [OF x(2) st _ n] x(1) by (auto simp: each_append)
  qed
  moreover have "min ((nb + 7) div 8 * 8) nb = nb" by linarith
  ultimately have "\<exists>sl''. each (count_missing nb) [0..<(nb + 7) div 8] sl' = Done sl'' \<and> counted nb sl sl''"
    by (metis order_refl)
  then show ?thesis by simp
qed

end
