(* ===== verification/ReceiveInv.thy ===== *)
theory ReceiveInv
  imports ReceiveSlices
begin

text \<open>
  The invariant \<open>client_inv\<close> of the receiver: every slice in use counts its blocks exactly,
  and a slice handed to the FEC thread is complete.  Every operation of the network thread of
  \<^verbatim>\<open>src/receivedata.c\<close> keeps it, on packets whose numbers are within the bounds of the
  protocol.
\<close>

subsection \<open>The invariant of the receiver\<close>

definition nr_known :: "net_config \<Rightarrow> rslice \<Rightarrow> nat" where
  "nr_known c sl = (if bytesKnown sl then nat (slice_blocks c (rbytes sl)) else MAX_SLICE_SIZE)"

definition slice_good :: "net_config \<Rightarrow> rslice \<Rightarrow> bool" where
  "slice_good c sl \<longleftrightarrow> magic sl \<and> counts_ok (nr_known c sl) sl \<and> free_ok sl
     \<and> (rfec_stripes sl \<noteq> 0 \<longrightarrow> nr_known c sl \<le> 128 * rfec_stripes sl)
     \<and> (if bytesKnown sl then 0 \<le> slice_blocks c (rbytes sl) else rfec_stripes sl = 0 \<and> bits_of (rmap sl) = {})"

definition slice_sound :: "net_config \<Rightarrow> rslice \<Rightarrow> bool" where
  \<comment> \<open>good, but for the addresses of its FEC blocks, which were given back\<close>
  "slice_sound c sl \<longleftrightarrow> (\<exists>ds. slice_good c (sl\<lparr>fec_descs := ds\<rparr>))"

definition busy_ok :: "net_config \<Rightarrow> rslice \<Rightarrow> bool" where
  \<comment> \<open>for a slice in use; one that waits for the FEC thread is complete\<close>
  "busy_ok c sl \<longleftrightarrow> (rstate sl \<in> {SLICE_RECEIVING, SLICE_DONE, SLICE_FEC} \<longrightarrow> slice_good c sl)
     \<and> (rstate sl = SLICE_FEC \<longrightarrow> bytesKnown sl \<and> blocksTransferred sl = slice_blocks c (rbytes sl))
     \<and> (rstate sl = SLICE_FEC_DONE \<longrightarrow> slice_sound c sl)"

definition queue_ok :: "client_state \<Rightarrow> bool" where
  \<comment> \<open>the queue of the FEC thread\<close>
  "queue_ok cs \<longleftrightarrow> length (fec_slices cs) = RNR_SLICES \<and> (\<forall>k \<in> set (fec_slices cs). k < RNR_SLICES)
     \<and> pc_size (rfec_data_pc cs) = of_nat RNR_SLICES"

declare queue_ok_def [simp]

definition client_inv :: "client_state \<Rightarrow> bool" where
  "client_inv cs \<longleftrightarrow> 0 < blockSize (rconfig cs) \<and> \<not> has_flag (rconfig cs) FLAG_IGNORE_LOST_DATA \<and> sender_is_newgen cs
     \<and> length (rslices cs) = RNR_SLICES \<and> pc_size (rfree_slices_pc cs) = of_nat RNR_SLICES
     \<and> (\<forall>k \<in> set_option (currentSlice cs). k < RNR_SLICES) \<and> queue_ok cs
     \<and> (\<forall>k < RNR_SLICES. busy_ok (rconfig cs) (rslice_at cs k))"

definition frame :: "nat set \<Rightarrow> client_state \<Rightarrow> client_state \<Rightarrow> bool" where
  \<comment> \<open>what the invariant depends on is unchanged but for the slices in \<open>K\<close>\<close>
  "frame K cs cs' \<longleftrightarrow> blockSize (rconfig cs') = blockSize (rconfig cs)
     \<and> (has_flag (rconfig cs') FLAG_IGNORE_LOST_DATA \<longrightarrow> has_flag (rconfig cs) FLAG_IGNORE_LOST_DATA)
     \<and> sender_is_newgen cs' = sender_is_newgen cs \<and> length (rslices cs') = length (rslices cs)
     \<and> pc_size (rfree_slices_pc cs') = pc_size (rfree_slices_pc cs) \<and> currentSlice cs' = currentSlice cs
     \<and> dataBufSize (rfifo cs') = dataBufSize (rfifo cs)
     \<and> fec_slices cs' = fec_slices cs \<and> rfec_data_pc cs' = rfec_data_pc cs
     \<and> (\<forall>j. j \<notin> K \<longrightarrow> rslice_at cs' j = rslice_at cs j)"

lemma mem_at_upd [simp]: "mem_at (upd_rslice k f cs) = mem_at cs"
  by (rule ext) (simp add: mem_at_def cong: address.case_cong)

lemma frame_refl [simp]: "frame K cs cs" by (simp add: frame_def)

lemma frame_trans: "frame K cs cs' \<Longrightarrow> frame K cs' cs'' \<Longrightarrow> frame K cs cs''"
  by (auto simp: frame_def)

lemma frame_mono: "frame K cs cs' \<Longrightarrow> K \<subseteq> L \<Longrightarrow> frame L cs cs'"
  by (auto simp: frame_def)

lemma frame_upd [simp]: "frame {k} cs (upd_rslice k f cs)"
  by (cases "k < length (rslices cs)") (auto simp: frame_def upd_rslice_def rslice_at_def)

lemma slice_blocks_cong: "blockSize c = blockSize c' \<Longrightarrow> slice_blocks c b = slice_blocks c' b"
  by (simp add: slice_blocks_def)

lemma busy_ok_cong: "blockSize c = blockSize c' \<Longrightarrow> busy_ok c sl = busy_ok c' sl"
  by (simp add: busy_ok_def slice_sound_def slice_good_def nr_known_def slice_blocks_def)

lemma good_sound: "slice_good c sl \<Longrightarrow> slice_sound c sl"
  unfolding slice_sound_def by (rule exI [of _ "fec_descs sl"]) simp

lemma client_inv_frame:
  assumes "client_inv cs" and "frame K cs cs'" and "\<And>k. k \<in> K \<Longrightarrow> k < RNR_SLICES \<Longrightarrow> busy_ok (rconfig cs) (rslice_at cs' k)"
  shows "client_inv cs'"
proof -
  have bs: "blockSize (rconfig cs') = blockSize (rconfig cs)" using assms(2) by (simp add: frame_def)
  have "busy_ok (rconfig cs) (rslice_at cs' k)" if "k < RNR_SLICES" for k
    using assms that by (cases "k \<in> K") (auto simp: frame_def client_inv_def)
  then show ?thesis using assms(1,2) busy_ok_cong [OF bs] by (auto simp: client_inv_def frame_def queue_ok_def)
qed

lemma slice_blocks_nonneg: "0 \<le> b \<Longrightarrow> 0 < blockSize c \<Longrightarrow> 0 \<le> slice_blocks c b"
  by (simp add: slice_blocks_def signed_divide_int_def sgn_if pos_imp_zdiv_nonneg_iff)

lemma good_bytes:
  assumes "slice_good c sl" and "\<not> bytesKnown sl" and "0 \<le> slice_blocks c b" and "slice_blocks c b \<le> int MAX_SLICE_SIZE"
  shows "slice_good c (sl\<lparr>bytesKnown := True, rbytes := b\<rparr>)"
  using assms by (auto simp: slice_good_def nr_known_def counts_ok_def rmap_def free_ok_def)

lemma sound_bytes:
  assumes "slice_sound c sl" and "\<not> bytesKnown sl" and "0 \<le> slice_blocks c b" and "slice_blocks c b \<le> int MAX_SLICE_SIZE"
  shows "slice_sound c (sl\<lparr>bytesKnown := True, rbytes := b\<rparr>)"
proof -
  obtain ds where "slice_good c (sl\<lparr>fec_descs := ds\<rparr>)" using assms(1) by (auto simp: slice_sound_def)
  from good_bytes [OF this _ assms(3,4)] assms(2)
  have "slice_good c ((sl\<lparr>fec_descs := ds\<rparr>)\<lparr>bytesKnown := True, rbytes := b\<rparr>)" by simp
  moreover have "(sl\<lparr>fec_descs := ds\<rparr>)\<lparr>bytesKnown := True, rbytes := b\<rparr> = (sl\<lparr>bytesKnown := True, rbytes := b\<rparr>)\<lparr>fec_descs := ds\<rparr>"
    by (cases sl) simp
  ultimately show ?thesis unfolding slice_sound_def by (intro exI [of _ ds]) (simp only:)
qed

lemma setSliceBytes_spec:
  assumes "setSliceBytes k cs b = Done cs'"
  shows "(if k < length (rslices cs) then rslice_at cs' k = (rslice_at cs k)\<lparr>bytesKnown := True, rbytes := b\<rparr> else True)
    \<and> frame {k} cs cs' \<and> magic (rslice_at cs k) \<and> (bytesKnown (rslice_at cs k) \<longrightarrow> rbytes (rslice_at cs k) = b \<and> cs' = cs)
    \<and> mem_at cs' = mem_at cs \<and> rnextBlock cs' = rnextBlock cs \<and> iov_base cs' = iov_base cs \<and> use_fec cs' = use_fec cs
    \<and> dataBufSize (rfifo cs') = dataBufSize (rfifo cs)"
proof (cases "bytesKnown (rslice_at cs k)")
  case True
  then show ?thesis using assms by (auto simp: setSliceBytes_def outcome_Done split: if_splits)
next
  case False
  let ?cs1 = "upd_rslice k (\<lambda>sl. sl\<lparr>bytesKnown := True, rbytes := b\<rparr>) cs"
  have "magic (rslice_at cs k)" using assms by (simp add: setSliceBytes_def outcome_Done)
  moreover obtain fq ne where "cs' = ?cs1\<lparr>netEndReached := ne, rfifo := (rfifo cs)\<lparr>freeMemQueue := fq\<rparr>\<rparr>"
  proof (cases "b = 0"; cases "has_flag (rconfig cs) FLAG_RSTREAMING")
    assume "b = 0" "has_flag (rconfig cs) FLAG_RSTREAMING"
    then have "cs' = ?cs1\<lparr>netEndReached := 1, rfifo := (rfifo cs)\<lparr>freeMemQueue := freeMemQueue (rfifo cs)\<rparr>\<rparr>"
      using assms False by (cases cs) (auto simp: setSliceBytes_def outcome_Done upd_rslice_def rslice_at_def)
    then show ?thesis by (rule that)
  next
    assume "b = 0" "\<not> has_flag (rconfig cs) FLAG_RSTREAMING"
    then have "cs' = ?cs1\<lparr>netEndReached := 1, rfifo := (rfifo cs)\<lparr>freeMemQueue := pc_consumed (freeMemQueue (rfifo cs)) (word_of_int b)\<rparr>\<rparr>"
      using assms False by (cases cs) (auto simp: setSliceBytes_def outcome_Done upd_rslice_def rslice_at_def)
    then show ?thesis by (rule that)
  next
    assume "b \<noteq> 0" "has_flag (rconfig cs) FLAG_RSTREAMING"
    then have "cs' = ?cs1\<lparr>netEndReached := netEndReached ?cs1, rfifo := (rfifo cs)\<lparr>freeMemQueue := freeMemQueue (rfifo cs)\<rparr>\<rparr>"
      using assms False by (cases cs) (auto simp: setSliceBytes_def outcome_Done upd_rslice_def rslice_at_def)
    then show ?thesis by (rule that)
  next
    assume "b \<noteq> 0" "\<not> has_flag (rconfig cs) FLAG_RSTREAMING"
    then have "cs' = ?cs1\<lparr>netEndReached := netEndReached ?cs1, rfifo := (rfifo cs)\<lparr>freeMemQueue := pc_consumed (freeMemQueue (rfifo cs)) (word_of_int b)\<rparr>\<rparr>"
      using assms False by (cases cs) (auto simp: setSliceBytes_def outcome_Done upd_rslice_def rslice_at_def)
    then show ?thesis by (rule that)
  qed
  then have eq: "cs' = ?cs1\<lparr>netEndReached := ne, rfifo := (rfifo cs)\<lparr>freeMemQueue := fq\<rparr>\<rparr>" .
  have "frame {} ?cs1 cs'" unfolding eq by (simp add: frame_def rslice_at_def)
  then have "frame {k} cs cs'" using frame_trans [OF frame_upd] frame_mono by blast
  moreover have "mem_at cs' = mem_at cs" unfolding eq by (rule ext) (simp add: mem_at_def cong: address.case_cong)
  ultimately show ?thesis using False by (simp add: eq rslice_at_def upd_rslice_def)
qed

lemma busy_bytes:
  assumes "busy_ok c sl" and "\<not> bytesKnown sl" and "0 \<le> slice_blocks c b" and "slice_blocks c b \<le> int MAX_SLICE_SIZE"
  shows "busy_ok c (sl\<lparr>bytesKnown := True, rbytes := b\<rparr>)"
  using assms good_bytes [of c sl b] sound_bytes [of c sl b] by (auto simp: busy_ok_def)

lemma setSliceBytes_inv:
  assumes inv: "client_inv cs" and s: "setSliceBytes k cs b = Done cs'" and b: "0 \<le> b" "slice_blocks (rconfig cs) b \<le> int MAX_SLICE_SIZE"
  shows "client_inv cs'"
proof (cases "bytesKnown (rslice_at cs k)")
  case True
  then show ?thesis using setSliceBytes_spec [OF s] inv by simp
next
  case False
  have "0 \<le> slice_blocks (rconfig cs) b" using inv b by (intro slice_blocks_nonneg) (simp_all add: client_inv_def)
  then have "busy_ok (rconfig cs) (rslice_at cs' k)" if "k < RNR_SLICES"
    using setSliceBytes_spec [OF s] inv that False b busy_bytes [of "rconfig cs" "rslice_at cs k" b]
    by (simp add: client_inv_def)
  then show ?thesis using client_inv_frame [OF inv, of "{k}" cs'] setSliceBytes_spec [OF s] by auto
qed

lemma advance_loop_keeps:
  "advance_loop n pos cs = Done cs' \<Longrightarrow> rslices cs' = rslices cs \<and> frame {} cs cs'
    \<and> dataBuffer (rfifo cs') = dataBuffer (rfifo cs) \<and> blockData cs' = blockData cs \<and> use_fec cs' = use_fec cs"
proof (induction n arbitrary: pos cs)
  case (Suc n)
  then show ?case by (auto simp: Let_def frame_def rslice_at_def split: if_splits) (auto dest!: Suc.IH simp: frame_def rslice_at_def)
qed simp

lemma advance_keeps:
  "advanceReceivedPointer cs = Done cs' \<Longrightarrow> rslices cs' = rslices cs \<and> frame {} cs cs'
    \<and> dataBuffer (rfifo cs') = dataBuffer (rfifo cs) \<and> blockData cs' = blockData cs \<and> use_fec cs' = use_fec cs"
  unfolding advanceReceivedPointer_def by (rule advance_loop_keeps)

lemma busy_free: "busy_ok c (sl\<lparr>rstate := RSLICE_FREE\<rparr>)" by (simp add: busy_ok_def)

lemma client_inv_cong:
  assumes "client_inv cs" and "rslices cs' = rslices cs" and "rconfig cs' = rconfig cs" and "currentSlice cs' = currentSlice cs"
    and "pc_size (rfree_slices_pc cs') = pc_size (rfree_slices_pc cs)" and "sender_is_newgen cs' = sender_is_newgen cs"
    and "queue_ok cs \<Longrightarrow> queue_ok cs'"
  shows "client_inv cs'"
  using assms(1) assms(7) by (simp add: client_inv_def assms(2-6) rslice_at_cong [OF assms(2)])

lemma cleanup_loop_inv: "client_inv cs \<Longrightarrow> cleanup_loop n d cs = Done cs' \<Longrightarrow> client_inv cs'"
proof (induction n arbitrary: cs)
  case (Suc n)
  define pos where "pos = unat (pc_getProducerPosition (rfree_slices_pc cs))"
  show ?case
  proof (cases "rstate (rslice_at cs pos) = d")
    case False
    then show ?thesis using Suc.prems by (simp add: pos_def [symmetric] Let_def)
  next
    case True
    then obtain da pc cs1 where
      cs1: "cs1 = upd_rslice pos (rstate_update (\<lambda>_. RSLICE_FREE)) (cs\<lparr>rstats := receiverStatsAddBytes (rstats cs) (rbytes (rslice_at cs pos)),
                rfifo := (rfifo cs)\<lparr>data := da\<rparr>\<rparr>)"
      and pc: "pc_produce (rfree_slices_pc cs1) 1 = Some pc"
      and r: "cleanup_loop n d (if rbytes (rslice_at cs pos) = 0 then cs1\<lparr>rfree_slices_pc := pc, endReached := 2\<rparr> else cs1\<lparr>rfree_slices_pc := pc\<rparr>) = Done cs'"
      using Suc.prems(2) by (auto simp: pos_def [symmetric] Let_def outcome_Done cong: if_cong)
    have "client_inv cs1"
    proof (rule client_inv_frame [OF Suc.prems(1), where K = "{pos}"])
      show "frame {pos} cs cs1" unfolding cs1 by (rule frame_trans [OF _ frame_upd]) (simp add: frame_def rslice_at_def)
      show "busy_ok (rconfig cs) (rslice_at cs1 k)" if "k \<in> {pos}" "k < RNR_SLICES" for k
        using that Suc.prems(1) by (simp add: cs1 client_inv_def busy_ok_def)
    qed
    then have "client_inv (if rbytes (rslice_at cs pos) = 0 then cs1\<lparr>rfree_slices_pc := pc, endReached := 2\<rparr> else cs1\<lparr>rfree_slices_pc := pc\<rparr>)"
      using pc_produce_size [OF pc] by (auto intro: client_inv_cong)
    then show ?thesis by (rule Suc.IH [OF _ r])
  qed
qed simp


lemma cleanupSlices_inv: "client_inv cs \<Longrightarrow> cleanupSlices cs d = Done cs' \<Longrightarrow> client_inv cs'"
  unfolding cleanupSlices_def by (rule cleanup_loop_inv)

lemma frame_inv0: "client_inv cs \<Longrightarrow> frame {} cs cs' \<Longrightarrow> client_inv cs'"
  by (rule client_inv_frame [where K = "{}"]) auto

lemma advance_inv: "client_inv cs \<Longrightarrow> advanceReceivedPointer cs = Done cs' \<Longrightarrow> client_inv cs'"
  using advance_keeps frame_inv0 by blast

lemma has_flag_clear: "has_flag (c\<lparr>flags := flags c AND NOT m\<rparr>) f \<Longrightarrow> has_flag c f"
  by (auto simp: has_flag_def and.assoc and.left_commute)

lemma end_streaming_frame: "frame {} cs (end_streaming sl cs)"
  by (auto simp: end_streaming_def frame_def rslice_at_def dest: has_flag_clear)

lemma end_streaming_sel [simp]:
  "rslice_at (end_streaming sl cs) k = rslice_at cs k" "use_fec (end_streaming sl cs) = use_fec cs"
  "length (rslices (end_streaming sl cs)) = length (rslices cs)"
  by (simp_all add: end_streaming_def rslice_at_def)

lemma complete_state:
  assumes b: "busy_ok c sl" and st: "rstate sl = SLICE_RECEIVING" and full: "slice_blocks c (rbytes sl) = blocksTransferred sl"
  shows "slice_blocks c (rbytes sl) = dataBlocksTransferred sl \<Longrightarrow> busy_ok c (sl\<lparr>rstate := SLICE_DONE\<rparr>)"
    and "slice_blocks c (rbytes sl) \<noteq> dataBlocksTransferred sl \<Longrightarrow> busy_ok c (sl\<lparr>rstate := SLICE_FEC\<rparr>)"
proof -
  have g: "slice_good c sl" using b st by (simp add: busy_ok_def)
  have "counts_ok n (sl\<lparr>rstate := x\<rparr>) = counts_ok n sl" for n x by (simp add: counts_ok_def rmap_def lacks_def)
  then have g': "slice_good c (sl\<lparr>rstate := x\<rparr>)" for x
    using g by (auto simp: slice_good_def nr_known_def rmap_def free_ok_def split: if_splits)
  from g' show "busy_ok c (sl\<lparr>rstate := SLICE_DONE\<rparr>)" by (simp add: busy_ok_def)
  assume "slice_blocks c (rbytes sl) \<noteq> dataBlocksTransferred sl"
  then have "bytesKnown sl" using g full by (auto simp: slice_good_def counts_ok_def split: if_splits)
  then show "busy_ok c (sl\<lparr>rstate := SLICE_FEC\<rparr>)" using g' full by (simp add: busy_ok_def)
qed

lemma checkSliceComplete_inv:
  assumes inv: "client_inv cs" and k: "k < RNR_SLICES" and c: "checkSliceComplete cs k = Done cs'"
  shows "client_inv cs'"
proof (cases "rstate (rslice_at cs k) = SLICE_RECEIVING \<and> slice_blocks (rconfig cs) (rbytes (rslice_at cs k)) = blocksTransferred (rslice_at cs k)")
  case False
  then have "cs' = cs" using c by (auto simp: checkSliceComplete_def outcome_Done split: if_splits)
  then show ?thesis using inv by simp
next
  case True
  let ?sl = "rslice_at cs k"
  define cs1 where "cs1 = end_streaming ?sl cs"
  have f1: "frame {} cs cs1" unfolding cs1_def by (rule end_streaming_frame)
  then have sl1: "rslice_at cs1 k = ?sl" "length (rslices cs1) = RNR_SLICES" using inv by (auto simp: frame_def client_inv_def)
  define n where "n = slice_blocks (rconfig cs) (rbytes ?sl)"
  define finish where "finish = (\<lambda>cs. if use_fec cs then
               let n = unat (pc_getProducerPosition (rfec_data_pc cs))
               in and_then (check (rstate (rslice_at cs k) = SLICE_DONE \<or> rstate (rslice_at cs k) = SLICE_FEC)) (\<lambda>_.
                    let cs = cs\<lparr>fec_slices := (fec_slices cs)[n := k]\<rparr>
                    in and_then (or_abort (pc_produce (rfec_data_pc cs) 1)) (\<lambda>pc. Done (cs\<lparr>rfec_data_pc := pc\<rparr>)))
             else cleanupSlices cs SLICE_DONE)"
  have "magic ?sl" "blockSize (rconfig cs) \<noteq> 0" using c True by (auto simp: checkSliceComplete_def outcome_Done)
  then have "checkSliceComplete cs k = and_then (if n = dataBlocksTransferred ?sl then Done (upd_rslice k (rstate_update (\<lambda>_. SLICE_DONE)) cs1)
           else and_then (check (use_fec cs1)) (\<lambda>_. Done (upd_rslice k (rstate_update (\<lambda>_. SLICE_FEC)) cs1)))
         (\<lambda>cs. and_then (advanceReceivedPointer cs) finish)"
    using True by (simp add: checkSliceComplete_def n_def cs1_def finish_def Let_def)
  then have "\<dots> = Done cs'" using c by simp
  then obtain cs2 cs3 where
    cs2: "(if n = dataBlocksTransferred ?sl then Done (upd_rslice k (rstate_update (\<lambda>_. SLICE_DONE)) cs1)
           else and_then (check (use_fec cs1)) (\<lambda>_. Done (upd_rslice k (rstate_update (\<lambda>_. SLICE_FEC)) cs1))) = Done cs2"
    and cs3: "advanceReceivedPointer cs2 = Done cs3" and r: "finish cs3 = Done cs'"
    unfolding and_then_Done [of _ "\<lambda>cs. and_then (advanceReceivedPointer cs) finish"]
      and_then_Done [of _ finish] by blast
  have bk: "busy_ok (rconfig cs) ?sl" using inv k by (simp add: client_inv_def)
  have "rslice_at cs2 k = ?sl\<lparr>rstate := if n = dataBlocksTransferred ?sl then SLICE_DONE else SLICE_FEC\<rparr> \<and> frame {k} cs1 cs2"
    using cs2 sl1 k by (auto simp: outcome_Done split: if_splits)
  then have "client_inv cs2"
    using client_inv_frame [OF inv, of "{k}" cs2] frame_trans [OF frame_mono [OF f1]] complete_state [OF bk] True
    by (auto simp: n_def)
  then have inv3: "client_inv cs3" using cs3 by (rule advance_inv)
  show ?thesis
  proof (cases "use_fec cs3")
    case False
    then show ?thesis using r cleanupSlices_inv [OF inv3] by (simp add: finish_def)
  next
    case True
    then obtain pc n where cs': "cs' = cs3\<lparr>fec_slices := (fec_slices cs3)[n := k], rfec_data_pc := pc\<rparr>"
      and "pc_produce (rfec_data_pc cs3) 1 = Some pc"
      using r by (auto simp: finish_def outcome_Done Let_def)
    moreover have "set ((fec_slices cs3)[n := k]) \<subseteq> insert k (set (fec_slices cs3))" by (rule set_update_subset_insert)
    ultimately have "queue_ok cs3 \<Longrightarrow> queue_ok cs'" using k pc_produce_size by auto
    then show ?thesis by (rule client_inv_cong [OF inv3, rotated -1]) (simp_all add: cs')
  qed
qed

subsection \<open>Slices found and made\<close>

lemma fresh_slice: "busy_ok c (clear_slice no (reset_slice sl))"
proof -
  have "bits_of (replicate (MAX_SLICE_SIZE div 8) 0) = {}" by simp
  moreover have "\<not> BIT_ISSET 0 (replicate (MAX_SLICE_SIZE div 8) 0)" by (rule BIT_ISSET_zero) (simp add: MAX_SLICE_SIZE_def)
  ultimately show ?thesis
    by (simp add: busy_ok_def slice_good_def nr_known_def counts_ok_def clear_slice_def reset_slice_def rmap_def zero_message_def free_ok_def)
qed

lemma initSlice_inv:
  assumes inv: "client_inv cs" and k: "k < RNR_SLICES" and i: "initSlice cs k no = Done cs'"
  shows "client_inv cs' \<and> currentSlice cs' = Some k \<and> magic (rslice_at cs' k)"
proof -
  let ?cs1 = "upd_rslice k reset_slice cs"
  have ign: "\<not> has_flag (rconfig cs) FLAG_IGNORE_LOST_DATA" using inv by (simp add: client_inv_def)
  have len: "length (rslices cs) = RNR_SLICES" using inv by (simp add: client_inv_def)
  have "cs' = (upd_rslice k (clear_slice no) ?cs1)\<lparr>currentSlice := Some k, currentSliceNo := no\<rparr>"
    using i ign by (auto simp: initSlice_def outcome_Done Let_def split: option.splits if_splits)
  moreover have "client_inv (upd_rslice k (clear_slice no) ?cs1)"
    by (rule client_inv_frame [OF inv, where K = "{k}"]) (use frame_trans [OF frame_upd frame_upd, of k cs] in \<open>auto simp: len k fresh_slice\<close>)
  ultimately show ?thesis using k len
    by (simp add: client_inv_def rslice_at_def upd_rslice_def clear_slice_def reset_slice_def)
qed

lemma newSlice_inv:
  assumes inv: "client_inv cs" and n: "newSlice cs no = Done (cs', k)"
  shows "client_inv cs' \<and> k < RNR_SLICES \<and> currentSlice cs' = Some k"
proof -
  obtain pc a where pc: "pc_consume (rfree_slices_pc cs) 1 [] = Some (pc, a)" using n by (auto simp: newSlice_def outcome_Done)
  have sz: "pc_size pc = of_nat RNR_SLICES"
    using consumeAny_spec [of "rfree_slices_pc cs" 1 "[]" pc a] pc inv by (simp add: pc_consume_def client_inv_def)
  define i where "i = unat (pc_getConsumerPosition pc)"
  have i: "i < RNR_SLICES" using position_lt [of pc] by (simp add: i_def sz RNR_SLICES_def)
  obtain fq b where ki: "k = i" and free: "rstate (rslice_at cs i) = RSLICE_FREE"
    and r: "initSlice ((upd_rslice i (rbase_update (\<lambda>_. b)) (cs\<lparr>rfree_slices_pc := pc_consumed pc 1\<rparr>))
        \<lparr>rfifo := (rfifo cs)\<lparr>freeMemQueue := fq\<rparr>\<rparr>) i no = Done cs'"
    using n pc by (auto simp: newSlice_def outcome_Done Let_def i_def rslice_at_def)
  let ?cs1 = "(upd_rslice i (rbase_update (\<lambda>_. b)) (cs\<lparr>rfree_slices_pc := pc_consumed pc 1\<rparr>))
        \<lparr>rfifo := (rfifo cs)\<lparr>freeMemQueue := fq\<rparr>\<rparr>"
  have "client_inv ?cs1"
  proof (rule client_inv_frame [OF inv, where K = "{i}"])
    have "pc_size (pc_consumed pc 1) = pc_size (rfree_slices_pc cs)" using sz inv by (simp add: pc_consumed_def Let_def client_inv_def)
    then show "frame {i} cs ?cs1" by (auto simp: frame_def upd_rslice_def rslice_at_def)
    have "rstate (rslice_at ?cs1 i) = RSLICE_FREE"
      using free i inv by (simp add: rslice_at_def upd_rslice_def client_inv_def)
    then show "busy_ok (rconfig cs) (rslice_at ?cs1 j)" if "j \<in> {i}" for j using that by (simp add: busy_ok_def)
  qed
  from initSlice_inv [OF this i r] show ?thesis by (simp add: ki i)
qed

lemma search_slice_lt: "search_slice n cs pos no = Done (Some k) \<Longrightarrow> pos < RNR_SLICES \<Longrightarrow> k < RNR_SLICES"
  by (induction n arbitrary: pos) (auto simp: Let_def outcome_Done RNR_SLICES_def split: if_splits)

lemma find_slice_inv:
  "find_slice n cs no = Done (cs', r) \<Longrightarrow> client_inv cs \<Longrightarrow> client_inv cs' \<and> (\<forall>k \<in> set_option r. k < RNR_SLICES)"
  "catch_up n cs no = Done (cs', r) \<Longrightarrow> client_inv cs \<Longrightarrow> client_inv cs' \<and> (\<forall>k \<in> set_option r. k < RNR_SLICES)"
proof (induction n cs no and n cs no arbitrary: cs' r and cs' r rule: find_slice_catch_up.induct)
  case (2 n cs no)
  show ?case
  proof (cases "currentSlice cs")
    case None
    have "client_inv (cs\<lparr>currentSliceNo := no - 1\<rparr>)" by (rule client_inv_cong [OF 2(3)]) simp_all
    then show ?thesis using None 2(2) newSlice_inv by (fastforce simp: outcome_Done)
  next
    case (Some c)
    then have c: "c < RNR_SLICES" using 2(3) by (simp add: client_inv_def)
    then show ?thesis using Some 2 search_slice_lt [of RNR_SLICES cs c no] initSlice_inv [OF 2(3) c]
      by (auto simp: outcome_Done split: if_splits)
  qed
next
  case (4 n cs no)
  note inv = 4(5) and find = 4(4)
  show ?case
  proof (cases "no > receivedSliceNo cs + 2 \<or> no \<noteq> currentSliceNo cs + 1")
    case True
    have "and_then (find_slice n cs (receivedSliceNo cs + 1)) (\<lambda>(cs, _).
          if has_flag (rconfig cs) FLAG_IGNORE_LOST_DATA
          then and_then (fakeSliceComplete (find_slice n) cs) (\<lambda>cs. catch_up n cs no)
          else Aborts) = Done (cs', r)"
      using find unfolding catch_up.simps if_P [OF True] .
    then obtain cs1 r1 where f: "find_slice n cs (receivedSliceNo cs + 1) = Done (cs1, r1)"
      and x: "(if has_flag (rconfig cs1) FLAG_IGNORE_LOST_DATA
          then and_then (fakeSliceComplete (find_slice n) cs1) (\<lambda>cs. catch_up n cs no)
          else Aborts) = Done (cs', r)"
      unfolding and_then_Done by (auto simp only: split: prod.splits)
    have "client_inv cs1" using 4(1) [OF True f inv] by simp
    then show ?thesis using x by (simp add: client_inv_def)
  next
    case False
    have "and_then (newSlice cs no) (\<lambda>(cs, k). Done (cs, Some k)) = Done (cs', r)"
      using find unfolding catch_up.simps if_not_P [OF False] .
    then obtain k where "newSlice cs no = Done (cs', k)" "r = Some k" by (auto simp: and_then_Done)
    then show ?thesis using newSlice_inv [OF inv] by simp
  qed
qed simp_all

end
