(* ===== verification/ReceivePackets.thy ===== *)
theory ReceivePackets
  imports ReceiveInv
begin

text \<open>
  The packets of \<^verbatim>\<open>src/receivedata.c\<close> keep the invariant of the receiver: what
  \<^verbatim>\<open>processDataBlock\<close>, \<^verbatim>\<open>processFecBlock\<close> and \<^verbatim>\<open>processReqAck\<close> do, step by step.
\<close>

subsection \<open>Packets\<close>

lemma rfindSlice_inv:
  "client_inv cs \<Longrightarrow> rfindSlice cs no = Done (cs', r) \<Longrightarrow> client_inv cs' \<and> (\<forall>k \<in> set_option r. k < RNR_SLICES)"
  unfolding rfindSlice_def using find_slice_inv(1) by blast

lemma client_len: "client_inv cs \<Longrightarrow> length (rslices cs) = RNR_SLICES" by (simp add: client_inv_def)

lemma client_busy: "client_inv cs \<Longrightarrow> k < RNR_SLICES \<Longrightarrow> busy_ok (rconfig cs) (rslice_at cs k)" by (simp add: client_inv_def)

lemma mem_write_frame [simp]: "frame K cs (mem_write a bs cs)"
  by (cases a) (auto simp: frame_def mem_write_def rslice_at_def)

lemma finish_fec_inv: "client_inv cs \<Longrightarrow> k < RNR_SLICES \<Longrightarrow> finish_fec cs k = Done cs' \<Longrightarrow> client_inv cs'"
  by (auto simp: finish_fec_def and_then_Done dest: checkSliceComplete_inv advance_inv)

definition marked :: "nat \<Rightarrow> rslice \<Rightarrow> rslice" where
  "marked i sl = sl\<lparr>retransmit := m_map_update (SET_BIT i) (retransmit sl)\<rparr>"

definition counted_in :: "rslice \<Rightarrow> rslice" where
  "counted_in sl = sl\<lparr>dataBlocksTransferred := dataBlocksTransferred sl + 1, blocksTransferred := blocksTransferred sl + 1,
     freePos := advance_free (rmap sl) (freePos sl)\<rparr>"

lemma drop_fec_block_spec:
  assumes d: "drop_fec_block cs k i = Done cs'" and k: "k < length (rslices cs)"
    and sl: "rslice_at cs k = marked i sl" and st: "rfec_stripes sl \<noteq> 0" "i mod rfec_stripes sl < length (rfec_blocks sl)"
  shows "frame {k} cs cs' \<and> counted_in (rslice_at cs' k) = data_block_slice i sl \<and> mem_at cs' = mem_at cs
    \<and> rnextBlock cs' = rnextBlock cs"
proof -
  define s where "s = i mod rfec_stripes sl"
  define cs1 where "cs1 = upd_rslice k (missing_data_blocks_update (\<lambda>m. m[s := m ! s - 1])) cs"
  define sl1 where "sl1 = (marked i sl)\<lparr>missing_data_blocks := (missing_data_blocks sl)[s := missing_data_blocks sl ! s - 1]\<rparr>"
  have at1: "rslice_at cs1 k = sl1" using k by (simp add: cs1_def sl1_def sl marked_def)
  have sel: "rfec_stripes sl1 = rfec_stripes sl" "rfec_blocks sl1 = rfec_blocks sl" "fec_descs sl1 = fec_descs sl"
    by (simp_all add: sl1_def marked_def)
  have st': "i mod rfec_stripes (rslice_at cs k) = s" by (simp add: sl marked_def s_def)
  show ?thesis
  proof (cases "missing_data_blocks sl1 ! s < rfec_blocks sl1 ! s")
    case False
    then have "cs' = cs1" using d at1 by (auto simp: drop_fec_block_def st' cs1_def [symmetric] outcome_Done Let_def)
    moreover have "counted_in sl1 = data_block_slice i sl"
      using False st(1) by (simp add: data_block_slice_def counted_in_def sl1_def marked_def s_def Let_def rmap_def)
    ultimately show ?thesis using at1 by (simp add: cs1_def)
  next
    case True
    define cs2 where "cs2 = upd_rslice k (rfec_blocks_update (\<lambda>f. f[s := f ! s - 1])) cs1"
    define ix where "ix = s + nat ((rfec_blocks sl)[s := rfec_blocks sl ! s - 1] ! s) * rfec_stripes sl"
    have at2: "rslice_at cs2 k = sl1\<lparr>rfec_blocks := (rfec_blocks sl)[s := rfec_blocks sl ! s - 1]\<rparr>"
      using k at1 by (simp add: cs2_def cs1_def sel)
    obtain a where a: "adr (fec_descs sl ! ix) = Some a" and
      cs': "cs' = upd_rslice k (\<lambda>sl. sl\<lparr>fec_descs := (fec_descs sl)[ix := (fec_descs sl ! ix)\<lparr>adr := None\<rparr>],
              blocksTransferred := blocksTransferred sl - 1\<rparr>)
            (cs2\<lparr>localBlockAddresses := (localBlockAddresses cs2)[localPos cs2 := a], localPos := localPos cs2 + 1\<rparr>)"
      using d True at1 at2
      by (auto simp: drop_fec_block_def st' cs1_def [symmetric] cs2_def [symmetric] outcome_Done Let_def sel ix_def
          split: option.splits)
    have len: "k < length (rslices cs2)" using k by (simp add: cs2_def cs1_def)
    have at': "rslice_at cs' k = sl1\<lparr>rfec_blocks := (rfec_blocks sl)[s := rfec_blocks sl ! s - 1],
        fec_descs := (fec_descs sl)[ix := (fec_descs sl ! ix)\<lparr>adr := None\<rparr>], blocksTransferred := blocksTransferred sl1 - 1\<rparr>"
      using len at2 by (simp add: cs' sel rslice_at_def upd_rslice_def)
    have fr: "frame {k} cs cs'"
    proof -
      have "frame {k} cs2 (cs2\<lparr>localBlockAddresses := (localBlockAddresses cs2)[localPos cs2 := a], localPos := localPos cs2 + 1\<rparr>)"
        by (simp add: frame_def rslice_at_def)
      then show ?thesis unfolding cs' cs2_def cs1_def using frame_trans frame_upd by blast
    qed
    moreover have "mem_at cs' = mem_at cs" "rnextBlock cs' = rnextBlock cs"
      by (simp_all add: cs' mem_at_def cs2_def cs1_def fun_eq_iff cong: address.case_cong)
    moreover have "counted_in (rslice_at cs' k) = data_block_slice i sl"
      using True st
      by (simp add: at' data_block_slice_def counted_in_def sl1_def marked_def s_def [symmetric] Let_def rmap_def ix_def)
    ultimately show ?thesis by blast
  qed
qed


lemma data_block_sel [simp]:
  "magic (data_block_slice i sl) = magic sl" "bytesKnown (data_block_slice i sl) = bytesKnown sl"
  "rbytes (data_block_slice i sl) = rbytes sl" "rstate (data_block_slice i sl) = rstate sl"
  "rmap (data_block_slice i sl) = SET_BIT i (rmap sl)" "rbase (data_block_slice i sl) = rbase sl"
  "rfec_stripes (data_block_slice i sl) = rfec_stripes sl"
  by (simp_all add: data_block_slice_def Let_def rmap_def)

lemma fec_block_sel [simp]:
  "magic (fec_block_slice p b sl) = magic sl" "bytesKnown (fec_block_slice p b sl) = bytesKnown sl"
  "rbytes (fec_block_slice p b sl) = rbytes sl" "rstate (fec_block_slice p b sl) = rstate sl"
  "rmap (fec_block_slice p b sl) = rmap sl" "rfec_stripes (fec_block_slice p b sl) = rfec_stripes sl"
  by (simp_all add: fec_block_slice_def Let_def rmap_def)

lemma counted_in_marked: "rfec_stripes sl = 0 \<Longrightarrow> counted_in (marked i sl) = data_block_slice i sl"
  by (simp add: counted_in_def marked_def data_block_slice_def Let_def rmap_def)

lemma good_receiving:
  "busy_ok c sl \<Longrightarrow> rstate sl = SLICE_RECEIVING \<Longrightarrow> slice_good c sl" "slice_good c sl \<Longrightarrow> rstate sl = SLICE_RECEIVING \<Longrightarrow> busy_ok c sl"
  by (simp_all add: busy_ok_def)

lemma store_data_block_steps:
  assumes inv: "client_inv cs" and k: "k < RNR_SLICES" and st: "rstate (rslice_at cs k) = SLICE_RECEIVING"
    and new: "\<not> BIT_ISSET i (rmap (rslice_at cs k))"
    and b: "0 < b" "slice_blocks (rconfig cs) b \<le> int MAX_SLICE_SIZE" "int i < slice_blocks (rconfig cs) b"
    and s: "store_data_block cs k i b = Done cs'"
  shows "\<exists>cs1 cs2. cs1 = (if Ring (ADR cs (rslice_at cs k) i) \<noteq> iov_base cs
        then mem_write (Ring (ADR cs (rslice_at cs k) i)) (take (blockSize (rconfig cs)) (mem_at cs (iov_base cs))) cs else cs)
     \<and> frame {k} cs cs2 \<and> mem_at cs2 = mem_at cs1 \<and> rnextBlock cs2 = rnextBlock cs1
     \<and> rslice_at cs2 k = data_block_slice i ((rslice_at cs k)\<lparr>bytesKnown := True, rbytes := b\<rparr>)
     \<and> client_inv cs2 \<and> checkSliceComplete cs2 k = Done cs'"
proof -
  let ?sl = "rslice_at cs k"
  let ?sl1 = "?sl\<lparr>bytesKnown := True, rbytes := b\<rparr>"
  define cs1 where "cs1 = (if Ring (ADR cs ?sl i) \<noteq> iov_base cs
        then mem_write (Ring (ADR cs ?sl i)) (take (blockSize (rconfig cs)) (mem_at cs (iov_base cs))) cs else cs)"
  have ng: "sender_is_newgen cs" "k < length (rslices cs)" using inv k by (auto simp: client_inv_def)
  have f1: "frame {k} cs cs1" "rslice_at cs1 k = ?sl" "sender_is_newgen cs1" "length (rslices cs1) = length (rslices cs)"
    using ng by (auto simp: cs1_def)
  have ci: "counted_in = (\<lambda>sl. sl\<lparr>dataBlocksTransferred := dataBlocksTransferred sl + 1,
       blocksTransferred := blocksTransferred sl + 1, freePos := advance_free (rmap sl) (freePos sl)\<rparr>)"
    by (rule ext) (simp add: counted_in_def)
  define rest where "rest = (\<lambda>cs. and_then (if rfec_stripes (rslice_at (upd_rslice k (retransmit_update (m_map_update (SET_BIT i))) cs) k) \<noteq> 0
           then drop_fec_block (upd_rslice k (retransmit_update (m_map_update (SET_BIT i))) cs) k i
           else Done (upd_rslice k (retransmit_update (m_map_update (SET_BIT i))) cs))
           (\<lambda>cs. checkSliceComplete (upd_rslice k counted_in cs) k))"
  have nz: "\<not> rbase ?sl mod blockSize (rconfig cs) \<noteq> 0"
    by (rule notI) (use s in \<open>simp add: store_data_block_def\<close>)
  have "store_data_block cs k i b = and_then (setSliceBytes k cs1 b) rest"
    unfolding store_data_block_def if_not_P [OF nz] using b(1) f1(3) by (simp add: cs1_def [symmetric] Let_def rest_def ci)
  then have "and_then (setSliceBytes k cs1 b) rest = Done cs'" using s by simp
  then obtain cs2 where set: "setSliceBytes k cs1 b = Done cs2" and "rest cs2 = Done cs'"
    unfolding and_then_Done [of _ rest] by blast
  then obtain cs3 where
    cs3: "(if rfec_stripes (rslice_at (upd_rslice k (retransmit_update (m_map_update (SET_BIT i))) cs2) k) \<noteq> 0
           then drop_fec_block (upd_rslice k (retransmit_update (m_map_update (SET_BIT i))) cs2) k i
           else Done (upd_rslice k (retransmit_update (m_map_update (SET_BIT i))) cs2)) = Done cs3"
    and r: "checkSliceComplete (upd_rslice k counted_in cs3) k = Done cs'"
    unfolding rest_def and_then_Done [of _ "\<lambda>cs. checkSliceComplete (upd_rslice k counted_in cs) k"] by blast
  note set' = setSliceBytes_spec [OF set]
  have good: "slice_good (rconfig cs) ?sl" using good_receiving(1) [OF client_busy [OF inv k] st] .
  have known: "0 \<le> slice_blocks (rconfig cs) b" using b by linarith
  have good1: "slice_good (rconfig cs) ?sl1"
  proof (cases "bytesKnown ?sl")
    case True
    then have "rbytes ?sl = b" using set' f1 by simp
    then have "?sl1 = ?sl" using True by (cases "rslice_at cs k") simp
    then show ?thesis using good by simp
  next
    case False
    then show ?thesis using good_bytes [OF good _ known b(2)] by simp
  qed
  have at2: "rslice_at cs2 k = ?sl1" and f2: "frame {k} cs cs2" and len2: "k < length (rslices cs2)"
    using set' f1 ng frame_trans [of "{k}" cs cs1 cs2] by (auto simp: frame_def)
  define cs2' where "cs2' = upd_rslice k (retransmit_update (m_map_update (SET_BIT i))) cs2"
  have at2': "rslice_at cs2' k = marked i ?sl1" using len2 by (simp add: cs2'_def at2 marked_def)
  have f2': "frame {k} cs cs2'" "mem_at cs2' = mem_at cs1" "k < length (rslices cs2')" "rnextBlock cs2' = rnextBlock cs1"
    using frame_trans [OF f2 frame_upd] set' len2 by (simp_all add: cs2'_def)
  have n: "nr_known (rconfig cs) ?sl1 = nat (slice_blocks (rconfig cs) b)" by (simp add: nr_known_def)
  have cnt: "counts_ok (nat (slice_blocks (rconfig cs) b)) ?sl1" using good1 by (simp add: slice_good_def n)
  have i: "i < nat (slice_blocks (rconfig cs) b)" using b by linarith
  have new1: "\<not> BIT_ISSET i (rmap ?sl1)" using new by (simp add: rmap_def)
  have "frame {k} cs cs3 \<and> counted_in (rslice_at cs3 k) = data_block_slice i ?sl1 \<and> mem_at cs3 = mem_at cs1
     \<and> k < length (rslices cs3) \<and> rnextBlock cs3 = rnextBlock cs1"
  proof (cases "rfec_stripes ?sl = 0")
    case True
    then have "cs3 = cs2'" using cs3 by (simp add: cs2'_def [symmetric] at2' marked_def)
    then show ?thesis using f2' at2' True by (simp add: counted_in_marked)
  next
    case False
    then have d: "drop_fec_block cs2' k i = Done cs3" using cs3 by (simp add: cs2'_def [symmetric] at2' marked_def)
    have "i mod rfec_stripes ?sl1 < length (rfec_blocks ?sl1)"
      using cnt False mod_less_divisor [of "rfec_stripes ?sl1" i] by (auto simp: counts_ok_def simp del: mod_less_divisor)
    then show ?thesis
      using drop_fec_block_spec [OF d f2'(3) at2'] False f2' frame_trans [OF f2'(1)] by (auto simp: frame_def)
  qed
  then have c3: "frame {k} cs (upd_rslice k counted_in cs3)" "rslice_at (upd_rslice k counted_in cs3) k = data_block_slice i ?sl1"
      "mem_at (upd_rslice k counted_in cs3) = mem_at cs1" "rnextBlock (upd_rslice k counted_in cs3) = rnextBlock cs1"
    using frame_trans [OF _ frame_upd] by auto
  have "slice_good (rconfig cs) (data_block_slice i ?sl1)"
    using data_block_counts [OF cnt i new1] data_block_free good1 known by (simp add: slice_good_def nr_known_def)
  then have "client_inv (upd_rslice k counted_in cs3)"
    using client_inv_frame [OF inv c3(1)] c3(2) good_receiving(2) st by simp
  then show ?thesis using c3 r cs1_def by blast
qed


lemma setNextBlock_frame:
  assumes "setNextBlock cs = Done cs'"
  shows "frame {} cs cs' \<and> mem_at cs' = mem_at cs \<and> rslices cs' = rslices cs \<and> use_fec cs' = use_fec cs"
proof -
  obtain lp pc nb where "cs' = cs\<lparr>localPos := lp, freeBlocks_pc := pc, rnextBlock := nb\<rparr>"
  proof (cases "localPos cs = 0")
    case True
    then obtain pc nb where "cs' = cs\<lparr>freeBlocks_pc := pc, rnextBlock := nb\<rparr>"
      using assms by (auto simp: setNextBlock_def getBlockSpace_def outcome_Done)
    then have "cs' = cs\<lparr>localPos := localPos cs, freeBlocks_pc := pc, rnextBlock := nb\<rparr>" by (cases cs) simp
    then show ?thesis by (rule that)
  next
    case False
    then obtain lp nb where "cs' = cs\<lparr>localPos := lp, rnextBlock := nb\<rparr>"
      using assms by (auto simp: setNextBlock_def getBlockSpace_def outcome_Done Let_def)
    then have "cs' = cs\<lparr>localPos := lp, freeBlocks_pc := freeBlocks_pc cs, rnextBlock := nb\<rparr>" by (cases cs) simp
    then show ?thesis by (rule that)
  qed
  then show ?thesis by (simp add: frame_def rslice_at_def mem_at_def fun_eq_iff cong: address.case_cong)
qed

lemma store_fec_block_steps:
  assumes k: "k < length (rslices cs)" and s: "store_fec_block cs k st b = Done cs'" and st: "rfec_stripes (rslice_at cs k) = st"
  shows "cs' = cs \<or> (\<exists>cs1 cs2. cs1 = (if Pool (rnextBlock cs) \<noteq> iov_base cs
        then mem_write (Pool (rnextBlock cs)) (take (blockSize (rconfig cs)) (mem_at cs (iov_base cs))) cs else cs)
     \<and> frame {k} cs cs2 \<and> mem_at cs2 = mem_at cs1
     \<and> rslice_at cs2 k = (fec_block_slice (rnextBlock cs) b (rslice_at cs k))\<lparr>freePos := MAX_SLICE_SIZE\<rparr>
     \<and> finish_fec cs2 k = Done cs')"
proof (cases "cs' = cs")
  case False
  let ?sl = "rslice_at cs k"
  define cs1 where "cs1 = (if Pool (rnextBlock cs) \<noteq> iov_base cs
        then mem_write (Pool (rnextBlock cs)) (take (blockSize (rconfig cs)) (mem_at cs (iov_base cs))) cs else cs)"
  have c1: "rslice_at cs1 k = ?sl" "rnextBlock cs1 = rnextBlock cs" "length (rslices cs1) = length (rslices cs)" "frame {k} cs cs1"
    by (simp_all add: cs1_def)
  define stripe where "stripe = b mod rfec_stripes ?sl"
  define a where "a = nat (rfec_blocks ?sl ! stripe) * st + stripe"
  define cs1' where "cs1' = upd_rslice k (\<lambda>sl. sl\<lparr>
          fec_descs := (fec_descs sl)[a := (fec_descs sl ! a)\<lparr>adr := Some (rnextBlock cs1), fecBlockNo := b\<rparr>],
          rfec_blocks := (rfec_blocks sl)[stripe := rfec_blocks sl ! stripe + 1],
          blocksTransferred := blocksTransferred sl + 1\<rparr>) cs1"
  have nd: "\<not> (\<exists>i \<in> set (stripe_blocks stripe st a). fecBlockNo (fec_descs ?sl ! i) = b)"
  proof (rule notI)
    assume "\<exists>i \<in> set (stripe_blocks stripe st a). fecBlockNo (fec_descs ?sl ! i) = b"
    from if_P [OF this, of "Done cs"] have "cs' = cs"
      using s by (simp add: store_fec_block_def Let_def stripe_def a_def)
    then show False using False by simp
  qed
  have "and_then (in_bounds (a < MAX_SLICE_SIZE)) (\<lambda>_. and_then (setNextBlock cs1') (\<lambda>cs.
      finish_fec (upd_rslice k (freePos_update (\<lambda>_. MAX_SLICE_SIZE)) cs) k)) = Done cs'"
    using s unfolding store_fec_block_def Let_def stripe_def [symmetric] a_def [symmetric] if_not_P [OF nd]
      cs1_def [symmetric] cs1'_def [symmetric] .
  then obtain cs2 where n: "setNextBlock cs1' = Done cs2"
    and f: "finish_fec (upd_rslice k (freePos_update (\<lambda>_. MAX_SLICE_SIZE)) cs2) k = Done cs'"
    by (auto simp: and_then_Done)
  note n' = setNextBlock_frame [OF n]
  have at1: "rslice_at cs1' k = fec_block_slice (rnextBlock cs) b ?sl" "length (rslices cs1') = length (rslices cs)"
    using k c1 by (simp_all add: cs1'_def fec_block_slice_def Let_def stripe_def a_def st)
  then have at2: "rslice_at cs2 k = fec_block_slice (rnextBlock cs) b ?sl" "k < length (rslices cs2)"
    using n' k by (simp_all add: rslice_at_def)
  have "frame {k} cs cs1'" unfolding cs1'_def by (rule frame_trans [OF c1(4) frame_upd])
  then have "frame {k} cs (upd_rslice k (freePos_update (\<lambda>_. MAX_SLICE_SIZE)) cs2)"
    using n' frame_trans [OF frame_trans [OF _ frame_mono] frame_upd] by blast
  moreover have "mem_at (upd_rslice k (freePos_update (\<lambda>_. MAX_SLICE_SIZE)) cs2) = mem_at cs1"
    using n' by (simp add: cs1'_def)
  moreover have "rslice_at (upd_rslice k (freePos_update (\<lambda>_. MAX_SLICE_SIZE)) cs2) k
      = (fec_block_slice (rnextBlock cs) b ?sl)\<lparr>freePos := MAX_SLICE_SIZE\<rparr>"
    using at2 by simp
  ultimately show ?thesis using f cs1_def by blast
qed simp

lemma zero_stripes:
  "\<exists>m f. fold (\<lambda>i sl. sl\<lparr>missing_data_blocks := (missing_data_blocks sl)[i := 0], rfec_blocks := (rfec_blocks sl)[i := 0]\<rparr>) [0..<st] sl
      = sl\<lparr>missing_data_blocks := m, rfec_blocks := f\<rparr> \<and> length m = length (missing_data_blocks sl) \<and> length f = length (rfec_blocks sl)
     \<and> (st \<le> length m \<longrightarrow> (\<forall>s < st. m ! s = 0)) \<and> (st \<le> length f \<longrightarrow> (\<forall>s < st. f ! s = 0))"
proof (induction st)
  case 0
  have "sl = sl\<lparr>missing_data_blocks := missing_data_blocks sl, rfec_blocks := rfec_blocks sl\<rparr>" by simp
  then show ?case by (simp, metis)
next
  case (Suc st)
  then obtain m f where "fold (\<lambda>i sl. sl\<lparr>missing_data_blocks := (missing_data_blocks sl)[i := 0], rfec_blocks := (rfec_blocks sl)[i := 0]\<rparr>) [0..<st] sl
      = sl\<lparr>missing_data_blocks := m, rfec_blocks := f\<rparr>" "length m = length (missing_data_blocks sl)" "length f = length (rfec_blocks sl)"
      "st \<le> length m \<longrightarrow> (\<forall>s < st. m ! s = 0)" "st \<le> length f \<longrightarrow> (\<forall>s < st. f ! s = 0)" by blast
  then show ?case
    by (intro exI [of _ "m[st := 0]"] exI [of _ "f[st := 0]"]) (auto simp: nth_list_update less_Suc_eq)
qed

lemma initSliceForFec_good:
  assumes g: "slice_good c (sl\<lparr>rfec_stripes := 0, fec_descs := ds\<rparr>)" and bk: "bytesKnown sl" and st: "0 < rfec_stripes sl" "rfec_stripes sl \<le> MAX_FEC_INTERLEAVE"
    and w: "nat (slice_blocks c (rbytes sl)) \<le> 128 * rfec_stripes sl"
    and at: "rslice_at cs k = sl" and c: "rconfig cs = c" "blockSize c \<noteq> 0" and k: "k < length (rslices cs)"
  shows "\<exists>cs'. initSliceForFec cs k = Done cs' \<and> slice_good c ((rslice_at cs' k)\<lparr>fec_descs := ds\<rparr>) \<and> frame {k} cs cs'
    \<and> rstate (rslice_at cs' k) = rstate sl \<and> fec_descs (rslice_at cs' k) = fec_descs sl \<and> rfec_stripes (rslice_at cs' k) = rfec_stripes sl"
proof -
  define n where "n = nat (slice_blocks c (rbytes sl))"
  have cnt: "counts_ok n (sl\<lparr>rfec_stripes := 0, fec_descs := ds\<rparr>)" and ns: "0 \<le> slice_blocks c (rbytes sl)" and mg: "magic sl"
    using g bk by (simp_all add: slice_good_def nr_known_def n_def)
  have lens: "length (missing_data_blocks sl) = MAX_FEC_INTERLEAVE" "length (rfec_blocks sl) = MAX_FEC_INTERLEAVE"
    using cnt by (simp_all add: counts_ok_def)
  obtain m f where z0: "fold (\<lambda>i sl. sl\<lparr>missing_data_blocks := (missing_data_blocks sl)[i := 0], rfec_blocks := (rfec_blocks sl)[i := 0]\<rparr>) [0..<rfec_stripes sl] sl
      = sl\<lparr>missing_data_blocks := m, rfec_blocks := f\<rparr>" "length m = length (missing_data_blocks sl)" "length f = length (rfec_blocks sl)"
      "rfec_stripes sl \<le> length m \<longrightarrow> (\<forall>s < rfec_stripes sl. m ! s = 0)"
      "rfec_stripes sl \<le> length f \<longrightarrow> (\<forall>s < rfec_stripes sl. f ! s = 0)"
    using zero_stripes [of "rfec_stripes sl" sl] by blast
  have z: "fold (\<lambda>i sl. sl\<lparr>missing_data_blocks := (missing_data_blocks sl)[i := 0], rfec_blocks := (rfec_blocks sl)[i := 0]\<rparr>) [0..<rfec_stripes sl] sl
      = sl\<lparr>missing_data_blocks := m, rfec_blocks := f\<rparr>" "length m = MAX_FEC_INTERLEAVE" "length f = MAX_FEC_INTERLEAVE"
      "\<forall>s < rfec_stripes sl. m ! s = 0" "\<forall>s < rfec_stripes sl. f ! s = 0"
    using z0 lens st(2) by simp_all
  define z1 where "z1 = sl\<lparr>missing_data_blocks := m, rfec_blocks := f\<rparr>"
  have "counted 0 z1 z1" unfolding counted_def
    by (rule exI [of _ m]) (use z in \<open>simp add: z1_def lacks_def\<close>)
  moreover have "n \<le> MAX_SLICE_SIZE" using cnt by (simp add: counts_ok_def)
  ultimately obtain sl' where sl': "each (count_missing n) [0..<(n + 7) div 8] z1 = Done sl'" "counted n z1 sl'"
    using count_missing_all [of z1 z1 n] st by (auto simp: z1_def)
  then obtain m' where m': "sl' = z1\<lparr>missing_data_blocks := m'\<rparr>" "length m' = MAX_FEC_INTERLEAVE"
     "\<forall>s < rfec_stripes sl. m' ! s = int (card (lacks n z1 s))" by (auto simp: counted_def z1_def)
  have "rfec_stripes (rslice_at (cs\<lparr>use_fec := True\<rparr>) k) = rfec_stripes sl" "rslice_at (cs\<lparr>use_fec := True\<rparr>) k = sl" using at by (simp_all add: rslice_at_def)
  then have r: "initSliceForFec cs k = Done (upd_rslice k (\<lambda>_. sl') (cs\<lparr>use_fec := True\<rparr>))"
    using mg c st z(1) sl'(1) at by (simp add: initSliceForFec_def Let_def n_def z1_def)
  have "counts_ok n (sl'\<lparr>fec_descs := ds\<rparr>)"
    using cnt z m' st by (simp add: counts_ok_def z1_def rmap_def lacks_def)
  then have good: "slice_good c (sl'\<lparr>fec_descs := ds\<rparr>)" using g bk mg ns w by (simp add: slice_good_def nr_known_def m'(1) z1_def n_def free_ok_def rmap_def)
  have "frame {k} cs (upd_rslice k (\<lambda>_. sl') (cs\<lparr>use_fec := True\<rparr>))"
    by (rule frame_trans [OF _ frame_upd]) (simp add: frame_def rslice_at_def)
  moreover have "rslice_at (upd_rslice k (\<lambda>_. sl') (cs\<lparr>use_fec := True\<rparr>)) k = sl'" using k by simp
  moreover have "rstate sl' = rstate sl" "fec_descs sl' = fec_descs sl" "rfec_stripes sl' = rfec_stripes sl" by (simp_all add: m' z1_def)
  ultimately show ?thesis using r good by simp
qed


subsection \<open>Memory is not touched by the search for a slice\<close>

definition same_mem :: "client_state \<Rightarrow> client_state \<Rightarrow> bool" where
  "same_mem cs cs' \<longleftrightarrow> rconfig cs' = rconfig cs \<and> mem_at cs' = mem_at cs \<and> iov_base cs' = iov_base cs \<and> rnextBlock cs' = rnextBlock cs
     \<and> dataBufSize (rfifo cs') = dataBufSize (rfifo cs) \<and> clientNumber cs' = clientNumber cs \<and> use_fec cs' = use_fec cs
     \<and> outbox cs' = outbox cs"

lemma same_mem_refl [simp]: "same_mem cs cs" by (simp add: same_mem_def)

lemma same_mem_trans: "same_mem cs cs' \<Longrightarrow> same_mem cs' cs'' \<Longrightarrow> same_mem cs cs''" by (simp add: same_mem_def)

lemma clientNumber_upd [simp]: "clientNumber (upd_rslice k f cs) = clientNumber cs"
  by (simp add: upd_rslice_def)

lemma same_mem_upd [simp]: "same_mem cs (upd_rslice k f cs)" by (simp add: same_mem_def)

lemma same_mem_sel [simp]:
  "same_mem cs (cs\<lparr>currentSliceNo := no\<rparr>)" "same_mem cs (cs\<lparr>currentSlice := c\<rparr>)" "same_mem cs (cs\<lparr>rfree_slices_pc := pc\<rparr>)"
  "same_mem cs (cs\<lparr>rfifo := (rfifo cs)\<lparr>freeMemQueue := fq\<rparr>\<rparr>)"
  by (simp_all add: same_mem_def mem_at_def fun_eq_iff cong: address.case_cong)

lemma initSlice_same:
  assumes i: "initSlice cs k no = Done cs'" and ign: "\<not> has_flag (rconfig cs) FLAG_IGNORE_LOST_DATA"
  shows "same_mem cs cs'"
proof -
  have "cs' = (upd_rslice k (clear_slice no) (upd_rslice k reset_slice cs))\<lparr>currentSlice := Some k, currentSliceNo := no\<rparr>"
    using i ign by (auto simp: initSlice_def outcome_Done Let_def split: option.splits if_splits)
  then show ?thesis by (simp add: same_mem_def mem_at_def fun_eq_iff cong: address.case_cong)
qed

lemma newSlice_same:
  assumes n: "newSlice cs no = Done (cs', k)" and ign: "\<not> has_flag (rconfig cs) FLAG_IGNORE_LOST_DATA"
  shows "same_mem cs cs'"
proof -
  obtain pc i b fq where r: "initSlice ((upd_rslice i (rbase_update (\<lambda>_. b)) (cs\<lparr>rfree_slices_pc := pc\<rparr>))
        \<lparr>rfifo := (rfifo cs)\<lparr>freeMemQueue := fq\<rparr>\<rparr>) i no = Done cs'"
    using n by (auto simp: newSlice_def outcome_Done Let_def)
  let ?cs1 = "(upd_rslice i (rbase_update (\<lambda>_. b)) (cs\<lparr>rfree_slices_pc := pc\<rparr>))\<lparr>rfifo := (rfifo cs)\<lparr>freeMemQueue := fq\<rparr>\<rparr>"
  have "same_mem cs ?cs1" by (simp add: same_mem_def mem_at_def fun_eq_iff cong: address.case_cong)
  moreover have "same_mem ?cs1 cs'" using initSlice_same [OF r] ign by simp
  ultimately show ?thesis by (rule same_mem_trans)
qed

lemma find_slice_same:
  "find_slice n cs no = Done (cs', r) \<Longrightarrow> client_inv cs \<Longrightarrow> same_mem cs cs'"
  "catch_up n cs no = Done (cs', r) \<Longrightarrow> client_inv cs \<Longrightarrow> same_mem cs cs'"
proof (induction n cs no and n cs no arbitrary: cs' r and cs' r rule: find_slice_catch_up.induct)
  case (2 n cs no)
  have ign: "\<not> has_flag (rconfig cs) FLAG_IGNORE_LOST_DATA" using 2(3) by (simp add: client_inv_def)
  show ?case
  proof (cases "currentSlice cs")
    case None
    then obtain k where "newSlice (cs\<lparr>currentSliceNo := no - 1\<rparr>) no = Done (cs', k)" using 2(2) by (auto simp: outcome_Done)
    from newSlice_same [OF this] ign same_mem_trans [OF same_mem_sel(1)] show ?thesis by auto
  next
    case (Some c)
    then show ?thesis using 2 initSlice_same [of cs c no cs'] ign by (auto simp: outcome_Done split: if_splits)
  qed
next
  case (4 n cs no)
  note inv = 4(5) and find = 4(4)
  show ?case
  proof (cases "no > receivedSliceNo cs + 2 \<or> no \<noteq> currentSliceNo cs + 1")
    case True
    have "and_then (find_slice n cs (receivedSliceNo cs + 1)) (\<lambda>(cs, _).
          if has_flag (rconfig cs) FLAG_IGNORE_LOST_DATA
          then and_then (fakeSliceComplete (find_slice n) cs) (\<lambda>cs. catch_up n cs no)
          else Aborts) = Done (cs', r)"
      using find unfolding catch_up.simps if_P [OF True] .
    then obtain cs1 r1 where f: "find_slice n cs (receivedSliceNo cs + 1) = Done (cs1, r1)"
      and x: "(if has_flag (rconfig cs1) FLAG_IGNORE_LOST_DATA
          then and_then (fakeSliceComplete (find_slice n) cs1) (\<lambda>cs. catch_up n cs no)
          else Aborts) = Done (cs', r)"
      unfolding and_then_Done by (auto simp only: split: prod.splits)
    have "client_inv cs1" using find_slice_inv(1) [OF f inv] by simp
    then show ?thesis using x by (simp add: client_inv_def)
  next
    case False
    have "and_then (newSlice cs no) (\<lambda>(cs, k). Done (cs, Some k)) = Done (cs', r)"
      using find unfolding catch_up.simps if_not_P [OF False] .
    then obtain k where "newSlice cs no = Done (cs', k)" by (auto simp: and_then_Done)
    then show ?thesis using newSlice_same inv by (simp add: client_inv_def)
  qed
qed simp_all

lemma rfindSlice_same: "rfindSlice cs no = Done (cs', r) \<Longrightarrow> client_inv cs \<Longrightarrow> same_mem cs cs'"
  unfolding rfindSlice_def by (rule find_slice_same(1))

subsection \<open>The packets keep the invariant\<close>

definition size_ok :: "net_config \<Rightarrow> int \<Rightarrow> bool" where
  \<comment> \<open>a slice size within the protocol's bounds\<close>
  "size_ok c b \<longleftrightarrow> 0 \<le> b \<and> slice_blocks c b \<le> int MAX_SLICE_SIZE"

lemma processDataBlock_inv:
  assumes inv: "client_inv cs" and p: "processDataBlock cs no i b = Done cs'"
    and b: "0 < b" "size_ok (rconfig cs) b" "int i < slice_blocks (rconfig cs) b"
  shows "client_inv cs'"
proof -
  obtain cs1 slo where f: "rfindSlice cs no = Done (cs1, slo)" using p by (auto simp: processDataBlock_def and_then_Done)
  have inv1: "client_inv cs1" and lt: "\<forall>k \<in> set_option slo. k < RNR_SLICES" using rfindSlice_inv [OF inv f] by auto
  have c1: "rconfig cs1 = rconfig cs" using rfindSlice_same [OF f inv] by (simp add: same_mem_def)
  show ?thesis
  proof (cases slo)
    case None
    then show ?thesis using p f inv1 by (simp add: processDataBlock_def)
  next
    case (Some k)
    then have k: "k < RNR_SLICES" using lt by simp
    consider "cs' = cs1" | "rstate (rslice_at cs1 k) = SLICE_RECEIVING" "\<not> BIT_ISSET i (rmap (rslice_at cs1 k))"
        "store_data_block cs1 k i b = Done cs'"
      using p f Some by (cases "rstate (rslice_at cs1 k)") (auto simp: processDataBlock_def outcome_Done split: if_splits)
    then show ?thesis
    proof cases
      case 2
      obtain cs2 where "client_inv cs2" "checkSliceComplete cs2 k = Done cs'"
        using store_data_block_steps [OF inv1 k 2(1,2) b(1) _ _ 2(3)] b c1 by (auto simp: size_ok_def)
      then show ?thesis using checkSliceComplete_inv k by blast
    qed (simp add: inv1)
  qed
qed

lemma processReqAck_inv:
  assumes inv: "client_inv cs" and p: "processReqAck cs no b rx = Done cs'" and b: "size_ok (rconfig cs) b"
  shows "client_inv cs'"
proof -
  obtain cs1 slo where f: "rfindSlice cs no = Done (cs1, slo)" using p by (auto simp: processReqAck_def and_then_Done)
  have inv1: "client_inv cs1" and lt: "\<forall>k \<in> set_option slo. k < RNR_SLICES" using rfindSlice_inv [OF inv f] by auto
  have c1: "rconfig cs1 = rconfig cs" using rfindSlice_same [OF f inv] by (simp add: same_mem_def)
  have ok: "client_inv (sendOk n cs)" if "client_inv cs" for n cs by (rule client_inv_cong [OF that]) (simp_all add: sendOk_def)
  show ?thesis
  proof (cases "BIT_ISSET (clientNumber cs1) (mem_at cs1 (iov_base cs1)) \<or> slo = None")
    case True
    then have "cs' = cs1 \<or> cs' = sendOk no cs1"
      using p f by (auto simp: processReqAck_def outcome_Done Let_def split: option.splits if_splits)
    then show ?thesis using inv1 ok by auto
  next
    case False
    then obtain k where k: "slo = Some k" "k < RNR_SLICES" using lt by auto
    define send where "send = (\<lambda>cs. if slice_blocks (rconfig cs) (rbytes (rslice_at cs k)) = blocksTransferred (rslice_at cs k)
                          then Done (sendOk (rsliceNo (rslice_at cs k)) cs) else sendRetransmit cs k rx)"
    define fin where "fin = (\<lambda>cs. if \<not> use_fec cs then cleanupSlices cs SLICE_DONE else Done cs)"
    have "and_then (setSliceBytes k cs1 b) (\<lambda>cs. and_then (check (blockSize (rconfig cs) \<noteq> 0)) (\<lambda>_.
       and_then (send cs) (\<lambda>cs. and_then (checkSliceComplete cs k) (\<lambda>cs. and_then (advanceReceivedPointer cs) fin)))) = Done cs'"
    proof -
      have "\<not> BIT_ISSET (clientNumber cs1) (mem_at cs1 (iov_base cs1))" "magic (rslice_at cs1 k)"
        using False p f k by (auto simp: processReqAck_def outcome_Done)
      then show ?thesis using p f k by (simp add: processReqAck_def send_def fin_def)
    qed
    then obtain cs2 cs3 cs4 cs5 where s: "setSliceBytes k cs1 b = Done cs2" "send cs2 = Done cs3" "checkSliceComplete cs3 k = Done cs4"
      "advanceReceivedPointer cs4 = Done cs5" "fin cs5 = Done cs'"
      unfolding and_then_Done [of _ fin] and_then_Done [of _ "\<lambda>cs. and_then (advanceReceivedPointer cs) fin"]
        and_then_Done [of _ "\<lambda>cs. and_then (checkSliceComplete cs k) (\<lambda>cs. and_then (advanceReceivedPointer cs) fin)"]
        and_then_Done [of "setSliceBytes k cs1 b"] and_then_Done [of "check b" for b] by blast
    have inv2: "client_inv cs2" using setSliceBytes_inv [OF inv1 s(1)] b c1 by (simp add: size_ok_def)
    have inv3: "client_inv cs3"
    proof (cases "slice_blocks (rconfig cs2) (rbytes (rslice_at cs2 k)) = blocksTransferred (rslice_at cs2 k)")
      case True
      then show ?thesis using s(2) ok [OF inv2] by (auto simp: send_def)
    next
      case False
      let ?f = "\<lambda>sl. sl\<lparr>retransmit := (retransmit sl)\<lparr>m_opCode := htons CMD_RETRANSMIT,
                  m_sliceNo := htonl_int (rsliceNo sl), m_rxmit := htonl_int rx\<rparr>\<rparr>"
      obtain o' where "cs3 = (upd_rslice k ?f cs2)\<lparr>outbox := o'\<rparr>"
        using s(2) False by (auto simp: send_def sendRetransmit_def outcome_Done Let_def)
      moreover have "counts_ok n (?f sl) = counts_ok n sl" for n sl by (simp add: counts_ok_def rmap_def lacks_def)
      then have good: "slice_good c (?f sl) = slice_good c sl" for c sl
        by (simp add: slice_good_def nr_known_def rmap_def free_ok_def)
      have "slice_sound c (?f sl)" if sound: "slice_sound c sl" for c sl
      proof -
        obtain ds where "slice_good c (sl\<lparr>fec_descs := ds\<rparr>)" using sound by (auto simp: slice_sound_def)
        then have "slice_good c (?f (sl\<lparr>fec_descs := ds\<rparr>))" by (rule good [THEN iffD2])
        moreover have "?f (sl\<lparr>fec_descs := ds\<rparr>) = (?f sl)\<lparr>fec_descs := ds\<rparr>" by (cases sl) simp
        ultimately show ?thesis unfolding slice_sound_def by (intro exI [of _ ds]) (simp only:)
      qed
      then have "busy_ok (rconfig cs2) (?f (rslice_at cs2 k))"
        using client_busy [OF inv2 k(2)] good by (auto simp: busy_ok_def)
      then have "client_inv (upd_rslice k ?f cs2)"
        using client_inv_frame [OF inv2 frame_upd [of k]] k client_len [OF inv2] by auto
      ultimately show ?thesis by (auto intro: client_inv_cong)
    qed
    have "client_inv cs5" using advance_inv [OF checkSliceComplete_inv [OF inv3 k(2) s(3)] s(4)] .
    then show ?thesis using s(5) cleanupSlices_inv by (auto simp: fin_def split: if_splits)
  qed
qed


lemma count_missing_state: "count_missing nb i sl = Done sl' \<Longrightarrow> rstate sl' = rstate sl"
  by (auto simp: count_missing_def outcome_Done Let_def split: if_splits
      elim!: each_inv [where P = "\<lambda>x. rstate x = rstate sl"])

lemma initSliceForFec_frame:
  assumes i: "initSliceForFec cs k = Done cs'" and k: "k < length (rslices cs)"
  shows "frame {k} cs cs' \<and> rstate (rslice_at cs' k) = rstate (rslice_at cs k) \<and> same_mem (cs\<lparr>use_fec := True\<rparr>) cs'"
proof -
  define nb where "nb = nat (slice_blocks (rconfig cs) (rbytes (rslice_at cs k)))"
  have at: "rslice_at (cs\<lparr>use_fec := True\<rparr>) j = rslice_at cs j" for j by (simp add: rslice_at_def)
  obtain m f where z: "fold (\<lambda>i sl. sl\<lparr>missing_data_blocks := (missing_data_blocks sl)[i := 0], rfec_blocks := (rfec_blocks sl)[i := 0]\<rparr>)
      [0..<rfec_stripes (rslice_at cs k)] (rslice_at cs k) = (rslice_at cs k)\<lparr>missing_data_blocks := m, rfec_blocks := f\<rparr>"
    using zero_stripes by blast
  obtain sl' where e: "each (count_missing nb) [0..<(nb + 7) div 8] ((rslice_at cs k)\<lparr>missing_data_blocks := m, rfec_blocks := f\<rparr>) = Done sl'"
    and cs': "cs' = upd_rslice k (\<lambda>_. sl') (cs\<lparr>use_fec := True\<rparr>)"
    using i by (auto simp: initSliceForFec_def outcome_Done Let_def at z nb_def)
  have "rstate sl' = rstate (rslice_at cs k)"
    by (rule each_inv [OF e, where P = "\<lambda>x. rstate x = rstate (rslice_at cs k)"]) (auto dest: count_missing_state)
  moreover have "frame {k} cs cs'" unfolding cs'
    by (rule frame_trans [OF _ frame_upd]) (simp add: frame_def rslice_at_def)
  ultimately show ?thesis using k by (simp add: cs')
qed

lemma good_free_pos: "slice_good c sl \<Longrightarrow> slice_good c (sl\<lparr>freePos := MAX_SLICE_SIZE\<rparr>)"
proof -
  have "counts_ok n (sl\<lparr>freePos := p\<rparr>) = counts_ok n sl" for n p by (simp add: counts_ok_def rmap_def lacks_def)
  then show "slice_good c sl \<Longrightarrow> slice_good c (sl\<lparr>freePos := MAX_SLICE_SIZE\<rparr>)"
    by (auto simp: slice_good_def nr_known_def free_ok_def rmap_def split: if_splits)
qed

lemma fec_block_good:
  assumes g: "slice_good c sl" and st: "rfec_stripes sl \<noteq> 0"
    and u: "rfec_blocks sl ! (b mod rfec_stripes sl) < missing_data_blocks sl ! (b mod rfec_stripes sl)"
  shows "slice_good c (fec_block_slice p b sl)"
proof -
  have "bytesKnown sl" using g st by (auto simp: slice_good_def split: if_splits)
  moreover have "free_ok (fec_block_slice p b sl) = free_ok sl" by (simp add: free_ok_def) (simp add: fec_block_slice_def Let_def)
  ultimately show ?thesis using g fec_block_counts [OF _ st u, of _ p] by (simp add: slice_good_def nr_known_def)
qed

lemma fec_block_sound:
  assumes g: "slice_sound c sl" and st: "rfec_stripes sl \<noteq> 0"
    and u: "rfec_blocks sl ! (b mod rfec_stripes sl) < missing_data_blocks sl ! (b mod rfec_stripes sl)"
  shows "slice_sound c ((fec_block_slice p b sl)\<lparr>freePos := MAX_SLICE_SIZE\<rparr>)"
proof -
  obtain ds where ds: "slice_good c (sl\<lparr>fec_descs := ds\<rparr>)" using g by (auto simp: slice_sound_def)
  have "slice_good c ((fec_block_slice p b (sl\<lparr>fec_descs := ds\<rparr>))\<lparr>freePos := MAX_SLICE_SIZE\<rparr>)"
    by (rule good_free_pos, rule fec_block_good [OF ds]) (use st u in simp_all)
  moreover have "(fec_block_slice p b (sl\<lparr>fec_descs := ds\<rparr>))\<lparr>freePos := MAX_SLICE_SIZE\<rparr>
      = ((fec_block_slice p b sl)\<lparr>freePos := MAX_SLICE_SIZE\<rparr>)\<lparr>fec_descs := fec_descs (fec_block_slice p b (sl\<lparr>fec_descs := ds\<rparr>))\<rparr>"
    by (cases sl) (simp add: fec_block_slice_def Let_def)
  ultimately show ?thesis unfolding slice_sound_def by (metis (full_types))
qed

lemma good_same_descs: "slice_good c (sl\<lparr>fec_descs := ds\<rparr>) \<Longrightarrow> fec_descs sl = ds \<Longrightarrow> slice_good c sl"
  by (cases sl) simp

lemma fec_start:
  \<comment> \<open>the first FEC block of a slice\<close>
  assumes inv2: "client_inv cs2" and kl: "k < RNR_SLICES"
    and st2: "rstate (rslice_at cs2 k) \<in> {SLICE_RECEIVING, SLICE_FEC_DONE}" "bytesKnown (rslice_at cs2 k)"
    and st: "0 < st" "st \<le> MAX_FEC_INTERLEAVE" and w: "slice_blocks (rconfig cs2) (rbytes (rslice_at cs2 k)) \<le> 128 * int st"
  shows "\<exists>cs3. (if rfec_stripes (rslice_at cs2 k) = 0
       then initSliceForFec (upd_rslice k (rfec_stripes_update (\<lambda>_. st)) cs2) k else Done cs2) = Done cs3
     \<and> client_inv cs3 \<and> rstate (rslice_at cs3 k) = rstate (rslice_at cs2 k)"
proof (cases "rfec_stripes (rslice_at cs2 k) = 0")
  case False
  then show ?thesis using inv2 by simp
next
  case True
  define cs2' where "cs2' = upd_rslice k (rfec_stripes_update (\<lambda>_. st)) cs2"
  have bs: "blockSize (rconfig cs2) \<noteq> 0" using inv2 by (simp add: client_inv_def)
  have at: "rslice_at cs2' k = (rslice_at cs2 k)\<lparr>rfec_stripes := st\<rparr>" "k < length (rslices cs2')" "rconfig cs2' = rconfig cs2"
    using kl client_len [OF inv2] by (simp_all add: cs2'_def)
  have init: "\<exists>cs3. initSliceForFec cs2' k = Done cs3 \<and> slice_good (rconfig cs2) ((rslice_at cs3 k)\<lparr>fec_descs := ds\<rparr>)
      \<and> rstate (rslice_at cs3 k) = rstate (rslice_at cs2 k) \<and> fec_descs (rslice_at cs3 k) = fec_descs (rslice_at cs2 k)"
    if g: "slice_good (rconfig cs2) ((rslice_at cs2 k)\<lparr>fec_descs := ds\<rparr>)" for ds
  proof -
    have "(rslice_at cs2' k)\<lparr>rfec_stripes := 0, fec_descs := ds\<rparr> = (rslice_at cs2 k)\<lparr>fec_descs := ds\<rparr>"
      unfolding at(1) using True by (cases "rslice_at cs2 k") simp
    then have "slice_good (rconfig cs2) ((rslice_at cs2' k)\<lparr>rfec_stripes := 0, fec_descs := ds\<rparr>)" using g by simp
    moreover have "nat (slice_blocks (rconfig cs2) (rbytes (rslice_at cs2' k))) \<le> 128 * rfec_stripes (rslice_at cs2' k)"
      using w by (simp add: at(1))
    ultimately show ?thesis using initSliceForFec_good [OF _ _ _ _ _ refl at(3) bs at(2), of ds] st2 st at(1) by auto
  qed
  have "\<exists>cs3. initSliceForFec cs2' k = Done cs3 \<and> rstate (rslice_at cs3 k) = rstate (rslice_at cs2 k) \<and> busy_ok (rconfig cs2) (rslice_at cs3 k)"
  proof (cases "rstate (rslice_at cs2 k) = SLICE_RECEIVING")
    case False
    then have fd: "rstate (rslice_at cs2 k) = SLICE_FEC_DONE" using st2 by auto
    then obtain ds where "slice_good (rconfig cs2) ((rslice_at cs2 k)\<lparr>fec_descs := ds\<rparr>)"
      using client_busy [OF inv2 kl] by (auto simp: busy_ok_def slice_sound_def)
    from init [OF this] show ?thesis using fd by (auto simp: busy_ok_def slice_sound_def)
  next
    case rec: True
    then have "slice_good (rconfig cs2) ((rslice_at cs2 k)\<lparr>fec_descs := fec_descs (rslice_at cs2 k)\<rparr>)"
      using good_receiving(1) [OF client_busy [OF inv2 kl]] by simp
    from init [OF this] show ?thesis using rec good_same_descs good_receiving(2) by metis
  qed
  then obtain cs3 where i3: "initSliceForFec cs2' k = Done cs3" and cs3: "rstate (rslice_at cs3 k) = rstate (rslice_at cs2 k)"
    "busy_ok (rconfig cs2) (rslice_at cs3 k)" by blast
  have "frame {k} cs2 cs3"
    using frame_trans [OF frame_upd, of k _ cs2 cs3] initSliceForFec_frame [OF i3 at(2)] unfolding cs2'_def by blast
  then show ?thesis using client_inv_frame [OF inv2] cs3 i3 True by (auto simp: cs2'_def)
qed

lemma processFecBlock_inv:
  assumes inv: "client_inv cs" and p: "processFecBlock cs st no i b = Done cs'"
    and b: "size_ok (rconfig cs) b" and st: "0 < st" "st \<le> MAX_FEC_INTERLEAVE" "slice_blocks (rconfig cs) b \<le> 128 * int st"
  shows "client_inv cs'"
proof -
  obtain cs1 slo where f: "rfindSlice cs no = Done (cs1, slo)" using p by (auto simp: processFecBlock_def and_then_Done)
  have inv1: "client_inv cs1" and lt: "\<forall>k \<in> set_option slo. k < RNR_SLICES" using rfindSlice_inv [OF inv f] by auto
  have c1: "rconfig cs1 = rconfig cs" using rfindSlice_same [OF f inv] by (simp add: same_mem_def)
  show ?thesis
  proof (cases "\<exists>k. slo = Some k \<and> rstate (rslice_at cs1 k) \<notin> {RSLICE_FREE, SLICE_DONE, SLICE_FEC}")
    case False
    then have "cs' = cs1" using p f by (auto simp: processFecBlock_def outcome_Done split: option.splits)
    then show ?thesis using inv1 by simp
  next
    case True
    then obtain k where k: "slo = Some k" "rstate (rslice_at cs1 k) \<notin> {RSLICE_FREE, SLICE_DONE, SLICE_FEC}" by blast
    then have kl: "k < RNR_SLICES" using lt by simp
    define start where "start = (\<lambda>cs. if rfec_stripes (rslice_at cs k) = 0
                         then initSliceForFec (upd_rslice k (rfec_stripes_update (\<lambda>_. st)) cs) k else Done cs)"
    define rest where "rest = (\<lambda>cs. let sl = rslice_at cs k
                 in if rfec_stripes sl \<noteq> st then Done cs
                    else
                      and_then (in_bounds (rfec_stripes sl \<noteq> 0)) (\<lambda>_.
                      and_then (in_bounds (i mod rfec_stripes sl < MAX_FEC_INTERLEAVE)) (\<lambda>_.
                        let stripe = i mod rfec_stripes sl
                        in if missing_data_blocks sl ! stripe \<le> rfec_blocks sl ! stripe then
                             and_then (finish_fec cs k) (\<lambda>cs.
                               if \<not> use_fec cs then cleanupSlices cs SLICE_DONE else Done cs)
                           else store_fec_block cs k st i)))"
    have "and_then (setSliceBytes k cs1 b) (\<lambda>cs. and_then (start cs) rest) = Done cs'"
    proof -
      have "magic (rslice_at cs1 k)" using p f k by (auto simp: processFecBlock_def outcome_Done)
      then show ?thesis using p f k by (simp add: processFecBlock_def start_def rest_def)
    qed
    then obtain cs2 cs3 where s: "setSliceBytes k cs1 b = Done cs2" "start cs2 = Done cs3" "rest cs3 = Done cs'"
      unfolding and_then_Done [of _ rest] and_then_Done [of "setSliceBytes k cs1 b"] by blast
    note set = setSliceBytes_spec [OF s(1)]
    have inv2: "client_inv cs2" using setSliceBytes_inv [OF inv1 s(1)] b c1 by (simp add: size_ok_def)
    note len2 = client_len [OF inv2]
    have st2: "rstate (rslice_at cs2 k) \<in> {SLICE_RECEIVING, SLICE_FEC_DONE}" "bytesKnown (rslice_at cs2 k)"
      using set k kl client_len [OF inv1] by (cases "rstate (rslice_at cs1 k)"; simp)+
    have w: "slice_blocks (rconfig cs2) (rbytes (rslice_at cs2 k)) \<le> 128 * int st"
      using set kl client_len [OF inv1] st(3) c1 slice_blocks_cong [of "rconfig cs2" "rconfig cs1" b] by (auto simp: frame_def)
    have inv3: "client_inv cs3 \<and> rstate (rslice_at cs3 k) = rstate (rslice_at cs2 k)"
      using fec_start [OF inv2 kl st2 st(1,2)] s(2) w by (auto simp: start_def)
    then have st3: "rstate (rslice_at cs3 k) \<in> {SLICE_RECEIVING, SLICE_FEC_DONE}" and i3: "client_inv cs3" using st2 by auto
    define sl where "sl = rslice_at cs3 k"
    consider "cs' = cs3" | "rfec_stripes sl = st" "missing_data_blocks sl ! (i mod rfec_stripes sl) \<le> rfec_blocks sl ! (i mod rfec_stripes sl)"
        "and_then (finish_fec cs3 k) (\<lambda>cs. if \<not> use_fec cs then cleanupSlices cs SLICE_DONE else Done cs) = Done cs'"
      | "rfec_stripes sl = st" "rfec_blocks sl ! (i mod rfec_stripes sl) < missing_data_blocks sl ! (i mod rfec_stripes sl)"
        "store_fec_block cs3 k st i = Done cs'"
      using s(3) unfolding rest_def Let_def sl_def [symmetric] by (auto simp: in_bounds_Done and_then_Done [of "in_bounds b" for b] split: if_splits)
    then show ?thesis
    proof cases
      case 2
      then show ?thesis using finish_fec_inv [OF i3 kl] cleanupSlices_inv by (fastforce simp: and_then_Done split: if_splits)
    next
      case 3
      have "k < length (rslices cs3)" using kl client_len [OF i3] by simp
      from store_fec_block_steps [OF this 3(3)] 3(1) consider "cs' = cs3"
        | cs4 where "frame {k} cs3 cs4" "rslice_at cs4 k = (fec_block_slice (rnextBlock cs3) i sl)\<lparr>freePos := MAX_SLICE_SIZE\<rparr>"
            "finish_fec cs4 k = Done cs'"
        unfolding sl_def by blast
      then show ?thesis
      proof cases
        case (2 cs4)
        have "busy_ok (rconfig cs3) (rslice_at cs4 k)"
        proof (cases "rstate sl = SLICE_RECEIVING")
          case True
          then have "slice_good (rconfig cs3) sl" using good_receiving(1) [OF client_busy [OF i3 kl]] by (simp add: sl_def)
          then have "slice_good (rconfig cs3) (fec_block_slice (rnextBlock cs3) i sl)"
            using fec_block_good 3 st by simp
          then have "slice_good (rconfig cs3) (rslice_at cs4 k)" unfolding 2(2) by (rule good_free_pos)
          moreover have "rstate (rslice_at cs4 k) = SLICE_RECEIVING" by (simp add: 2(2) True)
          ultimately show ?thesis by (rule good_receiving(2))
        next
          case False
          then have fd: "rstate sl = SLICE_FEC_DONE" using st3 by (simp add: sl_def)
          then have "slice_sound (rconfig cs3) sl" using client_busy [OF i3 kl] by (simp add: sl_def busy_ok_def)
          then have "slice_sound (rconfig cs3) (rslice_at cs4 k)"
            unfolding 2(2) by (rule fec_block_sound) (use 3 st in simp_all)
          then show ?thesis using fd by (simp add: busy_ok_def 2(2))
        qed
        then have "client_inv cs4" using client_inv_frame [OF i3 2(1)] by simp
        then show ?thesis using finish_fec_inv [OF _ kl 2(3)] by blast
      qed (simp add: i3)
    qed (simp add: i3)
  qed
qed

end
