(* ===== verification/ReceiveRepair.thy ===== *)
theory ReceiveRepair
  imports ReceivePackets
begin

text \<open>
  What the memory of a slice holds: its blocks in the ring of the fifo do not overlap,
  receiving a packet leaves the blocks received before as they are, and a new block is
  stored at its place.
\<close>

subsection \<open>Blocks in the ring\<close>

definition ring_ok :: "client_state \<Rightarrow> bool" where
  "ring_ok cs \<longleftrightarrow> 0 < blockSize (rconfig cs) \<and> blockSize (rconfig cs) dvd unat (dataBufSize (rfifo cs))
     \<and> MAX_SLICE_SIZE * blockSize (rconfig cs) \<le> unat (dataBufSize (rfifo cs))
     \<and> length (dataBuffer (rfifo cs)) = unat (dataBufSize (rfifo cs))"

definition ring_block :: "client_state \<Rightarrow> rslice \<Rightarrow> nat \<Rightarrow> byte list" where
  "ring_block cs sl i = take (blockSize (rconfig cs)) (mem_at cs (Ring (ADR cs sl i)))"

lemma ADR_block:
  assumes "ring_ok cs" and "blockSize (rconfig cs) dvd rbase sl"
  shows "blockSize (rconfig cs) dvd ADR cs sl i \<and> ADR cs sl i + blockSize (rconfig cs) \<le> length (dataBuffer (rfifo cs))"
  using assms ring_adr_block [of "blockSize (rconfig cs)" "unat (dataBufSize (rfifo cs))" "rbase sl" i]
  by (auto simp: ring_ok_def ADR_def MAX_SLICE_SIZE_def)

lemma ADR_inj:
  assumes "ring_ok cs" and "i < MAX_SLICE_SIZE" "j < MAX_SLICE_SIZE" and "ADR cs sl i = ADR cs sl j"
  shows "i = j"
  using assms ring_adr_inj [of "blockSize (rconfig cs)" MAX_SLICE_SIZE "unat (dataBufSize (rfifo cs))" i j "rbase sl"]
  by (simp add: ring_ok_def ADR_def)

lemma ring_ok_write [simp]:
  "case a of Ring p \<Rightarrow> p + length v \<le> length (dataBuffer (rfifo cs)) | Pool p \<Rightarrow> True \<Longrightarrow> ring_ok cs \<Longrightarrow> ring_ok (mem_write a v cs)"
  by (cases a) (simp_all add: ring_ok_def mem_write_def)

lemma ADR_write [simp]: "ADR (mem_write a v cs) sl i = ADR cs sl i"
  by (simp add: ADR_def)

lemma ring_block_pool [simp]: "ring_block (mem_write (Pool p) v cs) sl i = ring_block cs sl i"
  by (simp add: ring_block_def mem_at_def mem_write_def ADR_def)

lemma ring_block_write:
  assumes r: "ring_ok cs" and d: "blockSize (rconfig cs) dvd rbase sl" and ij: "i < MAX_SLICE_SIZE" "j < MAX_SLICE_SIZE"
    and l: "length v \<le> blockSize (rconfig cs)"
  shows "j \<noteq> i \<Longrightarrow> ring_block (mem_write (Ring (ADR cs sl i)) v cs) sl j = ring_block cs sl j"
    and "length v = blockSize (rconfig cs) \<Longrightarrow> ring_block (mem_write (Ring (ADR cs sl i)) v cs) sl i = v"
proof -
  note ai = ADR_block [OF r d, of i] and aj = ADR_block [OF r d, of j]
  have p: "ADR cs sl i + length v \<le> length (dataBuffer (rfifo cs))" using ai l by linarith
  assume "length v = blockSize (rconfig cs)"
  then show "ring_block (mem_write (Ring (ADR cs sl i)) v cs) sl i = v"
    using read_write_same [OF p] by (simp add: ring_block_def mem_at_def mem_write_def ADR_def)
next
  note ai = ADR_block [OF r d, of i] and aj = ADR_block [OF r d, of j]
  have p: "ADR cs sl i + length v \<le> length (dataBuffer (rfifo cs))" using ai l by linarith
  assume "j \<noteq> i"
  then have "ADR cs sl i \<noteq> ADR cs sl j" using ADR_inj [OF r ij] by blast
  then have "ADR cs sl i + blockSize (rconfig cs) \<le> ADR cs sl j \<or> ADR cs sl j + blockSize (rconfig cs) \<le> ADR cs sl i"
    using dvd_apart ai aj by blast
  then have "ADR cs sl i + length v \<le> ADR cs sl j \<or> ADR cs sl j + blockSize (rconfig cs) \<le> ADR cs sl i" using l by linarith
  from read_write_apart [OF p this] show "ring_block (mem_write (Ring (ADR cs sl i)) v cs) sl j = ring_block cs sl j"
    by (simp add: ring_block_def mem_at_def mem_write_def ADR_def)
qed

subsection \<open>Reception does not overwrite received blocks\<close>

lemma receive_keeps_block:
  assumes r: "ring_ok cs" and c: "currentSlice cs = Some k" and d: "blockSize (rconfig cs) dvd rbase (rslice_at cs k)"
    and f: "freePos (rslice_at cs k) < MAX_SLICE_SIZE \<longrightarrow> \<not> BIT_ISSET (freePos (rslice_at cs k)) (rmap (rslice_at cs k))"
    and i: "i < MAX_SLICE_SIZE" "BIT_ISSET i (rmap (rslice_at cs k))"
  shows "ring_block (mem_write (iov_base (set_iov cs)) (take (blockSize (rconfig cs)) payload) cs) (rslice_at cs k) i
    = ring_block cs (rslice_at cs k) i"
proof (cases "freePos (rslice_at cs k) < MAX_SLICE_SIZE")
  case True
  then have "iov_base (set_iov cs) = Ring (ADR cs (rslice_at cs k) (freePos (rslice_at cs k)))" "freePos (rslice_at cs k) \<noteq> i"
    using c f i by (auto simp: set_iov_def)
  then show ?thesis using ring_block_write(1) [OF r d True i(1)] by simp
next
  case False
  then have "iov_base (set_iov cs) = Pool (rnextBlock cs)" using c by (simp add: set_iov_def)
  then show ?thesis by simp
qed


subsection \<open>The end of an operation touches the states of the slices only\<close>

definition only_states :: "client_state \<Rightarrow> client_state \<Rightarrow> bool" where
  "only_states cs cs' \<longleftrightarrow> (\<forall>j. \<exists>st. rslice_at cs' j = (rslice_at cs j)\<lparr>rstate := st\<rparr>) \<and> mem_at cs' = mem_at cs
     \<and> blockSize (rconfig cs') = blockSize (rconfig cs) \<and> dataBufSize (rfifo cs') = dataBufSize (rfifo cs)
     \<and> rnextBlock cs' = rnextBlock cs \<and> currentSlice cs' = currentSlice cs"

lemma only_states_refl [simp]: "only_states cs cs"
proof -
  have "\<exists>st. rslice_at cs j = (rslice_at cs j)\<lparr>rstate := st\<rparr>" for j by (rule exI [of _ "rstate (rslice_at cs j)"]) simp
  then show ?thesis by (simp add: only_states_def)
qed

lemma only_states_trans:
  assumes "only_states cs cs'" and "only_states cs' cs''"
  shows "only_states cs cs''"
proof -
  have "\<exists>st. rslice_at cs'' j = (rslice_at cs j)\<lparr>rstate := st\<rparr>" for j
  proof -
    obtain s1 s2 where "rslice_at cs'' j = (rslice_at cs' j)\<lparr>rstate := s2\<rparr>" "rslice_at cs' j = (rslice_at cs j)\<lparr>rstate := s1\<rparr>"
      using assms unfolding only_states_def by blast
    then show ?thesis by auto
  qed
  then show ?thesis using assms by (simp add: only_states_def)
qed

lemma only_states_upd:
  "only_states cs (upd_rslice k (rstate_update (\<lambda>_. st)) cs)"
proof -
  have "\<exists>s. rslice_at (upd_rslice k (rstate_update (\<lambda>_. st)) cs) j = (rslice_at cs j)\<lparr>rstate := s\<rparr>" for j
  proof (cases "k < length (rslices cs) \<and> j = k")
    case False
    then have "rslice_at (upd_rslice k (rstate_update (\<lambda>_. st)) cs) j = (rslice_at cs j)\<lparr>rstate := rstate (rslice_at cs j)\<rparr>"
      by (cases "j = k") (auto simp: rslice_at_def upd_rslice_def not_less list_update_beyond)
    then show ?thesis by blast
  qed (auto simp: rslice_at_def upd_rslice_def)
  then show ?thesis by (simp add: only_states_def)
qed

lemma only_states_same:
  assumes "rslices cs' = rslices cs" and "dataBuffer (rfifo cs') = dataBuffer (rfifo cs)" and "blockData cs' = blockData cs"
    and "blockSize (rconfig cs') = blockSize (rconfig cs)" and "dataBufSize (rfifo cs') = dataBufSize (rfifo cs)"
    and "rnextBlock cs' = rnextBlock cs" and "currentSlice cs' = currentSlice cs"
  shows "only_states cs cs'"
proof -
  have "mem_at cs' = mem_at cs" by (rule ext) (simp add: mem_at_def assms(2,3) cong: address.case_cong)
  moreover have "\<exists>st. rslice_at cs' j = (rslice_at cs j)\<lparr>rstate := st\<rparr>" for j
    by (rule exI [of _ "rstate (rslice_at cs j)"]) (simp add: rslice_at_def assms(1))
  ultimately show ?thesis using assms by (simp add: only_states_def)
qed

lemma end_streaming_states: "only_states cs (end_streaming sl cs)"
  by (rule only_states_same) (simp_all add: end_streaming_def)

lemma advance_loop_states: "advance_loop n pos cs = Done cs' \<Longrightarrow> only_states cs cs'"
proof (induction n arbitrary: pos cs)
  case (Suc n)
  have "only_states cs (cs\<lparr>receivedPtr := p\<rparr>)" "only_states cs (cs\<lparr>receivedSliceNo := no\<rparr>)" for p no
    by (rule only_states_same; simp)+
  then show ?case using Suc only_states_trans by (fastforce simp: Let_def split: if_splits)
qed simp

lemma cleanup_loop_states: "cleanup_loop n d cs = Done cs' \<Longrightarrow> only_states cs cs'"
proof (induction n arbitrary: cs)
  case (Suc n)
  define pos where "pos = unat (pc_getProducerPosition (rfree_slices_pc cs))"
  show ?case
  proof (cases "rstate (rslice_at cs pos) = d")
    case False
    then show ?thesis using Suc.prems by (simp add: pos_def [symmetric] Let_def)
  next
    case True
    then obtain da pc cs1 where
      cs1: "cs1 = upd_rslice pos (rstate_update (\<lambda>_. RSLICE_FREE)) (cs\<lparr>rstats := receiverStatsAddBytes (rstats cs) (rbytes (rslice_at cs pos)),
                rfifo := (rfifo cs)\<lparr>data := da\<rparr>\<rparr>)"
      and r: "cleanup_loop n d (if rbytes (rslice_at cs pos) = 0 then cs1\<lparr>rfree_slices_pc := pc, endReached := 2\<rparr> else cs1\<lparr>rfree_slices_pc := pc\<rparr>) = Done cs'"
      using Suc.prems by (auto simp: pos_def [symmetric] Let_def outcome_Done cong: if_cong)
    have "only_states cs cs1" unfolding cs1
      by (rule only_states_trans [OF _ only_states_upd], rule only_states_same) simp_all
    moreover have "only_states cs1 (if rbytes (rslice_at cs pos) = 0 then cs1\<lparr>rfree_slices_pc := pc, endReached := 2\<rparr> else cs1\<lparr>rfree_slices_pc := pc\<rparr>)"
      by (rule only_states_same) simp_all
    ultimately show ?thesis using Suc.IH [OF r] only_states_trans by blast
  qed
qed simp

lemma checkSliceComplete_states:
  assumes c: "checkSliceComplete cs k = Done cs'"
  shows "only_states cs cs'"
proof (cases "rstate (rslice_at cs k) = SLICE_RECEIVING \<and> slice_blocks (rconfig cs) (rbytes (rslice_at cs k)) = blocksTransferred (rslice_at cs k)")
  case False
  then have "cs' = cs" using c by (auto simp: checkSliceComplete_def outcome_Done split: if_splits)
  then show ?thesis by simp
next
  case True
  obtain cs2 cs3 where "(\<exists>st. cs2 = upd_rslice k (rstate_update (\<lambda>_. st)) (end_streaming (rslice_at cs k) cs))"
      "advanceReceivedPointer cs2 = Done cs3"
      "cleanupSlices cs3 SLICE_DONE = Done cs' \<or> (\<exists>fs pc. cs' = cs3\<lparr>fec_slices := fs, rfec_data_pc := pc\<rparr>)"
    using c True unfolding checkSliceComplete_def by (auto simp: outcome_Done Let_def split: if_splits)
  then obtain st where st: "cs2 = upd_rslice k (rstate_update (\<lambda>_. st)) (end_streaming (rslice_at cs k) cs)" by blast
  have "only_states cs cs2" unfolding st by (rule only_states_trans [OF end_streaming_states only_states_upd])
  moreover have "only_states cs2 cs3"
    using \<open>advanceReceivedPointer cs2 = Done cs3\<close> unfolding advanceReceivedPointer_def by (rule advance_loop_states)
  moreover have "only_states cs3 cs'"
    using \<open>cleanupSlices cs3 SLICE_DONE = Done cs' \<or> (\<exists>fs pc. cs' = cs3\<lparr>fec_slices := fs, rfec_data_pc := pc\<rparr>)\<close>
    using cleanup_loop_states [of "RNR_SLICES + 1" SLICE_DONE cs3 cs'] only_states_same [of cs' cs3]
    by (auto simp only: cleanupSlices_def) auto
  ultimately show ?thesis using only_states_trans by blast
qed

subsection \<open>Where the data goes\<close>

lemma ring_block_states:
  assumes "only_states cs cs'"
  shows "ring_block cs' (rslice_at cs' k) i = ring_block cs (rslice_at cs k) i"
proof -
  obtain st where "rslice_at cs' k = (rslice_at cs k)\<lparr>rstate := st\<rparr>" using assms unfolding only_states_def by blast
  then show ?thesis using assms by (simp add: only_states_def ring_block_def ADR_def)
qed

lemma store_data_block_memory:
  assumes inv: "client_inv cs" and r: "ring_ok cs" and k: "k < RNR_SLICES" and st: "rstate (rslice_at cs k) = SLICE_RECEIVING"
    and d: "blockSize (rconfig cs) dvd rbase (rslice_at cs k)" and new: "\<not> BIT_ISSET i (rmap (rslice_at cs k))"
    and b: "0 < b" "slice_blocks (rconfig cs) b \<le> int MAX_SLICE_SIZE" "int i < slice_blocks (rconfig cs) b"
    and v: "v = take (blockSize (rconfig cs)) (mem_at cs (iov_base cs))" "length v = blockSize (rconfig cs)"
    and s: "store_data_block cs k i b = Done cs'"
  shows "ring_block cs' (rslice_at cs' k) i = v \<and> rmap (rslice_at cs' k) = SET_BIT i (rmap (rslice_at cs k))
    \<and> (\<forall>j < MAX_SLICE_SIZE. j \<noteq> i \<longrightarrow> ring_block cs' (rslice_at cs' k) j = ring_block cs (rslice_at cs k) j)"
proof -
  let ?sl = "rslice_at cs k"
  obtain cs1 cs2 where c1: "cs1 = (if Ring (ADR cs ?sl i) \<noteq> iov_base cs then mem_write (Ring (ADR cs ?sl i)) v cs else cs)"
    and c2: "frame {k} cs cs2" "mem_at cs2 = mem_at cs1"
      "rslice_at cs2 k = data_block_slice i (?sl\<lparr>bytesKnown := True, rbytes := b\<rparr>)"
    and e: "checkSliceComplete cs2 k = Done cs'"
    using store_data_block_steps [OF inv k st new b s] unfolding v(1) by blast
  have ds: "dataBufSize (rfifo cs2) = dataBufSize (rfifo cs)" using c2(1) by (simp add: frame_def)
  have i: "i < MAX_SLICE_SIZE" using b by linarith
  have at: "ring_block cs2 (rslice_at cs2 k) j = ring_block cs1 ?sl j" for j
    using c2 ds by (simp add: ring_block_def ADR_def frame_def c1)
  have w: "ring_block cs1 ?sl j = (if j = i then v else ring_block cs ?sl j)" if "j < MAX_SLICE_SIZE" for j
  proof (cases "Ring (ADR cs ?sl i) = iov_base cs")
    case True
    then have "v = ring_block cs ?sl i" by (simp add: v(1) ring_block_def)
    then show ?thesis using True by (simp add: c1)
  next
    case False
    then show ?thesis using ring_block_write [OF r d i that, of v] v(2) by (auto simp: c1)
  qed
  note o = checkSliceComplete_states [OF e]
  obtain s' where s': "rslice_at cs' k = (rslice_at cs2 k)\<lparr>rstate := s'\<rparr>" using o unfolding only_states_def by blast
  have "ring_block cs' (rslice_at cs' k) j = (if j = i then v else ring_block cs ?sl j)" if "j < MAX_SLICE_SIZE" for j
    using ring_block_states [OF o, of k j] at w [OF that] by simp
  moreover have "rmap (rslice_at cs' k) = rmap (rslice_at cs2 k)" by (simp add: s' rmap_def)
  then have "rmap (rslice_at cs' k) = SET_BIT i (rmap ?sl)" by (simp add: c2(3)) (simp add: rmap_def)
  ultimately show ?thesis using i by simp
qed


subsection \<open>Writes of many blocks\<close>

lemma write_ring_blocks:
  assumes "ring_ok cs" and "blockSize (rconfig cs) dvd rbase sl" and "distinct js" and "\<forall>j \<in> set js. j < MAX_SLICE_SIZE"
    and "length vs = length js" and "\<forall>v \<in> set vs. length v = blockSize (rconfig cs)"
    and "cs' = fold (\<lambda>(a, b). mem_write (Ring a) b) (zip (map (ADR cs sl) js) vs) cs"
  shows "ring_ok cs' \<and> rslices cs' = rslices cs \<and> rconfig cs' = rconfig cs \<and> blockData cs' = blockData cs
    \<and> dataBufSize (rfifo cs') = dataBufSize (rfifo cs)
    \<and> (\<forall>m < length js. ring_block cs' sl (js ! m) = vs ! m)
    \<and> (\<forall>j < MAX_SLICE_SIZE. j \<notin> set js \<longrightarrow> ring_block cs' sl j = ring_block cs sl j)"
  using assms
proof (induction js arbitrary: cs vs)
  case (Cons j js)
  then obtain v ws where vs: "vs = v # ws" by (cases vs) auto
  define cs1 where "cs1 = mem_write (Ring (ADR cs sl j)) v cs"
  note r = Cons.prems(1) and d = Cons.prems(2)
  have j: "j < MAX_SLICE_SIZE" "length v = blockSize (rconfig cs)" using Cons.prems vs by auto
  have r1: "ring_ok cs1" unfolding cs1_def
    by (rule ring_ok_write) (use ADR_block [OF r d, of j] j r in auto)
  have adr1: "ADR cs1 sl = ADR cs sl" by (rule ext) (simp add: cs1_def)
  have bd: "blockData cs1 = blockData cs" by (simp add: cs1_def mem_write_def)
  have IH: "ring_ok cs' \<and> rslices cs' = rslices cs1 \<and> rconfig cs' = rconfig cs1 \<and> blockData cs' = blockData cs1
    \<and> dataBufSize (rfifo cs') = dataBufSize (rfifo cs1)
    \<and> (\<forall>m < length js. ring_block cs' sl (js ! m) = ws ! m)
    \<and> (\<forall>j < MAX_SLICE_SIZE. j \<notin> set js \<longrightarrow> ring_block cs' sl j = ring_block cs1 sl j)"
    by (rule Cons.IH [OF r1]) (use Cons.prems vs in \<open>auto simp: cs1_def [symmetric] adr1\<close>, auto simp: cs1_def)
  have one: "ring_block cs1 sl j = v" using ring_block_write(2) [OF r d j(1) j(1), of v] j by (simp add: cs1_def)
  have other: "ring_block cs1 sl i = ring_block cs sl i" if "i < MAX_SLICE_SIZE" "i \<noteq> j" for i
    using ring_block_write(1) [OF r d j(1) that(1), of v] j that by (simp add: cs1_def)
  have "ring_block cs' sl ((j # js) ! m) = vs ! m" if "m < length (j # js)" for m
    using that IH one j(1) Cons.prems(3) vs by (cases m) auto
  moreover have "ring_block cs' sl i = ring_block cs sl i" if "i < MAX_SLICE_SIZE" "i \<notin> set (j # js)" for i
    using that IH other by simp
  ultimately show ?case using IH bd by (simp add: cs1_def)
qed simp

lemma write_pool_blocks:
  assumes "cs' = fold (\<lambda>(a, b). mem_write (Pool a) b) (zip as vs) cs"
  shows "(ring_ok cs \<longrightarrow> ring_ok cs') \<and> rslices cs' = rslices cs \<and> rconfig cs' = rconfig cs \<and> rfifo cs' = rfifo cs
    \<and> ring_block cs' = ring_block cs"
  using assms
proof (induction as arbitrary: cs vs)
  case (Cons a as)
  show ?case
  proof (cases vs)
    case (Cons v ws)
    have rf: "rfifo (mem_write (Pool a) v cs) = rfifo cs" by (simp add: mem_write_def)
    have "ring_block (mem_write (Pool a) v cs) = ring_block cs" by (intro ext) simp
    moreover have "ring_ok (mem_write (Pool a) v cs) = ring_ok cs" by (simp add: ring_ok_def mem_write_def)
    ultimately show ?thesis using Cons.IH [of ws "mem_write (Pool a) v cs"] Cons.prems Cons rf by simp
  qed (use Cons.prems in simp)
qed simp

lemma pool_write_apart:
  assumes "cs' = fold (\<lambda>(a, b). mem_write (Pool a) b) (zip as vs) cs" and "length vs = length as" and "\<forall>v \<in> set vs. length v = bs"
    and "\<forall>a \<in> set as. a + bs \<le> length (blockData cs) \<and> (a + bs \<le> q \<or> q + bs \<le> a)"
  shows "take bs (mem_at cs' (Pool q)) = take bs (mem_at cs (Pool q)) \<and> length (blockData cs') = length (blockData cs)"
  using assms
proof (induction as arbitrary: cs vs)
  case (Cons a as)
  then obtain v ws where vs: "vs = v # ws" by (cases vs) auto
  let ?cs1 = "mem_write (Pool a) v cs"
  have av: "a + length v \<le> length (blockData cs)" "a + length v \<le> q \<or> q + bs \<le> a" using Cons.prems vs by auto
  have 1: "take bs (mem_at ?cs1 (Pool q)) = take bs (mem_at cs (Pool q))" "length (blockData ?cs1) = length (blockData cs)"
    using read_write_apart [OF av] av(1) by (simp_all add: mem_at_def mem_write_def)
  show ?case using Cons.IH [of ws ?cs1] Cons.prems vs 1 by simp
qed simp

end
