(* ===== verification/ReceiveDecode.thy ===== *)
theory ReceiveDecode
  imports ReceiveRepair
begin

text \<open>
  The repair of a slice from its FEC blocks, \<^verbatim>\<open>fec_decode_one_stripe\<close> and the loop over
  the stripes in \<^verbatim>\<open>fecMain\<close> of \<^verbatim>\<open>src/receivedata.c\<close>: when the received blocks and the
  FEC blocks of a slice belong to the same data, the decoder restores the whole slice in the
  ring, although it runs in place, stripe after stripe, on memory shared with the FEC blocks
  of the other stripes.
\<close>

subsection \<open>Decoding one stripe\<close>

lemma length_ring_block:
  "ring_ok cs \<Longrightarrow> blockSize (rconfig cs) dvd rbase sl \<Longrightarrow> length (ring_block cs sl i) = blockSize (rconfig cs)"
  using ADR_block [of cs sl i] by (auto simp: ring_block_def mem_at_def min_def)

definition pad_write :: "client_state \<Rightarrow> rslice \<Rightarrow> nat \<Rightarrow> nat \<Rightarrow> client_state" where
  "pad_write cs sl lo n = (if lo \<noteq> 0 then mem_write (Ring (ADR cs sl (n - 1) + lo)) (replicate (blockSize (rconfig cs) - lo) 0) cs else cs)"

lemma pad_write_blocks:
  assumes r: "ring_ok cs" and d: "blockSize (rconfig cs) dvd rbase sl" and lo: "lo < blockSize (rconfig cs)"
    and n: "0 < n" "n \<le> MAX_SLICE_SIZE"
  shows "ring_ok (pad_write cs sl lo n) \<and> rslices (pad_write cs sl lo n) = rslices cs \<and> rconfig (pad_write cs sl lo n) = rconfig cs
    \<and> blockData (pad_write cs sl lo n) = blockData cs \<and> dataBufSize (rfifo (pad_write cs sl lo n)) = dataBufSize (rfifo cs)
    \<and> (\<forall>j < n. ring_block (pad_write cs sl lo n) sl j = padded lo n j (ring_block cs sl j))"
proof (cases "lo = 0")
  case True
  then show ?thesis using r by (simp add: pad_write_def padded_def)
next
  case False
  define bs where "bs = blockSize (rconfig cs)"
  define v where "v = replicate (bs - lo) (0 :: byte)"
  define cs1 where "cs1 = mem_write (Ring (ADR cs sl (n - 1) + lo)) v cs"
  have eq: "pad_write cs sl lo n = cs1" using False by (simp add: pad_write_def cs1_def v_def bs_def)
  have lv: "lo + length v = bs" using lo by (simp add: v_def bs_def)
  note a = ADR_block [OF r d, of "n - 1", folded bs_def]
  have p: "ADR cs sl (n - 1) + lo + length v \<le> length (dataBuffer (rfifo cs))" using a lv by linarith
  have "ring_block cs1 sl j = padded lo n j (ring_block cs sl j)" if "j < n" for j
  proof (cases "j = n - 1")
    case True
    have "ring_block cs1 sl j = take lo (drop (ADR cs sl j) (dataBuffer (rfifo cs))) @ v"
      using read_write_tail [OF conjunct2 [OF a] lv] True
      by (simp add: ring_block_def cs1_def mem_at_def mem_write_def ADR_def bs_def)
    moreover have "take lo (ring_block cs sl j) = take lo (drop (ADR cs sl j) (dataBuffer (rfifo cs)))"
      using lo by (simp add: ring_block_def mem_at_def)
    moreover have "length (ring_block cs sl j) = bs" using length_ring_block [OF r d] by (simp add: bs_def)
    ultimately show ?thesis using False True n(1) by (simp add: padded_def v_def)
  next
    case other: False
    then have "ADR cs sl (n - 1) \<noteq> ADR cs sl j" using ADR_inj [OF r, of "n - 1" j sl] that n by (metis One_nat_def diff_less less_le_trans zero_less_one)
    then have "ADR cs sl (n - 1) + bs \<le> ADR cs sl j \<or> ADR cs sl j + bs \<le> ADR cs sl (n - 1)"
      using dvd_apart a ADR_block [OF r d, of j, folded bs_def] by blast
    then have "ADR cs sl (n - 1) + lo + length v \<le> ADR cs sl j \<or> ADR cs sl j + bs \<le> ADR cs sl (n - 1) + lo"
      using lv by linarith
    from read_write_apart [OF p this] have "ring_block cs1 sl j = ring_block cs sl j"
      by (simp add: ring_block_def cs1_def mem_at_def mem_write_def ADR_def bs_def)
    moreover have "j + 1 \<noteq> n" using other by auto
    ultimately show ?thesis by (simp add: padded_def)
  qed
  moreover have "ring_ok cs1" using p r by (simp add: cs1_def)
  moreover have "blockData cs1 = blockData cs" "rslices cs1 = rslices cs" "rconfig cs1 = rconfig cs"
    "dataBufSize (rfifo cs1) = dataBufSize (rfifo cs)"
    by (simp_all add: cs1_def mem_write_def)
  ultimately show ?thesis by (simp add: eq)
qed

definition desc_same :: "fec_desc list \<Rightarrow> fec_desc list \<Rightarrow> bool" where
  \<comment> \<open>the descriptors differ in \<^verbatim>\<open>erasedBlockNo\<close> only\<close>
  "desc_same ds ds' \<longleftrightarrow> length ds' = length ds \<and> (\<forall>i. adr (ds' ! i) = adr (ds ! i) \<and> fecBlockNo (ds' ! i) = fecBlockNo (ds ! i))"

lemma desc_same_trans: "desc_same ds ds' \<Longrightarrow> desc_same ds' ds'' \<Longrightarrow> desc_same ds ds''"
  by (simp add: desc_same_def)

lemma desc_same_fold: "desc_same ds (fold (\<lambda>j ds. ds[f j := (ds ! f j)\<lparr>erasedBlockNo := g j\<rparr>]) js ds)"
proof (induction js arbitrary: ds)
  case (Cons j js)
  have "desc_same ds (ds[f j := (ds ! f j)\<lparr>erasedBlockNo := g j\<rparr>])"
    unfolding desc_same_def
  proof (intro conjI allI)
    fix i
    show "adr (ds[f j := (ds ! f j)\<lparr>erasedBlockNo := g j\<rparr>] ! i) = adr (ds ! i)"
      by (cases "f j < length ds"; cases "i = f j") (simp_all add: list_update_beyond)
    show "fecBlockNo (ds[f j := (ds ! f j)\<lparr>erasedBlockNo := g j\<rparr>] ! i) = fecBlockNo (ds ! i)"
      by (cases "f j < length ds"; cases "i = f j") (simp_all add: list_update_beyond)
  qed simp
  then show ?case using Cons.IH [of "ds[f j := (ds ! f j)\<lparr>erasedBlockNo := g j\<rparr>]"] desc_same_trans [of ds]
    by (simp only: fold_simps o_apply)
qed (simp add: desc_same_def)


lemma filter_upt_strict: "sorted_wrt (<) (filter P [0..<m])"
  using sorted_wrt_filter [OF sorted_wrt_upt] by blast

definition stripe_ready :: "gf_tables \<Rightarrow> nat \<Rightarrow> (nat \<Rightarrow> byte list) \<Rightarrow> nat \<Rightarrow> rslice \<Rightarrow> (nat \<Rightarrow> byte list) \<Rightarrow> nat \<Rightarrow> bool" where
  \<comment> \<open>the descriptors of stripe \<open>s\<close> hold distinct FEC blocks of \<open>D\<close>; \<open>pool\<close> reads the FEC blocks\<close>
  "stripe_ready T bs D n sl pool s \<longleftrightarrow>
     (let js = stripe_blocks s (rfec_stripes sl) n; m = nat (rfec_blocks sl ! s);
          f = (\<lambda>i. fecBlockNo (fec_descs sl ! (s + i * rfec_stripes sl)) div rfec_stripes sl)
      in length js \<le> 128 \<and> length (filter (\<lambda>j. \<not> BIT_ISSET j (rmap sl)) js) = m \<and> inj_on f {..<m}
         \<and> (\<exists>nrf fecs enc. nrf \<le> 128 \<and> blocks nrf bs fecs \<and> fec_encode T bs (map D js) (length js) fecs nrf = Some enc
              \<and> (\<forall>i < m. f i < nrf \<and> (\<exists>p. adr (fec_descs sl ! (s + i * rfec_stripes sl)) = Some p \<and> pool p = enc ! f i))))"

definition pool_block :: "client_state \<Rightarrow> nat \<Rightarrow> byte list" where
  "pool_block cs p = take (blockSize (rconfig cs)) (mem_at cs (Pool p))"

lemma stripe_decodes:
  assumes T: "gf_arith T" and r: "stripe_ready T bs D n sl pool s" and s: "s < rfec_stripes sl"
    and D: "\<forall>j < n. length (D j) = bs" and damaged: "\<forall>j < n. length (R j) = bs \<and> (BIT_ISSET j (rmap sl) \<longrightarrow> R j = D j)"
    and js: "js = stripe_blocks s (rfec_stripes sl) n" and m: "m = nat (rfec_blocks sl ! s)"
    and ds: "desc_same (fec_descs sl) ds"
  shows "\<exists>fec'. fec_decode T bs (map R js) (length js)
       (map (\<lambda>i. pool (the (adr (ds ! (s + i * rfec_stripes sl))))) [0..<m])
       (map (\<lambda>i. fecBlockNo (ds ! (s + i * rfec_stripes sl)) div rfec_stripes sl) [0..<m])
       (map (\<lambda>i. i div rfec_stripes sl) (filter (\<lambda>j. \<not> BIT_ISSET j (rmap sl)) js)) m = Some (map D js, fec') \<and> blocks m bs fec'"
proof -
  define st where "st = rfec_stripes sl"
  define f where "f i = fecBlockNo (fec_descs sl ! (s + i * st)) div st" for i
  define E where "E = map (\<lambda>i. i div st) (filter (\<lambda>j. \<not> BIT_ISSET j (rmap sl)) js)"
  obtain nrf fecs enc where nrf: "nrf \<le> 128" "blocks nrf bs fecs" "fec_encode T bs (map D js) (length js) fecs nrf = Some enc"
    and fi: "\<forall>i < m. f i < nrf \<and> (\<exists>p. adr (fec_descs sl ! (s + i * st)) = Some p \<and> pool p = enc ! f i)"
    and len: "length js \<le> 128" "length E = m" and inj: "inj_on f {..<m}"
    using r unfolding stripe_ready_def Let_def js m f_def st_def E_def by auto
  note in_js = conjunct1 [OF stripe_blocks_nth [OF s, of n], folded js st_def]
  have nth: "js ! j = s + j * st" if "j < length js" for j
    using that by (simp add: js stripe_blocks_def st_def)
  have lt: "j < n" if "j \<in> set js" for j using in_js that by simp
  have E: "E = filter (\<lambda>j. \<not> BIT_ISSET (s + j * st) (rmap sl)) [0..<length js]"
    unfolding E_def js st_def by (rule stripe_erased [OF s])
  have B: "blocks (length js) bs (map D js)" "blocks (length js) bs (map R js)"
    using D damaged lt by (auto simp: blocks_def)
  have e1: "sorted_wrt (<) E" "\<forall>e \<in> set E. e < length js" by (auto simp: E filter_upt_strict)
  have f1: "distinct (map f [0..<m])" "\<forall>g \<in> set (map f [0..<m]). g < nrf" "length (map f [0..<m]) = length E"
    using inj fi len by (auto simp: distinct_map lessThan_atLeast0)
  have same: "\<forall>i < length js. i \<notin> set E \<longrightarrow> map R js ! i = map D js ! i"
    using damaged lt nth by (auto simp: E) (metis nth_mem)
  have "\<exists>fec'. fec_decode T bs (map R js) (length js) (map (\<lambda>g. enc ! g) (map f [0..<m])) (map f [0..<m]) E m = Some (map D js, fec') \<and> blocks m bs fec'"
  proof (cases "js = []")
    case True
    then have "m = 0" "E = []" using len by (simp_all add: E_def)
    then show ?thesis using True by (simp add: fec_decode_def reduce_def resolve_def decode_matrix_def invert_mat_def blocks_def)
  next
    case False
    then show ?thesis
      using fec_decode_encode [OF T _ len(1) nrf(1) B(1) nrf(2) B(2) e1 f1 same] nrf(3) len(2) by auto
  qed
  then obtain fec' where dec: "fec_decode T bs (map R js) (length js) (map (\<lambda>g. enc ! g) (map f [0..<m])) (map f [0..<m]) E m = Some (map D js, fec')"
    "blocks m bs fec'" by blast
  have eq1: "map (\<lambda>i. pool (the (adr (ds ! (s + i * st))))) [0..<m] = map (\<lambda>g. enc ! g) (map f [0..<m])"
    using fi ds by (auto simp: desc_same_def)
  have eq2: "map (\<lambda>i. fecBlockNo (ds ! (s + i * st)) div st) [0..<m] = map f [0..<m]"
    using ds by (simp add: desc_same_def f_def)
  show ?thesis unfolding st_def [symmetric] E_def [symmetric] eq1 eq2 using dec by blast
qed


lemma write_pool_other:
  "cs' = fold (\<lambda>(a, b). mem_write (Pool a) b) (zip as vs) cs \<Longrightarrow> dataBuffer (rfifo cs') = dataBuffer (rfifo cs) \<and> dataBufSize (rfifo cs') = dataBufSize (rfifo cs)"
proof (induction as arbitrary: cs vs)
  case (Cons a as)
  show ?case
  proof (cases vs)
    case (Cons v ws)
    then show ?thesis using Cons.IH [of ws "mem_write (Pool a) v cs"] Cons.prems by (simp add: mem_write_def)
  qed (use Cons.prems in simp)
qed simp

lemma pool_write_len:
  "cs' = fold (\<lambda>(a, b). mem_write (Pool a) b) (zip as vs) cs \<Longrightarrow> length vs = length as \<Longrightarrow> \<forall>v \<in> set vs. length v = bs
    \<Longrightarrow> \<forall>a \<in> set as. a + bs \<le> length (blockData cs) \<Longrightarrow> length (blockData cs') = length (blockData cs)"
proof (induction as arbitrary: cs vs)
  case (Cons a as)
  then obtain v ws where vs: "vs = v # ws" by (cases vs) auto
  have "length (blockData (mem_write (Pool a) v cs)) = length (blockData cs)" using Cons.prems vs by (auto simp: mem_write_def)
  then show ?case using Cons.IH [of ws "mem_write (Pool a) v cs"] Cons.prems vs by simp
qed simp

definition own_adrs :: "rslice \<Rightarrow> nat \<Rightarrow> nat list" where
  "own_adrs sl s = map (\<lambda>i. the (adr (fec_descs sl ! (s + i * rfec_stripes sl)))) [0..<nat (rfec_blocks sl ! s)]"

lemma decode_one_stripe:
  assumes T: "gf_arith T" and r: "ring_ok cs" and k: "k < length (rslices cs)" and sl: "sl = rslice_at cs k"
    and d: "blockSize (rconfig cs) dvd rbase sl" and bs: "bs = blockSize (rconfig cs)"
    and n: "n = nat (slice_blocks (rconfig cs) (rbytes sl))" "0 < n" "n \<le> MAX_SLICE_SIZE"
    and lo: "lo = nat (rbytes sl) mod bs" and s: "s < rfec_stripes sl"
    and ready: "stripe_ready T bs D n sl (pool_block cs) s"
    and D: "\<forall>j < n. length (D j) = bs \<and> (BIT_ISSET j (rmap sl) \<longrightarrow> padded lo n j (ring_block cs sl j) = D j)"
    and js: "js = stripe_blocks s (rfec_stripes sl) n"
    and own: "\<forall>a \<in> set (own_adrs sl s). a + bs \<le> length (blockData cs)"
  shows "\<exists>cs' ds. fec_decode_one_stripe T cs k s (rbytes sl) (rfec_stripes sl) (nat (rfec_blocks sl ! s)) = Done cs'
     \<and> desc_same (fec_descs sl) ds \<and> rslices cs' = (rslices cs)[k := sl\<lparr>fec_descs := ds\<rparr>] \<and> ring_ok cs' \<and> rconfig cs' = rconfig cs
     \<and> (\<forall>j \<in> set js. ring_block cs' sl j = D j)
     \<and> (\<forall>j < n. j \<notin> set js \<longrightarrow> ring_block cs' sl j = padded lo n j (ring_block cs sl j))
     \<and> length (blockData cs') = length (blockData cs)
     \<and> (\<forall>q. (\<forall>a \<in> set (own_adrs sl s). a + bs \<le> q \<or> q + bs \<le> a) \<longrightarrow> pool_block cs' q = pool_block cs q)"
proof -
  define st where "st = rfec_stripes sl"
  define m where "m = nat (rfec_blocks sl ! s)"
  define missing where "missing = filter (\<lambda>i. \<not> BIT_ISSET i (rmap sl)) js"
  define ds where "ds = fold (\<lambda>j descs. descs[map (\<lambda>j. s + j * st) [0..<m] ! j := (descs ! (map (\<lambda>j. s + j * st) [0..<m] ! j))\<lparr>erasedBlockNo := missing ! j\<rparr>])
                         [0..<m] (fec_descs sl)"
  have ds: "desc_same (fec_descs sl) ds" unfolding ds_def by (rule desc_same_fold)
  define cs1 where "cs1 = upd_rslice k (fec_descs_update (\<lambda>_. ds)) cs"
  define cs2 where "cs2 = pad_write cs1 sl lo n"
  define adrs where "adrs = map (\<lambda>i. the (adr (ds ! (s + i * st)))) [0..<m]"
  have adrs: "adrs = own_adrs sl s" using ds by (simp add: adrs_def own_adrs_def desc_same_def st_def m_def)
  have cs1: "ring_ok cs1" "rconfig cs1 = rconfig cs" "ring_block cs1 = ring_block cs" "blockData cs1 = blockData cs"
    using r by (auto simp: cs1_def ring_ok_def ring_block_def ADR_def fun_eq_iff)
  have lo_lt: "lo < blockSize (rconfig cs1)" using r by (simp add: lo bs cs1(2) ring_ok_def)
  have d1: "blockSize (rconfig cs1) dvd rbase sl" using d cs1 by simp
  note pad = pad_write_blocks [OF cs1(1) d1 lo_lt n(2,3), folded cs2_def]
  have c2: "ring_ok cs2" "rconfig cs2 = rconfig cs" "blockData cs2 = blockData cs" "rslices cs2 = (rslices cs)[k := sl\<lparr>fec_descs := ds\<rparr>]"
    "\<forall>j < n. ring_block cs2 sl j = padded lo n j (ring_block cs sl j)"
    using pad cs1 by (simp_all add: cs1_def upd_rslice_def sl rslice_at_def)
  have in_js: "j \<in> set js \<Longrightarrow> j < n" for j using stripe_blocks_nth [OF s, of n] by (simp add: js)
  have dist: "distinct js" using stripe_blocks_nth [OF s, of n] by (simp add: js)
  have pool2: "pool_block cs2 = pool_block cs" using c2 by (simp add: pool_block_def mem_at_def fun_eq_iff)
  have dam: "\<forall>j < n. length (ring_block cs2 sl j) = bs \<and> (BIT_ISSET j (rmap sl) \<longrightarrow> ring_block cs2 sl j = D j)"
  proof (intro allI impI)
    fix j assume j: "j < n"
    have "length (ring_block cs2 sl j) = bs" using length_ring_block [OF c2(1), of sl j] c2(2) d by (simp add: bs)
    moreover have "BIT_ISSET j (rmap sl) \<longrightarrow> ring_block cs2 sl j = D j" using c2(5) D j by simp
    ultimately show "length (ring_block cs2 sl j) = bs \<and> (BIT_ISSET j (rmap sl) \<longrightarrow> ring_block cs2 sl j = D j)" ..
  qed
  have mlen: "length missing = m" "length js \<le> 128"
    using ready by (simp_all add: stripe_ready_def Let_def js missing_def m_def)
  obtain fec' where dec: "fec_decode T bs (map (ring_block cs2 sl) js) (length js)
       (map (\<lambda>i. pool_block cs (the (adr (ds ! (s + i * st))))) [0..<m])
       (map (\<lambda>i. fecBlockNo (ds ! (s + i * st)) div st) [0..<m])
       (map (\<lambda>i. i div st) missing) m = Some (map D js, fec')" and fec': "blocks m bs fec'"
    using stripe_decodes [OF T ready s _ dam js refl ds] D unfolding st_def m_def missing_def by blast
  define cs3 where "cs3 = fold (\<lambda>(a, b). mem_write (Ring a) b) (zip (map (ADR cs2 sl) js) (map D js)) cs2"
  define cs4 where "cs4 = fold (\<lambda>(a, b). mem_write (Pool a) b) (zip adrs fec') cs3"
  have run: "fec_decode_one_stripe T cs k s (rbytes sl) st m = Done cs4"
  proof -
    have a1: "map ((\<lambda>a. take bs (mem_at cs2 (Ring a))) \<circ> ADR cs2 sl) js = map (ring_block cs2 sl) js"
      using c2 by (simp add: ring_block_def bs)
    have a2: "map ((\<lambda>a. take bs (mem_at cs2 (Pool a))) \<circ> (\<lambda>i. the (adr (ds ! (s + i * st))))) [0..<m] = map (\<lambda>i. pool_block cs (the (adr (ds ! (s + i * st))))) [0..<m]"
      using pool2 c2 by (simp add: pool_block_def bs fun_eq_iff)
    have pad_eq: "(if lo \<noteq> 0 then mem_write (Ring (ADR cs1 sl (n - 1) + lo)) (replicate (bs - lo) 0) cs1 else cs1) = cs2"
      by (simp add: cs2_def pad_write_def bs cs1(2))
    have a3: "map (\<lambda>i. fecBlockNo (ds ! i) div st) (map (\<lambda>j. s + j * st) [0..<m]) = map (\<lambda>i. fecBlockNo (ds ! (s + i * st)) div st) [0..<m]"
      "map (\<lambda>i. the (adr (ds ! i))) (map (\<lambda>j. s + j * st) [0..<m]) = adrs"
      by (simp_all add: adrs_def)
    have a4: "map (\<lambda>a. take bs (mem_at cs2 (Pool a))) adrs = map (\<lambda>i. pool_block cs (the (adr (ds ! (s + i * st))))) [0..<m]"
      "map (\<lambda>a. take bs (mem_at cs2 (Ring a))) (map (ADR cs2 sl) js) = map (ring_block cs2 sl) js"
      using a1 a2 by (simp_all add: adrs_def)
    show ?thesis
      unfolding fec_decode_one_stripe_def Let_def sl [symmetric] bs [symmetric] n(1) [symmetric] js [symmetric, folded st_def]
        missing_def [symmetric] ds_def [symmetric] lo [symmetric] cs1_def [symmetric] pad_eq a3 a4 length_map dec mlen(1)
      using mlen(2) by (simp add: cs3_def cs4_def)
  qed
  have js_lt: "\<forall>j \<in> set js. j < MAX_SLICE_SIZE" using in_js n(3) by fastforce
  have Dlen: "\<forall>v \<in> set (map D js). length v = blockSize (rconfig cs2)" using D in_js c2 bs by auto
  have d2: "blockSize (rconfig cs2) dvd rbase sl" using d c2 by simp
  note w3 = write_ring_blocks [OF c2(1) d2 dist js_lt _ Dlen cs3_def, simplified]
  note w4 = write_pool_blocks [OF cs4_def]
  have "ring_block cs4 sl j = D j" if "j \<in> set js" for j
    using that w3 w4 by (auto simp: in_set_conv_nth)
  moreover have "ring_block cs4 sl j = padded lo n j (ring_block cs sl j)" if "j < n" "j \<notin> set js" for j
    using that w3 w4 c2 n(3) by simp
  moreover have "length (blockData cs4) = length (blockData cs)"
    "\<forall>q. (\<forall>a \<in> set (own_adrs sl s). a + bs \<le> q \<or> q + bs \<le> a) \<longrightarrow> pool_block cs4 q = pool_block cs q"
  proof -
    have len: "length fec' = length adrs" "\<forall>v \<in> set fec'. length v = bs"
      using fec' by (auto simp: blocks_def adrs_def in_set_conv_nth)
    have bd: "blockData cs3 = blockData cs" using w3 c2 by simp
    have rc: "rconfig cs4 = rconfig cs" using w3 w4 c2 by simp
    show "length (blockData cs4) = length (blockData cs)"
      using pool_write_len [OF cs4_def len] own adrs bd by simp
    show "\<forall>q. (\<forall>a \<in> set (own_adrs sl s). a + bs \<le> q \<or> q + bs \<le> a) \<longrightarrow> pool_block cs4 q = pool_block cs q"
    proof (intro allI impI)
      fix q assume q: "\<forall>a \<in> set (own_adrs sl s). a + bs \<le> q \<or> q + bs \<le> a"
      have "take bs (mem_at cs4 (Pool q)) = take bs (mem_at cs3 (Pool q))"
        using pool_write_apart [OF cs4_def len, of q] q own adrs bd by auto
      then show "pool_block cs4 q = pool_block cs q" using rc bd by (simp add: pool_block_def bs mem_at_def)
    qed
  qed
  moreover have "rslices cs4 = (rslices cs)[k := sl\<lparr>fec_descs := ds\<rparr>]" "ring_ok cs4" "rconfig cs4 = rconfig cs"
    using w3 w4 c2 by auto
  ultimately show ?thesis using run ds unfolding st_def m_def by blast
qed


subsection \<open>All stripes\<close>

definition repairable :: "gf_tables \<Rightarrow> client_state \<Rightarrow> nat \<Rightarrow> (nat \<Rightarrow> byte list) \<Rightarrow> bool" where
  \<comment> \<open>the received blocks of slice \<open>k\<close> are those of \<open>D\<close>, and every stripe has FEC blocks of \<open>D\<close>, in memory of
      their own, as many as it lacks blocks\<close>
  "repairable T cs k D \<longleftrightarrow>
     (let sl = rslice_at cs k; bs = blockSize (rconfig cs); n = nat (slice_blocks (rconfig cs) (rbytes sl));
          lo = nat (rbytes sl) mod bs; st = rfec_stripes sl
      in ring_ok cs \<and> k < length (rslices cs) \<and> bs dvd rbase sl \<and> 0 < n \<and> n \<le> MAX_SLICE_SIZE
         \<and> (\<forall>j < n. length (D j) = bs \<and> padded lo n j (D j) = D j
              \<and> (BIT_ISSET j (rmap sl) \<longrightarrow> padded lo n j (ring_block cs sl j) = D j))
         \<and> 0 < st \<and> (\<forall>s < st. stripe_ready T bs D n sl (pool_block cs) s
              \<and> (\<forall>a \<in> set (own_adrs sl s). bs dvd a \<and> a + bs \<le> length (blockData cs))
              \<and> (\<forall>s' < st. s' \<noteq> s \<longrightarrow> set (own_adrs sl s) \<inter> set (own_adrs sl s') = {})))"

lemma stripe_ready_cong:
  assumes "stripe_ready T bs D n sl pool s" and "desc_same (fec_descs sl) ds" and "\<forall>a \<in> set (own_adrs sl s). pool' a = pool a"
  shows "stripe_ready T bs D n (sl\<lparr>fec_descs := ds\<rparr>) pool' s"
proof -
  define sl' where "sl' = sl\<lparr>fec_descs := ds\<rparr>"
  have sel: "rfec_stripes sl' = rfec_stripes sl" "rfec_blocks sl' = rfec_blocks sl" "rmap sl' = rmap sl" "fec_descs sl' = ds"
    by (simp_all add: sl'_def rmap_def)
  have d: "adr (ds ! i) = adr (fec_descs sl ! i)" "fecBlockNo (ds ! i) = fecBlockNo (fec_descs sl ! i)" for i
    using assms(2) by (simp_all add: desc_same_def)
  have pool: "pool' p = pool p" if "i < nat (rfec_blocks sl ! s)" "adr (fec_descs sl ! (s + i * rfec_stripes sl)) = Some p" for i p
  proof -
    have "the (adr (fec_descs sl ! (s + i * rfec_stripes sl))) \<in> set (own_adrs sl s)" using that(1) by (simp add: own_adrs_def)
    then show ?thesis using assms(3) that(2) by simp
  qed
  have "(\<exists>p. adr (fec_descs sl ! (s + i * rfec_stripes sl)) = Some p \<and> pool' p = b)
      \<longleftrightarrow> (\<exists>p. adr (fec_descs sl ! (s + i * rfec_stripes sl)) = Some p \<and> pool p = b)" if "i < nat (rfec_blocks sl ! s)" for i b
    using pool [OF that] by auto
  then show ?thesis
    using assms(1) unfolding stripe_ready_def Let_def sl'_def [symmetric] sel d by (simp cong: conj_cong)
qed

lemma decode_stripes_restore:
  assumes T: "gf_arith T" and rep: "repairable T cs k D" and sl: "sl = rslice_at cs k"
    and n: "n = nat (slice_blocks (rconfig cs) (rbytes sl))"
  shows "\<exists>cs' ds. decode_stripes T k cs = Done cs' \<and> (\<forall>j < n. ring_block cs' sl j = D j)
     \<and> desc_same (fec_descs sl) ds \<and> rslices cs' = (rslices cs)[k := sl\<lparr>fec_descs := ds\<rparr>] \<and> rconfig cs' = rconfig cs"
proof -
  define bs where "bs = blockSize (rconfig cs)"
  define lo where "lo = nat (rbytes sl) mod bs"
  define st where "st = rfec_stripes sl"
  note R = rep [unfolded repairable_def Let_def, folded sl, folded n, folded bs_def st_def, folded lo_def]
  define P where "P m cs' \<longleftrightarrow> (\<exists>ds. desc_same (fec_descs sl) ds \<and> rslices cs' = (rslices cs)[k := sl\<lparr>fec_descs := ds\<rparr>])
     \<and> ring_ok cs' \<and> rconfig cs' = rconfig cs \<and> length (blockData cs') = length (blockData cs)
     \<and> (\<forall>j < n. j mod st < m \<longrightarrow> ring_block cs' sl j = D j)
     \<and> (\<forall>j < n. BIT_ISSET j (rmap sl) \<longrightarrow> padded lo n j (ring_block cs' sl j) = D j)
     \<and> (\<forall>s < st. m \<le> s \<longrightarrow> (\<forall>a \<in> set (own_adrs sl s). pool_block cs' a = pool_block cs a))" for m cs'
  have k: "k < length (rslices cs)" using R by blast
  have Rown: "\<forall>s < st. \<forall>a \<in> set (own_adrs sl s). bs dvd a" using R by blast
  have Rdis: "s' \<noteq> s \<Longrightarrow> set (own_adrs sl s) \<inter> set (own_adrs sl s') = {}" if "s < st" "s' < st" for s s' using R that by blast
  have "desc_same (fec_descs sl) (fec_descs sl)" "rslices cs = (rslices cs)[k := sl\<lparr>fec_descs := fec_descs sl\<rparr>]"
    using k by (simp_all add: desc_same_def sl rslice_at_def)
  then have P0: "P 0 cs" unfolding P_def using R by blast
  have step: "\<exists>cs2. fec_decode_one_stripe T cs1 k s (rbytes sl) (rfec_stripes sl) (nat (rfec_blocks sl ! s)) = Done cs2 \<and> P (Suc s) cs2"
    if s: "s < st" and P: "P s cs1" for s cs1
  proof -
    obtain ds where ds: "desc_same (fec_descs sl) ds" "rslices cs1 = (rslices cs)[k := sl\<lparr>fec_descs := ds\<rparr>]"
      using P unfolding P_def by blast
    define sl1 where "sl1 = sl\<lparr>fec_descs := ds\<rparr>"
    have rc: "rconfig cs1 = rconfig cs" using P by (simp add: P_def)
    have sl1: "sl1 = rslice_at cs1 k" "k < length (rslices cs1)" using ds(2) k by (simp_all add: sl1_def rslice_at_def)
    have sel: "rbase sl1 = rbase sl" "rbytes sl1 = rbytes sl" "rfec_stripes sl1 = rfec_stripes sl" "rfec_blocks sl1 = rfec_blocks sl"
      "rmap sl1 = rmap sl" "fec_descs sl1 = ds"
      by (simp_all add: sl1_def rmap_def)
    have rb: "ring_block c sl1 = ring_block c sl" for c by (simp add: ring_block_def ADR_def sel fun_eq_iff)
    have own: "own_adrs sl1 = own_adrs sl" using ds(1) by (simp add: own_adrs_def sel desc_same_def fun_eq_iff)
    have ready: "stripe_ready T bs D n sl1 (pool_block cs1) s"
      unfolding sl1_def by (rule stripe_ready_cong [OF _ ds(1)]) (use R P s in \<open>auto simp: P_def\<close>)
    define js where "js = stripe_blocks s st n"
    have D1: "\<forall>j < n. length (D j) = bs \<and> (BIT_ISSET j (rmap sl1) \<longrightarrow> padded lo n j (ring_block cs1 sl1 j) = D j)"
      using R P by (simp add: P_def rb sel)
    have own1: "\<forall>a \<in> set (own_adrs sl1 s). a + bs \<le> length (blockData cs1)" using R P s by (simp add: P_def own)
    have h: "ring_ok cs1" "blockSize (rconfig cs1) dvd rbase sl1" "bs = blockSize (rconfig cs1)"
      "n = nat (slice_blocks (rconfig cs1) (rbytes sl1))" "0 < n" "n \<le> MAX_SLICE_SIZE" "lo = nat (rbytes sl1) mod bs"
      "s < rfec_stripes sl1" "js = stripe_blocks s (rfec_stripes sl1) n"
      using R P s by (simp_all add: P_def rc bs_def [symmetric] sel n [symmetric] lo_def st_def [symmetric] js_def)
    obtain cs2 ds2 where c2: "fec_decode_one_stripe T cs1 k s (rbytes sl1) (rfec_stripes sl1) (nat (rfec_blocks sl1 ! s)) = Done cs2"
      "desc_same (fec_descs sl1) ds2" "rslices cs2 = (rslices cs1)[k := sl1\<lparr>fec_descs := ds2\<rparr>]" "ring_ok cs2" "rconfig cs2 = rconfig cs1"
      "\<forall>j \<in> set js. ring_block cs2 sl1 j = D j"
      "\<forall>j < n. j \<notin> set js \<longrightarrow> ring_block cs2 sl1 j = padded lo n j (ring_block cs1 sl1 j)"
      "length (blockData cs2) = length (blockData cs1)"
      "\<forall>q. (\<forall>a \<in> set (own_adrs sl1 s). a + bs \<le> q \<or> q + bs \<le> a) \<longrightarrow> pool_block cs2 q = pool_block cs1 q"
      using decode_one_stripe [OF T h(1) sl1(2,1) h(2,3,4,5,6,7,8) ready D1 h(9) own1] by blast
    have in_js: "j \<in> set js \<longleftrightarrow> j < n \<and> j mod st = s" for j using stripe_blocks_nth [OF s, of n] by (simp add: js_def)
    have blk: "ring_block cs2 sl j = (if j mod st = s then D j else padded lo n j (ring_block cs1 sl j))" if "j < n" for j
      using c2(6,7) that by (simp add: rb in_js)
    have "rslices cs2 = (rslices cs)[k := sl\<lparr>fec_descs := ds2\<rparr>]" using c2(3) ds(2) by (simp add: sl1_def)
    moreover have "desc_same (fec_descs sl) ds2" using desc_same_trans [OF ds(1)] c2(2) by (simp add: sel)
    moreover have "\<forall>j < n. j mod st < Suc s \<longrightarrow> ring_block cs2 sl j = D j" using blk R P by (simp add: P_def less_Suc_eq)
    moreover have "\<forall>j < n. BIT_ISSET j (rmap sl) \<longrightarrow> padded lo n j (ring_block cs2 sl j) = D j" using blk R P by (simp add: P_def)
    moreover have "\<forall>s' < st. Suc s \<le> s' \<longrightarrow> (\<forall>a \<in> set (own_adrs sl s'). pool_block cs2 a = pool_block cs a)"
    proof (intro allI impI ballI)
      fix s' a assume s': "s' < st" "Suc s \<le> s'" and a: "a \<in> set (own_adrs sl s')"
      have "b + bs \<le> a \<or> a + bs \<le> b" if b: "b \<in> set (own_adrs sl s)" for b
      proof -
        have "bs dvd a" "bs dvd b" using Rown s s' a b by blast+
        moreover have "b \<noteq> a" using Rdis [OF s s'(1)] s'(2) a b by fastforce
        ultimately show ?thesis using dvd_apart by blast
      qed
      then have "pool_block cs2 a = pool_block cs1 a" using c2(9) by (simp add: own)
      then show "pool_block cs2 a = pool_block cs a" using P s' a by (simp add: P_def)
    qed
    moreover have "ring_ok cs2" "rconfig cs2 = rconfig cs" "length (blockData cs2) = length (blockData cs)"
      using c2(4,5,8) P by (simp_all add: P_def)
    ultimately have "P (Suc s) cs2" unfolding P_def by blast
    then show ?thesis using c2(1) unfolding sel by blast
  qed
  obtain cs' where cs': "each (\<lambda>s cs. fec_decode_one_stripe T cs k s (rbytes sl) (rfec_stripes sl) (nat (rfec_blocks sl ! s))) [0..<st] cs = Done cs'" "P st cs'"
    using each_upt [where P = P and s = cs and n = st and f = "\<lambda>s cs. fec_decode_one_stripe T cs k s (rbytes sl) (rfec_stripes sl) (nat (rfec_blocks sl ! s))"]
      P0 step by blast
  have "j mod st < st" for j using R by simp
  then show ?thesis using cs' unfolding decode_stripes_def Let_def sl [symmetric] st_def [symmetric] P_def by blast
qed

end
