(* ===== verification/ReceiveSafe.thy ===== *)
theory ReceiveSafe
  imports ReceiveDecode
begin

text \<open>
  The receiver never leaves its arrays: on packets whose numbers are within the bounds of the
  protocol no operation of the network thread or of the FEC thread has undefined behaviour,
  and each keeps the invariant.  \<open>safe\<close> and \<open>yields\<close> follow the structure of the code, so the
  proofs go through a definition with one rule per construct.
\<close>

subsection \<open>No undefined behaviour\<close>

named_theorems safe_intros \<open>operations that never leave an array\<close>

definition safe :: "'a outcome \<Rightarrow> bool" where
  "safe r \<longleftrightarrow> r \<noteq> Undefined"

lemma safe_simps [simp]: "safe (Done x)" "safe Blocks" "safe Aborts" "safe (check b)" "safe (or_abort q)" "safe (or_block q)"
  "safe (in_bounds b) = b" "\<not> safe Undefined"
  by (simp_all add: safe_def check_def in_bounds_def or_abort_def or_block_def split: option.split)

lemma safe_and_then: "safe r \<Longrightarrow> (\<And>x. r = Done x \<Longrightarrow> safe (f x)) \<Longrightarrow> safe (and_then r f)"
  by (cases r) (simp_all add: safe_def)

lemma safe_let: "safe (f x) \<Longrightarrow> safe (Let x f)" by simp

lemma safe_if: "(b \<Longrightarrow> safe r) \<Longrightarrow> (\<not> b \<Longrightarrow> safe q) \<Longrightarrow> safe (if b then r else q)" by simp

lemma safe_option: "(x = None \<Longrightarrow> safe r) \<Longrightarrow> (\<And>a. x = Some a \<Longrightarrow> safe (f a)) \<Longrightarrow> safe (case x of None \<Rightarrow> r | Some a \<Rightarrow> f a)"
  by (cases x) simp_all

lemma safe_prod: "(\<And>a b. p = (a, b) \<Longrightarrow> safe (f a b)) \<Longrightarrow> safe (case p of (a, b) \<Rightarrow> f a b)"
  by (cases p) simp

lemma safe_each: "(\<And>x s. x \<in> set xs \<Longrightarrow> safe (f x s)) \<Longrightarrow> safe (each f xs s)"
  by (induction xs arbitrary: s) (auto intro: safe_and_then)

lemmas safe_rules = safe_and_then safe_let safe_if safe_option safe_prod safe_simps(1-6)

definition yields :: "'a outcome \<Rightarrow> ('a \<Rightarrow> bool) \<Rightarrow> bool" where
  \<comment> \<open>what is returned, if anything, satisfies \<open>P\<close>\<close>
  "yields r P \<longleftrightarrow> (\<forall>x. r = Done x \<longrightarrow> P x)"

lemma yields_simps [simp]: "yields (Done x) P = P x" "yields Blocks P" "yields Aborts P" "yields Undefined P"
  by (simp_all add: yields_def)

lemma yields_and_then: "(\<And>x. r = Done x \<Longrightarrow> yields (f x) P) \<Longrightarrow> yields (and_then r f) P"
  by (cases r) simp_all

lemma yields_let: "yields (f x) P \<Longrightarrow> yields (Let x f) P" by simp

lemma yields_if: "(b \<Longrightarrow> yields r P) \<Longrightarrow> (\<not> b \<Longrightarrow> yields q P) \<Longrightarrow> yields (if b then r else q) P" by simp

lemma yields_option: "(x = None \<Longrightarrow> yields r P) \<Longrightarrow> (\<And>a. x = Some a \<Longrightarrow> yields (f a) P) \<Longrightarrow> yields (case x of None \<Rightarrow> r | Some a \<Rightarrow> f a) P"
  by (cases x) simp_all

lemma yields_prod: "(\<And>a b. p = (a, b) \<Longrightarrow> yields (f a b) P) \<Longrightarrow> yields (case p of (a, b) \<Rightarrow> f a b) P"
  by (cases p) simp

lemma yields_Done: "P x \<Longrightarrow> yields (Done x) P" by simp

lemmas yields_rules = yields_and_then yields_let yields_if yields_option yields_prod yields_simps(2-4) yields_Done

lemma safe_setSliceBytes [safe_intros]: "safe (setSliceBytes k cs b)"
  unfolding setSliceBytes_def by (intro safe_rules)

lemma safe_advance_loop: "safe (advance_loop n p cs)"
  by (induction n arbitrary: p cs) (simp_all add: Let_def)

lemma safe_advance [safe_intros]: "safe (advanceReceivedPointer cs)"
  unfolding advanceReceivedPointer_def by (rule safe_advance_loop)

lemma safe_cleanup_loop: "safe (cleanup_loop n d cs)"
proof (induction n arbitrary: cs)
  case (Suc n)
  show ?case unfolding cleanup_loop.simps by (intro safe_rules Suc.IH)
qed simp

lemma safe_cleanup [safe_intros]: "safe (cleanupSlices cs d)"
  unfolding cleanupSlices_def by (rule safe_cleanup_loop)

lemma safe_checkSliceComplete [safe_intros]: "safe (checkSliceComplete cs k)"
  unfolding checkSliceComplete_def by (intro safe_rules safe_intros)

lemma safe_finish_fec [safe_intros]: "safe (finish_fec cs k)"
  unfolding finish_fec_def by (intro safe_rules safe_intros)

lemma safe_sendRetransmit [safe_intros]: "safe (sendRetransmit cs k rx)"
  unfolding sendRetransmit_def by (intro safe_rules)

lemma safe_initSlice [safe_intros]: "safe (initSlice cs k no)"
  unfolding initSlice_def by (intro safe_rules)

lemma safe_newSlice [safe_intros]: "safe (newSlice cs no)"
  unfolding newSlice_def by (intro safe_rules safe_intros)

lemma safe_search_slice [safe_intros]: "safe (search_slice n cs pos no)"
proof (induction n arbitrary: pos)
  case (Suc n)
  show ?case unfolding search_slice.simps by (intro safe_rules Suc.IH)
qed simp

lemma safe_find_slice: "safe (find_slice n cs no)" "safe (catch_up n cs no)"
proof (induction n arbitrary: cs no)
  case (Suc n)
  { case 1 show ?case unfolding find_slice.simps by (intro safe_rules safe_intros Suc.IH) }
  { case 2
    have "safe (fakeSliceComplete (find_slice n) c)" for c unfolding fakeSliceComplete_def
      by (intro safe_rules safe_intros Suc.IH)
    then show ?case unfolding catch_up.simps by (intro safe_rules safe_intros Suc.IH) }
qed simp_all

lemma safe_rfindSlice [safe_intros]: "safe (rfindSlice cs no)"
  unfolding rfindSlice_def by (rule safe_find_slice)

lemma safe_blocks [safe_intros]: "safe (getBlockSpace cs)" "safe (freeBlockSpace cs b)" "safe (setNextBlock cs)"
  "safe (drop_fec_block cs k i)" "safe (free_stripe k st s cs)"
proof -
  show g: "safe (getBlockSpace cs)" unfolding getBlockSpace_def by (intro safe_rules)
  show f: "safe (freeBlockSpace cs b)" for cs b unfolding freeBlockSpace_def by (intro safe_rules)
  show "safe (setNextBlock cs)" unfolding setNextBlock_def by (intro safe_rules g)
  show "safe (drop_fec_block cs k i)" unfolding drop_fec_block_def by (intro safe_rules)
  show "safe (free_stripe k st s cs)" unfolding free_stripe_def by (intro safe_rules safe_each f)
qed

lemma safe_store_data_block [safe_intros]: "safe (store_data_block cs k i b)"
  unfolding store_data_block_def by (intro safe_rules safe_intros)

lemma safe_processDataBlock: "i < MAX_SLICE_SIZE \<Longrightarrow> safe (processDataBlock cs no i b)"
  unfolding processDataBlock_def by (intro safe_rules safe_intros) simp

lemma safe_processReqAck: "safe (processReqAck cs no b rx)"
  unfolding processReqAck_def by (intro safe_rules safe_intros)

subsection \<open>FEC blocks\<close>

lemma sound_position:
  assumes g: "slice_sound c sl" and s: "s < rfec_stripes sl" and u: "rfec_blocks sl ! s < missing_data_blocks sl ! s"
  shows "nat (rfec_blocks sl ! s) * rfec_stripes sl + s < MAX_SLICE_SIZE"
proof -
  obtain ds where ds: "slice_good c (sl\<lparr>fec_descs := ds\<rparr>)" using g by (auto simp: slice_sound_def)
  then have cnt: "counts_ok (nr_known c (sl\<lparr>fec_descs := ds\<rparr>)) (sl\<lparr>fec_descs := ds\<rparr>)" by (simp add: slice_good_def)
  then have "nr_known c (sl\<lparr>fec_descs := ds\<rparr>) \<le> MAX_SLICE_SIZE" by (simp add: counts_ok_def)
  moreover have "nat (rfec_blocks sl ! s) * rfec_stripes sl + s < nr_known c (sl\<lparr>fec_descs := ds\<rparr>)"
    using fec_block_position [OF cnt, of s] s u by simp
  ultimately show ?thesis by linarith
qed

lemma busy_sound:
  assumes "busy_ok c sl" and "rstate sl \<in> {SLICE_RECEIVING, SLICE_FEC_DONE}"
  shows "slice_sound c sl"
  using assms good_sound by (auto simp: busy_ok_def)

lemma safe_store_fec_block:
  assumes "nat (rfec_blocks (rslice_at cs k) ! (i mod rfec_stripes (rslice_at cs k))) * st + i mod rfec_stripes (rslice_at cs k) < MAX_SLICE_SIZE"
  shows "safe (store_fec_block cs k st i)"
  unfolding store_fec_block_def by (intro safe_rules safe_intros) (use assms in simp)


lemma safe_processFecBlock:
  assumes inv: "client_inv cs" and b: "size_ok (rconfig cs) b" and st: "0 < st" "st \<le> MAX_FEC_INTERLEAVE" "slice_blocks (rconfig cs) b \<le> 128 * int st"
  shows "safe (processFecBlock cs st no i b)"
  unfolding processFecBlock_def
proof (rule safe_and_then [OF safe_rfindSlice], rule safe_prod, rule safe_option)
  fix x cs1 slo k
  assume f: "rfindSlice cs no = Done x" and x: "x = (cs1, slo)" "slo = Some k"
  have inv1: "client_inv cs1" and kl: "k < RNR_SLICES" using rfindSlice_inv [OF inv] f x by auto
  have c1: "rconfig cs1 = rconfig cs" using rfindSlice_same [OF _ inv] f x by (auto simp: same_mem_def)
  show "safe (and_then (check (magic (rslice_at cs1 k))) (\<lambda>_.
             if rstate (rslice_at cs1 k) \<in> {RSLICE_FREE, SLICE_DONE, SLICE_FEC} then Done cs1
             else
               and_then (setSliceBytes k cs1 b) (\<lambda>cs.
               and_then (if rfec_stripes (rslice_at cs k) = 0
                         then initSliceForFec (upd_rslice k (rfec_stripes_update (\<lambda>_. st)) cs) k else Done cs) (\<lambda>cs.
                 let sl = rslice_at cs k
                 in if rfec_stripes sl \<noteq> st then Done cs
                    else
                      and_then (in_bounds (rfec_stripes sl \<noteq> 0)) (\<lambda>_.
                      and_then (in_bounds (i mod rfec_stripes sl < MAX_FEC_INTERLEAVE)) (\<lambda>_.
                        let stripe = i mod rfec_stripes sl
                        in if missing_data_blocks sl ! stripe \<le> rfec_blocks sl ! stripe then
                             and_then (finish_fec cs k) (\<lambda>cs.
                               if \<not> use_fec cs then cleanupSlices cs SLICE_DONE else Done cs)
                           else store_fec_block cs k st i))))))"
  proof (rule safe_and_then [OF safe_simps(4)], rule safe_if, simp, rule safe_and_then [OF safe_setSliceBytes])
    fix cs2
    assume k: "rstate (rslice_at cs1 k) \<notin> {RSLICE_FREE, SLICE_DONE, SLICE_FEC}" and s: "setSliceBytes k cs1 b = Done cs2"
    note set = setSliceBytes_spec [OF s]
    have inv2: "client_inv cs2" using setSliceBytes_inv [OF inv1 s] b c1 by (simp add: size_ok_def)
    have st2: "rstate (rslice_at cs2 k) \<in> {SLICE_RECEIVING, SLICE_FEC_DONE}" "bytesKnown (rslice_at cs2 k)"
      using set k kl client_len [OF inv1] by (cases "rstate (rslice_at cs1 k)"; simp)+
    have w: "slice_blocks (rconfig cs2) (rbytes (rslice_at cs2 k)) \<le> 128 * int st"
      using set kl client_len [OF inv1] st(3) c1 slice_blocks_cong [of "rconfig cs2" "rconfig cs1" b] by (auto simp: frame_def)
    obtain cs3 where cs3: "(if rfec_stripes (rslice_at cs2 k) = 0
       then initSliceForFec (upd_rslice k (rfec_stripes_update (\<lambda>_. st)) cs2) k else Done cs2) = Done cs3"
      "client_inv cs3" "rstate (rslice_at cs3 k) = rstate (rslice_at cs2 k)"
      using fec_start [OF inv2 kl st2 st(1,2) w] by blast
    define sl where "sl = rslice_at cs3 k"
    have sound: "slice_sound (rconfig cs3) sl"
      unfolding sl_def by (rule busy_sound [OF client_busy [OF cs3(2) kl]]) (use cs3(3) st2 in simp)
    have pos: "nat (rfec_blocks sl ! (i mod st)) * st + i mod st < MAX_SLICE_SIZE"
      if "rfec_stripes sl = st" "\<not> missing_data_blocks sl ! (i mod st) \<le> rfec_blocks sl ! (i mod st)"
      using sound_position [OF sound, of "i mod st"] that st by simp
    have lt: "i mod st < MAX_FEC_INTERLEAVE" using st mod_less_divisor [of st i] by linarith
    show "safe (and_then (if rfec_stripes (rslice_at cs2 k) = 0
                         then initSliceForFec (upd_rslice k (rfec_stripes_update (\<lambda>_. st)) cs2) k else Done cs2) (\<lambda>cs.
                 let sl = rslice_at cs k
                 in if rfec_stripes sl \<noteq> st then Done cs
                    else
                      and_then (in_bounds (rfec_stripes sl \<noteq> 0)) (\<lambda>_.
                      and_then (in_bounds (i mod rfec_stripes sl < MAX_FEC_INTERLEAVE)) (\<lambda>_.
                        let stripe = i mod rfec_stripes sl
                        in if missing_data_blocks sl ! stripe \<le> rfec_blocks sl ! stripe then
                             and_then (finish_fec cs k) (\<lambda>cs.
                               if \<not> use_fec cs then cleanupSlices cs SLICE_DONE else Done cs)
                           else store_fec_block cs k st i))))"
      unfolding cs3(1) and_then.simps Let_def sl_def [symmetric]
      by (intro safe_rules safe_intros safe_store_fec_block) (use st lt pos in \<open>simp_all add: sl_def\<close>)
  qed
qed simp

subsection \<open>The FEC thread\<close>

lemma fold_write_frame [simp]: "frame K cs (fold (\<lambda>(a, b). mem_write (f a) b) xs cs)"
proof (induction xs arbitrary: cs)
  case (Cons x xs)
  show ?case using frame_trans [OF mem_write_frame Cons.IH] by (cases x) simp
qed simp

lemma fold_write_slices [simp]: "rslice_at (fold (\<lambda>(a, b). mem_write (f a) b) xs cs) k = rslice_at cs k"
  by (induction xs arbitrary: cs) auto

definition descs_only :: "nat \<Rightarrow> client_state \<Rightarrow> client_state \<Rightarrow> bool" where
  \<comment> \<open>nothing of the slices changed but the FEC descriptors of slice \<open>k\<close>\<close>
  "descs_only k cs cs' \<longleftrightarrow> frame {k} cs cs' \<and> (\<exists>ds. rslice_at cs' k = (rslice_at cs k)\<lparr>fec_descs := ds\<rparr>)"

lemma descs_only_trans:
  assumes "descs_only k cs cs'" and "descs_only k cs' cs''"
  shows "descs_only k cs cs''"
proof -
  obtain ds ds' where "rslice_at cs' k = (rslice_at cs k)\<lparr>fec_descs := ds\<rparr>" "rslice_at cs'' k = (rslice_at cs' k)\<lparr>fec_descs := ds'\<rparr>"
    using assms unfolding descs_only_def by blast
  then have "rslice_at cs'' k = (rslice_at cs k)\<lparr>fec_descs := ds'\<rparr>" by simp
  then show ?thesis using assms frame_trans unfolding descs_only_def by blast
qed

lemma descs_only_refl: "descs_only k cs cs"
  unfolding descs_only_def by (intro conjI exI [of _ "fec_descs (rslice_at cs k)"]) simp_all

lemma descs_only_upd: "k < length (rslices cs) \<Longrightarrow> descs_only k cs (upd_rslice k (\<lambda>sl. sl\<lparr>fec_descs := g sl\<rparr>) cs)"
  by (auto simp: descs_only_def)

lemma descs_only_then:
  assumes "descs_only k cs c" and "frame {k} c c'" and "rslice_at c' k = rslice_at c k"
  shows "descs_only k cs c'"
  unfolding descs_only_def assms(3) using assms(1,2) frame_trans unfolding descs_only_def by blast

lemma descs_only_write: "descs_only k cs c \<Longrightarrow> descs_only k cs (if b then mem_write a v c else c)"
  by (erule descs_only_then) simp_all

lemma descs_only_fold: "descs_only k cs c \<Longrightarrow> descs_only k cs (fold (\<lambda>(a, b). mem_write (f a) b) xs c)"
  by (erule descs_only_then) simp_all

lemma decode_stripe_frame:
  assumes d: "fec_decode_one_stripe T cs k s b st m = Done cs'" and k: "k < length (rslices cs)"
  shows "descs_only k cs cs'"
proof -
  have upd: "descs_only k cs (upd_rslice k (fec_descs_update (\<lambda>_. ds)) cs)" for ds by (rule descs_only_upd [OF k])
  have "yields (fec_decode_one_stripe T cs k s b st m) (descs_only k cs)"
    unfolding fec_decode_one_stripe_def
    by (intro yields_rules descs_only_fold descs_only_write upd)
  then show ?thesis using d by (simp add: yields_def)
qed

lemma each_descs_only:
  assumes "each f xs cs = Done cs'" and "k < length (rslices cs)"
    and "\<And>x cs cs'. x \<in> set xs \<Longrightarrow> k < length (rslices cs) \<Longrightarrow> f x cs = Done cs' \<Longrightarrow> descs_only k cs cs'"
  shows "descs_only k cs cs'"
proof -
  have "descs_only k cs cs' \<and> k < length (rslices cs')"
  proof (rule each_inv [OF assms(1), where P = "\<lambda>c. descs_only k cs c \<and> k < length (rslices c)"])
    show "descs_only k cs cs \<and> k < length (rslices cs)" by (intro conjI descs_only_refl assms(2))
  next
    fix x c c' assume x: "x \<in> set xs" and P: "descs_only k cs c \<and> k < length (rslices c)" and "f x c = Done c'"
    then have "descs_only k c c'" using assms(3) by blast
    moreover from this have "length (rslices c') = length (rslices c)" by (simp add: descs_only_def frame_def)
    ultimately show "descs_only k cs c' \<and> k < length (rslices c')" using P descs_only_trans by auto
  qed
  then show ?thesis ..
qed

lemma free_stripe_frame:
  assumes d: "free_stripe k st s cs = Done cs'" and k: "k < length (rslices cs)"
  shows "descs_only k cs cs'"
proof -
  have "each (\<lambda>i cs.
          and_then (freeBlockSpace cs (adr (fec_descs (rslice_at cs k) ! (s + i * st)))) (\<lambda>cs.
            Done (upd_rslice k (\<lambda>sl. sl\<lparr>fec_descs := (fec_descs sl)[s + i * st :=
                    (fec_descs sl ! (s + i * st))\<lparr>adr := None\<rparr>]\<rparr>) cs)))
         [0..<nat (rfec_blocks (rslice_at cs k) ! s)] cs = Done cs'"
    using d by (simp add: free_stripe_def outcome_Done)
  then show ?thesis using k
  proof (rule each_descs_only)
    fix i c c'
    assume kc: "k < length (rslices c)" and s: "and_then (freeBlockSpace c (adr (fec_descs (rslice_at c k) ! (s + i * st)))) (\<lambda>cs.
            Done (upd_rslice k (\<lambda>sl. sl\<lparr>fec_descs := (fec_descs sl)[s + i * st :=
                    (fec_descs sl ! (s + i * st))\<lparr>adr := None\<rparr>]\<rparr>) cs)) = Done c'"
    then obtain c1 where c1: "freeBlockSpace c (adr (fec_descs (rslice_at c k) ! (s + i * st))) = Done c1"
      and c': "c' = upd_rslice k (\<lambda>sl. sl\<lparr>fec_descs := (fec_descs sl)[s + i * st := (fec_descs sl ! (s + i * st))\<lparr>adr := None\<rparr>]\<rparr>) c1"
      by (auto simp: and_then_Done)
    obtain ba pc where c1': "c1 = c\<lparr>blockAddresses := ba, freeBlocks_pc := pc\<rparr>"
      using c1 by (auto simp: freeBlockSpace_def outcome_Done Let_def split: option.splits)
    have "descs_only k c c1" unfolding c1' descs_only_def
      by (intro conjI exI [of _ "fec_descs (rslice_at c k)"]) (simp_all add: frame_def rslice_at_def)
    moreover have "descs_only k c1 c'" unfolding c' by (rule descs_only_upd) (simp add: c1' kc)
    ultimately show "descs_only k c c'" by (rule descs_only_trans)
  qed
qed


lemma sound_descs: "slice_sound c (sl\<lparr>fec_descs := ds\<rparr>) = slice_sound c sl"
  by (simp add: slice_sound_def)

lemma sound_cong: "blockSize c = blockSize c' \<Longrightarrow> slice_sound c sl = slice_sound c' sl"
  by (simp add: slice_sound_def slice_good_def nr_known_def slice_blocks_def)

lemma sound_state: "slice_sound c sl \<Longrightarrow> slice_sound c (sl\<lparr>rstate := x\<rparr>)"
proof -
  assume "slice_sound c sl"
  then obtain ds where ds: "slice_good c (sl\<lparr>fec_descs := ds\<rparr>)" by (auto simp: slice_sound_def)
  have "counts_ok n (sl\<lparr>rstate := x\<rparr>) = counts_ok n sl" for n and sl :: rslice by (simp add: counts_ok_def rmap_def lacks_def)
  then have "slice_good c (sl\<lparr>rstate := x\<rparr>) = slice_good c sl" for sl :: rslice
    by (simp add: slice_good_def nr_known_def free_ok_def rmap_def)
  then have "slice_good c ((sl\<lparr>fec_descs := ds\<rparr>)\<lparr>rstate := x\<rparr>)" using ds by blast
  moreover have "(sl\<lparr>fec_descs := ds\<rparr>)\<lparr>rstate := x\<rparr> = (sl\<lparr>rstate := x\<rparr>)\<lparr>fec_descs := ds\<rparr>" by (cases sl) simp
  ultimately show ?thesis unfolding slice_sound_def by (intro exI [of _ ds]) (simp only:)
qed

lemma done_inv:
  \<comment> \<open>a slice becomes \<^verbatim>\<open>SLICE_FEC_DONE\<close>\<close>
  assumes inv: "client_inv cs" and f: "frame {k} cs cs'" and k: "k < RNR_SLICES" and sound: "slice_sound (rconfig cs) (rslice_at cs k)"
    and sl: "rslice_at cs' k = (rslice_at cs k)\<lparr>rstate := SLICE_FEC_DONE, fec_descs := ds\<rparr>"
  shows "client_inv cs'"
proof (rule client_inv_frame [OF inv f])
  fix j assume "j \<in> {k}"
  moreover have "slice_sound (rconfig cs) (rslice_at cs' k)" unfolding sl sound_descs by (rule sound_state [OF sound])
  ultimately show "busy_ok (rconfig cs) (rslice_at cs' j)" by (simp add: busy_ok_def) (simp add: sl)
qed

lemma repair_slice_frame:
  assumes r: "repair_slice T k cs = Done cs'" and k: "k < length (rslices cs)"
  shows "frame {k} cs cs' \<and> (\<exists>ds. rslice_at cs' k = (rslice_at cs k)\<lparr>rstate := SLICE_FEC_DONE, fec_descs := ds\<rparr>)"
proof -
  define st where "st = rfec_stripes (rslice_at cs k)"
  define cs2 where "cs2 = (\<lambda>c. upd_rslice k (rstate_update (\<lambda>_. SLICE_FEC_DONE)) c)"
  obtain cs1 where c1: "decode_stripes T k cs = Done cs1" and c2: "each (free_stripe k st) [0..<st] (cs2 cs1) = Done cs'"
    using r unfolding repair_slice_def Let_def st_def [symmetric] cs2_def and_then_Done by blast
  have d1: "descs_only k cs cs1"
    using c1 unfolding decode_stripes_def Let_def by (rule each_descs_only [OF _ k]) (rule decode_stripe_frame)
  then have k1: "k < length (rslices cs1)" using k by (simp add: descs_only_def frame_def)
  have d2: "descs_only k (cs2 cs1) cs'"
    using c2 by (rule each_descs_only) (use k1 free_stripe_frame in \<open>auto simp: cs2_def\<close>)
  obtain ds1 ds2 where ds: "rslice_at cs1 k = (rslice_at cs k)\<lparr>fec_descs := ds1\<rparr>"
    "rslice_at cs' k = (rslice_at (cs2 cs1) k)\<lparr>fec_descs := ds2\<rparr>"
    using d1 d2 unfolding descs_only_def by blast
  have "rslice_at cs' k = (rslice_at cs k)\<lparr>rstate := SLICE_FEC_DONE, fec_descs := ds2\<rparr>"
    using ds k1 by (cases "rslice_at cs k") (simp add: cs2_def)
  moreover have "frame {k} cs1 (cs2 cs1)" by (simp add: cs2_def)
  then have "frame {k} cs cs'" using d1 d2 frame_trans unfolding descs_only_def by blast
  ultimately show ?thesis by blast
qed

lemma rfecMain_inv:
  assumes inv: "client_inv cs" and r: "rfecMain T cs = Done cs'"
  shows "client_inv cs'"
proof -
  have q: "\<forall>k \<in> set (fec_slices cs). k < RNR_SLICES" "length (fec_slices cs) = RNR_SLICES"
    "pc_size (rfec_data_pc cs) = of_nat RNR_SLICES" using inv by (simp_all add: client_inv_def)
  obtain pc a where pc: "pc_consume (rfec_data_pc cs) 1 [] = Some (pc, a)" using r by (auto simp: rfecMain_def outcome_Done)
  define k where "k = fec_slices cs ! unat (pc_getConsumerPosition pc)"
  define cs1 where "cs1 = cs\<lparr>rfec_data_pc := pc_consumed pc 1\<rparr>"
  have "pc_size pc = of_nat RNR_SLICES" using consumeAny_spec [of "rfec_data_pc cs" 1 "[]" pc a] pc q by (simp add: pc_consume_def)
  then have "unat (pc_getConsumerPosition pc) < RNR_SLICES" using position_lt [of pc] by (simp add: RNR_SLICES_def)
  then have k: "k < RNR_SLICES" using q by (simp add: k_def)
  have "pc_size (pc_consumed pc 1) = of_nat RNR_SLICES" using \<open>pc_size pc = of_nat RNR_SLICES\<close> by (simp add: pc_consumed_def Let_def)
  then have i1: "client_inv cs1" by (intro client_inv_cong [OF inv]) (simp_all add: cs1_def)
  have at: "rslice_at cs1 k = rslice_at cs k" by (simp add: cs1_def rslice_at_def)
  have kl: "k < length (rslices cs1)" using k client_len [OF i1] by simp
  note busy = client_busy [OF i1 k]
  consider "rstate (rslice_at cs1 k) = SLICE_FEC" "and_then (repair_slice T k cs1) (\<lambda>cs. cleanupSlices cs SLICE_FEC_DONE) = Done cs'"
    | "rstate (rslice_at cs1 k) = SLICE_DONE"
      "cleanupSlices (upd_rslice k (rstate_update (\<lambda>_. SLICE_FEC_DONE)) cs1) SLICE_FEC_DONE = Done cs'"
    | "cs' = cs1"
    using r pc unfolding rfecMain_def by (auto simp: and_then_Done [of "check b" for b] and_then_Done [of "or_block b" for b]
      Let_def k_def [symmetric] cs1_def [symmetric] split: if_splits)
  then show ?thesis
  proof cases
    case 1
    then obtain cs2 where cs2: "repair_slice T k cs1 = Done cs2" "cleanupSlices cs2 SLICE_FEC_DONE = Done cs'"
      unfolding and_then_Done by blast
    obtain ds where "frame {k} cs1 cs2" "rslice_at cs2 k = (rslice_at cs1 k)\<lparr>rstate := SLICE_FEC_DONE, fec_descs := ds\<rparr>"
      using repair_slice_frame [OF cs2(1) kl] by blast
    then have "client_inv cs2" using done_inv [OF i1 _ k] busy 1(1) good_sound by (auto simp: busy_ok_def)
    then show ?thesis using cs2(2) cleanupSlices_inv by blast
  next
    case 2
    have "client_inv (upd_rslice k (rstate_update (\<lambda>_. SLICE_FEC_DONE)) cs1)"
    proof (rule done_inv [OF i1 frame_upd k])
      show "slice_sound (rconfig cs1) (rslice_at cs1 k)" using busy 2(1) good_sound by (auto simp: busy_ok_def)
      show "rslice_at (upd_rslice k (rstate_update (\<lambda>_. SLICE_FEC_DONE)) cs1) k
          = (rslice_at cs1 k)\<lparr>rstate := SLICE_FEC_DONE, fec_descs := fec_descs (rslice_at cs1 k)\<rparr>"
        using kl by (cases "rslice_at cs1 k") simp
    qed
    then show ?thesis using 2(2) cleanupSlices_inv by blast
  qed (simp add: i1)
qed

lemma missing_of_stripe:
  assumes "s < rfec_stripes sl"
  shows "length (filter (\<lambda>i. \<not> BIT_ISSET i (rmap sl)) (stripe_blocks s (rfec_stripes sl) n)) = card (lacks n sl s)"
proof -
  let ?xs = "filter (\<lambda>i. \<not> BIT_ISSET i (rmap sl)) (stripe_blocks s (rfec_stripes sl) n)"
  have "set ?xs = lacks n sl s" using stripe_blocks_nth [OF assms, of n] by (auto simp: lacks_def)
  moreover have "distinct ?xs" using stripe_blocks_nth [OF assms, of n] by simp
  ultimately show ?thesis using distinct_card by metis
qed

lemma stripe_length: "n \<le> 128 * st \<Longrightarrow> s < st \<Longrightarrow> length (stripe_blocks s st n) \<le> 128"
proof -
  assume n: "n \<le> 128 * st" and s: "s < st"
  have "(n + st - 1 - s) div st < 129" using n s by (simp add: div_less_iff_less_mult)
  then show ?thesis by (simp add: stripe_blocks_def)
qed

lemma safe_decode_one_stripe:
  assumes g: "slice_sound (rconfig cs) (rslice_at cs k)" and bk: "bytesKnown (rslice_at cs k)" and s: "s < rfec_stripes (rslice_at cs k)"
    and full: "blocksTransferred (rslice_at cs k) = slice_blocks (rconfig cs) (rbytes (rslice_at cs k))"
  shows "safe (fec_decode_one_stripe T cs k s b (rfec_stripes (rslice_at cs k)) (nat (rfec_blocks (rslice_at cs k) ! s)))"
proof -
  let ?sl = "rslice_at cs k"
  obtain ds where ds: "slice_good (rconfig cs) (?sl\<lparr>fec_descs := ds\<rparr>)" using g by (auto simp: slice_sound_def)
  define n where "n = nat (slice_blocks (rconfig cs) (rbytes ?sl))"
  have cnt: "counts_ok n (?sl\<lparr>fec_descs := ds\<rparr>)" "0 \<le> slice_blocks (rconfig cs) (rbytes ?sl)" "n \<le> 128 * rfec_stripes ?sl"
    using ds bk s by (simp_all add: slice_good_def nr_known_def n_def)
  have "lacks n (?sl\<lparr>fec_descs := ds\<rparr>) s = lacks n ?sl s" by (simp add: lacks_def rmap_def)
  then have m: "length (filter (\<lambda>i. \<not> BIT_ISSET i (rmap ?sl)) (stripe_blocks s (rfec_stripes ?sl) n)) = nat (rfec_blocks ?sl ! s)"
    using missing_of_stripe [OF s] complete_stripes [OF cnt(1), of s] s full cnt(2) by (simp add: n_def)
  show ?thesis
    unfolding fec_decode_one_stripe_def Let_def n_def [symmetric] m
    by (intro safe_rules) (use stripe_length [OF cnt(3) s] in simp_all)
qed

lemma safe_each_inv:
  assumes "P s" and "\<And>x s. x \<in> set xs \<Longrightarrow> P s \<Longrightarrow> safe (f x s)" and "\<And>x s s'. x \<in> set xs \<Longrightarrow> P s \<Longrightarrow> f x s = Done s' \<Longrightarrow> P s'"
  shows "safe (each f xs s)"
  using assms
proof (induction xs arbitrary: s)
  case (Cons x xs)
  have "safe (each f xs s')" if s': "f x s = Done s'" for s'
  proof (rule Cons.IH)
    show "P s'" by (rule Cons.prems(3) [OF _ Cons.prems(1) s']) simp
    show "safe (f y t)" if "y \<in> set xs" "P t" for y t by (rule Cons.prems(2)) (use that in simp_all)
    show "P t'" if "y \<in> set xs" "P t" "f y t = Done t'" for y t t' by (rule Cons.prems(3) [of y t]) (use that in simp_all)
  qed
  then show ?case using Cons.prems by (simp add: safe_and_then)
qed simp

lemma safe_repair_slice:
  assumes k: "k < length (rslices cs)" and g: "slice_sound (rconfig cs) (rslice_at cs k)" and bk: "bytesKnown (rslice_at cs k)"
    and full: "blocksTransferred (rslice_at cs k) = slice_blocks (rconfig cs) (rbytes (rslice_at cs k))"
  shows "safe (repair_slice T k cs)"
proof -
  define sl where "sl = rslice_at cs k"
  have "safe (decode_stripes T k cs)"
    unfolding decode_stripes_def Let_def
  proof (rule safe_each_inv [where P = "descs_only k cs"])
    show "descs_only k cs cs" by (rule descs_only_refl)
    show "descs_only k cs c'" if P: "descs_only k cs c" and d: "fec_decode_one_stripe T c k s (rbytes (rslice_at cs k))
        (rfec_stripes (rslice_at cs k)) (nat (rfec_blocks (rslice_at cs k) ! s)) = Done c'" for s c c'
    proof (rule descs_only_trans [OF P decode_stripe_frame [OF d]])
      show "k < length (rslices c)" using P k by (simp add: descs_only_def frame_def)
    qed
    fix s c assume s: "s \<in> set [0..<rfec_stripes (rslice_at cs k)]" and P: "descs_only k cs c"
    then obtain ds where c: "rslice_at c k = sl\<lparr>fec_descs := ds\<rparr>" "blockSize (rconfig c) = blockSize (rconfig cs)"
      by (auto simp: descs_only_def frame_def sl_def)
    have "slice_sound (rconfig c) (rslice_at c k)"
      unfolding sound_cong [OF c(2)] c(1) sound_descs using g by (simp add: sl_def)
    from safe_decode_one_stripe [OF this, of s T "rbytes sl"]
    show "safe (fec_decode_one_stripe T c k s (rbytes (rslice_at cs k)) (rfec_stripes (rslice_at cs k)) (nat (rfec_blocks (rslice_at cs k) ! s)))"
      using bk full s by (simp add: c(1) slice_blocks_cong [OF c(2)] sl_def)
  qed
  then show ?thesis unfolding repair_slice_def Let_def by (intro safe_rules safe_each safe_intros)
qed

lemma safe_rfecMain:
  assumes inv: "client_inv cs"
  shows "safe (rfecMain T cs)"
  unfolding rfecMain_def Let_def
proof (rule safe_and_then [OF safe_simps(4)], rule safe_and_then [OF safe_simps(6)], rule safe_prod)
  fix x pc a
  assume "or_block (pc_consume (rfec_data_pc cs) 1 []) = Done x" and "x = (pc, a)"
  then have pc: "pc_consume (rfec_data_pc cs) 1 [] = Some (pc, a)" by (simp add: outcome_Done)
  have q: "length (fec_slices cs) = RNR_SLICES" "\<forall>k \<in> set (fec_slices cs). k < RNR_SLICES" "pc_size (rfec_data_pc cs) = of_nat RNR_SLICES"
    using inv by (simp_all add: client_inv_def)
  have "pc_size pc = of_nat RNR_SLICES" using consumeAny_spec [of "rfec_data_pc cs" 1 "[]" pc a] pc q by (simp add: pc_consume_def)
  then have "unat (pc_getConsumerPosition pc) < RNR_SLICES" using position_lt [of pc] by (simp add: RNR_SLICES_def)
  then have k: "fec_slices cs ! unat (pc_getConsumerPosition pc) < RNR_SLICES" using q by simp
  define k where "k = fec_slices cs ! unat (pc_getConsumerPosition pc)"
  define cs1 where "cs1 = cs\<lparr>rfec_data_pc := pc_consumed pc 1\<rparr>"
  have at: "rslice_at cs1 k = rslice_at cs k" "rconfig cs1 = rconfig cs" "length (rslices cs1) = RNR_SLICES"
    using client_len [OF inv] by (simp_all add: cs1_def rslice_at_def)
  have "safe (repair_slice T k cs1)" if st: "rstate (rslice_at cs1 k) = SLICE_FEC"
    by (rule safe_repair_slice) (use client_busy [OF inv] k st good_sound in \<open>auto simp: at k_def [symmetric] busy_ok_def\<close>)
  then show "safe (if rstate (rslice_at (cs\<lparr>rfec_data_pc := pc_consumed pc 1\<rparr>) (fec_slices cs ! unat (pc_getConsumerPosition pc))) = SLICE_FEC
     then and_then (repair_slice T (fec_slices cs ! unat (pc_getConsumerPosition pc)) (cs\<lparr>rfec_data_pc := pc_consumed pc 1\<rparr>))
           (\<lambda>cs. cleanupSlices cs SLICE_FEC_DONE)
     else if rstate (rslice_at (cs\<lparr>rfec_data_pc := pc_consumed pc 1\<rparr>) (fec_slices cs ! unat (pc_getConsumerPosition pc))) = SLICE_DONE
          then cleanupSlices
                (upd_rslice (fec_slices cs ! unat (pc_getConsumerPosition pc)) (rstate_update (\<lambda>_. SLICE_FEC_DONE)) (cs\<lparr>rfec_data_pc := pc_consumed pc 1\<rparr>))
                SLICE_FEC_DONE
          else Done (cs\<lparr>rfec_data_pc := pc_consumed pc 1\<rparr>))"
    unfolding k_def [symmetric] cs1_def [symmetric] by (intro safe_rules safe_intros)
qed

subsection \<open>The network thread\<close>

definition good_message :: "net_config \<Rightarrow> serverDataMsg \<Rightarrow> bool" where
  \<comment> \<open>the numbers of a packet are within the bounds of the protocol\<close>
  "good_message c m \<longleftrightarrow>
     (let b = ntohl_int (d_bytes m); i = unat (ntohs (d_blockNo m)); st = unat (ntohs (d_stripes m)); op = ntohs (d_opCode m)
      in (op = CMD_DATA \<longrightarrow> 0 < b \<and> size_ok c b \<and> int i < slice_blocks c b)
         \<and> (op = CMD_FEC \<longrightarrow> size_ok c b \<and> 0 < st \<and> st \<le> MAX_FEC_INTERLEAVE \<and> slice_blocks c b \<le> 128 * int st)
         \<and> (op = CMD_REQACK \<longrightarrow> size_ok c b))"

definition good_packet :: "net_config \<Rightarrow> packet \<Rightarrow> bool" where
  "good_packet c pkt \<longleftrightarrow> (case pkt of Packet from msg payload \<Rightarrow> good_message c msg | _ \<Rightarrow> True)"

lemma start_transfer_sel [simp]:
  "rconfig (start_transfer cs fd) = rconfig cs" "rslices (start_transfer cs fd) = rslices cs"
  "currentSlice (start_transfer cs fd) = currentSlice cs" "rfree_slices_pc (start_transfer cs fd) = rfree_slices_pc cs"
  "sender_is_newgen (start_transfer cs fd) = sender_is_newgen cs" "fec_slices (start_transfer cs fd) = fec_slices cs"
  "rfec_data_pc (start_transfer cs fd) = rfec_data_pc cs" "Msg (start_transfer cs fd) = Msg cs"
  by (simp_all add: start_transfer_def closeAllExcept_def Let_def)

lemma start_transfer_inv: "client_inv cs \<Longrightarrow> client_inv (start_transfer cs fd)"
  by (rule client_inv_cong) simp_all

lemma dispatch_packet_inv:
  assumes inv: "client_inv cs" and g: "good_message (rconfig cs) (Msg cs)"
  shows "yields (dispatch_packet cs fd) (\<lambda>(cs', _). client_inv cs') \<and> safe (dispatch_packet cs fd)"
proof -
  note i = start_transfer_inv [OF inv, of fd]
  show ?thesis
  proof
    show "yields (dispatch_packet cs fd) (\<lambda>(cs', _). client_inv cs')"
      unfolding dispatch_packet_def
      by (intro yields_rules) (use processDataBlock_inv [OF i] processFecBlock_inv [OF i] processReqAck_inv [OF i] inv g in
          \<open>auto simp: good_message_def Let_def\<close>)
    have "unat (ntohs (d_blockNo (Msg cs))) < MAX_SLICE_SIZE" if "ntohs (d_opCode (Msg cs)) = CMD_DATA"
    proof -
      have "int (unat (ntohs (d_blockNo (Msg cs)))) < int MAX_SLICE_SIZE"
        using g that unfolding good_message_def Let_def size_ok_def by (meson less_le_trans)
      then show ?thesis by (simp only: of_nat_less_iff)
    qed
    then show "safe (dispatch_packet cs fd)"
      unfolding dispatch_packet_def Let_def
      by (intro safe_rules safe_processReqAck safe_processDataBlock safe_processFecBlock [OF i])
        (use g in \<open>simp_all add: good_message_def Let_def\<close>)
  qed
qed

lemma receive_packet_inv:
  assumes inv: "client_inv cs" and g: "good_packet (rconfig cs) pkt"
  shows "yields (receive_packet cs fd pkt) (\<lambda>(cs', _). client_inv cs') \<and> safe (receive_packet cs fd pkt)"
proof (cases pkt)
  case (Packet frm msg payload)
  define cs1 where "cs1 = mem_write (iov_base cs) (take (blockSize (rconfig cs)) payload) (cs\<lparr>Msg := msg\<rparr>)"
  have i1: "client_inv cs1"
    by (rule client_inv_cong [OF inv]) (cases "iov_base cs"; simp add: cs1_def mem_write_def)+
  have "Msg cs1 = msg" "rconfig cs1 = rconfig cs" by (cases "iov_base cs"; simp add: cs1_def mem_write_def)+
  then have "yields (dispatch_packet cs1 fd) (\<lambda>(cs', _). client_inv cs') \<and> safe (dispatch_packet cs1 fd)"
    using dispatch_packet_inv [OF i1] g Packet by (simp add: good_packet_def)
  then show ?thesis using i1 by (simp add: receive_packet_def Packet cs1_def [symmetric])
qed (simp_all add: receive_packet_def inv)

lemma end_loop_result: "end_loop ws cs = Done w \<Longrightarrow> (\<exists>fd. w = Socket fd) \<or> w = Ended (cs\<lparr>endReached := 3\<rparr>)"
  by (induction ws) (subst (asm) end_loop.simps, force simp: Let_def split: if_splits option.splits prod.splits)+

lemma safe_end_loop: "safe (end_loop ws cs)"
  by (induction ws) (subst end_loop.simps, simp add: Let_def split: option.split prod.split)+

lemma set_iov_inv: "client_inv cs \<Longrightarrow> client_inv (set_iov cs) \<and> rconfig (set_iov cs) = rconfig cs"
  by (auto simp: set_iov_def split: option.split intro: client_inv_cong)

lemma dispatchMessage_inv:
  assumes inv: "client_inv cs" and g: "good_packet (rconfig cs) pkt"
  shows "yields (dispatchMessage ws start pkt cs) (\<lambda>(cs', _). client_inv cs') \<and> safe (dispatchMessage ws start pkt cs)"
proof -
  note i = set_iov_inv [OF inv]
  have upd: "client_inv (set_iov cs\<lparr>promptPrinted := True\<rparr>)" by (rule client_inv_cong [OF conjunct1 [OF i]]) simp_all
  note r1 = receive_packet_inv [of "set_iov cs" pkt] and r2 = receive_packet_inv [OF upd, of pkt]
  show ?thesis
  proof
    show "safe (dispatchMessage ws start pkt cs)"
      unfolding dispatchMessage_def Let_def
      by (rule safe_and_then [OF safe_end_loop], cases start)
        (use r1 r2 i g in \<open>auto split: end_wait.split prod.split\<close>)
    show "yields (dispatchMessage ws start pkt cs) (\<lambda>(cs', _). client_inv cs')"
      unfolding dispatchMessage_def Let_def
    proof (rule yields_and_then)
      fix w assume "end_loop ws (set_iov cs) = Done w"
      then have w: "(\<exists>fd. w = Socket fd) \<or> w = Ended ((set_iov cs)\<lparr>endReached := 3\<rparr>)" by (rule end_loop_result)
      have e: "client_inv ((set_iov cs)\<lparr>endReached := 3\<rparr>)" by (rule client_inv_cong [OF conjunct1 [OF i]]) simp_all
      have t: "client_inv (set_iov cs\<lparr>promptPrinted := True, endReached := 3, netEndReached := 3, rfifo := f\<rparr>)" for f
        by (rule client_inv_cong [OF conjunct1 [OF i]]) simp_all
      have k: "client_inv (sendGo (set_iov cs\<lparr>promptPrinted := True, console := False\<rparr>))"
        by (rule client_inv_cong [OF conjunct1 [OF i]]) (simp_all add: sendGo_def)
      show "yields (case w of Ended cs \<Rightarrow> Done (cs, 0)
           | Socket fd \<Rightarrow>
               if (if fd < 0 then selectedFd (set_iov cs) else fd) < 0 then
                    case prepareForSelect (socks (set_iov cs)) of (maxFd, read_set) \<Rightarrow>
                      (case start of
                         SelectError \<Rightarrow> Done (set_iov cs\<lparr>promptPrinted := True\<rparr>, 0)
                       | StartTimeout \<Rightarrow>
                           Done ((set_iov cs\<lparr>promptPrinted := True\<rparr>)\<lparr>endReached := 3, netEndReached := 3,
                                   rfifo := (rfifo (set_iov cs\<lparr>promptPrinted := True\<rparr>))\<lparr>data := pc_produceEnd (data (rfifo (set_iov cs\<lparr>promptPrinted := True\<rparr>)))\<rparr>\<rparr>, 1)
                       | KeyPressed \<Rightarrow> Done (sendGo ((set_iov cs\<lparr>promptPrinted := True\<rparr>)\<lparr>console := False\<rparr>), 0)
                       | SocketsReady ready \<Rightarrow>
                           receive_packet (set_iov cs\<lparr>promptPrinted := True\<rparr>)
                             (getSelectedSock (socks (set_iov cs\<lparr>promptPrinted := True\<rparr>)) (selected (maxFd + 1) read_set ready)) pkt)
                  else receive_packet (set_iov cs) (if fd < 0 then selectedFd (set_iov cs) else fd) pkt) (\<lambda>(cs', _). client_inv cs')"
        using w e t k upd r1 r2 i g by (cases start) (auto split: prod.split)
    qed
  qed
qed

end
