(* ===== verification/ReceiveLoop.thy ===== *)
theory ReceiveLoop
  imports ReceiveSafe
begin

text \<open>
  The receiver as a transition system: packets, the FEC thread and the disk thread, in any
  order, from the state that \<^verbatim>\<open>spawnNetReceiver\<close> and the start of \<^verbatim>\<open>netReceiverMain\<close> leave;
  and what holds in every state it reaches.
\<close>

subsection \<open>The receiver as a whole\<close>

inductive receiver_step :: "gf_tables \<Rightarrow> client_state \<Rightarrow> client_state \<Rightarrow> bool" for T where
  net: "endReached cs < 3 \<Longrightarrow> good_packet (rconfig cs) pkt \<Longrightarrow> dispatchMessage ws start pkt cs = Done (cs', r)
    \<Longrightarrow> receiver_step T cs cs'"
| fec: "use_fec cs \<Longrightarrow> endReached cs < 2 \<Longrightarrow> rfecMain T cs = Done cs' \<Longrightarrow> receiver_step T cs cs'"
| disk: "writer wr (rfifo cs) = Continues (f, out) \<Longrightarrow> receiver_step T cs (cs\<lparr>rfifo := f\<rparr>)"

inductive receiver_reach :: "gf_tables \<Rightarrow> client_state \<Rightarrow> bool" for T where
  start: "0 < blockSize c \<Longrightarrow> \<not> has_flag c FLAG_IGNORE_LOST_DATA \<Longrightarrow> sender_is_newgen cs0
    \<Longrightarrow> spawnNetReceiver f c alloc cs0 = Done cs1 \<Longrightarrow> netReceiverMain cs1 = Done cs \<Longrightarrow> receiver_reach T cs"
| step: "receiver_reach T cs \<Longrightarrow> receiver_step T cs cs' \<Longrightarrow> receiver_reach T cs'"

inductive_cases receiver_stepE: "receiver_step T cs cs'"

lemma getBlockSpace_inv: "getBlockSpace cs = Done (cs', b) \<Longrightarrow> client_inv (cs\<lparr>currentSlice := None\<rparr>) \<Longrightarrow> client_inv (cs'\<lparr>currentSlice := None\<rparr>)
    \<and> rconfig cs' = rconfig cs"
  by (auto simp: getBlockSpace_def outcome_Done Let_def split: if_splits
      intro: client_inv_cong [where cs = "cs\<lparr>currentSlice := None\<rparr>"])

lemma spawn_inv:
  assumes c: "0 < blockSize c" "\<not> has_flag c FLAG_IGNORE_LOST_DATA" "sender_is_newgen cs0"
    and s: "spawnNetReceiver f c alloc cs0 = Done cs1"
  shows "client_inv (cs1\<lparr>currentSlice := None\<rparr>)"
proof -
  obtain free fb where free: "pc_produce (pc_makeProduconsum (of_nat RNR_SLICES)) (of_nat RNR_SLICES) = Some free"
    and n: "setNextBlock (cs0\<lparr>rfifo := f, rconfig := c, endReached := 0, netEndReached := 0, selectedFd := -1,
         rfree_slices_pc := free, rslices := replicate RNR_SLICES (zero_rslice\<lparr>rsliceNo := -1\<rparr>),
         receivedPtr := 0, receivedSliceNo := -1, use_fec := False,
         rfec_data_pc := pc_makeProduconsum (of_nat RNR_SLICES), fec_slices := replicate RNR_SLICES 0,
         freeBlocks_pc := fb, blockAddresses := map (\<lambda>i. i * blockSize c) [0..<NR_BLOCKS],
         localBlockAddresses := replicate NR_BLOCKS 0, blockData := alloc (NR_BLOCKS * blockSize c), localPos := 0\<rparr>) = Done cs1"
      (is "setNextBlock ?cs = _")
    using s by (auto simp: spawnNetReceiver_def outcome_Done)
  have "busy_ok c (zero_rslice\<lparr>rsliceNo := -1\<rparr>)" by (simp add: busy_ok_def zero_rslice_def)
  then have "client_inv (?cs\<lparr>currentSlice := None\<rparr>)"
    using c pc_produce_size [OF free]
    by (simp add: client_inv_def rslice_at_def) (simp add: pc_makeProduconsum_def RNR_SLICES_def)
  moreover obtain a b where a: "getBlockSpace ?cs = Done (a, b)" "cs1 = a\<lparr>rnextBlock := b\<rparr>"
    using n by (auto simp: setNextBlock_def outcome_Done)
  ultimately have "client_inv (a\<lparr>currentSlice := None\<rparr>)" using getBlockSpace_inv by blast
  then show ?thesis by (rule client_inv_cong) (simp_all add: a(2))
qed

lemma netReceiverMain_inv:
  assumes i: "client_inv (cs\<lparr>currentSlice := None\<rparr>)" and m: "netReceiverMain cs = Done cs'"
  shows "client_inv cs'"
proof -
  have i': "client_inv (cs\<lparr>currentSliceNo := no, currentSlice := None, promptPrinted := False\<rparr>)" for no
    by (rule client_inv_cong [OF i]) simp_all
  show ?thesis
  proof (cases "has_flag (rconfig cs) FLAG_RSTREAMING")
    case True
    then have cs': "cs\<lparr>promptPrinted := False, currentSlice := None, currentSliceNo := 0\<rparr> = cs'"
      using m by (simp add: netReceiverMain_def Let_def)
    show ?thesis unfolding cs' [symmetric] by (rule client_inv_cong [OF i]) simp_all
  next
    case False
    then show ?thesis using m newSlice_inv [OF i'] by (auto simp: netReceiverMain_def Let_def outcome_Done)
  qed
qed

lemma receiver_reach_inv: "receiver_reach T cs \<Longrightarrow> client_inv cs"
proof (induction rule: receiver_reach.induct)
  case (start c cs0 f alloc cs1 cs)
  then show ?case using netReceiverMain_inv spawn_inv by blast
next
  case (step cs cs')
  note inv = step(3)
  from step(2) show ?case
  proof cases
    case (net pkt ws start r)
    then show ?thesis using dispatchMessage_inv [OF inv, of pkt ws start] by (auto simp: yields_def)
  next
    case fec
    then show ?thesis using rfecMain_inv [OF inv] by blast
  next
    case (disk wr f out)
    show ?thesis unfolding disk(1) by (rule client_inv_cong [OF inv]) simp_all
  qed
qed


definition sample_rconfig :: net_config where
  "sample_rconfig = \<lparr>blockSize = 1, sliceSize = 4, flags = 0, discovery = DSC_DOUBLING, default_slice_size = 4,
     max_slice_size = 8, retriesUntilDrop = 5, fec_redundancy = 0, fec_stripesize = 0, fec_stripes = 0, rehelloOffset = 0\<rparr>"

definition sample_fifo :: fifo where
  \<comment> \<open>an empty ring of 2048 bytes\<close>
  "sample_fifo = \<lparr>dataBuffer = replicate 2048 0, dataBufSize = 2048, freeMemQueue = (pc_makeProduconsum 2048)\<lparr>produced := 2048\<rparr>,
     data = pc_makeProduconsum 2048\<rparr>"

definition sample_client :: client_state where
  \<comment> \<open>the configuration of a client before the start of its threads\<close>
  "sample_client = \<lparr>rfifo = sample_fifo, rconfig = sample_rconfig, exitWait = 500,
     serverAddr = \<lparr>sin_family = 2, sin_port = 7, sin_addr = 9\<rparr>, clientNumber = 3, isStarted = False, sender_is_newgen = True,
     console = False, socks = [4, -1, -1, -1],
     Msg = \<lparr>d_opCode = 0, d_stripes = 0, d_sliceNo = 0, d_blockNo = 0, d_bytes = 0, d_rxmit = 0\<rparr>, iov_base = Pool 0,
     currentSlice = None, currentSliceNo = 0, rstats = \<lparr>rtotalBytes = 0, timerStarted = False\<rparr>,
     rfree_slices_pc = pc_makeProduconsum 4, rslices = [], receivedPtr = 0, receivedSliceNo = 0, use_fec = False,
     rfec_data_pc = pc_makeProduconsum 4, fec_slices = [], freeBlocks_pc = pc_makeProduconsum 4096, blockAddresses = [],
     localBlockAddresses = [], localPos = 0, blockData = [], rnextBlock = 0, endReached = 0, netEndReached = 0,
     selectedFd = -1, promptPrinted = False, outbox = []\<rparr>"

definition sample_slice :: rslice where
  "sample_slice = clear_slice 0 (reset_slice (zero_rslice\<lparr>rsliceNo := -1\<rparr>))"

lemma sample_queues:
  "pc_produce (pc_makeProduconsum 4) 4 = Some ((pc_makeProduconsum 4)\<lparr>produced := 4\<rparr>)"
  "pc_produce (pc_makeProduconsum 4096) 4096 = Some ((pc_makeProduconsum 4096)\<lparr>produced := 4096\<rparr>)"
  "pc_consume ((pc_makeProduconsum 4)\<lparr>produced := 4\<rparr>) 1 [] = Some ((pc_makeProduconsum 4)\<lparr>produced := 4\<rparr>, 4)"
  "pc_consume ((pc_makeProduconsum 4096)\<lparr>produced := 4096\<rparr>) 1 [] = Some ((pc_makeProduconsum 4096)\<lparr>produced := 4096\<rparr>, 4096)"
  "pc_consume ((pc_makeProduconsum 2048)\<lparr>produced := 2048\<rparr>) 1024 [] = Some ((pc_makeProduconsum 2048)\<lparr>produced := 2048\<rparr>, 2048)"
  by code_simp+

lemma sample_spawn:
  "\<exists>cs. spawnNetReceiver sample_fifo sample_rconfig (\<lambda>n. replicate n 0) sample_client = Done cs
     \<and> rslices cs = replicate 4 (zero_rslice\<lparr>rsliceNo := -1\<rparr>) \<and> rfree_slices_pc cs = (pc_makeProduconsum 4)\<lparr>produced := 4\<rparr>
     \<and> rfifo cs = sample_fifo \<and> rconfig cs = sample_rconfig \<and> sender_is_newgen cs \<and> receivedSliceNo cs = -1 \<and> endReached cs = 0
     \<and> netEndReached cs = 0 \<and> socks cs = [4, -1, -1, -1] \<and> selectedFd cs = -1 \<and> serverAddr cs = \<lparr>sin_family = 2, sin_port = 7, sin_addr = 9\<rparr>"
  by (simp add: spawnNetReceiver_def RNR_SLICES_def NR_BLOCKS_def sample_queues setNextBlock_def getBlockSpace_def sample_client_def)

lemma sample_start:
  "\<exists>cs. receiver_reach T cs \<and> currentSlice cs = Some 0 \<and> currentSliceNo cs = 0 \<and> receivedSliceNo cs = -1 \<and> rslice_at cs 0 = sample_slice
     \<and> length (rslices cs) = 4 \<and> rconfig cs = sample_rconfig \<and> dataBuffer (rfifo cs) = replicate 2048 0 \<and> dataBufSize (rfifo cs) = 2048
     \<and> endReached cs = 0 \<and> netEndReached cs = 0 \<and> socks cs = [4, -1, -1, -1] \<and> selectedFd cs = -1
     \<and> serverAddr cs = \<lparr>sin_family = 2, sin_port = 7, sin_addr = 9\<rparr>"
proof -
  obtain cs1 where s: "spawnNetReceiver sample_fifo sample_rconfig (\<lambda>n. replicate n 0) sample_client = Done cs1"
    and cs1: "rslices cs1 = replicate 4 (zero_rslice\<lparr>rsliceNo := -1\<rparr>)" "rfree_slices_pc cs1 = (pc_makeProduconsum 4)\<lparr>produced := 4\<rparr>"
      "rfifo cs1 = sample_fifo" "rconfig cs1 = sample_rconfig" "sender_is_newgen cs1" "receivedSliceNo cs1 = -1" "endReached cs1 = 0"
      "netEndReached cs1 = 0" "socks cs1 = [4, -1, -1, -1]" "selectedFd cs1 = -1" "serverAddr cs1 = \<lparr>sin_family = 2, sin_port = 7, sin_addr = 9\<rparr>"
    using sample_spawn by blast
  have p: "pc_getConsumerPosition ((pc_makeProduconsum 4)\<lparr>produced := 4\<rparr>) = 0"
    "pc_getConsumerPosition ((pc_makeProduconsum 2048)\<lparr>produced := 2048\<rparr>) = 0" by code_simp+
  have "\<exists>cs. netReceiverMain cs1 = Done cs \<and> currentSlice cs = Some 0 \<and> currentSliceNo cs = 0 \<and> receivedSliceNo cs = -1 \<and> rslice_at cs 0 = sample_slice
     \<and> length (rslices cs) = 4 \<and> rconfig cs = sample_rconfig \<and> dataBuffer (rfifo cs) = replicate 2048 0 \<and> dataBufSize (rfifo cs) = 2048
     \<and> endReached cs = 0 \<and> netEndReached cs = 0 \<and> socks cs = [4, -1, -1, -1] \<and> selectedFd cs = -1
     \<and> serverAddr cs = \<lparr>sin_family = 2, sin_port = 7, sin_addr = 9\<rparr>"
    by (simp add: netReceiverMain_def newSlice_def cs1 sample_queues p has_flag_def sample_rconfig_def sample_fifo_def rslice_at_def
        upd_rslice_def initSlice_def MAX_SLICE_SIZE_def) (simp add: zero_rslice_def sample_slice_def clear_slice_def reset_slice_def cs1 sample_rconfig_def)
  then show ?thesis using receiver_reach.start [OF _ _ _ s, of _ T] by (fastforce simp: sample_rconfig_def sample_client_def has_flag_def)
qed

end
