(* ===== verification/ReceiverProps.thy ===== *)
theory ReceiverProps
  imports ReceiveLoop
begin

text \<open>
  What the receiver promises: its answers to the sender, the storage of what it receives, the
  repair of a slice, and the checks it lacks.
\<close>

subsection \<open>Answers\<close>

lemma outbox_loop:
  "yields (advance_loop n p cs) (\<lambda>cs'. outbox cs' = outbox cs)"
  "yields (cleanup_loop n d cs) (\<lambda>cs'. outbox cs' = outbox cs)"
proof -
  show "yields (advance_loop n p cs) (\<lambda>cs'. outbox cs' = outbox cs)"
    by (induction n arbitrary: p cs) (fastforce simp: Let_def yields_def)+
  show "yields (cleanup_loop n d cs) (\<lambda>cs'. outbox cs' = outbox cs)"
  proof (induction n arbitrary: cs)
    case (Suc n)
    have upd: "outbox c = outbox cs \<Longrightarrow> yields (cleanup_loop n d c) (\<lambda>cs'. outbox cs' = outbox cs)" for c
      using Suc.IH [of c] by simp
    show ?case unfolding cleanup_loop.simps by (intro yields_rules upd) simp_all
  qed simp
qed

lemma outbox_keeps:
  "yields (advanceReceivedPointer cs) (\<lambda>cs'. outbox cs' = outbox cs)"
  "yields (cleanupSlices cs d) (\<lambda>cs'. outbox cs' = outbox cs)"
  "yields (setSliceBytes k cs b) (\<lambda>cs'. outbox cs' = outbox cs)"
proof -
  show "yields (advanceReceivedPointer cs) (\<lambda>cs'. outbox cs' = outbox cs)" unfolding advanceReceivedPointer_def by (rule outbox_loop)
  show "yields (cleanupSlices cs d) (\<lambda>cs'. outbox cs' = outbox cs)" unfolding cleanupSlices_def by (rule outbox_loop)
  show "yields (setSliceBytes k cs b) (\<lambda>cs'. outbox cs' = outbox cs)"
    unfolding setSliceBytes_def by (intro yields_rules) simp_all
qed

lemma outbox_check: "yields (checkSliceComplete cs k) (\<lambda>cs'. outbox cs' = outbox cs)"
proof -
  have a: "yields (advanceReceivedPointer c) (\<lambda>cs'. outbox cs' = outbox c)" for c by (rule outbox_keeps)
  have c: "yields (cleanupSlices c SLICE_DONE) (\<lambda>cs'. outbox cs' = outbox c)" for c by (rule outbox_keeps)
  have e: "outbox (end_streaming sl c) = outbox c" for sl c by (simp add: end_streaming_def)
  show ?thesis
    unfolding checkSliceComplete_def Let_def
    by (auto simp: yields_def outcome_Done e Let_def split: if_splits dest!: a [unfolded yields_def, rule_format] c [unfolded yields_def, rule_format])
qed

definition restorable :: "nat \<Rightarrow> rslice \<Rightarrow> bool" where
  \<comment> \<open>the slice of \<open>n\<close> blocks has all its data, or as many FEC blocks as it lacks data blocks in every stripe\<close>
  "restorable n sl \<longleftrightarrow> (if rfec_stripes sl = 0 then {..<n} \<subseteq> bits_of (rmap sl)
     else \<forall>s < rfec_stripes sl. int (card (lacks n sl s)) \<le> rfec_blocks sl ! s)"

lemma restorable_iff:
  assumes c: "counts_ok n sl"
  shows "blocksTransferred sl = int n \<longleftrightarrow> restorable n sl"
proof (cases "rfec_stripes sl = 0")
  case True
  have sub: "bits_of (rmap sl) \<subseteq> {..<n}" "blocksTransferred sl = int (card (bits_of (rmap sl)))"
    using c True by (simp_all add: counts_ok_def)
  have "card (bits_of (rmap sl)) = n \<longleftrightarrow> {..<n} \<subseteq> bits_of (rmap sl)"
    using sub(1) card_subset_eq [of "{..<n}" "bits_of (rmap sl)"] by (metis card_lessThan finite_lessThan order_antisym subset_refl)
  then show ?thesis using True sub by (simp add: restorable_def)
next
  case False
  let ?S = "{..<rfec_stripes sl}"
  have n: "int n = int (card (bits_of (rmap sl))) + (\<Sum>s\<in>?S. int (card (lacks n sl s)))"
  proof -
    have "n = card (bits_of (rmap sl)) + (\<Sum>s\<in>?S. card (lacks n sl s))"
      by (rule lacks_partition) (use False c in \<open>simp_all add: counts_ok_def\<close>)
    then have "int n = int (card (bits_of (rmap sl)) + (\<Sum>s\<in>?S. card (lacks n sl s)))" by (rule arg_cong)
    then show ?thesis by (simp only: of_nat_add of_nat_sum)
  qed
  have b: "blocksTransferred sl = int (card (bits_of (rmap sl))) + (\<Sum>s\<in>?S. rfec_blocks sl ! s)" using c by (simp add: counts_ok_def)
  show ?thesis
  proof
    assume "blocksTransferred sl = int n"
    then show "restorable n sl" using complete_stripes [OF c] False by (simp add: restorable_def)
  next
    assume r: "restorable n sl"
    have "(\<Sum>s\<in>?S. rfec_blocks sl ! s) = (\<Sum>s\<in>?S. int (card (lacks n sl s)))"
    proof (rule sum.cong)
      fix s assume "s \<in> ?S"
      then have "s < rfec_stripes sl" by simp
      then have "missing_data_blocks sl ! s = int (card (lacks n sl s)) \<and> rfec_blocks sl ! s \<le> missing_data_blocks sl ! s"
        using c unfolding counts_ok_def by blast
      moreover have "int (card (lacks n sl s)) \<le> rfec_blocks sl ! s"
        using r False \<open>s < rfec_stripes sl\<close> by (simp add: restorable_def)
      ultimately show "rfec_blocks sl ! s = int (card (lacks n sl s))" by simp
    qed simp
    then show "blocksTransferred sl = int n" using n b by simp
  qed
qed

lemma reqack_answer:
  assumes inv: "client_inv cs" and f: "rfindSlice cs no = Done (cs1, Some k)"
    and b: "size_ok (rconfig cs) b" and us: "\<not> BIT_ISSET (clientNumber cs1) (mem_at cs1 (iov_base cs1))"
    and st: "rstate (rslice_at cs1 k) \<in> {SLICE_RECEIVING, SLICE_DONE, SLICE_FEC}"
    and p: "processReqAck cs no b rx = Done cs'"
  shows "\<exists>m. outbox cs' = outbox cs1 @ [m]
     \<and> (if restorable (nat (slice_blocks (rconfig cs) b)) (rslice_at cs1 k)
        then m = \<lparr>m_opCode = htons CMD_OK, m_sliceNo = htonl_int (rsliceNo (rslice_at cs1 k)), m_rxmit = 0, m_map = []\<rparr>
        else m = \<lparr>m_opCode = htons CMD_RETRANSMIT, m_sliceNo = htonl_int (rsliceNo (rslice_at cs1 k)), m_rxmit = htonl_int rx,
                  m_map = rmap (rslice_at cs1 k)\<rparr>)"
proof -
  let ?sl = "rslice_at cs1 k"
  have inv1: "client_inv cs1" and k: "k < RNR_SLICES" using rfindSlice_inv [OF inv f] by auto
  have c1: "rconfig cs1 = rconfig cs" using rfindSlice_same [OF f inv] by (simp add: same_mem_def)
  define fin where "fin = (\<lambda>cs. if \<not> use_fec cs then cleanupSlices cs SLICE_DONE else Done cs)"
  define send where "send = (\<lambda>cs. if slice_blocks (rconfig cs) (rbytes (rslice_at cs k)) = blocksTransferred (rslice_at cs k)
                          then Done (sendOk (rsliceNo (rslice_at cs k)) cs) else sendRetransmit cs k rx)"
  have mg: "magic ?sl" using p f us by (auto simp: processReqAck_def outcome_Done)
  have "and_then (setSliceBytes k cs1 b) (\<lambda>cs. and_then (check (blockSize (rconfig cs) \<noteq> 0)) (\<lambda>_.
       and_then (send cs) (\<lambda>cs. and_then (checkSliceComplete cs k) (\<lambda>cs. and_then (advanceReceivedPointer cs) fin)))) = Done cs'"
    using p f us mg by (simp add: processReqAck_def send_def fin_def)
  then obtain cs2 cs3 cs4 cs5 where s: "setSliceBytes k cs1 b = Done cs2" "send cs2 = Done cs3" "checkSliceComplete cs3 k = Done cs4"
      "advanceReceivedPointer cs4 = Done cs5" "fin cs5 = Done cs'"
      unfolding and_then_Done [of _ fin] and_then_Done [of _ "\<lambda>cs. and_then (advanceReceivedPointer cs) fin"]
        and_then_Done [of _ "\<lambda>cs. and_then (checkSliceComplete cs k) (\<lambda>cs. and_then (advanceReceivedPointer cs) fin)"]
        and_then_Done [of "setSliceBytes k cs1 b"] and_then_Done [of "check b" for b] by blast
  note set = setSliceBytes_spec [OF s(1)]
  have len: "k < length (rslices cs1)" using k client_len [OF inv1] by simp
  have at2: "rslice_at cs2 k = ?sl\<lparr>bytesKnown := True, rbytes := b\<rparr>" using set len by simp
  have c2: "blockSize (rconfig cs2) = blockSize (rconfig cs)" using set c1 by (simp add: frame_def)
  have inv2: "client_inv cs2" using setSliceBytes_inv [OF inv1 s(1)] b c1 by (simp add: size_ok_def)
  have "slice_good (rconfig cs2) (rslice_at cs2 k)" using client_busy [OF inv2 k] st by (auto simp: busy_ok_def at2)
  then have cnt: "counts_ok (nat (slice_blocks (rconfig cs) b)) (rslice_at cs2 k)" "0 \<le> slice_blocks (rconfig cs) b"
    by (simp_all add: slice_good_def nr_known_def at2 slice_blocks_cong [OF c2])
  have same: "restorable n (rslice_at cs2 k) = restorable n ?sl" for n by (simp add: restorable_def at2 rmap_def lacks_def)
  have iff: "slice_blocks (rconfig cs2) (rbytes (rslice_at cs2 k)) = blocksTransferred (rslice_at cs2 k)
      \<longleftrightarrow> restorable (nat (slice_blocks (rconfig cs) b)) ?sl"
  proof -
    have "slice_blocks (rconfig cs2) (rbytes (rslice_at cs2 k)) = int (nat (slice_blocks (rconfig cs) b))"
      using cnt(2) by (simp add: at2 slice_blocks_cong [OF c2])
    then show ?thesis using restorable_iff [OF cnt(1)] same by (metis (no_types))
  qed
  have o: "outbox cs2 = outbox cs1" "outbox cs4 = outbox cs3" "outbox cs5 = outbox cs4" "outbox cs' = outbox cs5"
    using outbox_keeps(3) [of k cs1 b] outbox_check [of cs3 k] outbox_keeps(1) [of cs4] outbox_keeps(2) [of cs5 SLICE_DONE] s
    by (auto simp: yields_def fin_def split: if_splits)
  have sl2: "rsliceNo (rslice_at cs2 k) = rsliceNo ?sl" "rmap (rslice_at cs2 k) = rmap ?sl" by (simp_all add: at2 rmap_def)
  have len2: "k < length (rslices cs2)" using k client_len [OF inv2] by simp
  show ?thesis
  proof (cases "restorable (nat (slice_blocks (rconfig cs) b)) ?sl")
    case True
    then have "cs3 = sendOk (rsliceNo ?sl) cs2" using s(2) iff by (simp add: send_def sl2)
    then show ?thesis using True o by (simp add: sendOk_def)
  next
    case False
    then have "sendRetransmit cs2 k rx = Done cs3" using s(2) iff by (simp add: send_def)
    then have "outbox cs3 = outbox cs2 @ [(retransmit (rslice_at cs2 k))\<lparr>m_opCode := htons CMD_RETRANSMIT,
                  m_sliceNo := htonl_int (rsliceNo (rslice_at cs2 k)), m_rxmit := htonl_int rx\<rparr>]"
      using len2 by (auto simp: sendRetransmit_def outcome_Done Let_def)
    then show ?thesis using False o sl2 by (cases "retransmit (rslice_at cs2 k)") (simp add: rmap_def)
  qed
qed


subsection \<open>Reception and storage\<close>

lemma current_free:
  assumes inv: "client_inv cs" and k: "k < RNR_SLICES" and st: "rstate (rslice_at cs k) \<noteq> RSLICE_FREE"
  shows "free_ok (rslice_at cs k)"
proof -
  have "slice_sound (rconfig cs) (rslice_at cs k)"
    using client_busy [OF inv k] st good_sound by (cases "rstate (rslice_at cs k)") (auto simp: busy_ok_def)
  then show ?thesis by (auto simp: slice_sound_def slice_good_def free_ok_def rmap_def)
qed

subsection \<open>A state after one packet\<close>

lemma sample_find':
  assumes "currentSlice cs = Some 0" and "currentSliceNo cs = 0" and "receivedSliceNo cs = -1" and "magic (rslice_at cs 0)"
    and "rsliceNo (rslice_at cs 0) = 0"
  shows "rfindSlice cs 0 = Done (cs, Some 0)"
proof -
  have "search_slice RNR_SLICES cs 0 0 = Done (Some 0)" by (simp add: RNR_SLICES_def eval_nat_numeral assms)
  then show ?thesis by (simp add: rfindSlice_def assms eval_nat_numeral)
qed

lemma sample_find:
  assumes "currentSlice cs = Some 0" and "currentSliceNo cs = 0" and "receivedSliceNo cs = -1" and "rslice_at cs 0 = sample_slice"
  shows "rfindSlice cs 0 = Done (cs, Some 0)"
  by (rule sample_find' [OF assms(1-3)]) (simp_all add: assms(4) sample_slice_def clear_slice_def reset_slice_def)

lemma sample_block:
  assumes f: "currentSlice cs = Some 0" "currentSliceNo cs = 0" "receivedSliceNo cs = -1" "rslice_at cs 0 = sample_slice"
    "length (rslices cs) = 4" "rconfig cs = sample_rconfig" "dataBufSize (rfifo cs) = 2048" "sender_is_newgen cs" "iov_base cs = Ring 0"
  shows "\<exists>cs'. processDataBlock cs 0 0 2 = Done cs' \<and> currentSlice cs' = Some 0 \<and> currentSliceNo cs' = 0 \<and> receivedSliceNo cs' = -1
    \<and> 0 < length (rslices cs') \<and> rconfig cs' = sample_rconfig
    \<and> rslice_at cs' 0 = sample_slice\<lparr>bytesKnown := True, rbytes := 2, retransmit := m_map_update (SET_BIT 0) zero_message,
         dataBlocksTransferred := 1, blocksTransferred := 1, freePos := advance_free (SET_BIT 0 (replicate 128 0)) 0\<rparr>
    \<and> dataBuffer (rfifo cs') = dataBuffer (rfifo cs) \<and> dataBufSize (rfifo cs') = 2048 \<and> endReached cs' = endReached cs"
proof -
  have m: "magic sample_slice" "rstate sample_slice = SLICE_RECEIVING" "rbase sample_slice = 0" "rfec_stripes sample_slice = 0"
    "\<not> bytesKnown sample_slice" "retransmit sample_slice = zero_message" "rmap sample_slice = replicate 128 0"
    "dataBlocksTransferred sample_slice = 0" "blocksTransferred sample_slice = 0" "freePos sample_slice = 0"
    by (simp_all add: sample_slice_def clear_slice_def reset_slice_def zero_rslice_def rmap_def zero_message_def MAX_SLICE_SIZE_def)
  have nb: "\<not> BIT_ISSET 0 (replicate 128 0)" by (rule BIT_ISSET_zero) simp
  have c: "blockSize sample_rconfig = 1" "\<not> has_flag sample_rconfig FLAG_RSTREAMING" by (simp_all add: sample_rconfig_def has_flag_def)
  have adr: "ADR cs sample_slice 0 = 0" by (simp add: ADR_def m)
  have sb: "slice_blocks sample_rconfig 2 = 2" by (simp add: slice_blocks_def c)
  have zm: "m_map zero_message = replicate 128 0" by (simp add: zero_message_def MAX_SLICE_SIZE_def)
  have pd: "processDataBlock cs 0 0 2 = store_data_block cs 0 0 2"
    by (simp add: processDataBlock_def sample_find [OF f(1-4)] f(2,4) m nb MAX_SLICE_SIZE_def)
  define cs2 where "cs2 = (upd_rslice 0 (\<lambda>sl. sl\<lparr>bytesKnown := True, rbytes := 2\<rparr>) cs)
      \<lparr>rfifo := (rfifo cs)\<lparr>freeMemQueue := pc_consumed (freeMemQueue (rfifo cs)) 2\<rparr>\<rparr>"
  define cs3 where "cs3 = upd_rslice 0 (retransmit_update (m_map_update (SET_BIT 0))) cs2"
  define cs4 where "cs4 = upd_rslice 0 (\<lambda>sl. sl\<lparr>dataBlocksTransferred := dataBlocksTransferred sl + 1,
                    blocksTransferred := blocksTransferred sl + 1, freePos := advance_free (rmap sl) (freePos sl)\<rparr>) cs3"
  have set: "setSliceBytes 0 cs 2 = Done cs2"
    using f by (simp add: setSliceBytes_def m c cs2_def)
  have at2: "rslice_at cs2 0 = sample_slice\<lparr>bytesKnown := True, rbytes := 2\<rparr>" "0 < length (rslices cs2)"
    using f by (simp_all add: cs2_def upd_rslice_def rslice_at_def)
  have at3: "rslice_at cs3 0 = sample_slice\<lparr>bytesKnown := True, rbytes := 2, retransmit := m_map_update (SET_BIT 0) zero_message\<rparr>"
      "0 < length (rslices cs3)"
    using at2 by (simp_all add: cs3_def m)
  have at4: "rslice_at cs4 0 = sample_slice\<lparr>bytesKnown := True, rbytes := 2, retransmit := m_map_update (SET_BIT 0) zero_message,
         dataBlocksTransferred := 1, blocksTransferred := 1, freePos := advance_free (SET_BIT 0 (replicate 128 0)) 0\<rparr>"
    using at3 by (simp add: cs4_def m rmap_def zm)
  have c4: "rconfig cs4 = sample_rconfig" "currentSlice cs4 = Some 0" "currentSliceNo cs4 = 0" "receivedSliceNo cs4 = -1" "0 < length (rslices cs4)" "dataBuffer (rfifo cs4) = dataBuffer (rfifo cs)"
    "dataBufSize (rfifo cs4) = 2048" "endReached cs4 = endReached cs"
    using f by (simp_all add: cs4_def cs3_def cs2_def upd_rslice_def)
  have ck: "checkSliceComplete cs4 0 = Done cs4"
    by (simp add: checkSliceComplete_def at4 c4 m c sb)
  have sd: "store_data_block cs 0 0 2 = checkSliceComplete cs4 0"
    using at3(1) by (simp add: store_data_block_def f m c adr set cs3_def [symmetric] cs4_def [symmetric])
  show ?thesis unfolding pd sd ck using at4 c4 by simp
qed

lemma sample_received:
  "\<exists>cs. receiver_reach T cs \<and> currentSlice cs = Some 0 \<and> currentSliceNo cs = 0 \<and> receivedSliceNo cs = -1 \<and> 0 < length (rslices cs)
    \<and> rconfig cs = sample_rconfig \<and> rslice_at cs 0 = sample_slice\<lparr>bytesKnown := True, rbytes := 2, retransmit := m_map_update (SET_BIT 0) zero_message,
         dataBlocksTransferred := 1, blocksTransferred := 1, freePos := advance_free (SET_BIT 0 (replicate 128 0)) 0\<rparr>
    \<and> dataBuffer (rfifo cs) = 5 # replicate 2047 0 \<and> dataBufSize (rfifo cs) = 2048"
proof -
  obtain cs where r: "receiver_reach T cs" and cs: "currentSlice cs = Some 0" "currentSliceNo cs = 0" "receivedSliceNo cs = -1"
      "rslice_at cs 0 = sample_slice" "length (rslices cs) = 4" "rconfig cs = sample_rconfig" "dataBuffer (rfifo cs) = replicate 2048 0"
      "dataBufSize (rfifo cs) = 2048" "endReached cs = 0" "netEndReached cs = 0" "socks cs = [4, -1, -1, -1]" "selectedFd cs = -1"
      "serverAddr cs = \<lparr>sin_family = 2, sin_port = 7, sin_addr = 9\<rparr>"
    using sample_start [of T] by blast
  have ng: "sender_is_newgen cs" using receiver_reach_inv [OF r] by (simp add: client_inv_def)
  define msg where "msg = \<lparr>d_opCode = htons CMD_DATA, d_stripes = 0, d_sliceNo = 0, d_blockNo = 0, d_bytes = htonl_int 2, d_rxmit = 0\<rparr>"
  define pkt where "pkt = Packet \<lparr>sin_family = 2, sin_port = 7, sin_addr = 9\<rparr> msg [5]"
  define cs1 where "cs1 = cs\<lparr>iov_base := Ring 0, promptPrinted := True, Msg := msg, rfifo := (rfifo cs)\<lparr>dataBuffer := 5 # replicate 2047 0\<rparr>\<rparr>"
  have good: "good_packet (rconfig cs) pkt"
    by (simp add: good_packet_def pkt_def msg_def good_message_def cs(6) sample_rconfig_def size_ok_def slice_blocks_def MAX_SLICE_SIZE_def Let_def)
      (simp add: CMD_DATA_def CMD_FEC_def CMD_REQACK_def ntohs_def htons_def)
  define cs2 where "cs2 = start_transfer cs1 4"
  have i2: "iov_base cs2 = Ring 0" by (simp add: cs2_def start_transfer_def closeAllExcept_def cs1_def Let_def)
  have f2: "rfifo cs2 = rfifo cs1" "currentSliceNo cs2 = 0" "receivedSliceNo cs2 = -1" "endReached cs2 = 0"
    using cs by (simp_all add: cs2_def start_transfer_def closeAllExcept_def cs1_def Let_def)
  have at2: "rslice_at cs2 0 = sample_slice" using cs(4) by (simp add: cs2_def rslice_at_def cs1_def)
  obtain cs3 where cs3: "processDataBlock cs2 0 0 2 = Done cs3" "currentSlice cs3 = Some 0" "currentSliceNo cs3 = 0" "receivedSliceNo cs3 = -1"
    "0 < length (rslices cs3)" "rconfig cs3 = sample_rconfig"
    "rslice_at cs3 0 = sample_slice\<lparr>bytesKnown := True, rbytes := 2, retransmit := m_map_update (SET_BIT 0) zero_message,
         dataBlocksTransferred := 1, blocksTransferred := 1, freePos := advance_free (SET_BIT 0 (replicate 128 0)) 0\<rparr>"
    "dataBuffer (rfifo cs3) = dataBuffer (rfifo cs2)" "dataBufSize (rfifo cs3) = 2048"
    using sample_block [OF _ f2(2,3) at2 _ _ _ _ i2] cs ng f2(1) by (auto simp: cs2_def) (auto simp: cs1_def)
  have "dispatchMessage [] (SocketsReady {4}) pkt cs = Done (cs3, 0)"
  proof -
    have m: "freePos sample_slice = 0" "rbase sample_slice = 0"
      by (simp_all add: sample_slice_def clear_slice_def reset_slice_def zero_rslice_def)
    have iov: "set_iov cs = cs\<lparr>iov_base := Ring 0\<rparr>" using cs by (simp add: set_iov_def m ADR_def MAX_SLICE_SIZE_def)
    have loop: "end_loop [] (cs\<lparr>iov_base := Ring 0\<rparr>) = Done (Socket (-1))" by (subst end_loop.simps) (simp add: cs)
    have sel: "prepareForSelect [4, -1, -1, -1] = (4, {4})" "getSelectedSock [4, -1, -1, -1] (selected 5 {4} {4}) = 4"
      by (simp_all add: prepareForSelect_def getSelectedSock_def selected_def upt_rec)
    have mw: "mem_write (Ring 0) (take (blockSize (rconfig cs)) [5]) (cs\<lparr>iov_base := Ring 0, promptPrinted := True, Msg := msg\<rparr>) = cs1"
      using cs(6,7) by (simp add: mem_write_def cs1_def sample_rconfig_def write_at_def)
    have rp: "receive_packet (cs\<lparr>iov_base := Ring 0, promptPrinted := True\<rparr>) 4 pkt = dispatch_packet cs1 4"
      using mw cs by (simp add: receive_packet_def pkt_def isAddressEqual_def) (simp add: cs1_def)
    have dp: "dispatch_packet cs1 4 = Done (cs3, 0)"
    proof -
      have z: "ntohl_int 0 = 0" "ntohs 0 = 0" by (simp_all add: ntohl_int_def ntohl_def htonl_def ntohs_def htons_def)
      have "Msg cs1 = msg" by (simp add: cs1_def)
      then show ?thesis using cs3(1) by (simp add: dispatch_packet_def cs2_def [symmetric] msg_def Let_def z)
    qed
    show ?thesis
      by (simp add: dispatchMessage_def iov loop cs sel rp dp)
  qed
  from receiver_step.net [OF _ good this] have "receiver_step T cs cs3" using cs(9) by simp
  then have "receiver_reach T cs3" using receiver_reach.step r by blast
  then show ?thesis using cs3 f2 by (auto simp: cs1_def)
qed


lemma sample_ring:
  "rconfig cs = sample_rconfig \<Longrightarrow> length (dataBuffer (rfifo cs)) = 2048 \<Longrightarrow> dataBufSize (rfifo cs) = 2048 \<Longrightarrow> ring_ok cs"
  by (simp add: ring_ok_def sample_rconfig_def MAX_SLICE_SIZE_def)

subsection \<open>Properties\<close>

text \<open>
  C5.  In every state the receiver reaches, whatever valid packets arrive and however its
  threads interleave, the invariant holds: every slice in use counts the data blocks and the FEC
  blocks it has received exactly, keeps for every stripe the exact number of blocks it lacks,
  holds an address for every FEC block it counts, has its place for the next packet outside
  the blocks received, and a slice handed to the FEC thread is complete.
\<close>

theorem receiver_counts_blocks:
  assumes "receiver_reach T cs"
  shows "client_inv cs"
  using assms by (rule receiver_reach_inv)

theorem receiver_counts_blocks_witness:
  "\<exists>cs. receiver_reach (fec_init static_tables) cs \<and> currentSlice cs = Some 0 \<and> client_inv cs"
  using sample_start [of "fec_init static_tables"] receiver_counts_blocks [of "fec_init static_tables"] by blast



text \<open>
  C7.  Receiving is harmless: the payload of a packet, whatever it is, is written to memory
  before the packet is looked at; this never overwrites a data block that the current slice has
  already received.
\<close>

theorem reception_keeps_blocks:
  assumes "receiver_reach T cs" and "currentSlice cs = Some k" and "rstate (rslice_at cs k) \<noteq> RSLICE_FREE"
    and "ring_ok cs" and "blockSize (rconfig cs) dvd rbase (rslice_at cs k)"
    and "i < MAX_SLICE_SIZE" and "BIT_ISSET i (rmap (rslice_at cs k))"
  shows "ring_block (mem_write (iov_base (set_iov cs)) (take (blockSize (rconfig cs)) payload) cs) (rslice_at cs k) i
    = ring_block cs (rslice_at cs k) i"
proof -
  have inv: "client_inv cs" by (rule receiver_reach_inv [OF assms(1)])
  then have "k < RNR_SLICES" using assms(2) by (simp add: client_inv_def)
  from current_free [OF inv this assms(3)] show ?thesis
    by (intro receive_keeps_block [OF assms(4,2,5) _ assms(6,7)]) (simp add: free_ok_def)
qed

theorem reception_keeps_blocks_witness:
  "\<exists>cs. receiver_reach (fec_init static_tables) cs \<and> BIT_ISSET 0 (rmap (rslice_at cs 0)) \<and> dataBuffer (rfifo cs) = 5 # replicate 2047 0
    \<and> ring_block (mem_write (iov_base (set_iov cs)) (take (blockSize (rconfig cs)) [7]) cs) (rslice_at cs 0) 0 = ring_block cs (rslice_at cs 0) 0"
proof -
  obtain cs where r: "receiver_reach (fec_init static_tables) cs" and cs: "currentSlice cs = Some 0" "rconfig cs = sample_rconfig"
    "rslice_at cs 0 = sample_slice\<lparr>bytesKnown := True, rbytes := 2, retransmit := m_map_update (SET_BIT 0) zero_message,
         dataBlocksTransferred := 1, blocksTransferred := 1, freePos := advance_free (SET_BIT 0 (replicate 128 0)) 0\<rparr>"
    "dataBuffer (rfifo cs) = 5 # replicate 2047 0" "dataBufSize (rfifo cs) = 2048"
    using sample_received [of "fec_init static_tables"] by blast
  have bit: "BIT_ISSET 0 (rmap (rslice_at cs 0))" by (simp add: cs(3) rmap_def zero_message_def MAX_SLICE_SIZE_def)
  have st: "rstate (rslice_at cs 0) \<noteq> RSLICE_FREE" "rbase (rslice_at cs 0) = 0"
    by (simp_all add: cs(3) sample_slice_def clear_slice_def reset_slice_def zero_rslice_def)
  have "ring_block (mem_write (iov_base (set_iov cs)) (take (blockSize (rconfig cs)) [7]) cs) (rslice_at cs 0) 0 = ring_block cs (rslice_at cs 0) 0"
    by (rule reception_keeps_blocks [OF r cs(1) st(1) sample_ring [OF cs(2) _ cs(5)] _ _ bit]) (simp_all add: cs(4) st(2) MAX_SLICE_SIZE_def)
  then show ?thesis using r bit cs(4) by blast
qed

text \<open>
  C14.  A new data block of a slice in reception is stored at its place in the ring, its bit in
  the map is set, and no other block of the slice changes.
\<close>

theorem data_block_stored:
  assumes "client_inv cs" and "rfindSlice cs no = Done (cs1, Some k)"
    and "rstate (rslice_at cs1 k) = SLICE_RECEIVING" and "\<not> BIT_ISSET i (rmap (rslice_at cs1 k))"
    and "ring_ok cs1" and "0 < b" and "size_ok (rconfig cs) b" and "int i < slice_blocks (rconfig cs) b"
    and "v = take (blockSize (rconfig cs1)) (mem_at cs1 (iov_base cs1))" and "length v = blockSize (rconfig cs1)"
    and "processDataBlock cs no i b = Done cs'"
  shows "ring_block cs' (rslice_at cs' k) i = v \<and> rmap (rslice_at cs' k) = SET_BIT i (rmap (rslice_at cs1 k))
    \<and> (\<forall>j. j < MAX_SLICE_SIZE \<and> j \<noteq> i \<longrightarrow> ring_block cs' (rslice_at cs' k) j = ring_block cs1 (rslice_at cs1 k) j)"
proof -
  have inv1: "client_inv cs1" and k: "k < RNR_SLICES" using rfindSlice_inv [OF assms(1,2)] by auto
  have c1: "rconfig cs1 = rconfig cs" using rfindSlice_same [OF assms(2,1)] by (simp add: same_mem_def)
  have s: "store_data_block cs1 k i b = Done cs'"
    using assms(2,3,4,11) by (auto simp: processDataBlock_def outcome_Done split: if_splits)
  have d: "blockSize (rconfig cs1) dvd rbase (rslice_at cs1 k)"
    using s unfolding store_data_block_def by (cases "rbase (rslice_at cs1 k) mod blockSize (rconfig cs1) = 0") auto
  show ?thesis
    using store_data_block_memory [OF inv1 assms(5) k assms(3) d assms(4,6) _ _ assms(9,10) s] assms(7,8) c1
    by (simp add: size_ok_def)
qed

theorem data_block_stored_witness:
  "\<exists>cs cs'. client_inv cs \<and> processDataBlock cs 0 0 2 = Done cs'
    \<and> ring_block cs' (rslice_at cs' 0) 0 = [0] \<and> rmap (rslice_at cs' 0) = SET_BIT 0 (rmap (rslice_at cs 0))"
proof -
  obtain cs0 where r: "receiver_reach (fec_init static_tables) cs0" and cs0: "currentSlice cs0 = Some 0" "currentSliceNo cs0 = 0"
      "receivedSliceNo cs0 = -1" "rslice_at cs0 0 = sample_slice" "length (rslices cs0) = 4" "rconfig cs0 = sample_rconfig"
      "dataBuffer (rfifo cs0) = replicate 2048 0" "dataBufSize (rfifo cs0) = 2048"
    using sample_start [of "fec_init static_tables"] by blast
  define cs where "cs = cs0\<lparr>iov_base := Ring 0\<rparr>"
  have inv: "client_inv cs" by (rule client_inv_cong [OF receiver_reach_inv [OF r]]) (simp_all add: cs_def)
  have f: "currentSlice cs = Some 0" "currentSliceNo cs = 0" "receivedSliceNo cs = -1" "rslice_at cs 0 = sample_slice"
      "length (rslices cs) = 4" "rconfig cs = sample_rconfig" "dataBufSize (rfifo cs) = 2048" "sender_is_newgen cs" "iov_base cs = Ring 0"
      "dataBuffer (rfifo cs) = replicate 2048 0"
    using cs0 inv by (simp_all add: cs_def rslice_at_def client_inv_def)
  obtain cs' where p: "processDataBlock cs 0 0 2 = Done cs'" using sample_block [OF f(1-9)] by blast
  have m: "rstate sample_slice = SLICE_RECEIVING" "rmap sample_slice = replicate 128 0"
    by (simp_all add: sample_slice_def clear_slice_def reset_slice_def zero_rslice_def rmap_def zero_message_def MAX_SLICE_SIZE_def)
  have "\<not> BIT_ISSET 0 (replicate 128 0)" by (rule BIT_ISSET_zero) simp
  then have "ring_block cs' (rslice_at cs' 0) 0 = [0] \<and> rmap (rslice_at cs' 0) = SET_BIT 0 (rmap (rslice_at cs 0))
    \<and> (\<forall>j. j < MAX_SLICE_SIZE \<and> j \<noteq> 0 \<longrightarrow> ring_block cs' (rslice_at cs' 0) j = ring_block cs (rslice_at cs 0) j)"
    by (intro data_block_stored [OF inv sample_find [OF f(1-4)] _ _ sample_ring [OF f(6) _ f(7)] _ _ _ _ _ p])
      (simp_all add: f m size_ok_def slice_blocks_def sample_rconfig_def MAX_SLICE_SIZE_def mem_at_def take_Suc)
  then show ?thesis using inv p by blast
qed

text \<open>
  C6.  A receiver confirms a slice exactly when it can restore it.  To a request for
  acknowledgement that is for this receiver it sends one message: OK, if every stripe of the slice has
  as many FEC blocks as it lacks data blocks (without FEC: if no data block is missing);
  otherwise a request for retransmission with the map of the blocks received and the number
  of the sender's round.
\<close>

theorem confirmed_iff_restorable:
  assumes "client_inv cs" and "rfindSlice cs no = Done (cs1, Some k)" and "size_ok (rconfig cs) b"
    and "\<not> BIT_ISSET (clientNumber cs1) (mem_at cs1 (iov_base cs1))"
    and "rstate (rslice_at cs1 k) \<in> {SLICE_RECEIVING, SLICE_DONE, SLICE_FEC}"
    and "processReqAck cs no b rx = Done cs'"
  shows "\<exists>m. outbox cs' = outbox cs1 @ [m]
     \<and> (if restorable (nat (slice_blocks (rconfig cs) b)) (rslice_at cs1 k)
        then m = \<lparr>m_opCode = htons CMD_OK, m_sliceNo = htonl_int (rsliceNo (rslice_at cs1 k)), m_rxmit = 0, m_map = []\<rparr>
        else m = \<lparr>m_opCode = htons CMD_RETRANSMIT, m_sliceNo = htonl_int (rsliceNo (rslice_at cs1 k)), m_rxmit = htonl_int rx,
                  m_map = rmap (rslice_at cs1 k)\<rparr>)"
  by (rule reqack_answer [OF assms])

theorem confirmed_iff_restorable_witness:
  "\<exists>cs cs'. client_inv cs \<and> processReqAck cs 0 2 7 = Done cs' \<and> (\<exists>m. outbox cs' = outbox cs @ [m] \<and> m_opCode m = htons CMD_RETRANSMIT)"
proof -
  obtain cs0 where r: "receiver_reach (fec_init static_tables) cs0" and cs0: "currentSlice cs0 = Some 0" "currentSliceNo cs0 = 0"
      "receivedSliceNo cs0 = -1" "rslice_at cs0 0 = sample_slice" "length (rslices cs0) = 4" "rconfig cs0 = sample_rconfig"
      "dataBuffer (rfifo cs0) = replicate 2048 0"
    using sample_start [of "fec_init static_tables"] by blast
  define cs where "cs = cs0\<lparr>iov_base := Ring 0, use_fec := True, receivedPtr := 0, clientNumber := 3\<rparr>"
  have inv: "client_inv cs" by (rule client_inv_cong [OF receiver_reach_inv [OF r]]) (simp_all add: cs_def)
  have f: "currentSlice cs = Some 0" "currentSliceNo cs = 0" "receivedSliceNo cs = -1" "rslice_at cs 0 = sample_slice"
      "0 < length (rslices cs)" "rconfig cs = sample_rconfig" "iov_base cs = Ring 0" "dataBuffer (rfifo cs) = replicate 2048 0"
      "receivedPtr cs = 0" "use_fec cs" "clientNumber cs = 3"
    using cs0 by (simp_all add: cs_def rslice_at_def)
  have m: "magic sample_slice" "rstate sample_slice = SLICE_RECEIVING" "rmap sample_slice = replicate 128 0" "rfec_stripes sample_slice = 0"
    "\<not> bytesKnown sample_slice" "blocksTransferred sample_slice = 0"
    by (simp_all add: sample_slice_def clear_slice_def reset_slice_def zero_rslice_def rmap_def zero_message_def MAX_SLICE_SIZE_def)
  have c: "blockSize sample_rconfig = 1" "\<not> has_flag sample_rconfig FLAG_RSTREAMING" "slice_blocks sample_rconfig 2 = 2"
    by (simp_all add: sample_rconfig_def has_flag_def slice_blocks_def)
  have nb: "\<not> BIT_ISSET (clientNumber cs) (mem_at cs (iov_base cs))"
    unfolding f(11,7) mem_at_def by (simp add: f(8)) (rule BIT_ISSET_zero, simp)
  define cs2 where "cs2 = (upd_rslice 0 (\<lambda>sl. sl\<lparr>bytesKnown := True, rbytes := 2\<rparr>) cs)
      \<lparr>rfifo := (rfifo cs)\<lparr>freeMemQueue := pc_consumed (freeMemQueue (rfifo cs)) 2\<rparr>\<rparr>"
  have set: "setSliceBytes 0 cs 2 = Done cs2" using f by (simp add: setSliceBytes_def m c cs2_def)
  have at2: "rslice_at cs2 0 = sample_slice\<lparr>bytesKnown := True, rbytes := 2\<rparr>" "0 < length (rslices cs2)" "rconfig cs2 = sample_rconfig"
      "use_fec cs2" "receivedPtr cs2 = 0"
    using f by (simp_all add: cs2_def upd_rslice_def rslice_at_def)
  obtain cs3 where cs3: "sendRetransmit cs2 0 7 = Done cs3" "rstate (rslice_at cs3 0) = SLICE_RECEIVING" "magic (rslice_at cs3 0)"
      "rbytes (rslice_at cs3 0) = 2" "blocksTransferred (rslice_at cs3 0) = 0" "rconfig cs3 = sample_rconfig" "use_fec cs3" "receivedPtr cs3 = 0"
    using at2 by (simp add: sendRetransmit_def m Let_def) (simp add: upd_rslice_def rslice_at_def m)
  have adv: "advanceReceivedPointer cs3 = Done (cs3\<lparr>receivedPtr := 0\<rparr>)"
    by (simp add: advanceReceivedPointer_def cs3)
  have "\<exists>cs'. processReqAck cs 0 2 7 = Done cs'"
    using nb cs3 adv by (simp add: processReqAck_def sample_find [OF f(1-4)] f(4) m set at2 c Let_def checkSliceComplete_def)
  then obtain cs' where p: "processReqAck cs 0 2 7 = Done cs'" by blast
  have nr: "\<not> restorable (nat (slice_blocks (rconfig cs) 2)) (rslice_at cs 0)"
    by (simp add: restorable_def f m c lessThan_empty_iff)
  have "\<exists>m. outbox cs' = outbox cs @ [m]
     \<and> (if restorable (nat (slice_blocks (rconfig cs) 2)) (rslice_at cs 0)
        then m = \<lparr>m_opCode = htons CMD_OK, m_sliceNo = htonl_int (rsliceNo (rslice_at cs 0)), m_rxmit = 0, m_map = []\<rparr>
        else m = \<lparr>m_opCode = htons CMD_RETRANSMIT, m_sliceNo = htonl_int (rsliceNo (rslice_at cs 0)), m_rxmit = htonl_int 7,
                  m_map = rmap (rslice_at cs 0)\<rparr>)"
    by (rule confirmed_iff_restorable [OF inv sample_find [OF f(1-4)] _ nb _ p])
      (simp_all add: f(4,6) m c size_ok_def MAX_SLICE_SIZE_def)
  then show ?thesis using inv p nr by auto
qed

lemma count_missing_zero: "rfec_stripes sl = 0 \<Longrightarrow> count_missing nb i sl = Undefined \<or> (\<exists>sl'. count_missing nb i sl = Done sl' \<and> rfec_stripes sl' = 0)"
proof -
  assume z: "rfec_stripes sl = 0"
  define f where "f = (\<lambda>j sl. if \<not> BIT_ISSET j (rmap sl) then
              and_then (in_bounds (rfec_stripes sl \<noteq> 0)) (\<lambda>_.
                let s = j mod rfec_stripes sl
                in Done (sl\<lparr>missing_data_blocks := (missing_data_blocks sl)[s := missing_data_blocks sl ! s + 1]\<rparr>))
            else Done sl)"
  have f: "each f xs sl = Undefined \<or> each f xs sl = Done sl" for xs
    using z by (induction xs) (simp_all add: f_def)
  show ?thesis using f [of "[i * 8..<min (i * 8 + 8) nb]"] z
    unfolding count_missing_def f_def [symmetric] by (cases "i < MAX_SLICE_SIZE div 8") auto
qed

lemma initSliceForFec_zero:
  assumes "magic (rslice_at cs k)" and "blockSize (rconfig cs) \<noteq> 0" and "rfec_stripes (rslice_at cs k) = 0" and "k < length (rslices cs)"
  shows "initSliceForFec cs k = Undefined \<or> (\<exists>cs'. initSliceForFec cs k = Done cs' \<and> rfec_stripes (rslice_at cs' k) = 0)"
proof -
  have e: "each (count_missing nb) xs sl = Undefined \<or> (\<exists>sl'. each (count_missing nb) xs sl = Done sl' \<and> rfec_stripes sl' = 0)"
    if "rfec_stripes sl = 0" for nb xs sl
    using that
  proof (induction xs arbitrary: sl)
    case (Cons x xs)
    consider "count_missing nb x sl = Undefined" | sl' where "count_missing nb x sl = Done sl'" "rfec_stripes sl' = 0"
      using count_missing_zero [OF Cons.prems] by blast
    then show ?case
    proof cases
      case 2
      then show ?thesis using Cons.IH [OF 2(2)] by simp
    qed simp
  qed simp
  define nb where "nb = nat (slice_blocks (rconfig cs) (rbytes (rslices cs ! k)))"
  consider "each (count_missing nb) [0..<(nb + 7) div 8] (rslices cs ! k) = Undefined"
    | sl' where "each (count_missing nb) [0..<(nb + 7) div 8] (rslices cs ! k) = Done sl'" "rfec_stripes sl' = 0"
    using e [of "rslices cs ! k" nb "[0..<(nb + 7) div 8]"] assms(3) by (auto simp: rslice_at_def)
  then show ?thesis
    by cases (use assms in \<open>simp_all add: initSliceForFec_def Let_def rslice_at_def upd_rslice_def nb_def [symmetric]\<close>)
qed

text \<open>
  C3.  The FEC thread restores a slice: if the received data blocks of a slice are those of
  \<open>D\<close> (of the last block, only the bytes it has) and every stripe has as many FEC blocks
  of \<open>D\<close> as it lacks data blocks, then the decoding of all stripes returns, no assertion
  fails, and all the blocks of the slice in the ring are those of \<open>D\<close>.
\<close>

theorem repair_restores_slice:
  assumes "lens_ok T" and "repairable (fec_init T) cs k D"
  shows "\<exists>cs'. decode_stripes (fec_init T) k cs = Done cs'
    \<and> (\<forall>j. j < nat (slice_blocks (rconfig cs) (rbytes (rslice_at cs k))) \<longrightarrow> ring_block cs' (rslice_at cs' k) j = D j)"
proof -
  obtain cs' ds where cs': "decode_stripes (fec_init T) k cs = Done cs'" "rslices cs' = (rslices cs)[k := (rslice_at cs k)\<lparr>fec_descs := ds\<rparr>]"
      "\<forall>j < nat (slice_blocks (rconfig cs) (rbytes (rslice_at cs k))). ring_block cs' (rslice_at cs k) j = D j"
    using decode_stripes_restore [OF gf_arith_ready [OF fec_init_ready [OF assms(1)]] assms(2) refl refl] by blast
  have "k < length (rslices cs)" using assms(2) by (simp add: repairable_def Let_def)
  then have "rslice_at cs' k = (rslice_at cs k)\<lparr>fec_descs := ds\<rparr>" by (simp add: rslice_at_def cs'(2))
  then have "ring_block cs' (rslice_at cs' k) = ring_block cs' (rslice_at cs k)" by (simp add: ring_block_def ADR_def fun_eq_iff)
  then show ?thesis using cs' by auto
qed

theorem repair_restores_slice_witness:
  "\<exists>cs cs'. repairable (fec_init static_tables) cs 0 (\<lambda>_. [5]) \<and> \<not> BIT_ISSET 0 (rmap (rslice_at cs 0))
     \<and> decode_stripes (fec_init static_tables) 0 cs = Done cs' \<and> ring_block cs' (rslice_at cs' 0) 0 = [5]"
proof -
  have T: "gf_arith (fec_init static_tables)" by (rule gf_arith_ready [OF fec_init_ready [OF lens_ok_static]])
  have B: "blocks 1 1 [[0 :: byte]]" by (simp add: blocks_def)
  obtain enc where enc: "fec_encode (fec_init static_tables) 1 [[5]] 1 [[0]] 1 = Some enc" "blocks 1 1 enc"
    using fec_encode_spec [OF T B, of 1 "[[5]]"] by auto
  define sl where "sl = sample_slice\<lparr>bytesKnown := True, rbytes := 1, rfec_stripes := 1, rfec_blocks := replicate 256 1,
     fec_descs := [\<lparr>adr = Some 0, fecBlockNo = 0, erasedBlockNo = 0\<rparr>]\<rparr>"
  define cs where "cs = sample_client\<lparr>rslices := [sl], blockData := enc ! 0\<rparr>"
  have m: "rbase sample_slice = 0" "rmap sample_slice = replicate 128 0"
    by (simp_all add: sample_slice_def clear_slice_def reset_slice_def zero_rslice_def rmap_def zero_message_def MAX_SLICE_SIZE_def)
  have sl: "rslice_at cs 0 = sl" "rbase sl = 0" "rmap sl = replicate 128 0" "rbytes sl = 1" "rfec_stripes sl = 1" "rfec_blocks sl ! 0 = 1"
    "fec_descs sl ! 0 = \<lparr>adr = Some 0, fecBlockNo = 0, erasedBlockNo = 0\<rparr>"
    using m by (simp_all add: cs_def rslice_at_def sl_def rmap_def)
  have c: "rconfig cs = sample_rconfig" "rfifo cs = sample_fifo" by (simp_all add: cs_def sample_client_def)
  have len: "length (enc ! 0) = 1" "length enc = 1" using enc(2) by (simp_all add: blocks_def)
  have nb: "\<not> BIT_ISSET 0 (replicate 128 0)" by (rule BIT_ISSET_zero) simp
  have bs: "blockSize sample_rconfig = 1" "slice_blocks sample_rconfig 1 = 1" by (simp_all add: sample_rconfig_def slice_blocks_def)
  have ring: "ring_ok cs" by (rule sample_ring) (simp_all add: c sample_fifo_def)
  have own: "own_adrs sl 0 = [0]" by (simp add: own_adrs_def sl)
  have sb: "stripe_blocks 0 1 1 = [0]" by (simp add: stripe_blocks_def)
  have bd: "blockData cs = enc ! 0" by (simp add: cs_def)
  have pool: "pool_block cs 0 = enc ! 0" using len by (simp add: pool_block_def c bs mem_at_def bd)
  have ready: "stripe_ready (fec_init static_tables) 1 (\<lambda>_. [5]) 1 sl (pool_block cs) 0"
    unfolding stripe_ready_def Let_def sl(5,6) sb
    by (intro conjI exI [where x = 1] exI [where x = "[[0]]"] exI [where x = enc])
      (use enc B in \<open>simp_all add: sl nb pool inj_on_def\<close>)
  have rep: "repairable (fec_init static_tables) cs 0 (\<lambda>_. [5])"
    using ready ring len by (simp add: repairable_def Let_def sl c bs own) (simp add: cs_def len padded_def nb MAX_SLICE_SIZE_def sample_client_def bs)
  then obtain cs' where "decode_stripes (fec_init static_tables) 0 cs = Done cs'"
      "\<forall>j. j < nat (slice_blocks (rconfig cs) (rbytes (rslice_at cs 0))) \<longrightarrow> ring_block cs' (rslice_at cs' 0) j = [5]"
    using repair_restores_slice [OF lens_ok_static, of cs 0 "\<lambda>_. [5]"] by blast
  then show ?thesis using rep sl nb by (auto simp: c bs)
qed

text \<open>
  C37.  The receiver does not check the number of a data block: a packet with a block number of
  1024 or more for a slice in reception makes it test, and then set, a bit outside the map of
  the slice.
\<close>

theorem block_number_unchecked:
  assumes "rfindSlice cs no = Done (cs1, Some k)" and "magic (rslice_at cs1 k)"
    and "rstate (rslice_at cs1 k) = SLICE_RECEIVING" and "no \<le> currentSliceNo cs1 + 2" and "MAX_SLICE_SIZE \<le> blockNo"
  shows "processDataBlock cs no blockNo bytes = Undefined"
  using assms by (simp add: processDataBlock_def)

theorem block_number_unchecked_witness:
  "\<exists>cs. receiver_reach (fec_init static_tables) cs \<and> processDataBlock cs 0 1024 2 = Undefined"
proof -
  obtain cs where r: "receiver_reach (fec_init static_tables) cs" and cs: "currentSlice cs = Some 0" "currentSliceNo cs = 0"
      "receivedSliceNo cs = -1" "rslice_at cs 0 = sample_slice"
    using sample_start [of "fec_init static_tables"] by blast
  have m: "magic sample_slice" "rstate sample_slice = SLICE_RECEIVING"
    by (simp_all add: sample_slice_def clear_slice_def reset_slice_def)
  have "processDataBlock cs 0 1024 2 = Undefined"
    by (rule block_number_unchecked [OF sample_find [OF cs]]) (simp_all add: cs m MAX_SLICE_SIZE_def)
  then show ?thesis using r by blast
qed

text \<open>
  C38.  The receiver does not check the number of stripes: with 0 stripes the first FEC packet of a slice
  makes it divide by 0, and with more than 256 stripes it makes it write behind the counters
  of the slice.
\<close>

theorem stripe_number_unchecked:
  assumes "rfindSlice cs no = Done (cs1, Some k)" and "magic (rslice_at cs1 k)" and "k < length (rslices cs1)"
    and "rstate (rslice_at cs1 k) = SLICE_RECEIVING" and "bytesKnown (rslice_at cs1 k)" and "rbytes (rslice_at cs1 k) = b"
    and "rfec_stripes (rslice_at cs1 k) = 0" and "blockSize (rconfig cs1) \<noteq> 0" and "stripes = 0 \<or> MAX_FEC_INTERLEAVE < stripes"
  shows "processFecBlock cs stripes no blockNo b = Undefined"
proof -
  have set: "setSliceBytes k cs1 b = Done cs1" using assms by (simp add: setSliceBytes_def)
  define cs2 where "cs2 = upd_rslice k (rfec_stripes_update (\<lambda>_. stripes)) cs1"
  have at2: "rslice_at cs2 k = (rslice_at cs1 k)\<lparr>rfec_stripes := stripes\<rparr>" "k < length (rslices cs2)" "rconfig cs2 = rconfig cs1"
    using assms(3) by (simp_all add: cs2_def)
  from assms(9) consider (zero) "stripes = 0" | (many) "MAX_FEC_INTERLEAVE < stripes" by blast
  then have "initSliceForFec cs2 k = Undefined \<or> stripes = 0 \<and> (\<exists>cs3. initSliceForFec cs2 k = Done cs3 \<and> rfec_stripes (rslice_at cs3 k) = 0)"
  proof cases
    case zero
    then show ?thesis using initSliceForFec_zero [of cs2 k] assms(2,8) at2 by simp
  next
    case many
    then show ?thesis using assms(2,8) at2 by (simp add: initSliceForFec_def Let_def rslice_at_def)
  qed
  then show ?thesis
    using assms set at2 by (auto simp: processFecBlock_def cs2_def [symmetric])
qed

theorem stripe_number_unchecked_witness:
  "\<exists>cs. receiver_reach (fec_init static_tables) cs \<and> processFecBlock cs 0 0 0 2 = Undefined"
proof -
  obtain cs where r: "receiver_reach (fec_init static_tables) cs" and cs: "currentSlice cs = Some 0" "currentSliceNo cs = 0"
    "receivedSliceNo cs = -1" "0 < length (rslices cs)" "rconfig cs = sample_rconfig"
    "rslice_at cs 0 = sample_slice\<lparr>bytesKnown := True, rbytes := 2, retransmit := m_map_update (SET_BIT 0) zero_message,
         dataBlocksTransferred := 1, blocksTransferred := 1, freePos := advance_free (SET_BIT 0 (replicate 128 0)) 0\<rparr>"
    using sample_received [of "fec_init static_tables"] by blast
  have m: "magic (rslice_at cs 0)" "rstate (rslice_at cs 0) = SLICE_RECEIVING" "rfec_stripes (rslice_at cs 0) = 0"
    "bytesKnown (rslice_at cs 0)" "rbytes (rslice_at cs 0) = 2" "rsliceNo (rslice_at cs 0) = 0"
    by (simp_all add: cs(6) sample_slice_def clear_slice_def reset_slice_def)
  have "processFecBlock cs 0 0 0 2 = Undefined"
    by (rule stripe_number_unchecked [OF sample_find' [OF cs(1-3) m(1,6)] m(1) cs(4) m(2,4,5,3)])
      (simp_all add: cs(5) sample_rconfig_def)
  then show ?thesis using r by blast
qed



subsection \<open>The search for a slice\<close>

lemma catch_up_stuck:
  assumes "currentSlice cs = Some c" and "\<not> has_flag (rconfig cs) FLAG_RSTREAMING" and "currentSliceNo cs < receivedSliceNo cs"
  shows "find_slice n cs (receivedSliceNo cs + 1) = Blocks" and "catch_up n cs (receivedSliceNo cs + 1) = Blocks"
proof (induction n)
  case (Suc n)
  { case 1 show ?case using Suc.IH(2) assms by simp }
  { case 2 show ?case using Suc.IH(1) assms by simp }
qed simp_all

lemma find_received_fuel:
  assumes "currentSlice cs = Some c" and "\<not> has_flag (rconfig cs) FLAG_RSTREAMING" and "2 \<le> n"
  shows "find_slice n cs (receivedSliceNo cs + 1) = find_slice 2 cs (receivedSliceNo cs + 1)"
proof (cases "currentSliceNo cs < receivedSliceNo cs")
  case True
  show ?thesis using catch_up_stuck(1) [OF assms(1,2) True] by simp
next
  case False
  obtain m where n: "n = Suc (Suc m)" using assms(3) by (metis add_2_eq_Suc le_Suc_ex)
  show ?thesis using assms(1,2) False unfolding n numeral_2_eq_2 by (cases "receivedSliceNo cs = currentSliceNo cs") simp_all
qed

lemma find_slice_same_flags:
  assumes "find_slice n cs no = Done (cs', r)" and "client_inv cs"
  shows "\<not> has_flag (rconfig cs') FLAG_IGNORE_LOST_DATA"
  using find_slice_inv(1) [OF assms] by (simp add: client_inv_def)



end
