(* ===== verification/EndToEnd.thy ===== *)
theory EndToEnd
  imports SendFec ReceiveLoop
begin

text \<open>
  The sender and the receiver together: what the receiver repairs from the blocks that
  arrived is what the sender transmitted.
\<close>

subsection \<open>What arrives\<close>

definition fec_payload :: "sender_state \<Rightarrow> slice \<Rightarrow> nat \<Rightarrow> byte list" where
  \<comment> \<open>the payload of \<^verbatim>\<open>transmitFecBlock\<close>\<close>
  "fec_payload st sl i = take (blockSize (config st)) (drop (fec_data sl + i * blockSize (config st)) (fec_memory st))"

definition fec_received :: "sender_state \<Rightarrow> slice \<Rightarrow> client_state \<Rightarrow> rslice \<Rightarrow> nat \<Rightarrow> bool" where
  \<comment> \<open>in stripe \<open>s\<close> there are as many FEC blocks of the sender as data blocks are missing\<close>
  "fec_received st sl cs rsl s \<longleftrightarrow>
     (let c = config st; str = fec_stripes c; m = nat (rfec_blocks rsl ! s); desc = (\<lambda>i. fec_descs rsl ! (s + i * str))
      in length (filter (\<lambda>j. \<not> BIT_ISSET j (rmap rsl)) (stripe_blocks s str (getSliceBlocks sl c))) = m
         \<and> inj_on (\<lambda>i. fecBlockNo (desc i)) {..<m}
         \<and> (\<forall>i < m. fecBlockNo (desc i) < fec_redundancy c * str \<and> fecBlockNo (desc i) mod str = s
              \<and> (\<exists>p. adr (desc i) = Some p \<and> pool_block cs p = fec_payload st sl (fecBlockNo (desc i))
                   \<and> blockSize c dvd p \<and> p + blockSize c \<le> length (blockData cs))))"

definition received_from :: "sender_state \<Rightarrow> slice \<Rightarrow> client_state \<Rightarrow> nat \<Rightarrow> bool" where
  \<comment> \<open>slice \<open>k\<close> of the receiver holds payloads of slice \<open>sl\<close> of the sender: the data blocks of its map and,
      in memory of their own, FEC blocks that make up for the others\<close>
  "received_from st sl cs k \<longleftrightarrow>
     (let rsl = rslice_at cs k; c = config st
      in ring_ok cs \<and> k < length (rslices cs) \<and> blockSize (rconfig cs) = blockSize c \<and> blockSize c dvd rbase rsl
         \<and> rbytes rsl = int (bytes sl) \<and> rfec_stripes rsl = fec_stripes c
         \<and> (\<forall>j < getSliceBlocks sl c. BIT_ISSET j (rmap rsl) \<longrightarrow>
              take (length (block_payload (fifo st) c sl j)) (ring_block cs rsl j) = block_payload (fifo st) c sl j)
         \<and> (\<forall>s < fec_stripes c. fec_received st sl cs rsl s)
         \<and> (\<forall>s < fec_stripes c. \<forall>s' < fec_stripes c. s' \<noteq> s \<longrightarrow> set (own_adrs rsl s) \<inter> set (own_adrs rsl s') = {}))"

lemma fec_payload_block: "fec_payload st sl i = fec_block st sl i"
  by (simp add: fec_payload_def fec_block_def fec_adr_def mult.commute)

lemma payload_block:
  assumes "blockSize c = bs"
  shows "block_payload f c sl j = take (min bs (bytes sl - j * bs)) (data_block f sl bs j)"
  using assms by (simp add: block_payload_def data_block_def sADR_def Let_def min_def)

lemma payload_size:
  assumes "0 < bs" and "j < n" and "n = (bytes sl + bs - 1) div bs" and "lo = bytes sl mod bs"
  shows "min bs (bytes sl - j * bs) = (if j + 1 = n \<and> lo \<noteq> 0 then lo else bs)"
proof -
  define b where "b = bytes sl div bs"
  have b: "bytes sl = b * bs + lo" "lo < bs" using assms by (simp_all add: b_def)
  have n: "n = (if lo = 0 then b else b + 1)"
  proof (cases "lo = 0")
    case True
    have "(b * bs + (bs - 1)) div bs = b" using assms(1) by (subst div_mult_self3) simp_all
    then show ?thesis using True b assms(1,3) by simp
  next
    case False
    have "b * bs + lo + bs - 1 = (b + 1) * bs + (lo - 1)" using False b(2) by simp
    then have "(b * bs + lo + bs - 1) div bs = b + 1" using b(2) assms(1)
      by (simp only: div_mult_self3) simp
    then show ?thesis using False b assms(3) by simp
  qed
  show ?thesis
  proof (cases "j < b")
    case True
    then have "(j + 1) * bs \<le> b * bs" by (intro mult_le_mono1) simp
    then have "bs \<le> bytes sl - j * bs" using b by simp
    moreover have "\<not> (j + 1 = n \<and> lo \<noteq> 0)" using True n by (auto split: if_splits)
    ultimately show ?thesis by (auto simp: min_def)
  next
    case False
    then have "j = b" "lo \<noteq> 0" "n = b + 1" using assms(2) n by (auto split: if_splits)
    then show ?thesis using b by simp
  qed
qed

lemma same_block_count:
  assumes "0 < blockSize c" and "blockSize rc = blockSize c" and "b = int (bytes sl)"
  shows "nat (slice_blocks rc b) = getSliceBlocks sl c"
proof -
  have "int (bytes sl) + int (blockSize c) - 1 = int (bytes sl + blockSize c - 1)" using assms(1) by simp
  moreover have "int x sdiv int y = int (x div y)" for x y
    by (cases "x = 0"; cases "y = 0") (simp_all add: signed_divide_int_def of_nat_div)
  ultimately have "slice_blocks rc b = int ((bytes sl + blockSize c - 1) div blockSize c)"
    unfolding slice_blocks_def assms(2,3) by (simp only:)
  then show ?thesis by (simp add: getSliceBlocks_def)
qed

subsection \<open>End to end\<close>

lemma received_repairable:
  assumes e: "encodable st sl" and enc: "\<forall>s < fec_stripes (config st). encoded_stripe T st sl D s"
    and D: "D = data_block (fifo st) sl (blockSize (config st))"
    and pad: "\<forall>j < getSliceBlocks sl (config st). D j = padded (bytes sl mod blockSize (config st)) (getSliceBlocks sl (config st)) j (D j)"
    and r: "received_from st sl cs k"
  shows "repairable T cs k D"
proof -
  define c where "c = config st"
  define bs where "bs = blockSize c"
  define str where "str = fec_stripes c"
  define n where "n = getSliceBlocks sl c"
  define lo where "lo = bytes sl mod bs"
  define rsl where "rsl = rslice_at cs k"
  have fit: "0 < bs" "0 < n" "n \<le> MAX_SLICE_SIZE" "n \<le> 128 * str" "fec_redundancy c \<le> 128"
    using e by (simp_all add: encodable_def Let_def bs_def n_def str_def c_def)
  have str: "0 < str" using fit by (cases "str = 0") simp_all
  note r' = r [unfolded received_from_def Let_def, folded rsl_def c_def bs_def str_def n_def]
  have rc: "ring_ok cs" "k < length (rslices cs)" "blockSize (rconfig cs) = bs" "bs dvd rbase rsl" "rbytes rsl = int (bytes sl)"
      "rfec_stripes rsl = str"
    using r' by blast+
  have data: "take (length (block_payload (fifo st) c sl j)) (ring_block cs rsl j) = block_payload (fifo st) c sl j"
    if "j < n" "BIT_ISSET j (rmap rsl)" for j using r' that by (simp add: n_def)
  have fec_r: "fec_received st sl cs rsl s" if "s < str" for s using r' that by blast
  note fec = fec_r [unfolded fec_received_def Let_def, folded c_def bs_def str_def n_def]
  have dis: "set (own_adrs rsl s) \<inter> set (own_adrs rsl s') = {}" if "s < str" "s' < str" "s' \<noteq> s" for s s'
    using r' that by blast
  have nr: "nat (slice_blocks (rconfig cs) (rbytes rsl)) = n"
  using same_block_count [of c "rconfig cs" "rbytes rsl" sl] fit(1) rc(3,5) by (simp add: bs_def n_def)
  have lo': "nat (rbytes rsl) mod blockSize (rconfig cs) = lo" by (simp add: rc(3,5) lo_def)
  have lenD: "length (D j) = bs" for j using length_data_block [OF e] by (simp add: D bs_def c_def)
  have padD: "padded lo n j (D j) = D j" if "j < n" for j using pad that by (simp add: lo_def n_def bs_def c_def)
  have blk: "padded lo n j (ring_block cs rsl j) = D j" if j: "j < n" "BIT_ISSET j (rmap rsl)" for j
  proof -
    define w where "w = min bs (bytes sl - j * bs)"
    have pl: "block_payload (fifo st) c sl j = take w (D j)" using payload_block [of c bs "fifo st" sl j] by (simp add: w_def D bs_def c_def)
    have ws: "w = (if j + 1 = n \<and> lo \<noteq> 0 then lo else bs)"
      unfolding w_def by (rule payload_size [OF fit(1) j(1)]) (simp_all add: n_def getSliceBlocks_def bs_def lo_def)
    have "w \<le> bs" by (simp add: w_def)
    then have t: "take w (ring_block cs rsl j) = take w (D j)" using data [OF j] lenD by (cases "w = bs") (simp_all add: pl)
    have len: "length (ring_block cs rsl j) = bs" using length_ring_block [OF rc(1), of rsl] rc(3,4) by simp
    have "padded lo n j (ring_block cs rsl j) = padded lo n j (D j)"
    proof (rule padded_cong)
      show "if j + 1 = n \<and> lo \<noteq> 0 then take lo (ring_block cs rsl j) = take lo (D j) \<and> length (ring_block cs rsl j) = length (D j)
          else ring_block cs rsl j = D j"
      proof (cases "j + 1 = n \<and> lo \<noteq> 0")
        case True
        then show ?thesis using t ws len lenD [of j] by simp
      next
        case False
        then show ?thesis using t len lenD [of j] unfolding ws if_not_P [OF False] by simp
      qed
    qed
    then show ?thesis using padD [OF j(1)] by simp
  qed
  have ready: "stripe_ready T bs D n rsl (pool_block cs) s" if s: "s < str" for s
  proof -
    define m where "m = nat (rfec_blocks rsl ! s)"
    define b where "b i = fecBlockNo (fec_descs rsl ! (s + i * str))" for i
    have b: "b i < fec_redundancy c * str" "b i mod str = s"
        "\<exists>p. adr (fec_descs rsl ! (s + i * str)) = Some p \<and> pool_block cs p = fec_block st sl (b i)" if "i < m" for i
      using fec [OF s] that by (auto simp: b_def m_def fec_payload_block)
    have inj_b: "inj_on b {..<m}" using fec [OF s] by (simp add: b_def [abs_def] m_def)
    have bq: "b i = s + b i div str * str" if "i < m" for i using b(2) [OF that] by (metis add.commute mod_div_mult_eq)
    have q: "b i div str < fec_redundancy c" if "i < m" for i using b(1) [OF that] by (simp add: less_mult_imp_div_less)
    have inj: "inj_on (\<lambda>i. b i div str) {..<m}"
    proof (rule inj_onI)
      fix i j assume ij: "i \<in> {..<m}" "j \<in> {..<m}" "b i div str = b j div str"
      then have "b i = b j" using bq [of i] bq [of j] by simp
      then show "i = j" using inj_b ij by (simp add: inj_on_def)
    qed
    obtain fecs enc where en: "blocks (fec_redundancy c) bs fecs"
        "fec_encode T bs (map D (stripe_blocks s str n)) (length (stripe_blocks s str n)) fecs (fec_redundancy c) = Some enc"
        "\<forall>i < fec_redundancy c. fec_block st sl (s + i * str) = enc ! i"
      using enc s by (auto simp: encoded_stripe_def Let_def c_def bs_def str_def n_def)
    have "\<forall>i < m. b i div str < fec_redundancy c
        \<and> (\<exists>p. adr (fec_descs rsl ! (s + i * str)) = Some p \<and> pool_block cs p = enc ! (b i div str))"
      using q b(3) en(3) bq by metis
    then show ?thesis
      unfolding stripe_ready_def Let_def rc(6) b_def [symmetric] m_def [symmetric]
      using fec [OF s] stripe_blocks_length [OF s fit(4)] inj fit(5) en(1,2) by (auto simp: m_def n_def)
  qed
  have own: "bs dvd a \<and> a + bs \<le> length (blockData cs)" if "s < str" "a \<in> set (own_adrs rsl s)" for s a
    using fec [OF that(1)] that(2) by (fastforce simp: own_adrs_def rc(6))
  show ?thesis
    unfolding repairable_def Let_def rsl_def [symmetric] nr rc(3,6) lo'
    using rc(1,2,3,4,5) fit(2,3) lenD padD blk str ready own dis by (simp add: lo_def)
qed

text \<open>
  C1.  End to end, with losses: the sender has encoded a slice, the receiver holds some of its
  data blocks, and in every stripe as many FEC blocks as data blocks are missing, whichever
  they are.  Then the repair of the receiver returns, and every block of the slice in its ring
  is the block the sender would transmit.
\<close>

theorem transfer_restores:
  assumes "lens_ok T" and "encodable st sl" and "sl = slice_at st ks" and "fec_encode_all_stripes (fec_init T) st ks = Done st'"
    and "received_from st' sl cs k"
  shows "\<exists>cs'. decode_stripes (fec_init T) k cs = Done cs'
    \<and> (\<forall>j < getSliceBlocks sl (config st).
         take (length (block_payload (fifo st') (config st) sl j)) (ring_block cs' (rslice_at cs' k) j)
           = block_payload (fifo st') (config st) sl j)"
proof -
  define c where "c = config st"
  define n where "n = getSliceBlocks sl c"
  define lo where "lo = bytes sl mod blockSize c"
  define D where "D = data_block (fifo st') sl (blockSize c)"
  obtain buf m where b: "st' = st\<lparr>fifo := (fifo st)\<lparr>dataBuffer := buf\<rparr>, fec_memory := m\<rparr>" "length buf = length (dataBuffer (fifo st))"
      "length m = length (fec_memory st)"
      "\<forall>j < n. D j = padded lo n j (data_block (fifo st) sl (blockSize c) j)" "\<forall>s < fec_stripes c. encoded_stripe (fec_init T) st' sl D s"
    using encode_all_spec [OF gf_arith_ready [OF fec_init_ready [OF assms(1)]] assms(2,3) refl refl refl] assms(4)
    unfolding c_def n_def lo_def D_def by auto
  have conf: "config st' = c" by (simp add: b(1) c_def)
  have e': "encodable st' sl" using assms(2) b(2,3) by (simp add: encodable_def Let_def b(1))
  have "0 < blockSize c" using assms(2) by (simp add: encodable_def Let_def c_def)
  then have "lo \<le> length (data_block (fifo st) sl (blockSize c) j)" for j
    using length_data_block [OF assms(2)] by (simp add: lo_def c_def)
  then have pad: "\<forall>j < n. D j = padded lo n j (D j)" using b(4) by simp
  have "repairable (fec_init T) cs k D"
    by (rule received_repairable [OF e' _ _ _ assms(5)])
      (unfold conf, (fact b(5) D_def pad [unfolded lo_def n_def c_def [symmetric]] | fact pad [unfolded lo_def n_def])+)
  note rep = this
  obtain cs' ds where cs': "decode_stripes (fec_init T) k cs = Done cs'" "rslices cs' = (rslices cs)[k := (rslice_at cs k)\<lparr>fec_descs := ds\<rparr>]"
      "\<forall>j < nat (slice_blocks (rconfig cs) (rbytes (rslice_at cs k))). ring_block cs' (rslice_at cs k) j = D j"
    using decode_stripes_restore [OF gf_arith_ready [OF fec_init_ready [OF assms(1)]] rep refl refl] by blast
  have k: "k < length (rslices cs)" using rep by (simp add: repairable_def Let_def)
  then have "rslice_at cs' k = (rslice_at cs k)\<lparr>fec_descs := ds\<rparr>" by (simp add: rslice_at_def cs'(2))
  then have ring: "ring_block cs' (rslice_at cs' k) = ring_block cs' (rslice_at cs k)" by (simp add: ring_block_def ADR_def fun_eq_iff)
  have r: "blockSize (rconfig cs) = blockSize c" "rbytes (rslice_at cs k) = int (bytes sl)"
    using assms(5) by (simp_all add: received_from_def Let_def conf)
  have nr: "nat (slice_blocks (rconfig cs) (rbytes (rslice_at cs k))) = n"
  unfolding n_def by (rule same_block_count [OF \<open>0 < blockSize c\<close> r])
  have "take (length (block_payload (fifo st') c sl j)) (ring_block cs' (rslice_at cs' k) j) = block_payload (fifo st') c sl j"
    if j: "j < n" for j
  proof -
    define w where "w = min (blockSize c) (bytes sl - j * blockSize c)"
    have p: "block_payload (fifo st') c sl j = take w (D j)"
      using payload_block [of c "blockSize c"] by (simp add: D_def w_def)
    have "length (D j) = blockSize c" using length_data_block [OF e'] by (simp add: D_def conf)
    then have "length (take w (D j)) = w" by (simp add: w_def)
    moreover have "ring_block cs' (rslice_at cs' k) j = D j" using cs'(3) j unfolding nr ring by blast
    ultimately show ?thesis by (simp add: p)
  qed
  then show ?thesis using cs'(1) unfolding c_def n_def by blast
qed

theorem transfer_restores_witness:
  "\<exists>st' cs cs'. fec_encode_all_stripes (fec_init static_tables) sample_fec_sender 0 = Done st'
     \<and> received_from st' sample_fec_slice cs 0 \<and> (\<forall>j < 2. \<not> BIT_ISSET j (rmap (rslice_at cs 0)))
     \<and> decode_stripes (fec_init static_tables) 0 cs = Done cs'
     \<and> take 2 (ring_block cs' (rslice_at cs' 0) 0) = [1, 2] \<and> take 1 (ring_block cs' (rslice_at cs' 0) 1) = [3]"
proof -
  let ?T = "fec_init static_tables"
  define sl where "sl = sample_fec_slice"
  have sl: "base sl = 0" "bytes sl = 3" "fec_data sl = 0" by (simp_all add: sl_def sample_fec_slice_def zero_slice_def)
  have c: "config sample_fec_sender = sample_fec_config" "blockSize sample_fec_config = 2" "fec_stripes sample_fec_config = 2"
    "fec_redundancy sample_fec_config = 1" "getSliceBlocks sl sample_fec_config = 2"
    by (simp_all add: sample_fec_sender_def sample_fec_config_def getSliceBlocks_def sl)
  have fm: "length (fec_memory sample_fec_sender) = 8" "dataBufSize (fifo sample_fec_sender) = 2048"
    "dataBuffer (fifo sample_fec_sender) = [1, 2, 3, 4] @ replicate 2044 9"
    by (simp_all add: sample_fec_sender_def)
  obtain buf m where e: "fec_encode_all_stripes ?T sample_fec_sender 0 =
        Done (sample_fec_sender\<lparr>fifo := (fifo sample_fec_sender)\<lparr>dataBuffer := buf\<rparr>, fec_memory := m\<rparr>)" and m: "length m = 8"
      and d: "\<forall>j < 2. data_block ((fifo sample_fec_sender)\<lparr>dataBuffer := buf\<rparr>) sl 2 j = padded 1 2 j (data_block (fifo sample_fec_sender) sl 2 j)"
    using encode_all_spec [OF gf_arith_ready [OF fec_init_ready [OF lens_ok_static]] sample_encodable refl refl refl]
    by (auto simp: c sl sl_def [symmetric] fm)
  define st' where "st' = sample_fec_sender\<lparr>fifo := (fifo sample_fec_sender)\<lparr>dataBuffer := buf\<rparr>, fec_memory := m\<rparr>"
  have st': "config st' = sample_fec_config" "fec_memory st' = m" by (simp_all add: st'_def c)
  have "data_block (fifo sample_fec_sender) sl 2 0 = [1, 2]" "data_block (fifo sample_fec_sender) sl 2 1 = [3, 4]"
    by (simp_all add: data_block_def sADR_def fm sl)
  then have d': "data_block (fifo st') sl 2 0 = [1, 2]" "data_block (fifo st') sl 2 1 = [3, 0]"
    using d by (simp_all add: st'_def padded_def)
  have pl: "block_payload (fifo st') sample_fec_config sl 0 = [1, 2]" "block_payload (fifo st') sample_fec_config sl 1 = [3]"
    using payload_block [of sample_fec_config 2 "fifo st'" sl] d' by (simp_all add: c sl)
  define rsl where "rsl = sample_slice\<lparr>bytesKnown := True, rbytes := 3, rfec_stripes := 2, rfec_blocks := replicate 256 1,
     fec_descs := [\<lparr>adr = Some 0, fecBlockNo = 0, erasedBlockNo = 0\<rparr>, \<lparr>adr = Some 2, fecBlockNo = 1, erasedBlockNo = 0\<rparr>]\<rparr>"
  define cs where "cs = sample_client\<lparr>rconfig := sample_rconfig\<lparr>blockSize := 2\<rparr>, rslices := [rsl], blockData := take 4 m\<rparr>"
  have sm: "rbase sample_slice = 0" "rmap sample_slice = replicate 128 0"
    by (simp_all add: sample_slice_def clear_slice_def reset_slice_def zero_rslice_def rmap_def zero_message_def MAX_SLICE_SIZE_def)
  have rsl: "rslice_at cs 0 = rsl" "rbase rsl = 0" "rmap rsl = replicate 128 0" "rbytes rsl = 3" "rfec_stripes rsl = 2"
      "rfec_blocks rsl = replicate 256 1" "fec_descs rsl = [\<lparr>adr = Some 0, fecBlockNo = 0, erasedBlockNo = 0\<rparr>, \<lparr>adr = Some 2, fecBlockNo = 1, erasedBlockNo = 0\<rparr>]"
    using sm by (simp_all add: cs_def rslice_at_def rsl_def rmap_def)
  have cs: "blockSize (rconfig cs) = 2" "length (rslices cs) = 1" "blockData cs = take 4 m" "rfifo cs = sample_fifo"
    by (simp_all add: cs_def sample_client_def)
  have ring: "ring_ok cs" by (simp add: ring_ok_def cs sample_fifo_def MAX_SLICE_SIZE_def)
  have nb: "\<not> BIT_ISSET j (replicate 128 0)" if "j < 2" for j using that by (intro BIT_ISSET_zero) simp
  have pool: "pool_block cs p = take 2 (drop p m)" if "p + 2 \<le> 4" for p
    using that m by (simp add: pool_block_def cs mem_at_def drop_take)
  have sb: "stripe_blocks s 2 2 = [s]" if "s < 2" for s
    using that by (auto simp: stripe_blocks_def less_2_cases_iff)
  have own: "own_adrs rsl s = [2 * s]" if "s < 2" for s
    using that by (auto simp: own_adrs_def rsl less_2_cases_iff)
  have f: "fec_received st' sl cs rsl s" if s: "s < 2" for s
    using s by (auto simp: fec_received_def Let_def st' c rsl sb nb inj_on_def less_2_cases_iff fec_payload_def sl pool cs m)
  have r: "received_from st' sl cs 0"
    unfolding received_from_def Let_def st' c rsl cs by (simp add: ring f nb own sl)
  have t: "sl = slice_at sample_fec_sender 0" using sample_encodable(2) by (simp add: sl_def)
  have e': "fec_encode_all_stripes ?T sample_fec_sender 0 = Done st'" using e by (simp add: st'_def)
  obtain cs' where "decode_stripes ?T 0 cs = Done cs'"
      "\<forall>j < 2. take (length (block_payload (fifo st') sample_fec_config sl j)) (ring_block cs' (rslice_at cs' 0) j)
           = block_payload (fifo st') sample_fec_config sl j"
    using transfer_restores [OF lens_ok_static sample_encodable(1) [folded sl_def] t e' r] by (auto simp: c)
  then have "decode_stripes ?T 0 cs = Done cs' \<and> take 2 (ring_block cs' (rslice_at cs' 0) 0) = [1, 2]
      \<and> take 1 (ring_block cs' (rslice_at cs' 0) 1) = [3]"
    using pl by (auto simp: less_2_cases_iff numeral_2_eq_2)
  then show ?thesis using e' r nb by (auto simp: sl_def rsl)
qed

end
