(* ===== verification/Session.thy ===== *)
theory Session
  imports NetIf Protocol
begin

text \<open>
  What the two negotiation files share: the control messages and capabilities of
  \<^verbatim>\<open>src/udpc-protoc.h\<close>, and the part of \<^verbatim>\<open>struct net_config\<close> of
  \<^verbatim>\<open>src/udpcast.h\<close> that is used before the transfer starts.
\<close>

subsection \<open>Capabilities\<close>

definition CAP_NEW_GEN :: u32 where "CAP_NEW_GEN = 0x0001"
definition CAP_BIG_ENDIAN :: u32 where "CAP_BIG_ENDIAN = 0x0008"
definition CAP_ASYNC :: u32 where "CAP_ASYNC = 0x0020"
definition SENDER_CAPABILITIES :: u32 where "SENDER_CAPABILITIES = CAP_NEW_GEN OR CAP_BIG_ENDIAN"
definition RECEIVER_CAPABILITIES :: u32 where "RECEIVER_CAPABILITIES = CAP_NEW_GEN OR CAP_BIG_ENDIAN"

lemmas cap_defs = CAP_NEW_GEN_def CAP_BIG_ENDIAN_def CAP_ASYNC_def SENDER_CAPABILITIES_def RECEIVER_CAPABILITIES_def

subsection \<open>Control messages\<close>

record connectReq =
  q_opCode :: "16 word"
  q_capabilities :: u32
  q_rcvbuf :: u32

record serverControlMsg =
  \<comment> \<open>the fields of \<^verbatim>\<open>connectReply\<close> and \<^verbatim>\<open>hello\<close>; the opcode says which of the two a
      message is, and only the fields of that one are read\<close>
  c_opCode :: "16 word"
  c_clNr :: u32
  c_blockSize :: u32
  c_capabilities :: u32
  c_mcastAddr :: "byte list"
  c_helloBlockSize :: "16 word"

datatype control_event =
    WaitRate u32 nat \<comment> \<open>\<^verbatim>\<open>rgWaitAll\<close>\<close>
  | SendControl serverControlMsg sockaddr_in
  | SendRequest connectReq sockaddr_in

subsection \<open>The configuration\<close>

record session_config = net_config +
  portBase :: int
  controlMcastAddr :: sockaddr_in
  dataMcastAddr :: sockaddr_in
  mcastRdv :: "string option"
  ttl :: int
  net_capabilities :: u32
  net_rcvbuf :: u32
  rexmit_hello_interval :: int
  autostart :: int
  min_receivers :: int
  max_receivers_wait :: int
  min_receivers_wait :: int
  startTimeout :: int

definition RECEIVER_PORT :: "int \<Rightarrow> int" where "RECEIVER_PORT x = x"
definition SENDER_PORT :: "int \<Rightarrow> int" where "SENDER_PORT x = x + 1"

definition doReceive :: "int \<Rightarrow> (sockaddr_in \<times> 'm) option \<Rightarrow> (sockaddr_in \<times> 'm) option" where
  \<comment> \<open>from what \<^verbatim>\<open>recvfrom\<close> delivers; \<open>None\<close>: a negative value\<close>
  "doReceive base r =
     Option.bind r (\<lambda>(sender, msg).
       let port = uint (ntohs (sin_port sender))
       in if port \<noteq> RECEIVER_PORT base \<and> port \<noteq> SENDER_PORT base then None else Some (sender, msg))"

definition set_flag :: "u32 \<Rightarrow> 'a net_config_scheme \<Rightarrow> 'a net_config_scheme" where
  "set_flag f c = c\<lparr>flags := flags c OR f\<rparr>"

definition clear_flag :: "u32 \<Rightarrow> 'a net_config_scheme \<Rightarrow> 'a net_config_scheme" where
  "clear_flag f c = c\<lparr>flags := flags c AND NOT f\<rparr>"

lemma doReceive_Some: "doReceive base r = Some m \<Longrightarrow> r = Some m"
  by (auto simp: doReceive_def Let_def bind_eq_Some_conv split: if_splits)

end
