(* ===== verification/SenderStart.thy ===== *)
theory SenderStart
  imports Session SendData
begin

text \<open>
  The sender before the transfer, \<^verbatim>\<open>src/udps-negotiate.c\<close>: the hello messages, the
  replies to the receivers that connect, the decision to start, and the parameters of the
  transfer that follow from the participants.

  Times are the values of \<^verbatim>\<open>time(0)\<close>.  What \<^verbatim>\<open>select\<close>, the keyboard and the network
  deliver is a list of \<open>wake\<close>s and a received message for each call of \<open>mainDispatcher\<close>.
  \<open>junk\<close> is what the stack holds where a message is not filled in.
\<close>

subsection \<open>State\<close>

definition FLAG_NOTSN :: u32 where "FLAG_NOTSN = 0x0002"
definition FLAG_POINTOPOINT :: u32 where "FLAG_POINTOPOINT = 0x0008"
definition FLAG_BCAST :: u32 where "FLAG_BCAST = 0x0020"
definition FLAG_NOPOINTOPOINT :: u32 where "FLAG_NOPOINTOPOINT = 0x0040"
definition FLAG_NOKBD :: u32 where "FLAG_NOKBD = 0x0080"

record sender_session =
  cfg :: session_config
  db :: participantsDb
  fds :: "int list"
  has_console :: bool
  tries :: int
  countsClients :: bool \<comment> \<open>\<^verbatim>\<open>firstConnected != NULL\<close>\<close>
  firstConnected :: int
  sent :: "control_event list"

definition send_event :: "control_event \<Rightarrow> sender_session \<Rightarrow> sender_session" where
  "send_event e s = s\<lparr>sent := sent s @ [e]\<rparr>"

subsection \<open>Messages\<close>

definition isPointToPoint :: "participantsDb \<Rightarrow> session_config \<Rightarrow> bool" where
  "isPointToPoint pdb c =
     (if has_flag c FLAG_POINTOPOINT then True
      else if has_flag c (FLAG_NOPOINTOPOINT OR FLAG_ASYNC) then False
      else nrParticipants pdb = 1)"

definition sendConnectionReply :: "byte list \<Rightarrow> bool \<Rightarrow> sender_session \<Rightarrow> sockaddr_in \<Rightarrow> u32 \<Rightarrow> u32 \<Rightarrow> (sender_session \<times> int) outcome" where
  \<comment> \<open>\<open>ok\<close>: the system accepts the packet\<close>
  "sendConnectionReply junk ok s client caps rcv =
     (let rcv = (if rcv = 0 then 65536 else rcv)
      in if caps AND CAP_BIG_ENDIAN \<noteq> 0 then
           let (pdb, clNr) = addParticipant (db s) client caps rcv (has_flag (cfg s) FLAG_POINTOPOINT);
               s = s\<lparr>db := pdb\<rparr>;
               s = (if has_flag (cfg s) FLAG_POINTOPOINT
                    then s\<lparr>cfg := (cfg s)\<lparr>dataMcastAddr := copyIpFrom (dataMcastAddr (cfg s)) client\<rparr>\<rparr> else s);
               reply = \<lparr>c_opCode = htons CMD_CONNECT_REPLY, c_clNr = htonl_int clNr,
                        c_blockSize = htonl_int (int (blockSize (cfg s))), c_capabilities = ntohl (net_capabilities (cfg s)),
                        c_mcastAddr = copyToMessage junk (dataMcastAddr (cfg s)), c_helloBlockSize = 0\<rparr>
           in Done (send_event (SendControl reply client) (send_event (WaitRate (sin_addr client) 32) s), if ok then 0 else -1)
         else Aborts)"

definition hello_msg :: "byte list \<Rightarrow> session_config \<Rightarrow> bool \<Rightarrow> serverControlMsg" where
  "hello_msg junk c streaming =
     \<lparr>c_opCode = htons (if streaming then CMD_HELLO_STREAMING else CMD_HELLO), c_clNr = 0, c_blockSize = 0,
      c_capabilities = htonl (net_capabilities c), c_mcastAddr = copyToMessage junk (dataMcastAddr c),
      c_helloBlockSize = htons (of_nat (blockSize c))\<rparr>"

definition sendHello :: "byte list \<Rightarrow> bool \<Rightarrow> sender_session \<Rightarrow> sender_session" where
  "sendHello junk streaming s =
     send_event (SendControl (hello_msg junk (cfg s) streaming) (controlMcastAddr (cfg s)))
       (send_event (WaitRate (sin_addr (controlMcastAddr (cfg s))) 28) s)"

subsection \<open>Waiting for participants\<close>

definition checkClientWait :: "participantsDb \<Rightarrow> session_config \<Rightarrow> int option \<Rightarrow> int \<Rightarrow> bool" where
  "checkClientWait pdb c first now =
     (case first of
        None \<Rightarrow> False
      | Some first \<Rightarrow>
          if nrParticipants pdb = 0 \<or> first = 0 then False
          else if max_receivers_wait c \<noteq> 0 \<and> now \<ge> first + max_receivers_wait c then True
          else nrParticipants pdb \<ge> min_receivers c \<and> (min_receivers_wait c = 0 \<or> now \<ge> first + min_receivers_wait c))"

definition first_ptr :: "sender_session \<Rightarrow> int option" where
  "first_ptr s = (if countsClients s then Some (firstConnected s) else None)"

datatype wake =
    WakeError
  | WakeTimeout int \<comment> \<open>the time is up; what the clock says then\<close>
  | WakeReady "char option" "int set" \<comment> \<open>a key, descriptors with packets\<close>

datatype wait_end = Failed | Woken int "char option" "int set"

definition has_timeout :: "sender_session \<Rightarrow> bool" where
  "has_timeout s \<longleftrightarrow> rexmit_hello_interval (cfg s) \<noteq> 0 \<or> countsClients s \<and> nrParticipants (db s) \<noteq> 0 \<or> startTimeout (cfg s) \<noteq> 0"

fun start_wait :: "byte list \<Rightarrow> int \<Rightarrow> wake list \<Rightarrow> sender_session \<Rightarrow> (sender_session \<times> wait_end) outcome" where
  \<comment> \<open>the loop of \<^verbatim>\<open>mainDispatcher\<close>, which started at \<open>loopStart\<close>; the \<open>int\<close> of \<open>Woken\<close> is \<^verbatim>\<open>startNow\<close>\<close>
  "start_wait junk loopStart [] s = Blocks"
| "start_wait junk loopStart (WakeError # ws) s = Done (s, Failed)"
| "start_wait junk loopStart (WakeReady key ready # ws) s = Done (s, Woken 0 (if has_console s then key else None) ready)"
| "start_wait junk loopStart (WakeTimeout now # ws) s =
     (if \<not> has_timeout s then Blocks
      else
        let hellos = rexmit_hello_interval (cfg s) \<noteq> 0;
            s = (if hellos then (sendHello junk False s)\<lparr>tries := tries s + 1\<rparr> else s);
            startNow = (hellos \<and> autostart (cfg s) \<noteq> 0 \<and> tries s > autostart (cfg s));
            startNow = (startNow \<or> checkClientWait (db s) (cfg s) (first_ptr s) now)
        in if \<not> startNow \<and> startTimeout (cfg s) \<noteq> 0 \<and> now - loopStart \<ge> startTimeout (cfg s) then Done (s, Woken (-1) None {})
           else if startNow then Done (s, Woken 1 None {})
           else start_wait junk loopStart ws s)"

definition handle_request :: "byte list \<Rightarrow> bool \<Rightarrow> sender_session \<Rightarrow> int \<Rightarrow> sockaddr_in \<Rightarrow> connectReq \<Rightarrow> (sender_session \<times> int) outcome" where
  \<comment> \<open>the message received by \<^verbatim>\<open>mainDispatcher\<close>\<close>
  "handle_request junk ok s startNow client msg =
     (let op = ntohs (q_opCode msg)
      in if op = CMD_CONNECT_REQ then
           and_then (sendConnectionReply junk ok s client (CAP_BIG_ENDIAN OR ntohl (q_capabilities msg)) (ntohl (q_rcvbuf msg)))
             (\<lambda>(s, _). Done (s, startNow))
         else if op = CMD_GO then Done (s, 1)
         else if op = CMD_DISCONNECT then
           let ret = lookupParticipant (db s) client
           in Done (if ret \<ge> 0 then s\<lparr>db := removeParticipant (db s) (nat ret)\<rparr> else s, startNow)
         else Done (s, startNow))"

definition note_first :: "int \<Rightarrow> sender_session \<Rightarrow> sender_session" where
  "note_first now s =
     (if countsClients s \<and> firstConnected s = 0 \<and> nrParticipants (db s) \<noteq> 0 then s\<lparr>firstConnected := now\<rparr> else s)"

definition mainDispatcher :: "byte list \<Rightarrow> bool \<Rightarrow> int \<Rightarrow> wake list \<Rightarrow> (sockaddr_in \<times> connectReq) option \<Rightarrow> sender_session
    \<Rightarrow> (sender_session \<times> int) outcome" where
  \<comment> \<open>with the value returned; \<open>recv\<close> is what \<^verbatim>\<open>recvfrom\<close> delivers\<close>
  "mainDispatcher junk ok now wakes recv s =
     and_then (start_wait junk now wakes (note_first now s)) (\<lambda>(s, e).
       case e of
         Failed \<Rightarrow> Done (s, -1)
       | Woken startNow key ready \<Rightarrow>
           and_then
             (case key of
                Some c \<Rightarrow> if c = CHR ''q'' then Aborts else Done (s\<lparr>has_console := False\<rparr>, 1)
              | None \<Rightarrow> Done (s, startNow))
             (\<lambda>(s, startNow).
                if getSelectedSock (fds s) ready = -1 then Done (s, startNow)
                else case doReceive (portBase (cfg s)) recv of
                  None \<Rightarrow> Done (s, 0)
                | Some (client, msg) \<Rightarrow>
                    if has_flag (cfg s) FLAG_ASYNC then Done (s, 0)
                    else handle_request junk ok s startNow client msg))"

subsection \<open>The start\<close>

definition control_address :: "(string \<Rightarrow> u32 option) \<Rightarrow> net_if \<Rightarrow> session_config \<Rightarrow> sockaddr_in outcome" where
  \<comment> \<open>the address for control messages chosen in \<^verbatim>\<open>startSender\<close>\<close>
  "control_address aton nif c =
     and_then
       (if ttl c = 1 \<and> mcastRdv c = None then getBroadCastAddress (Some nif) (of_int (RECEIVER_PORT (portBase c)))
        else Done ((controlMcastAddr c)\<lparr>sin_addr := 0\<rparr>))
       (\<lambda>a. if sin_addr a = 0 then getMcastAllAddress aton (mcastRdv c) (of_int (RECEIVER_PORT (portBase c))) else Done a)"

definition data_address :: "net_if \<Rightarrow> session_config \<Rightarrow> sockaddr_in outcome" where
  \<comment> \<open>the address for the data\<close>
  "data_address nif c =
     and_then
       (if \<not> has_flag c FLAG_POINTOPOINT \<and> ipIsZero (dataMcastAddr c)
        then and_then (getMyAddress (Some nif)) (\<lambda>a. Done (getDefaultMcastAddress a)) else Done (dataMcastAddr c))
       (\<lambda>a. Done (setPort (if has_flag c FLAG_POINTOPOINT then clearIp a else a) (of_int (RECEIVER_PORT (portBase c)))))"

definition start_addresses :: "(string \<Rightarrow> u32 option) \<Rightarrow> net_if \<Rightarrow> session_config \<Rightarrow> session_config outcome" where
  "start_addresses aton nif c =
     and_then (control_address aton nif c) (\<lambda>a.
     and_then (data_address nif c) (\<lambda>d. Done (c\<lparr>controlMcastAddr := a, dataMcastAddr := d\<rparr>)))"

definition start_session :: "(string \<Rightarrow> u32 option) \<Rightarrow> byte list \<Rightarrow> net_if \<Rightarrow> int \<Rightarrow> int list \<Rightarrow> bool \<Rightarrow> session_config \<Rightarrow> sender_session outcome" where
  \<comment> \<open>\<open>duplex\<close> is what \<^verbatim>\<open>isFullDuplex\<close> returns, \<open>socks\<close> are the sockets opened, \<open>con\<close> whether the
      console opens\<close>
  "start_session aton junk nif duplex socks con c =
     (let c = (if flags c AND (FLAG_SN OR FLAG_NOTSN) = 0 \<and> duplex = 1 then set_flag FLAG_SN c else c)
      in and_then (start_addresses aton nif c) (\<lambda>c.
           let c = c\<lparr>net_capabilities := SENDER_CAPABILITIES\<rparr>;
               c = (if has_flag c FLAG_ASYNC then c\<lparr>net_capabilities := net_capabilities c OR CAP_ASYNC\<rparr> else c);
               s = \<lparr>cfg = c, db = makeParticipantsDb, fds = socks, has_console = False, tries = 0, countsClients = False,
                    firstConnected = 0, sent = []\<rparr>;
               s = sendHello junk False s;
               s = (if \<not> has_flag c FLAG_NOKBD then s\<lparr>has_console := con\<rparr> else s)
           in Done (s\<lparr>countsClients := min_receivers c \<noteq> 0 \<or> min_receivers_wait c \<noteq> 0 \<or> max_receivers_wait c \<noteq> 0\<rparr>)))"

definition merge_participant :: "participantsDb \<Rightarrow> bool \<Rightarrow> nat \<Rightarrow> session_config \<Rightarrow> session_config" where
  \<comment> \<open>one round of the loop over the participants in \<^verbatim>\<open>doTransfer\<close>\<close>
  "merge_participant pdb isPtP i c =
     (if isParticipantValid pdb i then
        let pRcvBuf = getParticipantRcvBuf pdb i;
            c = (if isPtP then c\<lparr>dataMcastAddr := copyIpFrom (dataMcastAddr c) (getParticipantIp pdb i)\<rparr> else c);
            c = c\<lparr>net_capabilities := net_capabilities c AND getParticipantCapabilities pdb i\<rparr>
        in if pRcvBuf \<noteq> 0 \<and> (net_rcvbuf c = 0 \<or> net_rcvbuf c > pRcvBuf) then c\<lparr>net_rcvbuf := pRcvBuf\<rparr> else c
      else c)"

definition fallback_address :: "session_config \<Rightarrow> session_config" where
  \<comment> \<open>for old receivers and for broadcast\<close>
  "fallback_address c =
     (let c = (if net_capabilities c AND CAP_NEW_GEN = 0
               then clear_flag (FLAG_SN OR FLAG_ASYNC) (c\<lparr>dataMcastAddr := controlMcastAddr c\<rparr>) else c)
      in if has_flag c FLAG_BCAST then c\<lparr>dataMcastAddr := controlMcastAddr c\<rparr> else c)"

definition transfer_params :: "sender_session \<Rightarrow> sender_session outcome" where
  \<comment> \<open>the first part of \<^verbatim>\<open>doTransfer\<close>\<close>
  "transfer_params s =
     (let isPtP = isPointToPoint (db s) (cfg s)
      in and_then (check (\<not> (has_flag (cfg s) FLAG_POINTOPOINT \<and> nrParticipants (db s) \<noteq> 1))) (\<lambda>_.
           let c = fold (merge_participant (db s) isPtP) [0..<MAX_CLIENTS] ((cfg s)\<lparr>net_rcvbuf := 0\<rparr>)
           in and_then (check (net_capabilities c AND CAP_BIG_ENDIAN \<noteq> 0)) (\<lambda>_.
                Done (s\<lparr>cfg := fallback_address c\<rparr>))))"

definition remove_participants :: "participantsDb \<Rightarrow> participantsDb" where
  \<comment> \<open>the end of \<^verbatim>\<open>doTransfer\<close>\<close>
  "remove_participants pdb = fold (\<lambda>i pdb. removeParticipant pdb i) [0..<MAX_CLIENTS] pdb"

definition doTransfer :: "(sender_session \<Rightarrow> sender_session outcome) \<Rightarrow> sender_session \<Rightarrow> sender_session outcome" where
  \<comment> \<open>\<open>transfer\<close> is the run of the threads of the transfer\<close>
  "doTransfer transfer s =
     and_then (transfer_params s) (\<lambda>s. and_then (transfer s) (\<lambda>s. Done (s\<lparr>db := remove_participants (db s)\<rparr>)))"

definition startSender :: "(sender_session \<Rightarrow> sender_session outcome) \<Rightarrow> int \<Rightarrow> sender_session \<Rightarrow> (sender_session \<times> int) outcome" where
  \<comment> \<open>after the loop: \<open>r\<close> is the last value of \<^verbatim>\<open>mainDispatcher\<close>; with the exit status\<close>
  "startSender transfer r s =
     (let s = s\<lparr>has_console := False\<rparr>
      in if r = 1 then
           if has_flag (cfg s) FLAG_ASYNC \<or> nrParticipants (db s) > 0
           then and_then (doTransfer transfer s) (\<lambda>s. Done (s, 0)) else Done (s, 1)
         else Done (s, if r < 0 then 1 else 0))"

subsection \<open>Reachable states\<close>

inductive sender_waits :: "byte list \<Rightarrow> (string \<Rightarrow> u32 option) \<Rightarrow> sender_session \<Rightarrow> bool" for junk aton where
  start: "start_session aton junk nif duplex socks con c = Done s \<Longrightarrow> sender_waits junk aton s"
| round: "sender_waits junk aton s \<Longrightarrow> mainDispatcher junk ok now wakes recv s = Done (s', r) \<Longrightarrow> sender_waits junk aton s'"

definition session_inv :: "sender_session \<Rightarrow> bool" where
  "session_inv s \<longleftrightarrow> db_inv (db s) \<and> net_capabilities (cfg s) AND CAP_BIG_ENDIAN \<noteq> 0
     \<and> (\<forall>i \<in> valid (db s). getParticipantCapabilities (db s) i AND CAP_BIG_ENDIAN \<noteq> 0 \<and> getParticipantRcvBuf (db s) i \<noteq> 0)"

lemma cap_big_endian_bit: "w AND CAP_BIG_ENDIAN \<noteq> 0 \<longleftrightarrow> bit w 3"
proof -
  have "CAP_BIG_ENDIAN = push_bit 3 1" by (simp add: CAP_BIG_ENDIAN_def)
  then show ?thesis by (metis and_exp_eq_0_iff_not_bit push_bit_of_1)
qed

lemma send_event_same [simp]:
  "db (send_event e s) = db s" "cfg (send_event e s) = cfg s" "fds (send_event e s) = fds s" "tries (send_event e s) = tries s"
  "has_console (send_event e s) = has_console s" "first_ptr (send_event e s) = first_ptr s"
  by (simp_all add: send_event_def first_ptr_def)

lemma sendHello_same [simp]:
  "db (sendHello junk st s) = db s" "cfg (sendHello junk st s) = cfg s" "fds (sendHello junk st s) = fds s" "tries (sendHello junk st s) = tries s"
  "has_console (sendHello junk st s) = has_console s" "first_ptr (sendHello junk st s) = first_ptr s"
  by (simp_all add: sendHello_def)

lemma start_wait_timeout:
  assumes "has_timeout s"
  shows "\<exists>s1. db s1 = db s \<and> cfg s1 = cfg s \<and> fds s1 = fds s \<and> has_console s1 = has_console s \<and> first_ptr s1 = first_ptr s
    \<and> start_wait junk ls (WakeTimeout now # ws) s =
       (let hellos = rexmit_hello_interval (cfg s) \<noteq> 0;
            startNow = (hellos \<and> autostart (cfg s) \<noteq> 0 \<and> tries s1 > autostart (cfg s) \<or> checkClientWait (db s) (cfg s) (first_ptr s) now)
        in if \<not> startNow \<and> startTimeout (cfg s) \<noteq> 0 \<and> now - ls \<ge> startTimeout (cfg s) then Done (s1, Woken (-1) None {})
           else if startNow then Done (s1, Woken 1 None {}) else start_wait junk ls ws s1)"
proof (cases "rexmit_hello_interval (cfg s) = 0")
  case True
  then show ?thesis using assms by (intro exI [of _ s]) (simp add: Let_def)
next
  case False
  then show ?thesis using assms
    by (intro exI [of _ "(sendHello junk False s)\<lparr>tries := tries s + 1\<rparr>"]) (simp add: Let_def first_ptr_def sendHello_def send_event_def)
qed

lemma start_wait_spec:
  assumes "start_wait junk ls ws s = Done (s', e)"
  shows "db s' = db s \<and> cfg s' = cfg s \<and> fds s' = fds s
    \<and> (case e of Failed \<Rightarrow> True
       | Woken n key ready \<Rightarrow> (key \<noteq> None \<longrightarrow> has_console s)
           \<and> (n = 1 \<longrightarrow> key = None \<and>
               (autostart (cfg s) \<noteq> 0 \<and> rexmit_hello_interval (cfg s) \<noteq> 0 \<and> tries s' > autostart (cfg s)
                \<or> (\<exists>now. WakeTimeout now \<in> set ws \<and> checkClientWait (db s) (cfg s) (first_ptr s) now))))"
  using assms
proof (induction ws arbitrary: s)
  case (Cons w ws)
  show ?case
  proof (cases w)
    case (WakeTimeout now)
    have h: "has_timeout s" using Cons.prems WakeTimeout by (cases "has_timeout s") simp_all
    obtain s1 where s1: "db s1 = db s" "cfg s1 = cfg s" "fds s1 = fds s" "has_console s1 = has_console s" "first_ptr s1 = first_ptr s"
      and eq: "start_wait junk ls (WakeTimeout now # ws) s =
       (let hellos = rexmit_hello_interval (cfg s) \<noteq> 0;
            startNow = (hellos \<and> autostart (cfg s) \<noteq> 0 \<and> tries s1 > autostart (cfg s) \<or> checkClientWait (db s) (cfg s) (first_ptr s) now)
        in if \<not> startNow \<and> startTimeout (cfg s) \<noteq> 0 \<and> now - ls \<ge> startTimeout (cfg s) then Done (s1, Woken (-1) None {})
           else if startNow then Done (s1, Woken 1 None {}) else start_wait junk ls ws s1)"
      using start_wait_timeout [OF h, of junk ls now ws] by blast
    show ?thesis
    proof (cases "start_wait junk ls ws s1 = Done (s', e)")
      case True
      from Cons.IH [OF True] show ?thesis unfolding s1 by (auto split: wait_end.splits)
    next
      case False
      then have "s' = s1 \<and> (e = Woken (-1) None {} \<or> e = Woken 1 None {} \<and>
          (rexmit_hello_interval (cfg s) \<noteq> 0 \<and> autostart (cfg s) \<noteq> 0 \<and> tries s1 > autostart (cfg s) \<or> checkClientWait (db s) (cfg s) (first_ptr s) now))"
        using Cons.prems unfolding WakeTimeout eq Let_def by (auto split: if_splits)
      then show ?thesis using s1 WakeTimeout by auto
    qed
  qed (use Cons.prems in auto)
qed simp

lemma addParticipant_entries:
  assumes inv: "db_inv pdb" and add: "addParticipant pdb a caps rcv ptp = (pdb', i)" and j: "j \<in> valid pdb'"
  shows "j \<in> valid pdb \<and> clientTable pdb' ! j = clientTable pdb ! j
    \<or> clientTable pdb' ! j = \<lparr>addr = a, used = True, capabilities = caps, rcvbuf = rcv\<rparr>"
proof (cases "pdb' = pdb")
  case False
  then have "add_loop pdb a caps rcv ptp [0..<MAX_CLIENTS] = (pdb', i)"
    using add by (auto simp: addParticipant_def Let_def split: if_splits)
  then obtain k where "pdb' = pdb\<lparr>clientTable := (clientTable pdb)[k := \<lparr>addr = a, used = True, capabilities = caps, rcvbuf = rcv\<rparr>],
          nr := nr pdb + 1\<rparr>"
    using add_loop_spec [of pdb a caps rcv ptp "[0..<MAX_CLIENTS]"] False by auto
  moreover have "length (clientTable pdb) = MAX_CLIENTS" using inv by (simp add: db_inv_def)
  ultimately show ?thesis using j by (cases "j = k") (auto simp: valid_def)
qed (use j in simp)

lemma sendConnectionReply_inv:
  assumes "session_inv s" and "caps AND CAP_BIG_ENDIAN \<noteq> 0" and "sendConnectionReply junk ok s client caps rcv = Done (s', r)"
  shows "session_inv s'"
proof -
  define rcv' where "rcv' = (if rcv = 0 then 65536 else rcv)"
  obtain pdb i where p: "addParticipant (db s) client caps rcv' (has_flag (cfg s) FLAG_POINTOPOINT) = (pdb, i)" by fastforce
  have s': "db s' = pdb" "net_capabilities (cfg s') = net_capabilities (cfg s)"
    using assms(2,3) by (auto simp: sendConnectionReply_def Let_def rcv'_def [symmetric] p)
  have inv: "db_inv (db s)" using assms(1) by (simp add: session_inv_def)
  have "getParticipantCapabilities pdb j AND CAP_BIG_ENDIAN \<noteq> 0 \<and> getParticipantRcvBuf pdb j \<noteq> 0" if j: "j \<in> valid pdb" for j
    using addParticipant_entries [OF inv p j] assms(1,2)
    by (auto simp: session_inv_def getParticipantCapabilities_def getParticipantRcvBuf_def rcv'_def split: if_splits)
  then show ?thesis using addParticipant_spec [OF inv p] assms(1) by (simp add: session_inv_def s')
qed

lemma handle_request_inv:
  assumes inv: "session_inv s" and h: "handle_request junk ok s startNow client msg = Done (s', r)"
  shows "session_inv s'"
proof -
  define op where "op = ntohs (q_opCode msg)"
  define ret where "ret = lookupParticipant (db s) client"
  define pdb where "pdb = removeParticipant (db s) (nat ret)"
  have "(CAP_BIG_ENDIAN OR x) AND CAP_BIG_ENDIAN \<noteq> 0" for x
    unfolding cap_big_endian_bit by (simp add: bit_or_iff CAP_BIG_ENDIAN_def bit_numeral_rec)
  note req = sendConnectionReply_inv [OF inv this]
  note unf = handle_request_def [unfolded Let_def, of junk ok s startNow client msg, folded op_def ret_def pdb_def]
  show ?thesis
  proof (cases "op = CMD_CONNECT_REQ")
    case True
    then show ?thesis using h req unfolding unf by (auto simp: and_then_Done)
  next
    case False
    then consider "s' = s" | "0 \<le> ret" "s' = s\<lparr>db := pdb\<rparr>" using h unfolding unf by (auto split: if_splits)
    then show ?thesis
    proof cases
      case 2
      have "db_inv (db s)" "0 \<le> lookupParticipant (db s) client" using inv 2(1) by (simp_all add: session_inv_def ret_def)
      then have v: "db_inv pdb" "valid pdb = valid (db s) - {nat ret}" unfolding pdb_def ret_def by (rule table.disconnect)+
      have "clientTable pdb ! j = clientTable (db s) ! j" if "j \<noteq> nat ret" for j using that by (simp add: pdb_def removeParticipant_def)
      then show ?thesis using inv v
        by (auto simp: session_inv_def 2(2) pdb_def [symmetric] getParticipantCapabilities_def getParticipantRcvBuf_def)
    qed (use inv in simp)
  qed
qed

definition woken_as :: "sender_session \<Rightarrow> int \<Rightarrow> char option \<Rightarrow> sender_session \<Rightarrow> int \<Rightarrow> bool" where
  \<comment> \<open>the console after the wait: a key closes it and sets \<^verbatim>\<open>startNow\<close>\<close>
  "woken_as s n key s' n' \<longleftrightarrow> (if key = None then s' = s \<and> n' = n else s' = s\<lparr>has_console := False\<rparr> \<and> n' = 1)"

lemma mainDispatcher_cases:
  assumes "mainDispatcher junk ok now wakes recv s = Done (s', r)"
  obtains s1 where "start_wait junk now wakes (note_first now s) = Done (s1, Failed)" "s' = s1" "r = -1"
  | s1 n key ready s2 n2 where "start_wait junk now wakes (note_first now s) = Done (s1, Woken n key ready)" "woken_as s1 n key s2 n2"
      "s' = s2" "r = n2 \<and> getSelectedSock (fds s2) ready = -1 \<or> r = 0"
  | s1 n key ready s2 n2 client msg where "start_wait junk now wakes (note_first now s) = Done (s1, Woken n key ready)"
      "woken_as s1 n key s2 n2" "doReceive (portBase (cfg s2)) recv = Some (client, msg)" "\<not> has_flag (cfg s2) FLAG_ASYNC"
      "handle_request junk ok s2 n2 client msg = Done (s', r)"
proof -
  obtain s1 e where w: "start_wait junk now wakes (note_first now s) = Done (s1, e)"
    using assms by (auto simp: mainDispatcher_def and_then_Done)
  show thesis
  proof (cases e)
    case Failed
    then show thesis using that(1) w assms by (simp add: mainDispatcher_def)
  next
    case (Woken n key ready)
    define s2 where "s2 = (if key = None then s1 else s1\<lparr>has_console := False\<rparr>)"
    define n2 where "n2 = (if key = None then n else 1)"
    have a: "woken_as s1 n key s2 n2" by (simp add: woken_as_def s2_def n2_def)
    have m: "(if getSelectedSock (fds s2) ready = -1 then Done (s2, n2)
        else case doReceive (portBase (cfg s2)) recv of None \<Rightarrow> Done (s2, 0)
          | Some (client, msg) \<Rightarrow> if has_flag (cfg s2) FLAG_ASYNC then Done (s2, 0) else handle_request junk ok s2 n2 client msg) = Done (s', r)"
    proof (cases key)
      case None
      then have eqs: "s2 = s1" "n2 = n" by (simp_all add: s2_def n2_def)
      show ?thesis unfolding eqs using assms w Woken None by (simp add: mainDispatcher_def)
    next
      case (Some ch)
      then have eqs: "s2 = s1\<lparr>has_console := False\<rparr>" "n2 = 1" by (simp_all add: s2_def n2_def)
      show ?thesis unfolding eqs using assms w Woken Some by (cases "ch = CHR ''q''") (simp_all add: mainDispatcher_def)
    qed
    show thesis
    proof (cases "getSelectedSock (fds s2) ready = -1")
      case True
      then show thesis using that(2) [OF _ a] w Woken m by auto
    next
      case False
      then show thesis using that(2,3) [OF _ a] w Woken m by (cases "doReceive (portBase (cfg s2)) recv") (auto split: if_splits)
    qed
  qed
qed

lemma session_inv_cong: "db t = db u \<Longrightarrow> net_capabilities (cfg t) = net_capabilities (cfg u) \<Longrightarrow> session_inv u \<Longrightarrow> session_inv t"
  by (simp add: session_inv_def)

lemma woken_inv: "woken_as s n key s' n' \<Longrightarrow> session_inv s \<Longrightarrow> session_inv s'"
  by (rule session_inv_cong [of s' s]) (auto simp: woken_as_def split: if_splits)

lemma mainDispatcher_inv:
  assumes inv: "session_inv s" and m: "mainDispatcher junk ok now wakes recv s = Done (s', r)"
  shows "session_inv s'"
proof -
  have "session_inv (note_first now s)" by (rule session_inv_cong [OF _ _ inv]) (simp_all add: note_first_def)
  then have w: "start_wait junk now wakes (note_first now s) = Done (s1, e) \<Longrightarrow> session_inv s1" for s1 e
    using start_wait_spec session_inv_cong by metis
  from m show ?thesis
    by (rule mainDispatcher_cases) (use w woken_inv handle_request_inv in blast)+
qed

lemma start_session_inv:
  assumes "start_session aton junk nif duplex socks con c = Done s"
  shows "session_inv s"
proof -
  have s: "db s = makeParticipantsDb" "net_capabilities (cfg s) \<in> {SENDER_CAPABILITIES, SENDER_CAPABILITIES OR CAP_ASYNC}"
    using assms by (auto simp: start_session_def Let_def and_then_Done)
  have "valid makeParticipantsDb = {}" by (auto simp: valid_def makeParticipantsDb_def)
  moreover have "net_capabilities (cfg s) AND CAP_BIG_ENDIAN \<noteq> 0" using s(2) by (auto simp: cap_defs)
  ultimately show ?thesis using makeParticipantsDb_inv by (simp add: session_inv_def s(1))
qed

lemma sender_waits_inv: "sender_waits junk aton s \<Longrightarrow> session_inv s"
  by (induction rule: sender_waits.induct) (auto intro: start_session_inv mainDispatcher_inv)

subsection \<open>The parameters of the transfer\<close>

lemma merge_loop:
  assumes rcv: "\<forall>i \<in> valid pdb. getParticipantRcvBuf pdb i \<noteq> 0" and n: "n \<le> MAX_CLIENTS"
    and c: "c = fold (merge_participant pdb ptp) [0..<n] (c0\<lparr>net_rcvbuf := 0\<rparr>)"
  shows "flags c = flags c0 \<and> controlMcastAddr c = controlMcastAddr c0
    \<and> (\<forall>b. bit (net_capabilities c) b \<longleftrightarrow> bit (net_capabilities c0) b \<and> (\<forall>i \<in> valid pdb \<inter> {..<n}. bit (getParticipantCapabilities pdb i) b))
    \<and> net_rcvbuf c = (if valid pdb \<inter> {..<n} = {} then 0 else Min (getParticipantRcvBuf pdb ` (valid pdb \<inter> {..<n})))
    \<and> sin_addr (dataMcastAddr c) = (if ptp \<and> valid pdb \<inter> {..<n} \<noteq> {} then sin_addr (getParticipantIp pdb (Max (valid pdb \<inter> {..<n})))
         else sin_addr (dataMcastAddr c0))"
  using n c
proof (induction n arbitrary: c)
  case (Suc n)
  define d where "d = fold (merge_participant pdb ptp) [0..<n] (c0\<lparr>net_rcvbuf := 0\<rparr>)"
  have c: "c = merge_participant pdb ptp n d" using Suc.prems(2) by (simp add: d_def)
  note IH = Suc.IH [OF _ d_def]
  have le: "n \<le> MAX_CLIENTS" using Suc.prems(1) by simp
  show ?case
  proof (cases "n \<in> valid pdb")
    case False
    then have "valid pdb \<inter> {..<Suc n} = valid pdb \<inter> {..<n}" by (auto simp: less_Suc_eq)
    moreover have "c = d" using False Suc.prems(1) by (simp add: c merge_participant_def isParticipantValid_def valid_def)
    ultimately show ?thesis using IH [OF le] by simp
  next
    case True
    define V where "V = valid pdb \<inter> {..<n}"
    have V: "valid pdb \<inter> {..<Suc n} = insert n V" "finite V" "\<forall>i \<in> V. i < n" using True by (auto simp: V_def less_Suc_eq)
    have used: "isParticipantValid pdb n" using True by (simp add: valid_def isParticipantValid_def)
    have nz: "getParticipantRcvBuf pdb n \<noteq> 0" using rcv True by simp
    define M where "M = Min (getParticipantRcvBuf pdb ` V)"
    have "V \<noteq> {} \<Longrightarrow> M \<noteq> 0"
    proof -
      assume "V \<noteq> {}"
      then have "M \<in> getParticipantRcvBuf pdb ` V" unfolding M_def using V(2) by (intro Min_in) auto
      then obtain i where "i \<in> V" "M = getParticipantRcvBuf pdb i" by auto
      then show ?thesis using rcv by (simp add: V_def)
    qed
    moreover have "V \<noteq> {} \<Longrightarrow> Min (insert x (getParticipantRcvBuf pdb ` V)) = min x M" for x
      unfolding M_def using V(2) by (intro Min_insert) auto
    moreover have "Max (insert n V) = n" using V by (intro Max_eqI) auto
    ultimately show ?thesis
      using IH [OF le] nz unfolding V(1) V_def [symmetric] M_def [symmetric]
      by (cases "V = {}") (auto simp: c merge_participant_def used Let_def bit_and_iff copyIpFrom_def min_def)
  qed
qed (use assms in simp)

lemma flag_cong: "flags c = flags d \<Longrightarrow> has_flag c f = has_flag d f"
  by (simp add: has_flag_def)

lemma point_to_point_one:
  assumes "db_inv pdb" and "isPointToPoint pdb c" and "has_flag c FLAG_POINTOPOINT \<longrightarrow> nrParticipants pdb = 1"
  obtains i where "valid pdb = {i}"
proof -
  have "nrParticipants pdb = 1" using assms(2,3) by (auto simp: isPointToPoint_def split: if_splits)
  then have "card (valid pdb) = 1" using assms(1) by (simp add: db_inv_def nrParticipants_def)
  then show thesis using that by (auto simp: card_1_singleton_iff)
qed

lemma valid_below: "valid pdb \<inter> {..<MAX_CLIENTS} = valid pdb"
  by (auto simp: valid_def)

lemma fallback_address_same:
  "net_capabilities (fallback_address c) = net_capabilities c" "net_rcvbuf (fallback_address c) = net_rcvbuf c"
  "portBase (fallback_address c) = portBase c"
  by (simp_all add: fallback_address_def clear_flag_def Let_def)

lemma fallback_address_none:
  "net_capabilities c AND CAP_NEW_GEN \<noteq> 0 \<Longrightarrow> \<not> has_flag c FLAG_BCAST \<Longrightarrow> fallback_address c = c"
  by (simp add: fallback_address_def)

lemma transfer_params_cfg:
  assumes "sender_waits junk aton s" and "has_flag (cfg s) FLAG_POINTOPOINT \<longrightarrow> nrParticipants (db s) = 1"
  shows "\<exists>c. transfer_params s = Done (s\<lparr>cfg := fallback_address c\<rparr>) \<and> flags c = flags (cfg s)
    \<and> (\<forall>b. bit (net_capabilities c) b \<longleftrightarrow> bit (net_capabilities (cfg s)) b \<and> (\<forall>i \<in> valid (db s). bit (getParticipantCapabilities (db s) i) b))
    \<and> net_rcvbuf c = (if valid (db s) = {} then 0 else Min (getParticipantRcvBuf (db s) ` valid (db s)))
    \<and> sin_addr (dataMcastAddr c) = (if isPointToPoint (db s) (cfg s) \<and> valid (db s) \<noteq> {}
         then sin_addr (getParticipantIp (db s) (Max (valid (db s)))) else sin_addr (dataMcastAddr (cfg s)))"
proof -
  define ptp where "ptp = isPointToPoint (db s) (cfg s)"
  define c where "c = fold (merge_participant (db s) ptp) [0..<MAX_CLIENTS] ((cfg s)\<lparr>net_rcvbuf := 0\<rparr>)"
  have inv: "session_inv s" by (rule sender_waits_inv [OF assms(1)])
  then have m: "flags c = flags (cfg s)"
      "\<And>b. bit (net_capabilities c) b \<longleftrightarrow> bit (net_capabilities (cfg s)) b \<and> (\<forall>i \<in> valid (db s). bit (getParticipantCapabilities (db s) i) b)"
      "net_rcvbuf c = (if valid (db s) = {} then 0 else Min (getParticipantRcvBuf (db s) ` valid (db s)))"
      "sin_addr (dataMcastAddr c) = (if ptp \<and> valid (db s) \<noteq> {} then sin_addr (getParticipantIp (db s) (Max (valid (db s))))
         else sin_addr (dataMcastAddr (cfg s)))"
    using merge_loop [OF _ order_refl c_def] unfolding valid_below session_inv_def by blast+
  have be: "net_capabilities c AND CAP_BIG_ENDIAN \<noteq> 0"
    using inv m(2) unfolding cap_big_endian_bit session_inv_def by blast
  have "transfer_params s = Done (s\<lparr>cfg := fallback_address c\<rparr>)"
    unfolding transfer_params_def Let_def ptp_def [symmetric] c_def [symmetric] using assms(2) be by simp
  then show ?thesis using m unfolding ptp_def by blast
qed

subsection \<open>A session\<close>

definition sample_session :: session_config where
  "sample_session = \<lparr>blockSize = 1456, sliceSize = 0, flags = 0, discovery = DSC_DOUBLING, default_slice_size = 0,
     max_slice_size = 1024, retriesUntilDrop = 30, fec_redundancy = 0, fec_stripesize = 0, fec_stripes = 0, rehelloOffset = 50,
     portBase = 9000, controlMcastAddr = \<lparr>sin_family = 2, sin_port = 0, sin_addr = 0\<rparr>,
     dataMcastAddr = \<lparr>sin_family = 2, sin_port = 0, sin_addr = 0\<rparr>, mcastRdv = None, ttl = 1, net_capabilities = 0, net_rcvbuf = 0,
     rexmit_hello_interval = 1000, autostart = 1, min_receivers = 2, max_receivers_wait = 0, min_receivers_wait = 0,
     startTimeout = 0\<rparr>"

definition sample_nif :: net_if where
  "sample_nif = \<lparr>if_addr = 9, if_bcast = 11, if_name = ''eth1''\<rparr>"

definition sample_receiver :: sockaddr_in where
  "sample_receiver = \<lparr>sin_family = 2, sin_port = htons 9000, sin_addr = 12\<rparr>"

lemma sample_started:
  "\<exists>s. start_session (\<lambda>_. Some 7) [] sample_nif 0 [5] True sample_session = Done s \<and> has_console s \<and> fds s = [5]
     \<and> db s = makeParticipantsDb \<and> flags (cfg s) = 0 \<and> autostart (cfg s) = 1 \<and> rexmit_hello_interval (cfg s) = 1000
     \<and> net_capabilities (cfg s) = SENDER_CAPABILITIES \<and> tries s = 0 \<and> startTimeout (cfg s) = 0 \<and> portBase (cfg s) = 9000 \<and> blockSize (cfg s) = 1456"
  by (simp add: start_session_def start_addresses_def control_address_def data_address_def sample_session_def sample_nif_def getBroadCastAddress_def getMyAddress_def
      initSockAddress_def has_flag_def Let_def ipIsZero_def getDefaultMcastAddress_def setPort_def sendHello_def send_event_def)

lemma sample_selected: "getSelectedSock [5] {5} = 5" "getSelectedSock [5] {} = -1"
  by (simp_all add: getSelectedSock_def)

lemma sample_connected:
  "\<exists>s. sender_waits [] (\<lambda>_. Some 7) s \<and> flags (cfg s) = 0 \<and> nrParticipants (db s) = 1
     \<and> clientTable (db s) ! 0 = \<lparr>addr = sample_receiver, used = True, capabilities = RECEIVER_CAPABILITIES, rcvbuf = 65536\<rparr>
     \<and> net_capabilities (cfg s) = SENDER_CAPABILITIES \<and> valid (db s) = {0} \<and> isPointToPoint (db s) (cfg s)"
proof -
  obtain s where s: "start_session (\<lambda>_. Some 7) [] sample_nif 0 [5] True sample_session = Done s" "fds s = [5]"
      "db s = makeParticipantsDb" "flags (cfg s) = 0" "net_capabilities (cfg s) = SENDER_CAPABILITIES" "portBase (cfg s) = 9000"
    using sample_started by blast
  define msg where "msg = \<lparr>q_opCode = htons CMD_CONNECT_REQ, q_capabilities = htonl RECEIVER_CAPABILITIES, q_rcvbuf = 0\<rparr>"
  have n: "db (note_first 0 s) = db s" "cfg (note_first 0 s) = cfg s" "fds (note_first 0 s) = fds s"
    by (simp_all add: note_first_def s(3) makeParticipantsDb_def nrParticipants_def)
  have "valid makeParticipantsDb = {}" by (auto simp: valid_def makeParticipantsDb_def)
  then have "lookupParticipant makeParticipantsDb a = -1" for a using lookup_cases [of makeParticipantsDb a] by auto
  moreover have "[0..<MAX_CLIENTS] = 0 # [1..<MAX_CLIENTS]" 
    using upt_conv_Cons [of 0 MAX_CLIENTS] by (simp add: MAX_CLIENTS_def del: upt_rec_numeral)
  moreover have "\<not> used (clientTable makeParticipantsDb ! 0)" "nr makeParticipantsDb = 0" by (simp_all add: makeParticipantsDb_def MAX_CLIENTS_def)
  ultimately have "addParticipant makeParticipantsDb a c r p =
      (makeParticipantsDb\<lparr>clientTable := (clientTable makeParticipantsDb)[0 := \<lparr>addr = a, used = True, capabilities = c, rcvbuf = r\<rparr>],
        nr := 1\<rparr>, 0)" for a c r p
    by (simp add: addParticipant_def)
  moreover have "CAP_BIG_ENDIAN OR RECEIVER_CAPABILITIES = RECEIVER_CAPABILITIES" by (simp add: cap_defs)
  moreover have zero: "ntohl 0 = 0" by (simp add: ntohl_def htonl_def)
  moreover have recv: "doReceive 9000 (Some (sample_receiver, m)) = Some (sample_receiver, m)" for m :: connectReq
    by (simp add: doReceive_def sample_receiver_def RECEIVER_PORT_def)
  ultimately have "\<exists>s1. mainDispatcher [] True 0 [WakeReady None {5}] (Some (sample_receiver, msg)) s = Done (s1, 0)
      \<and> db s1 = makeParticipantsDb\<lparr>clientTable := (clientTable makeParticipantsDb)
           [0 := \<lparr>addr = sample_receiver, used = True, capabilities = RECEIVER_CAPABILITIES, rcvbuf = 65536\<rparr>], nr := 1\<rparr>
      \<and> cfg s1 = cfg s"
    using s by (simp add: mainDispatcher_def n sample_selected zero recv has_flag_def handle_request_def msg_def sendConnectionReply_def cap_defs Let_def)
  then obtain s1 where s1: "mainDispatcher [] True 0 [WakeReady None {5}] (Some (sample_receiver, msg)) s = Done (s1, 0)"
      "db s1 = makeParticipantsDb\<lparr>clientTable := (clientTable makeParticipantsDb)
           [0 := \<lparr>addr = sample_receiver, used = True, capabilities = RECEIVER_CAPABILITIES, rcvbuf = 65536\<rparr>], nr := 1\<rparr>"
      "cfg s1 = cfg s" by blast
  have w: "sender_waits [] (\<lambda>_. Some 7) s1" by (rule sender_waits.round [OF sender_waits.start [OF s(1)] s1(1)])
  have n1: "nrParticipants (db s1) = 1" by (simp add: s1 nrParticipants_def)
  then have ptp: "isPointToPoint (db s1) (cfg s1)" by (simp add: isPointToPoint_def s1 s has_flag_def)
  obtain i where "valid (db s1) = {i}"
    using point_to_point_one [OF _ ptp] n1 sender_waits_inv [OF w] by (auto simp: session_inv_def)
  moreover have "0 \<in> valid (db s1)" by (simp add: valid_def s1 makeParticipantsDb_def MAX_CLIENTS_def)
  ultimately have "valid (db s1) = {0}" by auto
  then show ?thesis using s w n1 ptp by (intro exI [of _ s1]) (simp add: s1 makeParticipantsDb_def MAX_CLIENTS_def)
qed

lemma sample_restart: "\<exists>s. start_session (\<lambda>_. Some 7) junk nif duplex ss con c = Done s"
proof -
  have "\<exists>a. control_address (\<lambda>_. Some 7) nif d = Done a" for d
    by (auto simp: control_address_def getBroadCastAddress_def getMcastAllAddress_def safe_inet_aton_def initSockAddress_def)
  moreover have "\<exists>a. data_address nif d = Done a" for d
    by (auto simp: data_address_def getMyAddress_def initSockAddress_def)
  ultimately have "\<exists>e. start_addresses (\<lambda>_. Some 7) nif d = Done e" for d
    by (auto simp: start_addresses_def and_then_Done) blast
  then show ?thesis unfolding start_session_def Let_def and_then_Done by blast
qed

text \<open>
  C12.  Whatever requests the sender has answered before the start, the transfer starts unless
  point-to-point mode finds another number of participants than one: the endianness check never fails.
  The capabilities used are those of the sender that every participant has; the receive buffer
  is the smallest of the participants'; and a transfer to a single participant (with a new
  protocol, without broadcast) goes to its address.
\<close>

theorem negotiated_parameters:
  assumes "sender_waits junk aton s" and "has_flag (cfg s) FLAG_POINTOPOINT \<longrightarrow> nrParticipants (db s) = 1"
  shows "\<exists>s'. transfer_params s = Done s' \<and> db s' = db s
    \<and> (\<forall>b. bit (net_capabilities (cfg s')) b \<longleftrightarrow>
         bit (net_capabilities (cfg s)) b \<and> (\<forall>i \<in> valid (db s). bit (getParticipantCapabilities (db s) i) b))
    \<and> net_rcvbuf (cfg s') = (if valid (db s) = {} then 0 else Min (getParticipantRcvBuf (db s) ` valid (db s)))
    \<and> (isPointToPoint (db s) (cfg s) \<and> net_capabilities (cfg s') AND CAP_NEW_GEN \<noteq> 0 \<and> \<not> has_flag (cfg s) FLAG_BCAST
         \<longrightarrow> (\<exists>i. valid (db s) = {i} \<and> ipIsEqual (dataMcastAddr (cfg s')) (getParticipantIp (db s) i)))"
proof -
  obtain c where c: "transfer_params s = Done (s\<lparr>cfg := fallback_address c\<rparr>)" "flags c = flags (cfg s)"
      "\<forall>b. bit (net_capabilities c) b \<longleftrightarrow> bit (net_capabilities (cfg s)) b \<and> (\<forall>i \<in> valid (db s). bit (getParticipantCapabilities (db s) i) b)"
      "net_rcvbuf c = (if valid (db s) = {} then 0 else Min (getParticipantRcvBuf (db s) ` valid (db s)))"
      "sin_addr (dataMcastAddr c) = (if isPointToPoint (db s) (cfg s) \<and> valid (db s) \<noteq> {}
         then sin_addr (getParticipantIp (db s) (Max (valid (db s)))) else sin_addr (dataMcastAddr (cfg s)))"
    using transfer_params_cfg [OF assms] by blast
  have "\<exists>i. valid (db s) = {i} \<and> ipIsEqual (dataMcastAddr (fallback_address c)) (getParticipantIp (db s) i)"
    if p: "isPointToPoint (db s) (cfg s)" "net_capabilities c AND CAP_NEW_GEN \<noteq> 0" "\<not> has_flag (cfg s) FLAG_BCAST"
  proof -
    have "fallback_address c = c" using p(3) flag_cong [OF c(2)] by (intro fallback_address_none [OF p(2)]) simp
    moreover obtain i where "valid (db s) = {i}"
      using point_to_point_one [OF _ p(1) assms(2)] sender_waits_inv [OF assms(1)] by (auto simp: session_inv_def)
    ultimately show ?thesis using c(5) p(1) by (simp add: ipIsEqual_def)
  qed
  then show ?thesis using c(1,3,4) by (intro exI [of _ "s\<lparr>cfg := fallback_address c\<rparr>"]) (simp add: fallback_address_same)
qed

theorem negotiated_parameters_witness:
  "\<exists>s s'. sender_waits [] (\<lambda>_. Some 7) s \<and> transfer_params s = Done s' \<and> net_rcvbuf (cfg s') = 65536
     \<and> ipIsEqual (dataMcastAddr (cfg s')) sample_receiver"
proof -
  obtain s where s: "sender_waits [] (\<lambda>_. Some 7) s" "flags (cfg s) = 0"
      "clientTable (db s) ! 0 = \<lparr>addr = sample_receiver, used = True, capabilities = RECEIVER_CAPABILITIES, rcvbuf = 65536\<rparr>"
      "net_capabilities (cfg s) = SENDER_CAPABILITIES" and v: "valid (db s) = {0}" and ptp: "isPointToPoint (db s) (cfg s)"
    using sample_connected by blast
  have noflag: "\<not> has_flag (cfg s) f" for f by (simp add: has_flag_def s(2))
  obtain s' where s': "transfer_params s = Done s'"
      "\<forall>b. bit (net_capabilities (cfg s')) b \<longleftrightarrow>
         bit (net_capabilities (cfg s)) b \<and> (\<forall>i \<in> valid (db s). bit (getParticipantCapabilities (db s) i) b)"
      "net_rcvbuf (cfg s') = (if valid (db s) = {} then 0 else Min (getParticipantRcvBuf (db s) ` valid (db s)))"
      "net_capabilities (cfg s') AND CAP_NEW_GEN \<noteq> 0 \<longrightarrow> (\<exists>i. valid (db s) = {i} \<and> ipIsEqual (dataMcastAddr (cfg s')) (getParticipantIp (db s) i))"
    using negotiated_parameters [OF s(1)] noflag ptp by auto
  have "bit (net_capabilities (cfg s')) 0" using s'(2) by (simp add: v s getParticipantCapabilities_def cap_defs bit_or_iff)
  then have "net_capabilities (cfg s') AND CAP_NEW_GEN \<noteq> 0" unfolding CAP_NEW_GEN_def by (metis and_exp_eq_0_iff_not_bit power_0)
  then show ?thesis using s(1) s' by (intro exI [of _ s] exI [of _ s']) (simp add: v s getParticipantRcvBuf_def getParticipantIp_def)
qed

text \<open>
  C21.  \<^verbatim>\<open>mainDispatcher\<close> starts the transfer only for one of the reasons it may: a key was
  pressed, a receiver said so, more hello messages went out than the limit, or, when the
  clients are counted, at least one participant is connected and the longest wait is over or
  enough participants are there and the shortest wait is over.
\<close>

theorem starts_for_a_reason:
  assumes "mainDispatcher junk ok now wakes recv s = Done (s', 1)"
  shows "(\<exists>k ready. WakeReady (Some k) ready \<in> set wakes)
    \<or> (\<exists>client msg. recv = Some (client, msg) \<and> ntohs (q_opCode msg) = CMD_GO)
    \<or> (autostart (cfg s) \<noteq> 0 \<and> tries s' > autostart (cfg s))
    \<or> (\<exists>t first. WakeTimeout t \<in> set wakes \<and> first_ptr (note_first now s) = Some first \<and> nrParticipants (db s) \<noteq> 0
         \<and> (max_receivers_wait (cfg s) \<noteq> 0 \<and> first + max_receivers_wait (cfg s) \<le> t
            \<or> min_receivers (cfg s) \<le> nrParticipants (db s) \<and> (min_receivers_wait (cfg s) = 0 \<or> first + min_receivers_wait (cfg s) \<le> t)))"
    (is "?key \<or> ?go \<or> ?tries \<or> ?waited")
proof (rule ccontr)
  assume no: "\<not> ?thesis"
  have same: "db (note_first now s) = db s" "cfg (note_first now s) = cfg s" by (simp_all add: note_first_def)
  have waited: "checkClientWait (db s) (cfg s) (first_ptr (note_first now s)) t \<Longrightarrow> WakeTimeout t \<in> set wakes \<Longrightarrow> ?waited" for t
    by (auto simp: checkClientWait_def split: option.splits if_splits)
  have nokey: "start_wait junk ls ws u = Done (u', Woken n (Some k) ready) \<Longrightarrow> WakeReady (Some k) ready \<in> set ws" for ls ws u u' n k ready
  proof (induction ws arbitrary: u)
    case (Cons w ws)
    then show ?case by (cases w) (auto simp: Let_def split: if_splits)
  qed simp
  have woken: "n2 \<noteq> 1 \<and> tries s2 = tries s1" if w: "start_wait junk now wakes (note_first now s) = Done (s1, Woken n key ready)"
      "woken_as s1 n key s2 n2" and t: "tries s' = tries s1" for s1 n key ready s2 n2
  proof -
    have "key = None" using nokey w(1) no by (cases key) blast+
    moreover from this have "n2 = n" "s2 = s1" using w(2) by (simp_all add: woken_as_def)
    moreover have "n \<noteq> 1"
    proof
      assume n: "n = 1"
      from start_wait_spec [OF w(1)] n
      have "autostart (cfg s) \<noteq> 0 \<and> tries s1 > autostart (cfg s)
          \<or> (\<exists>t. WakeTimeout t \<in> set wakes \<and> checkClientWait (db s) (cfg s) (first_ptr (note_first now s)) t)"
        unfolding same by auto
      then show False using no waited t by (metis (no_types, lifting))
    qed
    ultimately show ?thesis by simp
  qed
  from assms show False
  proof (rule mainDispatcher_cases)
    fix s1 n key ready s2 n2
    assume w: "start_wait junk now wakes (note_first now s) = Done (s1, Woken n key ready)" "woken_as s1 n key s2 n2"
      and "s' = s2" "1 = n2 \<and> getSelectedSock (fds s2) ready = -1 \<or> (1 :: int) = 0"
    moreover have "tries s2 = tries s1" using w(2) by (simp add: woken_as_def split: if_splits)
    ultimately show False using woken [OF w] by simp
  next
    fix s1 n key ready s2 n2 client msg
    assume w: "start_wait junk now wakes (note_first now s) = Done (s1, Woken n key ready)" "woken_as s1 n key s2 n2"
      and r: "doReceive (portBase (cfg s2)) recv = Some (client, msg)" and h: "handle_request junk ok s2 n2 client msg = Done (s', 1)"
    have "ntohs (q_opCode msg) \<noteq> CMD_GO" using no doReceive_Some [OF r] by blast
    then have "n2 = 1" "tries s' = tries s2"
      using h by (auto simp: handle_request_def Let_def and_then_Done sendConnectionReply_def send_event_def split: if_splits prod.splits)
    moreover have "tries s2 = tries s1" using w(2) by (simp add: woken_as_def split: if_splits)
    ultimately show False using woken [OF w] by simp
  qed simp
qed

theorem starts_for_a_reason_witness:
  "\<exists>s s'. mainDispatcher [] True 0 [WakeTimeout 1, WakeTimeout 2] None s = Done (s', 1) \<and> autostart (cfg s) \<noteq> 0 \<and> tries s' > autostart (cfg s)"
proof -
  obtain s :: sender_session where s: "fds s = [5]" "db s = makeParticipantsDb" "flags (cfg s) = 0" "autostart (cfg s) = 1"
      "rexmit_hello_interval (cfg s) = 1000" "tries s = 0" "startTimeout (cfg s) = 0"
    using sample_started by blast
  have nr: "nr makeParticipantsDb = 0" by (simp add: makeParticipantsDb_def)
  then have "note_first 0 s = s" by (simp add: note_first_def s nrParticipants_def)
  moreover have "\<not> checkClientWait makeParticipantsDb c first t" for c first t
    by (cases first) (simp_all add: checkClientWait_def nrParticipants_def nr)
  ultimately have "\<exists>s'. mainDispatcher [] True 0 [WakeTimeout 1, WakeTimeout 2] None s = Done (s', 1)"
    by (simp add: mainDispatcher_def has_timeout_def s sample_selected cong: if_cong)
  then obtain s' where "mainDispatcher [] True 0 [WakeTimeout 1, WakeTimeout 2] None s = Done (s', 1)" by blast
  moreover from starts_for_a_reason [OF this] have "1 < tries s'" using s nr by (auto simp: nrParticipants_def)
  ultimately show ?thesis using s(4) by (intro exI [of _ s] exI [of _ s']) simp
qed

text \<open>
  A key pressed on the sender can be lost: when a packet is waiting at the same time and the
  transfer is asynchronous, or the packet cannot be read, \<^verbatim>\<open>mainDispatcher\<close> returns 0, which
  does not start the transfer, although it has closed the console, so no other key is seen.
\<close>

theorem key_press_lost:
  assumes "has_console s" and "k \<noteq> CHR ''q''" and "getSelectedSock (fds s) ready \<noteq> -1"
    and "doReceive (portBase (cfg s)) recv = None \<or> has_flag (cfg s) FLAG_ASYNC"
  shows "\<exists>s'. mainDispatcher junk ok now [WakeReady (Some k) ready] recv s = Done (s', 0) \<and> \<not> has_console s'"
proof -
  have "start_wait junk now [WakeReady (Some k) ready] (note_first now s) = Done (note_first now s, Woken 0 (Some k) ready)"
    using assms(1) by (simp add: note_first_def)
  moreover have "fds (note_first now s) = fds s" "cfg (note_first now s) = cfg s" by (simp_all add: note_first_def)
  ultimately show ?thesis using assms(2-4) by (cases "doReceive (portBase (cfg s)) recv") (auto simp: mainDispatcher_def)
qed

theorem key_press_lost_witness:
  "\<exists>s s'. start_session (\<lambda>_. Some 7) [] sample_nif 0 [5] True sample_session = Done s
     \<and> mainDispatcher [] True 0 [WakeReady (Some CHR ''x'') {5}] None s = Done (s', 0) \<and> \<not> has_console s'"
proof -
  obtain s where s: "start_session (\<lambda>_. Some 7) [] sample_nif 0 [5] True sample_session = Done s" "has_console s" "fds s = [5]"
    using sample_started by blast
  have "getSelectedSock (fds s) {5} \<noteq> -1" by (simp add: s sample_selected)
  then show ?thesis using key_press_lost [OF s(2), of "CHR ''x''" "{5}" None "[]" True 0] s(1)
    by (auto simp: doReceive_def)
qed

text \<open>
  C35.  A sender that runs as a daemon keeps the address of a point-to-point transfer: after a transfer to a
  single participant, which goes to its address, the next session, in which any number of
  receivers may connect, announces that address in its hello messages as the address of the data.
\<close>

theorem daemon_keeps_unicast_address:
  assumes "sender_waits junk aton s" and "valid (db s) = {i}" and "isPointToPoint (db s) (cfg s)"
    and "\<not> has_flag (cfg s) (FLAG_POINTOPOINT OR FLAG_BCAST)" and "sin_addr (getParticipantIp (db s) i) \<noteq> 0"
    and "net_capabilities (cfg s) AND getParticipantCapabilities (db s) i AND CAP_NEW_GEN \<noteq> 0"
    and "transfer_params s = Done s1" and "start_session aton junk nif duplex ss con (cfg s1) = Done s2"
  shows "ipIsEqual (dataMcastAddr (cfg s2)) (getParticipantIp (db s) i)
    \<and> (\<exists>h a. List.last (sent s2) = SendControl h a \<and> ipIsEqual (copyFromMessage x (c_mcastAddr h)) (getParticipantIp (db s) i))"
proof -
  have noflags: "\<not> has_flag (cfg s) FLAG_POINTOPOINT" "\<not> has_flag (cfg s) FLAG_BCAST"
    using assms(4) by (auto simp: has_flag_def bit.conj_disj_distrib or_eq_0_iff)
  obtain c where c: "transfer_params s = Done (s\<lparr>cfg := fallback_address c\<rparr>)" "flags c = flags (cfg s)"
      "\<forall>b. bit (net_capabilities c) b \<longleftrightarrow> bit (net_capabilities (cfg s)) b \<and> (\<forall>i \<in> valid (db s). bit (getParticipantCapabilities (db s) i) b)"
      "sin_addr (dataMcastAddr c) = sin_addr (getParticipantIp (db s) i)"
    using transfer_params_cfg [OF assms(1)] noflags(1) assms(2,3) by auto
  have "net_capabilities c = net_capabilities (cfg s) AND getParticipantCapabilities (db s) i"
    using c(3) assms(2) by (auto simp: bit_eq_iff bit_and_iff)
  then have "fallback_address c = c"
    using assms(6) noflags(2) flag_cong [OF c(2)] by (intro fallback_address_none) (simp_all add: and.assoc)
  then have s1: "cfg s1 = c" using c(1) assms(7) by simp
  define c1 where "c1 = (if flags c AND (FLAG_SN OR FLAG_NOTSN) = 0 \<and> duplex = 1 then set_flag FLAG_SN c else c)"
  have "has_flag c1 FLAG_POINTOPOINT = has_flag c FLAG_POINTOPOINT"
    by (simp add: c1_def has_flag_def set_flag_def bit.conj_disj_distrib2 FLAG_SN_def FLAG_POINTOPOINT_def)
  then have c1: "\<not> has_flag c1 FLAG_POINTOPOINT" "sin_addr (dataMcastAddr c1) = sin_addr (getParticipantIp (db s) i)"
    using noflags(1) flag_cong [OF c(2)] c(4) by (simp_all add: c1_def set_flag_def)
  have addr: "sin_addr (dataMcastAddr c2) = sin_addr (getParticipantIp (db s) i)" if "start_addresses aton nif c1 = Done c2" for c2
    using that c1 assms(5) by (auto simp: start_addresses_def data_address_def and_then_Done ipIsZero_def setPort_def)
  obtain c2 where c2: "start_addresses aton nif c1 = Done c2" "dataMcastAddr (cfg s2) = dataMcastAddr c2"
      "List.last (sent s2) = SendControl (hello_msg junk (cfg s2) False) (controlMcastAddr (cfg s2))"
    using assms(8) unfolding s1 start_session_def Let_def c1_def [symmetric]
    by (auto simp: and_then_Done sendHello_def send_event_def)
  then show ?thesis using addr [OF c2(1)] by (simp add: ipIsEqual_def hello_msg_def copyFromMessage_def copyToMessage_def)
qed

theorem daemon_keeps_unicast_address_witness:
  "\<exists>s s1 s2. sender_waits [] (\<lambda>_. Some 7) s \<and> transfer_params s = Done s1
     \<and> start_session (\<lambda>_. Some 7) [] sample_nif 0 [5] True (cfg s1) = Done s2 \<and> ipIsEqual (dataMcastAddr (cfg s2)) sample_receiver"
proof -
  obtain s where s: "sender_waits [] (\<lambda>_. Some 7) s" "valid (db s) = {0}" "isPointToPoint (db s) (cfg s)" "flags (cfg s) = 0"
      "clientTable (db s) ! 0 = \<lparr>addr = sample_receiver, used = True, capabilities = RECEIVER_CAPABILITIES, rcvbuf = 65536\<rparr>"
      "net_capabilities (cfg s) = SENDER_CAPABILITIES"
    using sample_connected by blast
  have noflag: "\<not> has_flag (cfg s) f" for f by (simp add: has_flag_def s(4))
  obtain s1 where s1: "transfer_params s = Done s1" using transfer_params_cfg [OF s(1)] noflag by blast
  obtain s2 where s2: "start_session (\<lambda>_. Some 7) [] sample_nif 0 [5] True (cfg s1) = Done s2" using sample_restart by blast
  have ip: "getParticipantIp (db s) 0 = sample_receiver" by (simp add: getParticipantIp_def s(5))
  have "net_capabilities (cfg s) AND getParticipantCapabilities (db s) 0 AND CAP_NEW_GEN \<noteq> 0"
    by (simp add: s getParticipantCapabilities_def cap_defs)
  from daemon_keeps_unicast_address [OF s(1-3) noflag _ this s1 s2] show ?thesis
    using s(1) s1 s2 by (auto simp: ip sample_receiver_def)
qed

end
