(* ===== verification/ReceiverStart.thy ===== *)
theory ReceiverStart
  imports SenderStart ReceiveData
begin

text \<open>
  The receiver before the transfer, \<^verbatim>\<open>src/udpr-negotiate.c\<close>: it asks for a connection,
  waits for the reply or, as a passive receiver, for a hello message, and takes from it the
  parameters of the transfer.

  \<open>junk\<close> and the times are not needed here; \<open>rb\<close> is what \<^verbatim>\<open>getRcvBuf\<close> returns for the socket
  of the receiver and \<open>mk\<close> the descriptor that \<^verbatim>\<open>makeSocket\<close> returns for each kind of socket.
\<close>

subsection \<open>State\<close>

definition FLAG_PASSIVE :: u32 where "FLAG_PASSIVE = 0x0010"

record receiver_session =
  rcfg :: session_config
  net_blockSize :: int \<comment> \<open>the C value of \<^verbatim>\<open>net_config->blockSize\<close>, as it comes from the wire\<close>
  socks :: "int list"
  rserverAddr :: sockaddr_in
  rclientNumber :: int
  newgen :: bool \<comment> \<open>\<^verbatim>\<open>sender_is_newgen\<close>\<close>
  connectReqSent :: bool
  haveServerAddress :: bool
  requests :: "control_event list"

subsection \<open>Messages\<close>

definition connect_request :: "u32 \<Rightarrow> connectReq" where
  "connect_request rb = \<lparr>q_opCode = htons CMD_CONNECT_REQ, q_capabilities = htonl RECEIVER_CAPABILITIES, q_rcvbuf = htonl rb\<rparr>"

definition sendConnectReq :: "u32 \<Rightarrow> receiver_session \<Rightarrow> receiver_session" where
  "sendConnectReq rb s =
     (if has_flag (rcfg s) FLAG_PASSIVE then s
      else s\<lparr>requests := requests s @ [SendRequest (connect_request rb)
               (if haveServerAddress s then rserverAddr s else controlMcastAddr (rcfg s))]\<rparr>)"

definition sendDisconnect :: "receiver_session \<Rightarrow> receiver_session" where
  \<comment> \<open>a \<^verbatim>\<open>struct disconnect\<close> ends after the opcode and the reserved field\<close>
  "sendDisconnect s =
     s\<lparr>requests := requests s @ [SendRequest \<lparr>q_opCode = htons CMD_DISCONNECT, q_capabilities = 0, q_rcvbuf = 0\<rparr> (rserverAddr s)]\<rparr>"

subsection \<open>The start\<close>

definition start_receiver :: "(string \<Rightarrow> u32 option) \<Rightarrow> net_if \<Rightarrow> (addr_type \<Rightarrow> int) \<Rightarrow> session_config \<Rightarrow> receiver_session outcome" where
  \<comment> \<open>\<^verbatim>\<open>startReceiver\<close> up to its loop\<close>
  "start_receiver aton nif mk c =
     (let ss = (zeroSockArray NR_CLIENT_SOCKS)[0 := mk ADDR_TYPE_UCAST, 1 := mk ADDR_TYPE_BCAST];
          port = of_int (SENDER_PORT (portBase c))
      in and_then
           (if ttl c = 1 \<and> mcastRdv c = None
            then and_then (getBroadCastAddress (Some nif) port) (\<lambda>a. Done (c\<lparr>controlMcastAddr := a\<rparr>, ss))
            else and_then (getMcastAllAddress aton (mcastRdv c) port) (\<lambda>a.
              Done (c\<lparr>controlMcastAddr := a\<rparr>, if isMcastAddress a then ss[2 := mk ADDR_TYPE_MCAST] else ss)))
           (\<lambda>(c, ss). Done
              \<lparr>rcfg = c\<lparr>dataMcastAddr := clearIp (dataMcastAddr c)\<rparr>, net_blockSize = int (blockSize c), socks = ss,
               rserverAddr = \<lparr>sin_family = 0, sin_port = 0, sin_addr = 0\<rparr>, rclientNumber = 0, newgen = False,
               connectReqSent = False, haveServerAddress = False, requests = []\<rparr>))"

subsection \<open>Waiting for the sender\<close>

definition ask :: "u32 \<Rightarrow> receiver_session \<Rightarrow> receiver_session" where
  \<comment> \<open>a round of the loop up to \<^verbatim>\<open>udpc_selectSock\<close>\<close>
  "ask rb s =
     (let s = (if \<not> connectReqSent s then (sendConnectReq rb s)\<lparr>connectReqSent := True\<rparr> else s)
      in s\<lparr>haveServerAddress := False\<rparr>)"

definition take_reply :: "serverControlMsg \<Rightarrow> receiver_session \<Rightarrow> (receiver_session \<times> bool) outcome" where
  \<comment> \<open>the case \<^verbatim>\<open>CMD_CONNECT_REPLY\<close>\<close>
  "take_reply msg s =
     (let s = s\<lparr>rclientNumber := ntohl_int (c_clNr msg), net_blockSize := ntohl_int (c_blockSize msg)\<rparr>;
          s = (if ntohl (c_capabilities msg) AND CAP_NEW_GEN \<noteq> 0
               then s\<lparr>newgen := True, rcfg := (rcfg s)\<lparr>dataMcastAddr := copyFromMessage (dataMcastAddr (rcfg s)) (c_mcastAddr msg)\<rparr>\<rparr>
               else s)
      in if rclientNumber s = -1 then Aborts else Done (s, True))"

definition take_hello :: "serverControlMsg \<Rightarrow> receiver_session \<Rightarrow> receiver_session \<times> bool" where
  \<comment> \<open>the cases \<^verbatim>\<open>CMD_HELLO_STREAMING\<close>, \<^verbatim>\<open>CMD_HELLO_NEW\<close> and \<^verbatim>\<open>CMD_HELLO\<close>\<close>
  "take_hello msg s =
     (let s = s\<lparr>connectReqSent := False\<rparr>;
          s = (if ntohs (c_opCode msg) = CMD_HELLO_STREAMING then s\<lparr>rcfg := set_flag FLAG_RSTREAMING (rcfg s)\<rparr> else s)
      in if ntohl (c_capabilities msg) AND CAP_NEW_GEN \<noteq> 0 then
           let s = s\<lparr>newgen := True, rcfg := (rcfg s)\<lparr>dataMcastAddr := copyFromMessage (dataMcastAddr (rcfg s)) (c_mcastAddr msg)\<rparr>,
                     net_blockSize := uint (ntohs (c_helloBlockSize msg))\<rparr>;
               s = (if ntohl (c_capabilities msg) AND CAP_ASYNC \<noteq> 0 then s\<lparr>rcfg := set_flag FLAG_PASSIVE (rcfg s)\<rparr> else s)
           in if has_flag (rcfg s) FLAG_PASSIVE then (s, True) else (s\<lparr>haveServerAddress := True\<rparr>, False)
         else (s\<lparr>haveServerAddress := True\<rparr>, False))"

definition server_msg :: "serverControlMsg \<Rightarrow> receiver_session \<Rightarrow> (receiver_session \<times> bool) outcome" where
  \<comment> \<open>a message received; with whether the loop ends\<close>
  "server_msg msg s =
     (let op = ntohs (c_opCode msg)
      in if uint (getPort (rserverAddr s)) \<noteq> SENDER_PORT (portBase (rcfg s)) then Done (s, False)
         else if op = CMD_CONNECT_REPLY then take_reply msg s
         else if op = CMD_HELLO_STREAMING \<or> op = CMD_HELLO_NEW \<or> op = CMD_HELLO then Done (take_hello msg s)
         else if op = CMD_CONNECT_REQ \<or> op = CMD_DATA \<or> op = CMD_FEC then Done (s, False)
         else Aborts)"

datatype r_event =
    SelectFails
  | Silence \<comment> \<open>the start timeout expires\<close>
  | Arrives "(sockaddr_in \<times> serverControlMsg) option" \<comment> \<open>what \<^verbatim>\<open>recvfrom\<close> delivers; the fields a short packet lacks are arbitrary\<close>

fun hello_loop :: "u32 \<Rightarrow> r_event list \<Rightarrow> receiver_session \<Rightarrow> (receiver_session \<times> int) outcome" where
  \<comment> \<open>the loop of \<^verbatim>\<open>startReceiver\<close>; with 0 when connected and -1 when it returns before\<close>
  "hello_loop rb [] s = Blocks"
| "hello_loop rb (ev # evs) s =
     (let s = ask rb s
      in case ev of
           SelectFails \<Rightarrow> Done (s, -1)
         | Silence \<Rightarrow> if startTimeout (rcfg s) = 0 then Blocks else Done (s, -1)
         | Arrives packet \<Rightarrow>
             and_then (or_abort (doReceive (portBase (rcfg s)) packet)) (\<lambda>(srv, msg).
               and_then (server_msg msg (s\<lparr>rserverAddr := srv\<rparr>)) (\<lambda>(s, connected).
                 if connected then Done (s, 0) else hello_loop rb evs s)))"

subsection \<open>The transfer\<close>

definition listen_data :: "net_if \<Rightarrow> (addr_type \<Rightarrow> int) \<Rightarrow> receiver_session \<Rightarrow> receiver_session outcome" where
  \<comment> \<open>the socket for the multicast data\<close>
  "listen_data nif mk s =
     and_then (getMyAddress (Some nif)) (\<lambda>myIp.
       let d = dataMcastAddr (rcfg s); c = controlMcastAddr (rcfg s)
       in Done (if \<not> ipIsZero d \<and> \<not> ipIsEqual d myIp \<and> (ipIsZero c \<or> \<not> ipIsEqual d c)
                then s\<lparr>socks := (socks s)[3 := mk ADDR_TYPE_MCAST]\<rparr> else s))"

definition startReceiver :: "(string \<Rightarrow> u32 option) \<Rightarrow> net_if \<Rightarrow> (addr_type \<Rightarrow> int) \<Rightarrow> u32 \<Rightarrow> r_event list
    \<Rightarrow> (bool \<Rightarrow> receiver_session \<Rightarrow> (receiver_session \<times> int) outcome) \<Rightarrow> session_config \<Rightarrow> (receiver_session \<times> int) outcome" where
  \<comment> \<open>\<open>transfer console\<close> is the run of the threads and of the pipe; with the value returned\<close>
  "startReceiver aton nif mk rb evs transfer c =
     and_then (start_receiver aton nif mk c) (\<lambda>s.
     and_then (hello_loop rb evs s) (\<lambda>(s, r).
       if r = -1 then Done (s, -1)
       else and_then (listen_data nif mk s) (\<lambda>s.
            and_then (transfer (\<not> has_flag (rcfg s) (FLAG_PASSIVE OR FLAG_NOKBD)) s) (\<lambda>(s, ret).
              Done (sendDisconnect s, ret)))))"

subsection \<open>Lemmas\<close>

lemma ask_same [simp]:
  "rcfg (ask rb s) = rcfg s" "rclientNumber (ask rb s) = rclientNumber s" "newgen (ask rb s) = newgen s" "socks (ask rb s) = socks s"
  "rserverAddr (ask rb s) = rserverAddr s"
  by (simp_all add: ask_def sendConnectReq_def Let_def)

lemma has_set_flag: "f AND g = 0 \<Longrightarrow> has_flag (set_flag f c) g = has_flag c g"
  by (simp add: has_flag_def set_flag_def bit.conj_disj_distrib2)

lemma passive_not_streaming [simp]: "has_flag (set_flag FLAG_RSTREAMING c) FLAG_PASSIVE = has_flag c FLAG_PASSIVE"
  by (rule has_set_flag) (simp add: FLAG_RSTREAMING_def FLAG_PASSIVE_def)

definition accepted :: "receiver_session \<Rightarrow> sockaddr_in \<Rightarrow> serverControlMsg \<Rightarrow> receiver_session \<Rightarrow> bool" where
  \<comment> \<open>\<open>s'\<close> is connected by the message, from a receiver with the flags of \<open>s\<close>\<close>
  "accepted s srv msg s' \<longleftrightarrow>
     rserverAddr s' = srv \<and> uint (getPort srv) = SENDER_PORT (portBase (rcfg s))
     \<and> (ntohs (c_opCode msg) = CMD_CONNECT_REPLY \<and> ntohl_int (c_clNr msg) \<noteq> -1 \<and> rclientNumber s' = ntohl_int (c_clNr msg)
          \<and> net_blockSize s' = ntohl_int (c_blockSize msg)
        \<or> ntohs (c_opCode msg) \<in> {CMD_HELLO_STREAMING, CMD_HELLO_NEW, CMD_HELLO}
          \<and> ntohl (c_capabilities msg) AND CAP_NEW_GEN \<noteq> 0
          \<and> (has_flag (rcfg s) FLAG_PASSIVE \<or> ntohl (c_capabilities msg) AND CAP_ASYNC \<noteq> 0)
          \<and> rclientNumber s' = rclientNumber s \<and> net_blockSize s' = uint (ntohs (c_helloBlockSize msg)))"

lemma take_hello_cases:
  assumes "take_hello msg s = (s', b)"
  shows "rserverAddr s' = rserverAddr s \<and> rclientNumber s' = rclientNumber s \<and> portBase (rcfg s') = portBase (rcfg s)
    \<and> (if b then ntohl (c_capabilities msg) AND CAP_NEW_GEN \<noteq> 0 \<and> net_blockSize s' = uint (ntohs (c_helloBlockSize msg))
           \<and> (has_flag (rcfg s) FLAG_PASSIVE \<or> ntohl (c_capabilities msg) AND CAP_ASYNC \<noteq> 0)
       else has_flag (rcfg s') FLAG_PASSIVE = has_flag (rcfg s) FLAG_PASSIVE)"
  using assms unfolding take_hello_def Let_def
  by (auto simp: has_flag_def set_flag_def bit.conj_disj_distrib2 FLAG_RSTREAMING_def FLAG_PASSIVE_def split: if_splits)

lemma server_msg_cases:
  assumes "server_msg msg s = Done (s', b)"
  shows "rserverAddr s' = rserverAddr s
    \<and> (if b then accepted s (rserverAddr s) msg s'
       else rclientNumber s' = rclientNumber s \<and> portBase (rcfg s') = portBase (rcfg s)
         \<and> has_flag (rcfg s') FLAG_PASSIVE = has_flag (rcfg s) FLAG_PASSIVE)"
proof -
  have "server_msg msg s = Done (s', b) \<Longrightarrow> take_hello msg s = (s', b) \<Longrightarrow> uint (getPort (rserverAddr s)) = SENDER_PORT (portBase (rcfg s))
      \<Longrightarrow> ntohs (c_opCode msg) \<in> {CMD_HELLO_STREAMING, CMD_HELLO_NEW, CMD_HELLO} \<Longrightarrow> ?thesis"
    using take_hello_cases [of msg s s' b] by (auto simp: accepted_def)
  then show ?thesis
    using assms by (auto simp: server_msg_def take_reply_def accepted_def Let_def split: if_splits)
qed

lemma hello_loop_connects:
  assumes "hello_loop rb evs s = Done (s', 0)"
  shows "\<exists>srv msg. Arrives (Some (srv, msg)) \<in> set evs \<and> accepted s srv msg s'"
  using assms
proof (induction evs arbitrary: s)
  case (Cons ev evs)
  obtain packet where ev: "ev = Arrives packet" using Cons.prems by (cases ev) (auto split: if_splits)
  obtain srv msg where p: "packet = Some (srv, msg)"
    using Cons.prems doReceive_Some by (fastforce simp: ev and_then_Done or_abort_Done)
  define s1 where "s1 = (ask rb s)\<lparr>rserverAddr := srv\<rparr>"
  obtain s2 b where m: "server_msg msg s1 = Done (s2, b)" and b: "if b then s' = s2 else hello_loop rb evs s2 = Done (s', 0)"
    using Cons.prems doReceive_Some by (fastforce simp: ev p s1_def and_then_Done or_abort_Done split: if_splits)
  note c = server_msg_cases [OF m]
  show ?case
  proof (cases b)
    case True
    then show ?thesis using b c by (auto simp: ev p accepted_def s1_def)
  next
    case False
    then obtain srv' msg' where "Arrives (Some (srv', msg')) \<in> set evs" "accepted s2 srv' msg' s'"
      using Cons.IH [of s2] b by auto
    then show ?thesis using c False by (auto simp: accepted_def s1_def)
  qed
qed simp

lemma waits_capabilities:
  "sender_waits junk aton s \<Longrightarrow> net_capabilities (cfg s) \<in> {SENDER_CAPABILITIES, SENDER_CAPABILITIES OR CAP_ASYNC}"
proof (induction rule: sender_waits.induct)
  case (start nif duplex socks con c s)
  then show ?case by (auto simp: start_session_def Let_def and_then_Done)
next
  case (round s ok now wakes recv s' r)
  have start: "net_capabilities (cfg s1) = net_capabilities (cfg s)" if "start_wait junk now wakes (note_first now s) = Done (s1, e)" for s1 e
    using start_wait_spec [OF that] by (simp add: note_first_def)
  have woken: "net_capabilities (cfg s2) = net_capabilities (cfg s1)" if "woken_as s1 n key s2 n2" for s1 n key s2 n2
    using that by (simp add: woken_as_def split: if_splits)
  have request: "net_capabilities (cfg s2) = net_capabilities (cfg s1)" if "handle_request junk ok s1 n client msg = Done (s2, m)" for s1 s2 n client msg m
    using that by (auto simp: handle_request_def sendConnectionReply_def and_then_Done Let_def split: if_splits prod.splits)
  have "net_capabilities (cfg s') = net_capabilities (cfg s)"
    by (rule mainDispatcher_cases [OF round.hyps(2)]) (auto dest!: start woken request)
  then show ?case using round.IH by simp
qed

lemma new_gen_capabilities: "c \<in> {SENDER_CAPABILITIES, SENDER_CAPABILITIES OR CAP_ASYNC} \<Longrightarrow> c AND CAP_NEW_GEN \<noteq> 0"
  by (auto simp: cap_defs)

subsection \<open>A receiver\<close>

definition sample_sender :: sockaddr_in where
  "sample_sender = \<lparr>sin_family = 2, sin_port = htons 9001, sin_addr = 9\<rparr>"

definition sample_hello :: serverControlMsg where
  "sample_hello = hello_msg [] (sample_session\<lparr>net_capabilities := CAP_NEW_GEN OR CAP_ASYNC\<rparr>) False"

lemma sample_ports: "uint (getPort sample_sender) = 9001" "uint (getPort sample_receiver) = 9000"
  by (simp_all add: getPort_def sample_sender_def sample_receiver_def)

lemma sample_waiting:
  "\<exists>r. start_receiver (\<lambda>_. None) sample_nif (\<lambda>_. 5) sample_session = Done r \<and> portBase (rcfg r) = 9000"
  by (simp add: start_receiver_def sample_session_def sample_nif_def getBroadCastAddress_def initSockAddress_def)

subsection \<open>Properties\<close>

text \<open>
  C11.  The request of a receiver and the reply of the sender agree: when a waiting sender that is not
  asynchronous gets the request, it answers with a message that, once it arrives, connects the receiver
  under the number of its entry in the table of participants, with the block size and the data
  address of the sender; and when the table has no entry for it the receiver gives up.
\<close>

theorem handshake_agrees:
  assumes "sender_waits junk aton s" and "\<not> has_flag (cfg s) FLAG_ASYNC" and "blockSize (cfg s) < 2 ^ 31"
    and "getSelectedSock (fds s) ready \<noteq> -1" and "uint (getPort client) = RECEIVER_PORT (portBase (cfg s))"
    and "uint (getPort server) = SENDER_PORT (portBase (rcfg r))"
  shows "\<exists>s' reply. mainDispatcher junk True now [WakeReady None ready] (Some (client, connect_request rb)) s = Done (s', 0)
    \<and> List.last (sent s') = SendControl reply client
    \<and> (if lookupParticipant (db s') client = -1 then hello_loop rb' [Arrives (Some (server, reply))] r = Aborts
       else \<exists>r'. hello_loop rb' [Arrives (Some (server, reply))] r = Done (r', 0)
         \<and> rclientNumber r' = lookupParticipant (db s') client \<and> net_blockSize r' = int (blockSize (cfg s'))
         \<and> newgen r' \<and> ipIsEqual (dataMcastAddr (rcfg r')) (dataMcastAddr (cfg s')))"
proof -
  define s0 where "s0 = note_first now s"
  have s0: "db s0 = db s" "cfg s0 = cfg s" "fds s0 = fds s" by (simp_all add: s0_def note_first_def)
  define rcv where "rcv = (if rb = 0 then 65536 else rb)"
  define caps where "caps = CAP_BIG_ENDIAN OR RECEIVER_CAPABILITIES"
  have caps: "caps AND CAP_BIG_ENDIAN \<noteq> 0" by (simp add: caps_def cap_defs)
  obtain pdb i where p: "addParticipant (db s) client caps rcv (has_flag (cfg s) FLAG_POINTOPOINT) = (pdb, i)" by force
  have inv: "db_inv (db s)" using sender_waits_inv [OF assms(1)] by (simp add: session_inv_def)
  have i: "lookupParticipant pdb client = i" using table.add_law [OF inv p] by simp
  have range: "-(2^31) \<le> i" "i < 2^31" using addParticipant_range [OF inv p] by (simp_all add: MAX_CLIENTS_def)
  define c where "c = (if has_flag (cfg s) FLAG_POINTOPOINT then (cfg s)\<lparr>dataMcastAddr := copyIpFrom (dataMcastAddr (cfg s)) client\<rparr> else cfg s)"
  have c: "blockSize c = blockSize (cfg s)" "net_capabilities c = net_capabilities (cfg s)" by (simp_all add: c_def)
  define reply where "reply = \<lparr>c_opCode = htons CMD_CONNECT_REPLY, c_clNr = htonl_int i,
      c_blockSize = htonl_int (int (blockSize c)), c_capabilities = ntohl (net_capabilities c),
      c_mcastAddr = copyToMessage junk (dataMcastAddr c), c_helloBlockSize = 0\<rparr>"
  have "doReceive (portBase (cfg s)) (Some (client, connect_request rb)) = Some (client, connect_request rb)"
    using assms(5) by (simp add: doReceive_def getPort_def)
  then have "\<exists>s'. mainDispatcher junk True now [WakeReady None ready] (Some (client, connect_request rb)) s = Done (s', 0)
      \<and> List.last (sent s') = SendControl reply client \<and> db s' = pdb \<and> cfg s' = c"
    using assms(2,4) caps p unfolding mainDispatcher_def s0_def [symmetric]
    by (simp add: s0 handle_request_def sendConnectionReply_def connect_request_def caps_def [symmetric] rcv_def [symmetric] send_event_def
        reply_def c_def Let_def)
  then obtain s' where s': "mainDispatcher junk True now [WakeReady None ready] (Some (client, connect_request rb)) s = Done (s', 0)"
      "List.last (sent s') = SendControl reply client" "db s' = pdb" "cfg s' = c" by blast
  have "doReceive (portBase (rcfg r)) (Some (server, reply)) = Some (server, reply)"
    using assms(6) by (simp add: doReceive_def getPort_def)
  moreover have "net_capabilities c AND CAP_NEW_GEN \<noteq> 0"
    using new_gen_capabilities [OF waits_capabilities [OF assms(1)]] by (simp add: c)
  moreover have twice: "ntohl (ntohl x) = x" for x by (metis ntohl_def ntohl_htonl)
  ultimately have "hello_loop rb' [Arrives (Some (server, reply))] r =
      (if i = -1 then Aborts
       else Done ((ask rb' r)\<lparr>rserverAddr := server, rclientNumber := i, net_blockSize := int (blockSize c), newgen := True,
              rcfg := (rcfg r)\<lparr>dataMcastAddr := copyFromMessage (dataMcastAddr (rcfg r)) (copyToMessage junk (dataMcastAddr c))\<rparr>\<rparr>, 0))"
    using assms(3,6) range twice by (simp add: server_msg_def take_reply_def reply_def c Let_def)
  then show ?thesis
    using s' i by (intro exI [of _ s'] exI [of _ reply]) (simp add: ipIsEqual_def copyFromMessage_def copyToMessage_def)
qed

theorem handshake_agrees_witness:
  "\<exists>r (s' :: sender_session) reply. start_receiver (\<lambda>_. None) sample_nif (\<lambda>_. 5) sample_session = Done r
     \<and> List.last (sent s') = SendControl reply sample_receiver
     \<and> (if lookupParticipant (db s') sample_receiver = -1 then hello_loop 0 [Arrives (Some (sample_sender, reply))] r = Aborts
        else \<exists>r'. hello_loop 0 [Arrives (Some (sample_sender, reply))] r = Done (r', 0)
          \<and> rclientNumber r' = lookupParticipant (db s') sample_receiver)"
proof -
  obtain r where r: "start_receiver (\<lambda>_. None) sample_nif (\<lambda>_. 5) sample_session = Done r" "portBase (rcfg r) = 9000"
    using sample_waiting by blast
  obtain s where s: "start_session (\<lambda>_. Some 7) [] sample_nif 0 [5] True sample_session = Done s" "fds s = [5]"
      "flags (cfg s) = 0" "portBase (cfg s) = 9000" "blockSize (cfg s) = 1456"
    using sample_started by blast
  have "getSelectedSock (fds s) {5} \<noteq> -1" "\<not> has_flag (cfg s) FLAG_ASYNC" "blockSize (cfg s) < 2 ^ 31"
    "uint (getPort sample_receiver) = RECEIVER_PORT (portBase (cfg s))" "uint (getPort sample_sender) = SENDER_PORT (portBase (rcfg r))"
    using sample_ports by (simp_all add: s r sample_selected has_flag_def RECEIVER_PORT_def SENDER_PORT_def)
  note h = handshake_agrees [OF sender_waits.start [OF s(1)] this(2,3,1,4,5), of 0 0 0]
  from h obtain s' :: sender_session and reply where "List.last (sent s') = SendControl reply sample_receiver"
      "if lookupParticipant (db s') sample_receiver = -1 then hello_loop 0 [Arrives (Some (sample_sender, reply))] r = Aborts
       else \<exists>r'. hello_loop 0 [Arrives (Some (sample_sender, reply))] r = Done (r', 0)
          \<and> rclientNumber r' = lookupParticipant (db s') sample_receiver"
    by (metis (no_types, lifting))
  then show ?thesis using r(1) by blast
qed

text \<open>
  C22.  A receiver connects only to a message that comes from the sender's port, either a
  reply that does not refuse it, or a hello message of a sender with the new protocol, when the
  receiver is passive or that sender asynchronous.
\<close>

theorem receiver_connects:
  assumes "hello_loop rb evs s = Done (s', 0)"
  shows "\<exists>msg. Arrives (Some (rserverAddr s', msg)) \<in> set evs \<and> uint (getPort (rserverAddr s')) = SENDER_PORT (portBase (rcfg s))
    \<and> (ntohs (c_opCode msg) = CMD_CONNECT_REPLY \<and> ntohl_int (c_clNr msg) \<noteq> -1 \<and> rclientNumber s' = ntohl_int (c_clNr msg)
       \<or> ntohs (c_opCode msg) \<in> {CMD_HELLO_STREAMING, CMD_HELLO_NEW, CMD_HELLO} \<and> ntohl (c_capabilities msg) AND CAP_NEW_GEN \<noteq> 0
         \<and> (has_flag (rcfg s) FLAG_PASSIVE \<or> ntohl (c_capabilities msg) AND CAP_ASYNC \<noteq> 0))"
  using hello_loop_connects [OF assms] unfolding accepted_def by blast

theorem receiver_connects_witness:
  "\<exists>r s'. start_receiver (\<lambda>_. None) sample_nif (\<lambda>_. 5) sample_session = Done r
     \<and> hello_loop 0 [Arrives (Some (sample_receiver, sample_hello)), Arrives (Some (sample_sender, sample_hello))] r = Done (s', 0)
     \<and> uint (getPort (rserverAddr s')) = 9001"
proof -
  obtain r where r: "start_receiver (\<lambda>_. None) sample_nif (\<lambda>_. 5) sample_session = Done r" "portBase (rcfg r) = 9000"
    using sample_waiting by blast
  have "(CAP_NEW_GEN OR CAP_ASYNC) AND CAP_NEW_GEN \<noteq> 0" "(CAP_NEW_GEN OR CAP_ASYNC) AND CAP_ASYNC \<noteq> 0" by (simp_all add: cap_defs)
  moreover have "has_flag (set_flag FLAG_PASSIVE c) FLAG_PASSIVE" for c :: session_config
    by (simp add: has_flag_def set_flag_def bit.conj_disj_distrib2 FLAG_PASSIVE_def)
  ultimately have "\<exists>s'. hello_loop 0 [Arrives (Some (sample_receiver, sample_hello)), Arrives (Some (sample_sender, sample_hello))] r = Done (s', 0)"
    using sample_ports by (simp add: doReceive_def getPort_def [symmetric] r server_msg_def RECEIVER_PORT_def SENDER_PORT_def sample_hello_def hello_msg_def
        cmd_defs take_hello_def Let_def)
  then obtain s' where "hello_loop 0 [Arrives (Some (sample_receiver, sample_hello)), Arrives (Some (sample_sender, sample_hello))] r = Done (s', 0)"
    by blast
  with receiver_connects [OF this] r show ?thesis by (auto simp: SENDER_PORT_def)
qed

text \<open>
  C36.  A packet from any other port than the two of the session makes a receiver that waits for
  the sender exit, whatever it holds; a waiting sender ignores the same packet.
\<close>

theorem stray_packet:
  assumes "uint (getPort a) \<noteq> RECEIVER_PORT port" and "uint (getPort a) \<noteq> SENDER_PORT port"
  shows "(portBase (rcfg r) = port \<longrightarrow> hello_loop rb (Arrives (Some (a, msg)) # evs) r = Aborts)
    \<and> (portBase (cfg s) = port \<and> getSelectedSock (fds s) ready \<noteq> -1
       \<longrightarrow> mainDispatcher junk ok now [WakeReady None ready] (Some (a, req)) s = Done (note_first now s, 0))"
proof -
  have "doReceive port (Some (a, m)) = None" for m :: 'm using assms by (simp add: doReceive_def getPort_def)
  moreover have "doReceive port (Some (a, m)) = None" for m :: connectReq using assms by (simp add: doReceive_def getPort_def)
  ultimately show ?thesis using assms by (auto simp: mainDispatcher_def note_first_def doReceive_def getPort_def)
qed

theorem stray_packet_witness:
  "\<exists>r. start_receiver (\<lambda>_. None) sample_nif (\<lambda>_. 5) sample_session = Done r
     \<and> hello_loop 0 [Arrives (Some (sample_sender\<lparr>sin_port := htons 53\<rparr>, sample_hello))] r = Aborts"
proof -
  obtain r where r: "start_receiver (\<lambda>_. None) sample_nif (\<lambda>_. 5) sample_session = Done r" "portBase (rcfg r) = 9000"
    using sample_waiting by blast
  have "uint (getPort (sample_sender\<lparr>sin_port := htons 53\<rparr>)) = 53" by (simp add: getPort_def)
  then show ?thesis using stray_packet [of "sample_sender\<lparr>sin_port := htons 53\<rparr>" 9000] r by (simp add: RECEIVER_PORT_def SENDER_PORT_def)
qed

end
