(* ===== verification/Governor.thy ===== *)
theory Governor
  imports RateLimit
begin

text \<open>
  The rate governors of the sender: the table of governors and the parameters of a loaded one,
  \<^verbatim>\<open>src/rateGovernor.c\<close>, and the governor that watches the queue of the socket,
  \<^verbatim>\<open>src/auto-rate.c\<close>.  A governor is a record of functions on its data, of a type of its
  own; \<^verbatim>\<open>dlopen\<close> and \<^verbatim>\<open>dlsym\<close> are a function from the name of a library to the governor
  in it.
\<close>

subsection \<open>The table of governors\<close>

definition MAX_GOVERNORS :: nat where "MAX_GOVERNORS = 10"

record 'd rateGovernor =
  rgInitialize :: "'d option" \<comment> \<open>\<open>None\<close>: a null pointer\<close>
  rgSetProp :: "('d \<Rightarrow> string \<Rightarrow> string option \<Rightarrow> 'd outcome) option"
  rgEndConfig :: "('d \<Rightarrow> 'd) option"
  rgWait :: "'d \<Rightarrow> int \<Rightarrow> u32 \<Rightarrow> int \<Rightarrow> 'd outcome"
  rgShutdown :: bool \<comment> \<open>whether there is a function to call\<close>

type_synonym 'd governors = "('d rateGovernor \<times> 'd) list"

definition rgInitGovernor :: "'d rateGovernor \<Rightarrow> 'd governors \<Rightarrow> ('d governors \<times> 'd) outcome" where
  \<comment> \<open>the model has no entry for a governor without data, which every user of one takes for an error or crashes on\<close>
  "rgInitGovernor gov gs =
     (if length gs = MAX_GOVERNORS then Aborts
      else and_then (or_abort (rgInitialize gov)) (\<lambda>d. Done (gs @ [(gov, d)], d)))"

definition rg_param :: "string \<Rightarrow> string \<times> string option" where
  \<comment> \<open>the key and the value in the text up to a comma\<close>
  "rg_param p =
     (if CHR ''='' \<in> set p then (takeWhile (\<lambda>c. c \<noteq> CHR ''='') p, Some (tl (dropWhile (\<lambda>c. c \<noteq> CHR ''='') p)))
      else (p, None))"

lemma dropWhile_shorter [termination_simp]: "length (dropWhile P s) - Suc 0 < Suc (length s)"
  using length_dropWhile_le [of P s] by linarith

fun rg_params :: "string \<Rightarrow> (string \<times> string option) list" where
  "rg_params [] = []"
| "rg_params (c # s) =
     rg_param (takeWhile (\<lambda>c. c \<noteq> CHR '','') (c # s)) # rg_params (tl (dropWhile (\<lambda>c. c \<noteq> CHR '','') (c # s)))"

definition rgParseRateGovernor :: "(string \<Rightarrow> 'd rateGovernor option) \<Rightarrow> string \<Rightarrow> 'd governors \<Rightarrow> 'd governors outcome" where
  "rgParseRateGovernor load rg gs =
     (let pos = dropWhile (\<lambda>c. c \<noteq> CHR '':'') rg;
          dlname = takeWhile (\<lambda>c. c \<noteq> CHR '':'') rg;
          params = (if pos = [] then [] else tl pos)
      in and_then (or_abort (load dlname)) (\<lambda>gov.
         and_then (rgInitGovernor gov gs) (\<lambda>(gs, d).
         and_then (case rgSetProp gov of None \<Rightarrow> Done d | Some f \<Rightarrow> each (\<lambda>(k, v) d. f d k v) (rg_params params) d) (\<lambda>d.
           let d = (case rgEndConfig gov of None \<Rightarrow> d | Some f \<Rightarrow> f d)
           in Done (gs[length gs - 1 := (gov, d)])))))"

fun rgWaitAll :: "int \<Rightarrow> u32 \<Rightarrow> int \<Rightarrow> 'd governors \<Rightarrow> 'd governors outcome" where
  "rgWaitAll sock ip sz [] = Done []"
| "rgWaitAll sock ip sz ((gov, d) # gs) =
     and_then (rgWait gov d sock ip sz) (\<lambda>d. and_then (rgWaitAll sock ip sz gs) (\<lambda>gs. Done ((gov, d) # gs)))"

definition rgShutdownAll :: "'d governors \<Rightarrow> 'd list" where
  \<comment> \<open>the data given to the shutdown functions\<close>
  "rgShutdownAll gs = map snd (filter (\<lambda>(gov, d). rgShutdown gov) gs)"

subsection \<open>The governor for the bit rate\<close>

definition maxBitrate :: "64 word \<Rightarrow> bool \<Rightarrow> rate_limit rateGovernor" where
  \<comment> \<open>\<open>now\<close> is the clock, \<open>erange\<close> as for \<open>parseSpeed\<close>; the length of a packet is an \<^verbatim>\<open>int\<close>\<close>
  "maxBitrate now erange =
     \<lparr>rgInitialize = Some (allocRateLimit now),
      rgSetProp = Some (\<lambda>rl k v. case v of None \<Rightarrow> if k = MAX_BITRATE then Aborts else Done rl | Some v \<Rightarrow> rl_setProp erange rl k v),
      rgEndConfig = None,
      rgWait = (\<lambda>rl sock ip sz. and_then (doRateLimit now (word_of_int sz) rl) (\<lambda>(rl, _). Done rl)),
      rgShutdown = False\<rparr>"

subsection \<open>The governor that watches the queue\<close>

record auto_rate =
  isInitialized :: bool
  dir :: bool \<comment> \<open>the system tells the room left, not the bytes queued\<close>
  sendbuf :: int

definition allocAutoRate :: auto_rate where
  "allocAutoRate = \<lparr>isInitialized = False, dir = False, sendbuf = 0\<rparr>"

definition getCurrentQueueLength :: "int option \<Rightarrow> int" where
  "getCurrentQueueLength q = (case q of None \<Rightarrow> -1 | Some n \<Rightarrow> n)"

definition initialize :: "int option \<Rightarrow> int \<Rightarrow> auto_rate \<Rightarrow> auto_rate" where
  \<comment> \<open>\<open>buf\<close> is what \<^verbatim>\<open>getSendBuf\<close> returns\<close>
  "initialize queue buf ar =
     (let q = getCurrentQueueLength queue
      in (if q = 0 then ar\<lparr>dir := False, sendbuf := buf\<rparr> else ar\<lparr>dir := True, sendbuf := q\<rparr>)\<lparr>isInitialized := True\<rparr>)"

fun queue_loop :: "auto_rate \<Rightarrow> int \<Rightarrow> int option list \<Rightarrow> nat \<Rightarrow> nat outcome" where
  \<comment> \<open>the loop of \<^verbatim>\<open>doAutoRate\<close> over the lengths the system tells, with the number of times it sleeps\<close>
  "queue_loop ar sz [] n = Blocks"
| "queue_loop ar sz (q # qs) n =
     (let r = getCurrentQueueLength q;
          r = (if dir ar then sendbuf ar - r else r)
      in if r < sendbuf ar sdiv 2 - sz then Done n else queue_loop ar sz qs (n + 1))"

definition doAutoRate :: "int option \<Rightarrow> int \<Rightarrow> int option list \<Rightarrow> int \<Rightarrow> auto_rate \<Rightarrow> (auto_rate \<times> nat) outcome" where
  "doAutoRate queue buf qs sz ar =
     (let ar = (if isInitialized ar then ar else initialize queue buf ar)
      in and_then (queue_loop ar sz qs 0) (\<lambda>n. Done (ar, n)))"

subsection \<open>Lemmas\<close>

fun print_param :: "string \<times> string option \<Rightarrow> string" where
  "print_param (k, None) = k"
| "print_param (k, Some v) = k @ CHR ''='' # v"

fun print_params :: "(string \<times> string option) list \<Rightarrow> string" where
  "print_params [] = []"
| "print_params [p] = print_param p"
| "print_params (p # ps) = print_param p @ CHR '','' # print_params ps"

definition param_ok :: "string \<times> string option \<Rightarrow> bool" where
  "param_ok p \<longleftrightarrow> p \<noteq> ([], None) \<and> set (fst p) \<inter> {CHR ''='', CHR '',''} = {}
     \<and> (case snd p of None \<Rightarrow> True | Some v \<Rightarrow> CHR '','' \<notin> set v)"

lemma rg_params_unfold:
  "s \<noteq> [] \<Longrightarrow> rg_params s = rg_param (takeWhile (\<lambda>c. c \<noteq> CHR '','') s) # rg_params (tl (dropWhile (\<lambda>c. c \<noteq> CHR '','') s))"
  by (cases s) simp_all

lemma takeWhile_sep: "c \<notin> set xs \<Longrightarrow> takeWhile (\<lambda>x. x \<noteq> c) (xs @ c # ys) = xs \<and> dropWhile (\<lambda>x. x \<noteq> c) (xs @ c # ys) = c # ys"
  by (induction xs) auto

lemma takeWhile_no: "c \<notin> set xs \<Longrightarrow> takeWhile (\<lambda>x. x \<noteq> c) xs = xs \<and> dropWhile (\<lambda>x. x \<noteq> c) xs = []"
  by (auto simp: takeWhile_eq_all_conv dropWhile_eq_Nil_conv)

lemma param_text: "param_ok p \<Longrightarrow> rg_param (print_param p) = p \<and> CHR '','' \<notin> set (print_param p) \<and> print_param p \<noteq> []"
  by (cases p rule: print_param.cases) (auto simp: param_ok_def rg_param_def takeWhile_sep)

lemma autoRate_waits_forever:
  "doAutoRate None buf (replicate n None) sz allocAutoRate = Blocks" if "0 \<le> sz"
proof -
  have "queue_loop (initialize None buf allocAutoRate) sz (replicate n None) k = Blocks" for k
    using that by (induction n arbitrary: k) (auto simp: initialize_def allocAutoRate_def getCurrentQueueLength_def signed_divide_int_def)
  then show ?thesis by (simp add: doAutoRate_def allocAutoRate_def)
qed

subsection \<open>Properties\<close>

text \<open>
  The parameters of a loaded governor are read as they are written: from the text that
  lists keys, with or without values, separated by commas, each key and value reaches the governor
  once and in order; a value may contain an equal sign.
\<close>

lemma rg_params_roundtrip:
  assumes "\<forall>p \<in> set ps. param_ok p"
  shows "rg_params (print_params ps) = ps"
  using assms
proof (induction ps rule: print_params.induct)
  case (2 p)
  have t: "rg_param (print_param p) = p" "CHR '','' \<notin> set (print_param p)" "print_param p \<noteq> []" using param_text [of p] 2 by simp_all
  note n = takeWhile_no [OF t(2)]
  show ?case using rg_params_unfold [OF t(3)] unfolding conjunct1 [OF n] conjunct2 [OF n] by (simp add: t(1))
next
  case (3 p q ps)
  have t: "rg_param (print_param p) = p" "CHR '','' \<notin> set (print_param p)" using param_text [of p] 3 by simp_all
  then have ps: "print_params (p # q # ps) \<noteq> []" by simp
  show ?case using t 3 rg_params_unfold [OF ps] takeWhile_sep [OF t(2)] by simp
qed simp

lemma rg_params_roundtrip_sample:
  "rg_params ''rate=5m,burst,file=a=b'' = [(''rate'', Some ''5m''), (''burst'', None), (''file'', Some ''a=b'')]"
  using rg_params_roundtrip [of "[(''rate'', Some ''5m''), (''burst'', None), (''file'', Some ''a=b'')]"] by (simp add: param_ok_def)

end
