(* ===== verification/Options.thy ===== *)
theory Options
  imports SenderStart ReceiverStart Governor
begin

text \<open>
  The command lines, \<^verbatim>\<open>main\<close> of \<^verbatim>\<open>src/udp-sender.c\<close> and \<^verbatim>\<open>src/udp-receiver.c\<close>, up
  to the call of \<^verbatim>\<open>startSender\<close> and \<^verbatim>\<open>startReceiver\<close>.  The library function
  \<^verbatim>\<open>getopt_long\<close>, modelled in CommandLine, delivers the options as pairs of a code and an argument; \<^verbatim>\<open>int\<close>
  variables are integers, cut to 32 bits where the source stores a wider value.
  \<^verbatim>\<open>usage\<close>, \<^verbatim>\<open>fatal\<close> and \<^verbatim>\<open>exit\<close> are \<open>Aborts\<close>.
\<close>

subsection \<open>Numbers\<close>

definition to_int :: "nat \<Rightarrow> int" where
  \<comment> \<open>an \<^verbatim>\<open>unsigned long\<close> stored in an \<^verbatim>\<open>int\<close>\<close>
  "to_int n = sint (of_nat n :: u32)"

definition atol :: "string \<Rightarrow> int" where
  "atol s =
     (let t = dropWhile isspace s;
          neg = (t \<noteq> [] \<and> hd t = CHR ''-'');
          u = (if t \<noteq> [] \<and> hd t \<in> {CHR ''-'', CHR ''+''} then tl t else t);
          n = int (number (takeWhile isdigit u))
      in if neg then max (- (2 ^ 63)) (- n) else min (2 ^ 63 - 1) n)"

definition atoi :: "string \<Rightarrow> int" where
  "atoi s = sint (word_of_int (atol s) :: u32)"

definition strtoul0_end :: "string \<Rightarrow> nat \<times> string" where
  \<comment> \<open>\<^verbatim>\<open>strtoul(s, &eptr, 0)\<close>: the base follows from the digits; the value and the string at \<open>eptr\<close>\<close>
  "strtoul0_end s =
     (let t = dropWhile isspace s;
          neg = (t \<noteq> [] \<and> hd t = CHR ''-'');
          u = (if t \<noteq> [] \<and> hd t \<in> {CHR ''-'', CHR ''+''} then tl t else t);
          hex = (2 < length u \<and> u ! 0 = CHR ''0'' \<and> u ! 1 \<in> {CHR ''x'', CHR ''X''} \<and> hexval (u ! 2) < 16);
          (radix, u) = (if hex then (16, drop 2 u) else if u \<noteq> [] \<and> hd u = CHR ''0'' then (8, u) else (10, u));
          ds = takeWhile (\<lambda>c. hexval c < radix) u;
          n = foldl (\<lambda>n c. radix * n + hexval c) 0 ds
      in if ds = [] then (0, s)
         else (if n > ULONG_MAX then ULONG_MAX else if neg then (2 ^ 64 - n) mod 2 ^ 64 else n, drop (length ds) u))"

definition strtoul0 :: "string \<Rightarrow> nat" where
  "strtoul0 s = fst (strtoul0_end s)"

subsection \<open>The options of the sender\<close>

datatype optcode = Short char | Long nat

record 'd sender_options =
  o_flags :: u32
  o_blockSize :: int
  o_portBase :: int
  o_ttl :: int
  o_dataMcastAddr :: sockaddr_in
  o_mcastRdv :: "string option"
  o_governors :: "'d governors"
  o_min_slice_size :: int
  o_default_slice_size :: int
  o_max_slice_size :: int
  o_fec_stripes :: int
  o_fec_redundancy :: int
  o_fec_stripesize :: int
  o_rexmit_hello_interval :: int
  o_autostart :: int
  o_requestedBufSize :: int
  o_min_receivers :: int
  o_max_receivers_wait :: int
  o_min_receivers_wait :: int
  o_startTimeout :: int
  o_retriesUntilDrop :: int
  o_rehelloOffset :: int
  dataMcastSupplied :: bool
  daemon_mode :: nat
  doKill :: bool
  pidfile :: "string option"
  fileName :: "string option"
  pipeName :: "string option"
  ifName :: "string option"
  logName :: "string option"
  bwPeriod :: int
  statPeriod :: int
  printUncompressedPos :: int
  noProgress :: bool

definition default_options :: "'d sender_options" where
  \<comment> \<open>the numbers for FEC are not set, and not used, without the option for it\<close>
  "default_options =
     \<lparr>o_flags = 0, o_blockSize = 1456, o_portBase = 9000, o_ttl = 1,
      o_dataMcastAddr = clearIp \<lparr>sin_family = 0, sin_port = 0, sin_addr = 0\<rparr>, o_mcastRdv = None, o_governors = [],
      o_min_slice_size = 16, o_default_slice_size = 0, o_max_slice_size = 1024,
      o_fec_stripes = 0, o_fec_redundancy = 0, o_fec_stripesize = 0,
      o_rexmit_hello_interval = 0, o_autostart = 0, o_requestedBufSize = 0,
      o_min_receivers = 0, o_max_receivers_wait = 0, o_min_receivers_wait = 0, o_startTimeout = 0,
      o_retriesUntilDrop = 200, o_rehelloOffset = 50,
      dataMcastSupplied = False, daemon_mode = 0, doKill = False, pidfile = None, fileName = None, pipeName = None,
      ifName = None, logName = None, bwPeriod = 0, statPeriod = 500000, printUncompressedPos = -1, noProgress = False\<rparr>"

definition parse_fec :: "string \<Rightarrow> (int \<times> int \<times> int) outcome" where
  \<comment> \<open>stripes, redundancy and stripe size of the argument of \<^verbatim>\<open>-F\<close>\<close>
  "parse_fec arg =
     (let ptr = dropWhile (\<lambda>c. c \<noteq> CHR ''x'') arg
      in and_then
           (if ptr \<noteq> [] then
              let (n, _, eptr) = strtoul arg
              in if ptr \<noteq> eptr then Aborts else Done (to_int n, tl ptr)
            else Done (8, arg))
           (\<lambda>(stripes, ptr).
              let (redundancy, _, eptr) = strtoul ptr;
                  (stripesize, eptr) =
                    (if eptr \<noteq> [] \<and> hd eptr = CHR ''/'' then let (n, _, e) = strtoul (tl eptr) in (to_int n, e) else (128, eptr))
              in if eptr \<noteq> [] then Aborts else Done (stripes, to_int redundancy, stripesize)))"

definition sender_option :: "(string \<Rightarrow> u32 option) \<Rightarrow> 'd rateGovernor \<Rightarrow> 'd rateGovernor \<Rightarrow> (string \<Rightarrow> 'd rateGovernor option)
    \<Rightarrow> optcode \<Rightarrow> string \<Rightarrow> 'd sender_options \<Rightarrow> 'd sender_options outcome" where
  \<comment> \<open>one round of the loop over the options; the governors are \<^verbatim>\<open>maxBitrate\<close>, \<^verbatim>\<open>autoRate\<close> and those in libraries\<close>
  "sender_option aton brate auto load c arg so =
     (case c of
        Short c \<Rightarrow>
          if c = CHR ''a'' then Done (so\<lparr>o_flags := o_flags so OR (FLAG_ASYNC OR FLAG_SN)\<rparr>)
          else if c = CHR ''c'' then Done (so\<lparr>o_flags := o_flags so AND NOT FLAG_SN OR FLAG_NOTSN\<rparr>)
          else if c = CHR ''d'' then Done (so\<lparr>o_flags := o_flags so OR FLAG_SN\<rparr>)
          else if c = CHR ''f'' then Done (so\<lparr>fileName := Some arg\<rparr>)
          else if c = CHR ''i'' then Done (so\<lparr>ifName := Some arg\<rparr>)
          else if c = CHR ''p'' then Done (so\<lparr>pipeName := Some arg\<rparr>)
          else if c = CHR ''P'' then Done (so\<lparr>o_portBase := atoi arg\<rparr>)
          else if c = CHR ''1'' then Done (so\<lparr>o_flags := o_flags so OR FLAG_POINTOPOINT\<rparr>)
          else if c = CHR ''2'' then Done (so\<lparr>o_flags := o_flags so OR FLAG_NOPOINTOPOINT\<rparr>)
          else if c = CHR ''b'' then
            let bs = to_int (strtoul0 arg); bs = bs - bs smod 4
            in if bs \<le> 0 then Aborts else Done (so\<lparr>o_blockSize := bs\<rparr>)
          else if c = CHR ''l'' then Done (so\<lparr>logName := Some arg\<rparr>)
          else if c = CHR ''m'' then
            and_then (setIpFromString aton (o_dataMcastAddr so) arg) (\<lambda>a. Done (so\<lparr>o_dataMcastAddr := a, dataMcastSupplied := True\<rparr>))
          else if c = CHR ''M'' then Done (so\<lparr>o_mcastRdv := Some arg\<rparr>)
          else if c = CHR ''r'' then
            and_then (rgInitGovernor brate (o_governors so)) (\<lambda>(gs, d).
            and_then (case rgSetProp brate of None \<Rightarrow> Aborts | Some f \<Rightarrow> f d MAX_BITRATE (Some arg)) (\<lambda>d.
              Done (so\<lparr>o_governors := gs[length gs - 1 := (brate, d)]\<rparr>)))
          else if c = CHR ''A'' then
            and_then (rgInitGovernor auto (o_governors so)) (\<lambda>(gs, _). Done (so\<lparr>o_governors := gs\<rparr>))
          else if c = CHR ''t'' then Done (so\<lparr>o_ttl := atoi arg\<rparr>)
          else if c = CHR ''F'' then
            and_then (parse_fec arg) (\<lambda>(s, r, z).
              Done (so\<lparr>o_flags := o_flags so OR FLAG_FEC, o_fec_stripes := s, o_fec_redundancy := r, o_fec_stripesize := z\<rparr>))
          else if c = CHR ''z'' then Done (so\<lparr>statPeriod := sint (word_of_int (atoi arg * 1000) :: u32)\<rparr>)
          else if c = CHR ''x'' then Done (so\<lparr>printUncompressedPos := atoi arg\<rparr>)
          else if c = CHR ''H'' then Done (so\<lparr>o_rexmit_hello_interval := atoi arg\<rparr>)
          else if c = CHR ''S'' then Done (so\<lparr>o_autostart := atoi arg\<rparr>)
          else if c = CHR ''B'' then Done (so\<lparr>o_flags := o_flags so OR FLAG_BCAST\<rparr>)
          else if c = CHR ''s'' then and_then (parseSize arg) (\<lambda>n. Done (so\<lparr>o_requestedBufSize := to_int n\<rparr>))
          else if c = CHR ''C'' then Done (so\<lparr>o_min_receivers := atoi arg\<rparr>)
          else if c = CHR ''W'' then Done (so\<lparr>o_max_receivers_wait := atoi arg\<rparr>)
          else if c = CHR ''w'' then Done (so\<lparr>o_min_receivers_wait := atoi arg\<rparr>)
          else if c = CHR ''T'' then Done (so\<lparr>o_startTimeout := atoi arg\<rparr>)
          else if c = CHR ''k'' then Done (so\<lparr>o_flags := o_flags so OR FLAG_NOKBD\<rparr>)
          else if c = CHR ''R'' then Done (so\<lparr>o_retriesUntilDrop := atoi arg\<rparr>)
          else if c = CHR ''D'' then Done (so\<lparr>daemon_mode := daemon_mode so + 1\<rparr>)
          else if c = CHR ''K'' then Done (so\<lparr>doKill := True\<rparr>)
          else if c = CHR ''I'' then Done (so\<lparr>bwPeriod := atol arg\<rparr>)
          else if c = CHR ''g'' then
            and_then (rgParseRateGovernor load arg (o_governors so)) (\<lambda>gs. Done (so\<lparr>o_governors := gs\<rparr>))
          else if c = CHR ''Z'' then Done (so\<lparr>o_flags := o_flags so OR FLAG_STREAMING\<rparr>)
          else if c = CHR ''Y'' then Done (so\<lparr>o_rehelloOffset := sint (word_of_int (atol arg) :: u32)\<rparr>)
          else Aborts \<comment> \<open>\<^verbatim>\<open>-L\<close> prints the license and exits; the rest prints the usage\<close>
      | Long c \<Rightarrow>
          if c = 0x701 then Done (so\<lparr>noProgress := True\<rparr>)
          else if c = 0x101 then
            if atoi arg > int MAX_SLICE_SIZE then Aborts else Done (so\<lparr>o_min_slice_size := atoi arg\<rparr>)
          else if c = 0x102 then Done (so\<lparr>o_default_slice_size := atoi arg\<rparr>)
          else if c = 0x103 then
            if atoi arg > int MAX_SLICE_SIZE then Aborts else Done (so\<lparr>o_max_slice_size := atoi arg\<rparr>)
          else if c = 0x901 then Done (so\<lparr>pidfile := Some arg\<rparr>)
          else Aborts)"

definition has_option :: "'d sender_options \<Rightarrow> u32 \<Rightarrow> bool" where
  "has_option so f \<longleftrightarrow> o_flags so AND f \<noteq> 0"

definition check_async :: "'d sender_options \<Rightarrow> 'd sender_options outcome" where
  "check_async so =
     (if has_option so FLAG_ASYNC then
        let so = (if dataMcastSupplied so then so\<lparr>o_flags := o_flags so AND NOT FLAG_POINTOPOINT\<rparr> else so)
        in if has_option so FLAG_POINTOPOINT then Aborts else Done so
      else Done so)"

definition clamp_slices :: "'d sender_options \<Rightarrow> 'd sender_options" where
  "clamp_slices so =
     (let so = (if o_min_slice_size so < 1 then so\<lparr>o_min_slice_size := 1\<rparr> else so);
          so = (if o_max_slice_size so < o_min_slice_size so then so\<lparr>o_max_slice_size := o_min_slice_size so\<rparr> else so)
      in if o_default_slice_size so \<noteq> 0 then
           let so = (if o_default_slice_size so < o_min_slice_size so then so\<lparr>o_default_slice_size := o_min_slice_size so\<rparr> else so)
           in if o_default_slice_size so > o_max_slice_size so then so\<lparr>o_default_slice_size := o_max_slice_size so\<rparr> else so
         else so)"

definition check_options :: "string list \<Rightarrow> 'd sender_options \<Rightarrow> 'd sender_options outcome" where
  \<comment> \<open>what \<^verbatim>\<open>main\<close> does after the loop; \<open>args\<close> are the arguments that are not options\<close>
  "check_options args so =
     and_then (check_async so) (\<lambda>so.
       let so = (if args \<noteq> [] \<and> fileName so = None then so\<lparr>fileName := Some (hd args)\<rparr> else so)
       in if has_option so FLAG_POINTOPOINT \<and> has_option so FLAG_NOPOINTOPOINT then Aborts
          else
            let so = (if (o_autostart so \<noteq> 0 \<or> has_option so FLAG_ASYNC) \<and> o_rexmit_hello_interval so = 0
                     then so\<lparr>o_rexmit_hello_interval := 1000\<rparr> else so)
            in if has_option so FLAG_ASYNC \<and> o_governors so = [] then Aborts
               else Done (clamp_slices so))"

definition option_loop :: "(optcode \<Rightarrow> string \<Rightarrow> 'o \<Rightarrow> 'o outcome) \<Rightarrow> (optcode \<times> string) list \<Rightarrow> 'o \<Rightarrow> 'o outcome" where
  \<comment> \<open>the loop of \<^verbatim>\<open>main\<close>, of the sender and the receiver\<close>
  "option_loop f = each (\<lambda>(c, arg). f c arg)"

definition sender_setup where
  \<comment> \<open>called by another name than \<^verbatim>\<open>init\<close>, which takes no options, and without the option \<^verbatim>\<open>-K\<close>, which
      kills another process and returns (both in CommandLine)\<close>
  "sender_setup aton brate auto load opts args =
     and_then (option_loop (sender_option aton brate auto load) opts default_options) (check_options args)"

definition sender_config :: "'d sender_options \<Rightarrow> session_config" where
  \<comment> \<open>\<^verbatim>\<open>struct net_config\<close> as \<^verbatim>\<open>startSender\<close> gets it\<close>
  "sender_config so =
     \<lparr>blockSize = nat (o_blockSize so), sliceSize = 16, flags = o_flags so, discovery = DSC_DOUBLING,
      default_slice_size = nat (o_default_slice_size so), max_slice_size = nat (o_max_slice_size so),
      retriesUntilDrop = o_retriesUntilDrop so, fec_redundancy = nat (o_fec_redundancy so),
      fec_stripesize = nat (o_fec_stripesize so), fec_stripes = nat (o_fec_stripes so), rehelloOffset = nat (o_rehelloOffset so),
      portBase = o_portBase so, controlMcastAddr = \<lparr>sin_family = 0, sin_port = 0, sin_addr = 0\<rparr>,
      dataMcastAddr = o_dataMcastAddr so, mcastRdv = o_mcastRdv so, ttl = o_ttl so, net_capabilities = 0, net_rcvbuf = 0,
      rexmit_hello_interval = o_rexmit_hello_interval so, autostart = o_autostart so, min_receivers = o_min_receivers so,
      max_receivers_wait = o_max_receivers_wait so, min_receivers_wait = o_min_receivers_wait so, startTimeout = o_startTimeout so\<rparr>"

subsection \<open>The options of the receiver\<close>

definition FLAG_NOSYNC :: u32 where "FLAG_NOSYNC = 0x0040"
definition FLAG_SYNC :: u32 where "FLAG_SYNC = 0x0100"

record receiver_options =
  p_flags :: u32
  p_portBase :: int
  p_ttl :: int
  p_mcastRdv :: "string option"
  p_exitWait :: int
  p_startTimeout :: int
  p_receiveTimeout :: int
  p_requestedBufSize :: int
  p_disk_flags :: u32
  p_fileName :: "string option"
  p_pipeName :: "string option"
  p_ifName :: "string option"
  p_logName :: "string option"
  p_statPeriod :: int
  p_printUncompressedPos :: int
  p_noProgress :: bool

definition default_receiver_options :: receiver_options where
  "default_receiver_options =
     \<lparr>p_flags = 0, p_portBase = 9000, p_ttl = 1, p_mcastRdv = None, p_exitWait = 500, p_startTimeout = 0, p_receiveTimeout = 0,
      p_requestedBufSize = 0, p_disk_flags = 0, p_fileName = None, p_pipeName = None, p_ifName = None, p_logName = None,
      p_statPeriod = 500000, p_printUncompressedPos = -1, p_noProgress = False\<rparr>"

definition receiver_option :: "optcode \<Rightarrow> string \<Rightarrow> receiver_options \<Rightarrow> receiver_options outcome" where
  \<comment> \<open>a code that the source does not test changes nothing\<close>
  "receiver_option c arg so =
     (case c of
        Short c \<Rightarrow>
          if c = CHR ''f'' then Done (so\<lparr>p_fileName := Some arg\<rparr>)
          else if c = CHR ''i'' then Done (so\<lparr>p_ifName := Some arg\<rparr>)
          else if c = CHR ''p'' then Done (so\<lparr>p_pipeName := Some arg\<rparr>)
          else if c = CHR ''P'' then Done (so\<lparr>p_portBase := atoi arg\<rparr>)
          else if c = CHR ''l'' then Done (so\<lparr>p_logName := Some arg\<rparr>)
          else if c = CHR ''t'' then Done (so\<lparr>p_ttl := atoi arg\<rparr>)
          else if c = CHR ''M'' then Done (so\<lparr>p_mcastRdv := Some arg\<rparr>)
          else if c = CHR ''L'' then Aborts
          else if c = CHR ''d'' then Done (so\<lparr>p_flags := p_flags so OR FLAG_PASSIVE\<rparr>)
          else if c = CHR ''n'' then Done (so\<lparr>p_disk_flags := p_disk_flags so OR FLAG_NOSYNC\<rparr>)
          else if c = CHR ''y'' then Done (so\<lparr>p_disk_flags := p_disk_flags so OR FLAG_SYNC\<rparr>)
          else if c = CHR ''b'' then and_then (parseSize arg) (\<lambda>n. Done (so\<lparr>p_requestedBufSize := to_int n\<rparr>))
          else if c = CHR ''k'' then Done (so\<lparr>p_flags := p_flags so OR FLAG_NOKBD\<rparr>)
          else if c = CHR ''w'' then Done (so\<lparr>p_exitWait := atoi arg\<rparr>)
          else if c = CHR ''s'' then Done (so\<lparr>p_startTimeout := atoi arg\<rparr>)
          else if c = CHR ''z'' then Done (so\<lparr>p_statPeriod := sint (word_of_int (atoi arg * 1000) :: u32)\<rparr>)
          else if c = CHR ''x'' then Done (so\<lparr>p_printUncompressedPos := atoi arg\<rparr>)
          else if c = CHR ''Z'' then Done (so\<lparr>p_flags := p_flags so OR FLAG_IGNORE_LOST_DATA\<rparr>)
          else if c = CHR ''?'' then Aborts
          else Done so
      | Long c \<Rightarrow>
          if c = 0x701 then Done (so\<lparr>p_noProgress := True\<rparr>)
          else if c = 0x801 then Done (so\<lparr>p_receiveTimeout := atoi arg\<rparr>)
          else Done so)"

definition receiver_setup :: "(optcode \<times> string) list \<Rightarrow> receiver_options outcome" where
  "receiver_setup opts = option_loop receiver_option opts default_receiver_options"

subsection \<open>Lemmas\<close>

definition options_inv :: "'d sender_options \<Rightarrow> bool" where
  "options_inv so \<longleftrightarrow> 0 < o_blockSize so \<and> 4 dvd o_blockSize so \<and> o_min_slice_size so \<le> int MAX_SLICE_SIZE
     \<and> o_max_slice_size so \<le> int MAX_SLICE_SIZE \<and> length (o_governors so) \<le> MAX_GOVERNORS"

lemma smod_4_dvd: "(4 :: int) dvd b - b smod 4"
  by (metis dvd_triv_left minus_smod_eq_mult_sdiv)

lemma rgInitGovernor_length:
  "rgInitGovernor gov gs = Done (gs', d) \<Longrightarrow> length gs \<le> MAX_GOVERNORS \<Longrightarrow> length gs' \<le> MAX_GOVERNORS \<and> gs' \<noteq> []"
  by (auto simp: rgInitGovernor_def and_then_Done split: if_splits)

lemma rgParseRateGovernor_length:
  assumes "rgParseRateGovernor load rg gs = Done gs'" and "length gs \<le> MAX_GOVERNORS"
  shows "length gs' \<le> MAX_GOVERNORS"
  using assms(1) rgInitGovernor_length [OF _ assms(2)] by (fastforce simp: rgParseRateGovernor_def Let_def and_then_Done)

lemma sender_option_inv:
  assumes "options_inv so" and "sender_option aton brate auto load c arg so = Done so'"
  shows "options_inv so'"
proof (cases c)
  case (Long n)
  then show ?thesis using assms by (auto simp: sender_option_def options_inv_def split: if_splits)
next
  case (Short ch)
  have len: "length (o_governors so) \<le> MAX_GOVERNORS" using assms(1) by (simp add: options_inv_def)
  note step = assms(2) [unfolded Short sender_option_def optcode.case]
  show ?thesis
    using assms(1) step rgInitGovernor_length [OF _ len] rgParseRateGovernor_length [OF _ len] smod_4_dvd
    by (auto simp: options_inv_def and_then_Done Let_def split: if_splits prod.splits)
qed

lemma option_loop_inv: "option_loop (sender_option aton brate auto load) opts so = Done so' \<Longrightarrow> options_inv so \<Longrightarrow> options_inv so'"
  unfolding option_loop_def by (erule each_inv) (auto intro: sender_option_inv)

lemma check_async_same:
  assumes "check_async so = Done so1"
  shows "options_inv so1 = options_inv so \<and> (has_option so1 FLAG_ASYNC \<longrightarrow> \<not> has_option so1 FLAG_POINTOPOINT)"
  using assms by (auto simp: check_async_def options_inv_def Let_def split: if_splits)

definition slices_ok :: "'d sender_options \<Rightarrow> bool" where
  "slices_ok so \<longleftrightarrow> 1 \<le> o_min_slice_size so \<and> o_min_slice_size so \<le> o_max_slice_size so \<and> o_max_slice_size so \<le> int MAX_SLICE_SIZE
     \<and> (o_default_slice_size so = 0 \<or> o_min_slice_size so \<le> o_default_slice_size so \<and> o_default_slice_size so \<le> o_max_slice_size so)"

lemma clamp_slices_ok: "options_inv so \<Longrightarrow> slices_ok (clamp_slices so)"
  by (auto simp: slices_ok_def clamp_slices_def options_inv_def Let_def MAX_SLICE_SIZE_def)

lemma clamp_slices_same:
  "o_blockSize (clamp_slices so) = o_blockSize so" "o_flags (clamp_slices so) = o_flags so" "o_governors (clamp_slices so) = o_governors so"
  "o_autostart (clamp_slices so) = o_autostart so" "o_rexmit_hello_interval (clamp_slices so) = o_rexmit_hello_interval so"
  "has_option (clamp_slices so) f = has_option so f"
  by (simp_all add: clamp_slices_def has_option_def Let_def)

lemma first_slice_size:
  assumes "slices_ok so" and "has_option so FLAG_FEC \<Longrightarrow> 0 < o_fec_stripes so \<and> 0 < o_fec_stripesize so"
  shows "let c = init_sliceSize (net_config.truncate (sender_config so))
    in 1 \<le> sliceSize c \<and> sliceSize c \<le> max_slice_size c \<and> max_slice_size c \<le> MAX_SLICE_SIZE"
proof -
  define f where "f = has_flag (net_config.truncate (sender_config so)) FLAG_FEC"
  have f: "f = has_option so FLAG_FEC" by (simp add: f_def has_flag_def has_option_def net_config.truncate_def sender_config_def)
  have m: "1 \<le> nat (o_max_slice_size so)" "nat (o_max_slice_size so) \<le> MAX_SLICE_SIZE"
    and d: "o_default_slice_size so = 0 \<or> 1 \<le> nat (o_default_slice_size so)"
    using assms(1) by (auto simp: slices_ok_def)
  have z: "nat (o_default_slice_size so) = 0 \<longleftrightarrow> o_default_slice_size so = 0" using assms(1) by (auto simp: slices_ok_def)
  have p: "f \<Longrightarrow> 1 \<le> nat (o_fec_stripes so)" "f \<Longrightarrow> 1 \<le> nat (o_fec_stripesize so) * nat (o_fec_stripes so)"
    using assms(2) f by (auto simp: Suc_le_eq)
  show ?thesis
    using m d z p unfolding init_sliceSize_def Let_def
    by (auto simp: f_def has_flag_def net_config.truncate_def sender_config_def)
qed

lemma fec_zero_stripes:
  "\<exists>so. sender_setup aton brate auto load [(Short CHR ''F'', ''0x8'')] [] = Done so \<and> o_fec_stripes so = 0
     \<and> sliceSize (init_sliceSize (net_config.truncate (sender_config so))) = 0"
proof -
  have "parse_fec ''0x8'' = Done (0, 8, 128)"
    by (simp add: parse_fec_def strtoul_def Let_def isspace_def isdigit_def number_def ULONG_MAX_def to_int_def)
  then show ?thesis
    by (simp add: sender_setup_def option_loop_def sender_option_def check_options_def check_async_def default_options_def has_option_def clamp_slices_def
        Let_def init_sliceSize_def sender_config_def net_config.truncate_def has_flag_def FLAG_ASYNC_def FLAG_POINTOPOINT_def FLAG_FEC_def)
qed

subsection \<open>Properties\<close>

text \<open>
  C23.  The options that \<^verbatim>\<open>main\<close> of the sender accepts are consistent: the block size is a positive
  multiple of 4; the slice sizes are in order and at most the maximum; point-to-point is not
  asked for and excluded at once, nor with asynchronous transfer; asynchronous transfer has a rate governor; hello
  messages are repeated when they are counted.  The slice size the transfer starts with is then positive and
  within the limits the sender asserts, if the numbers for FEC are positive and their products fit an \<^verbatim>\<open>int\<close>.
\<close>

theorem sender_options_sound:
  assumes "sender_setup aton brate auto load opts args = Done so"
  shows "0 < o_blockSize so \<and> 4 dvd o_blockSize so \<and> slices_ok so \<and> length (o_governors so) \<le> MAX_GOVERNORS
    \<and> \<not> (has_option so FLAG_POINTOPOINT \<and> has_option so FLAG_NOPOINTOPOINT)
    \<and> (has_option so FLAG_ASYNC \<longrightarrow> o_governors so \<noteq> [] \<and> \<not> has_option so FLAG_POINTOPOINT)
    \<and> (o_autostart so \<noteq> 0 \<or> has_option so FLAG_ASYNC \<longrightarrow> o_rexmit_hello_interval so \<noteq> 0)
    \<and> ((has_option so FLAG_FEC \<longrightarrow> 0 < o_fec_stripes so \<and> o_fec_stripes so < 2 ^ 24 \<and> 0 < o_fec_stripesize so
          \<and> o_fec_stripes so * o_fec_stripesize so < 2 ^ 31)
       \<longrightarrow> (let c = init_sliceSize (net_config.truncate (sender_config so))
            in 1 \<le> sliceSize c \<and> sliceSize c \<le> max_slice_size c \<and> max_slice_size c \<le> MAX_SLICE_SIZE))"
proof -
  obtain so0 so1 where s: "option_loop (sender_option aton brate auto load) opts default_options = Done so0" "check_async so0 = Done so1"
      "check_options args so0 = Done so"
    using assms by (auto simp: sender_setup_def check_options_def and_then_Done)
  define so2 where "so2 = (if args \<noteq> [] \<and> fileName so1 = None then so1\<lparr>fileName := Some (hd args)\<rparr> else so1)"
  define so3 where "so3 = (if (o_autostart so2 \<noteq> 0 \<or> has_option so2 FLAG_ASYNC) \<and> o_rexmit_hello_interval so2 = 0
    then so2\<lparr>o_rexmit_hello_interval := 1000\<rparr> else so2)"
  have opts: "\<not> (has_option so2 FLAG_POINTOPOINT \<and> has_option so2 FLAG_NOPOINTOPOINT)"
      "\<not> (has_option so3 FLAG_ASYNC \<and> o_governors so3 = [])" "so = clamp_slices so3"
    using s(3) unfolding check_options_def s(2) and_then.simps Let_def so2_def [symmetric] so3_def [symmetric] by (auto split: if_splits)
  have same: "has_option so3 = has_option so1" "has_option so2 = has_option so1" "options_inv so3 = options_inv so1"
    by (auto simp: so3_def so2_def has_option_def fun_eq_iff options_inv_def)
  have "options_inv (default_options :: 'd sender_options)"
    by (simp add: options_inv_def default_options_def MAX_SLICE_SIZE_def MAX_GOVERNORS_def)
  then have inv: "options_inv so3" using option_loop_inv [OF s(1)] check_async_same [OF s(2)] same by simp
  have ok: "slices_ok so" unfolding opts(3) by (rule clamp_slices_ok [OF inv])
  have "(o_autostart so3 \<noteq> 0 \<or> has_option so3 FLAG_ASYNC) \<longrightarrow> o_rexmit_hello_interval so3 \<noteq> 0"
    unfolding same(1) same(2) [symmetric] by (simp add: so3_def)
  then show ?thesis
    using inv ok opts(1,2) check_async_same [OF s(2)] first_slice_size [OF ok] unfolding opts(3) clamp_slices_same same options_inv_def by blast
qed

theorem sender_options_sound_witness:
  "\<exists>so. sender_setup (\<lambda>_. None) (maxBitrate 0 False) (maxBitrate 0 False) (\<lambda>_. None) [(Short CHR ''b'', ''1400''), (Long 0x102, ''7'')] [''disk''] = Done so
     \<and> 4 dvd o_blockSize so \<and> 16 \<le> o_min_slice_size so \<and> o_min_slice_size so \<le> o_default_slice_size so"
proof -
  have "to_int (strtoul0 ''1400'') = 1400" "atoi ''7'' = 7"
    by (simp_all add: strtoul0_def strtoul0_end_def atoi_def atol_def Let_def isspace_def isdigit_def hexval_def number_def ULONG_MAX_def to_int_def)
  then obtain so where so: "sender_setup (\<lambda>_. None) (maxBitrate 0 False) (maxBitrate 0 False) (\<lambda>_. None)
      [(Short CHR ''b'', ''1400''), (Long 0x102, ''7'')] [''disk''] = Done so" "o_min_slice_size so = 16" "o_default_slice_size so = 16"
    by (simp add: sender_setup_def option_loop_def sender_option_def check_options_def check_async_def default_options_def has_option_def clamp_slices_def
        Let_def signed_modulo_int_def)
  with sender_options_sound [OF so(1)] show ?thesis by auto
qed

end
