(* ===== verification/CommandLine.thy ===== *)
theory CommandLine
  imports Options
begin

text \<open>
  The command line as the user gives it: the tables of options of \<^verbatim>\<open>src/udp-sender.c\<close> and
  \<^verbatim>\<open>src/udp-receiver.c\<close>, the function \<^verbatim>\<open>getopt_long\<close> of the C library that reads the
  arguments with them, and what \<^verbatim>\<open>main\<close> of the sender does beside a transfer: kill a daemon, become one,
  and repeat.  The model is of a build with \<^verbatim>\<open>getopt_long\<close>, loadable governors, FEC and \<^verbatim>\<open>kill\<close>, without
  the simulation of losses; its usage texts are only the end of the program.
\<close>

subsection \<open>The tables\<close>

type_synonym long_option = "string \<times> bool \<times> optcode" \<comment> \<open>name, whether it has an argument, code\<close>

definition sender_long_options :: "long_option list" where
  "sender_long_options =
    [(''file'', True, Short CHR ''f''), (''half-duplex'', False, Short CHR ''c''), (''full-duplex'', False, Short CHR ''d''),
     (''pipe'', True, Short CHR ''p''), (''port'', True, Short CHR ''P''), (''portbase'', True, Short CHR ''P''),
     (''blocksize'', True, Short CHR ''b''), (''interface'', True, Short CHR ''i''), (''mcast_address'', True, Short CHR ''m''),
     (''mcast-address'', True, Short CHR ''m''), (''mcast_data_address'', True, Short CHR ''m''),
     (''mcast-data-address'', True, Short CHR ''m''), (''mcast_all_address'', True, Short CHR ''M''),
     (''mcast-all-address'', True, Short CHR ''M''), (''mcast_rdv_address'', True, Short CHR ''M''),
     (''mcast-rdv-address'', True, Short CHR ''M''), (''max_bitrate'', True, Short CHR ''r''),
     (''max-bitrate'', True, Short CHR ''r''), (''point-to-point'', False, Short CHR ''1''),
     (''point_to_point'', False, Short CHR ''1''), (''pointopoint'', False, Short CHR ''1''),
     (''nopoint-to-point'', False, Short CHR ''2''), (''nopoint_to_point'', False, Short CHR ''2''),
     (''nopointopoint'', False, Short CHR ''2''), (''async'', False, Short CHR ''a''), (''autorate'', False, Short CHR ''A''),
     (''log'', True, Short CHR ''l''), (''no-progress'', False, Long 0x701), (''min-slice-size'', True, Long 0x101),
     (''default-slice-size'', True, Long 0x102), (''slice-size'', True, Long 0x102), (''max-slice-size'', True, Long 0x103),
     (''ttl'', True, Short CHR ''t''), (''fec'', True, Short CHR ''F''), (''license'', False, Short CHR ''L''),
     (''rexmit-hello-interval'', True, Short CHR ''H''), (''autostart'', True, Short CHR ''S''),
     (''broadcast'', False, Short CHR ''B''), (''sendbuf'', True, Short CHR ''s''), (''min-clients'', True, Short CHR ''C''),
     (''min-receivers'', True, Short CHR ''C''), (''max-wait'', True, Short CHR ''W''), (''min-wait'', True, Short CHR ''w''),
     (''nokbd'', False, Short CHR ''k''), (''start-timeout'', True, Short CHR ''T''),
     (''retriesUntilDrop'', True, Short CHR ''R''), (''retries-until-drop'', True, Short CHR ''R''),
     (''daemon-mode'', False, Short CHR ''D''), (''pid-file'', True, Long 0x901), (''kill'', False, Short CHR ''K''),
     (''bw-period'', True, Short CHR ''I''), (''rate-governor'', True, Short CHR ''g''),
     (''print-uncompressed-position'', True, Short CHR ''x''), (''statistics-period'', True, Short CHR ''z''),
     (''stat-period'', True, Short CHR ''z''), (''streaming'', False, Short CHR ''Z''),
     (''rehello-offset'', False, Short CHR ''Y'')]"

definition receiver_long_options :: "long_option list" where
  "receiver_long_options =
    [(''file'', True, Short CHR ''f''), (''pipe'', True, Short CHR ''p''), (''port'', True, Short CHR ''P''),
     (''portbase'', True, Short CHR ''P''), (''interface'', True, Short CHR ''i''), (''ttl'', True, Short CHR ''t''),
     (''mcast_all_address'', True, Short CHR ''M''), (''mcast-all-address'', True, Short CHR ''M''),
     (''mcast_rdv_address'', True, Short CHR ''M''), (''mcast-rdv-address'', True, Short CHR ''M''),
     (''passive'', False, Short CHR ''d''), (''nosync'', False, Short CHR ''n''), (''sync'', False, Short CHR ''y''),
     (''rcvbuf'', True, Short CHR ''b''), (''nokbd'', False, Short CHR ''k''), (''exitWait'', True, Short CHR ''w''),
     (''exit-wait'', True, Short CHR ''w''), (''start-timeout'', True, Short CHR ''s''), (''receive-timeout'', True, Long 0x801),
     (''license'', False, Short CHR ''L''), (''log'', True, Short CHR ''l''), (''no-progress'', False, Long 0x701),
     (''print-uncompressed-position'', True, Short CHR ''x''), (''statistics-period'', True, Short CHR ''z''),
     (''stat-period'', True, Short CHR ''z''), (''ignore-lost-data'', False, Short CHR ''Z'')]"

definition argLetters :: string where
  "argLetters = ''b:C:f:F:g:H:i:I:Kl:m:M:p:P:r:R:s:S:t:T:w:W:x:z:12aABcdDkLY:Z''"

definition receiver_letters :: string where
  "receiver_letters = ''b:f:p:P:i:l:M:s:t:w:x:z:dkLnyZ''"

subsection \<open>Reading the arguments\<close>

fun letter :: "string \<Rightarrow> char \<Rightarrow> bool option" where
  \<comment> \<open>whether a letter is an option, and has an argument\<close>
  "letter [] c = None"
| "letter (x # xs) c =
     (if x = c \<and> c \<noteq> CHR '':'' then Some (xs \<noteq> [] \<and> hd xs = CHR '':'') else letter xs c)"

definition long_option :: "long_option list \<Rightarrow> string \<Rightarrow> (bool \<times> optcode) option" where
  \<comment> \<open>an exact match, or a prefix of names that all mean the same\<close>
  "long_option opts name =
     (case map_of opts name of Some o1 \<Rightarrow> Some o1
      | None \<Rightarrow>
          (case filter (\<lambda>(n, _). prefix name n) opts of
             [] \<Rightarrow> None
           | (_, o1) # rest \<Rightarrow> if \<forall>(_, o2) \<in> set rest. o2 = o1 then Some o1 else None))"

definition bad_option :: "optcode \<times> string option" where
  "bad_option = (Short CHR ''?'', None)"

fun cluster :: "string \<Rightarrow> string \<Rightarrow> string list \<Rightarrow> (optcode \<times> string option) list \<times> string list" where
  \<comment> \<open>the letters after a single dash; the options and the arguments left\<close>
  "cluster letters [] args = ([], args)"
| "cluster letters (c # cs) args =
     (case letter letters c of
        None \<Rightarrow> (let (os, args) = cluster letters cs args in (bad_option # os, args))
      | Some False \<Rightarrow> (let (os, args) = cluster letters cs args in ((Short c, None) # os, args))
      | Some True \<Rightarrow>
          if cs \<noteq> [] then ([(Short c, Some cs)], args)
          else (case args of [] \<Rightarrow> ([bad_option], []) | a # args \<Rightarrow> ([(Short c, Some a)], args)))"

definition long_arg :: "long_option list \<Rightarrow> string \<Rightarrow> string list \<Rightarrow> (optcode \<times> string option) \<times> string list" where
  \<comment> \<open>the text after two dashes\<close>
  "long_arg opts a args =
     (let name = takeWhile (\<lambda>c. c \<noteq> CHR ''='') a; val = dropWhile (\<lambda>c. c \<noteq> CHR ''='') a
      in case long_option opts name of
           None \<Rightarrow> (bad_option, args)
         | Some (has_arg, code) \<Rightarrow>
             if has_arg then
               (if val \<noteq> [] then ((code, Some (tl val)), args)
                else case args of [] \<Rightarrow> (bad_option, []) | b # args \<Rightarrow> ((code, Some b), args))
             else if val \<noteq> [] then (bad_option, args) else ((code, None), args))"

lemma cluster_length: "cluster letters cs args = (os, rest) \<Longrightarrow> length rest < Suc (length args)"
  by (induction letters cs args arbitrary: os rest rule: cluster.induct) (auto split: option.splits bool.splits if_splits list.splits prod.splits)

lemma long_arg_length: "long_arg opts a args = (x, rest) \<Longrightarrow> length rest < Suc (length args)"
  by (auto simp: long_arg_def Let_def split: option.splits prod.splits if_splits list.splits)

function getopt :: "string \<Rightarrow> long_option list \<Rightarrow> string list \<Rightarrow> (optcode \<times> string option) list \<times> string list" where
  \<comment> \<open>the options in their order, and the other arguments, which may stand between them\<close>
  "getopt letters opts [] = ([], [])"
| "getopt letters opts (a # args) =
     (if a = ''--'' then ([], args)
      else if prefix ''--'' a then
        (case long_arg opts (drop 2 a) args of (x, args) \<Rightarrow>
           (case getopt letters opts args of (os, rest) \<Rightarrow> (x # os, rest)))
      else if prefix ''-'' a \<and> a \<noteq> ''-'' then
        (case cluster letters (tl a) args of (xs, args) \<Rightarrow>
           (case getopt letters opts args of (os, rest) \<Rightarrow> (xs @ os, rest)))
      else (case getopt letters opts args of (os, rest) \<Rightarrow> (os, a # rest)))"
  by pat_completeness auto

termination
  by (relation "measure (\<lambda>(letters, opts, args). length args)") (auto dest: cluster_length [OF sym] long_arg_length [OF sym])

subsection \<open>The options of the sender\<close>

definition sender_reads :: "optcode list" where
  \<comment> \<open>the cases that read \<^verbatim>\<open>optarg\<close>\<close>
  "sender_reads = map Short ''fipPblmMrtFzxHSsCWwTRIgY'' @ [Long 0x101, Long 0x102, Long 0x103, Long 0x901]"

definition with_optarg :: "optcode list \<Rightarrow> (optcode \<Rightarrow> string \<Rightarrow> 'o \<Rightarrow> 'o outcome) \<Rightarrow> optcode \<times> string option \<Rightarrow> 'o \<Rightarrow> 'o outcome" where
  \<comment> \<open>without an argument \<^verbatim>\<open>optarg\<close> is a null pointer, and reading it is undefined\<close>
  "with_optarg reads f = (\<lambda>(c, arg). case arg of Some a \<Rightarrow> f c a | None \<Rightarrow> if c \<in> set reads then \<lambda>_. Undefined else f c [])"

definition sender_line :: "(string \<Rightarrow> u32 option) \<Rightarrow> 'd rateGovernor \<Rightarrow> 'd rateGovernor \<Rightarrow> (string \<Rightarrow> 'd rateGovernor option)
    \<Rightarrow> string list \<Rightarrow> ('d sender_options \<times> string list) outcome" where
  \<comment> \<open>the loop over the arguments\<close>
  "sender_line aton brate auto load args =
     (let (os, rest) = getopt argLetters sender_long_options args
      in and_then (each (with_optarg sender_reads (sender_option aton brate auto load)) os default_options) (\<lambda>so. Done (so, rest)))"

subsection \<open>The options of the receiver\<close>

definition receiver_reads :: "optcode list" where
  "receiver_reads = map Short ''fipPltMbwszx'' @ [Long 0x801]"

definition receiver_line :: "string list \<Rightarrow> receiver_options \<Rightarrow> receiver_options outcome" where
  \<comment> \<open>the loop over the arguments; those that are not options are ignored\<close>
  "receiver_line args so =
     (let (os, rest) = getopt receiver_letters receiver_long_options args
      in each (with_optarg receiver_reads receiver_option) os so)"

subsection \<open>Daemons\<close>

definition newline :: char where "newline = CHR 0x0A"

function decimal :: "nat \<Rightarrow> string" where
  \<comment> \<open>the format \<^verbatim>\<open>%d\<close> of a number that is not negative\<close>
  "decimal n = (if n < 10 then [char_of (48 + n)] else decimal (n div 10) @ [char_of (48 + n mod 10)])"
  by pat_completeness auto

termination
  by (relation "measure id") auto

declare decimal.simps [simp del]

definition fgets :: "nat \<Rightarrow> string \<Rightarrow> string option" where
  \<comment> \<open>a buffer of \<open>n\<close> characters\<close>
  "fgets n text =
     (if text = [] then None
      else Some (take (n - 1) (takeWhile (\<lambda>c. c \<noteq> newline) text @ take 1 (dropWhile (\<lambda>c. c \<noteq> newline) text))))"

datatype kill_result = Killed | ESRCH | Not_killed

record kill_effect =
  exit_code :: int
  killed :: "int option"
  unlinked :: bool

definition kill_daemon :: "(string \<Rightarrow> string option) \<Rightarrow> (int \<Rightarrow> kill_result) \<Rightarrow> string option \<Rightarrow> kill_effect" where
  \<comment> \<open>\<open>content\<close>: the files that can be read\<close>
  "kill_daemon content kill pf =
     (let exit = (\<lambda>r. \<lparr>exit_code = r, killed = None, unlinked = False\<rparr>)
      in case pf of None \<Rightarrow> exit 1
         | Some f \<Rightarrow>
             (case content f of None \<Rightarrow> exit 1
              | Some text \<Rightarrow>
                  (case fgets 80 text of None \<Rightarrow> exit 1
                   | Some line \<Rightarrow>
                       let pid = atoi line
                       in if pid \<le> 0 then exit (-1)
                          else case kill pid of
                            Killed \<Rightarrow> \<lparr>exit_code = 0, killed = Some pid, unlinked = False\<rparr>
                          | ESRCH \<Rightarrow> \<lparr>exit_code = 1, killed = Some pid, unlinked = True\<rparr>
                          | Not_killed \<Rightarrow> \<lparr>exit_code = 1, killed = Some pid, unlinked = False\<rparr>)))"

definition become_daemon :: "bool \<Rightarrow> bool \<Rightarrow> nat \<Rightarrow> 'd sender_options \<Rightarrow> ('d sender_options \<times> (string \<times> string) option) outcome" where
  \<comment> \<open>\<open>ok\<close>, \<open>opened\<close>: whether \<^verbatim>\<open>daemon\<close> and \<^verbatim>\<open>fopen\<close> succeed; the file with the process number\<close>
  "become_daemon ok opened pid so =
     (if daemon_mode so = 2 then
        let so = so\<lparr>o_flags := o_flags so OR FLAG_NOKBD, noProgress := True\<rparr>
        in and_then (check ok) (\<lambda>_.
             case pidfile so of None \<Rightarrow> Done (so, None)
             | Some f \<Rightarrow> and_then (in_bounds opened) (\<lambda>_. Done (so, Some (f, decimal pid @ [newline]))))
      else Done (so, None))"

fun session_loop :: "bool \<Rightarrow> int outcome list \<Rightarrow> int outcome" where
  \<comment> \<open>\<^verbatim>\<open>do ... while(daemon_mode)\<close> over the results of the sessions\<close>
  "session_loop again [] = Blocks"
| "session_loop again (r # rs) = and_then r (\<lambda>x. if again then session_loop again rs else Done x)"

definition init_options :: "'d sender_options" where
  \<comment> \<open>for a program called \<^verbatim>\<open>init\<close>\<close>
  "init_options = default_options\<lparr>pipeName := Some ''/bin/gzip -c'', fileName := Some ''/dev/hda''\<rparr>"

definition base_name :: "string \<Rightarrow> string" where
  "base_name s = rev (takeWhile (\<lambda>c. c \<noteq> CHR ''/'') (rev s))"

definition sender_main :: "(string \<Rightarrow> u32 option) \<Rightarrow> 'd rateGovernor \<Rightarrow> 'd rateGovernor \<Rightarrow> (string \<Rightarrow> 'd rateGovernor option)
    \<Rightarrow> (string \<Rightarrow> string option) \<Rightarrow> (int \<Rightarrow> kill_result) \<Rightarrow> bool \<Rightarrow> bool \<Rightarrow> bool \<Rightarrow> nat \<Rightarrow> ('d sender_options \<Rightarrow> int outcome list)
    \<Rightarrow> string \<Rightarrow> string list \<Rightarrow> (int \<times> kill_effect option) outcome" where
  \<comment> \<open>\<open>made\<close>: whether \<^verbatim>\<open>openMainSenderSock\<close> gives a socket; \<open>sessions\<close>: what \<^verbatim>\<open>startSender\<close> returns each
     time, with these options\<close>
  "sender_main aton brate auto load content kill made ok opened pid sessions prog args =
     and_then (if base_name prog = ''init'' then Done (init_options, args) else sender_line aton brate auto load args) (\<lambda>(so, rest).
       if doKill so then
         let e = kill_daemon content kill (pidfile so) in Done (exit_code e, Some e)
       else
         and_then (check_options rest so) (\<lambda>so.
         and_then (check made) (\<lambda>_.
         and_then (become_daemon ok opened pid so) (\<lambda>(so, _).
         and_then (session_loop (daemon_mode so \<noteq> 0) (sessions so)) (\<lambda>r. Done (r, None))))))"

definition receiver_main :: "(bool \<Rightarrow> receiver_options \<Rightarrow> int outcome) \<Rightarrow> string \<Rightarrow> string list \<Rightarrow> int outcome" where
  \<comment> \<open>\<open>start\<close>: \<^verbatim>\<open>startReceiver\<close>; a receiver called \<^verbatim>\<open>init\<close> warns before it overwrites the disk\<close>
  "receiver_main start prog args =
     (let doWarn = (base_name prog = ''init'');
          so = (if doWarn then default_receiver_options\<lparr>p_pipeName := Some ''/bin/gzip -dc'', p_fileName := Some ''/dev/hda''\<rparr>
                else default_receiver_options)
      in and_then (receiver_line args so) (start doWarn))"

definition intHandler :: "int \<Rightarrow> int option" where
  \<comment> \<open>the signal it stores; then it calls \<^verbatim>\<open>fatal\<close>\<close>
  "intHandler n = Some n"

definition signalForward :: "int option \<Rightarrow> int \<Rightarrow> int + int" where
  \<comment> \<open>at exit: how the process ends, by the signal (\<open>Inl\<close>) or with its exit code\<close>
  "signalForward signalNumber code = (case signalNumber of Some n \<Rightarrow> Inl n | None \<Rightarrow> Inr code)"

subsection \<open>Lemmas\<close>

lemma letter_in: "letter xs c = Some b \<Longrightarrow> c \<in> set xs \<and> c \<noteq> CHR '':''"
  by (induction xs) (auto split: if_splits)

lemma sender_table:
  "list_all (\<lambda>(name, has_arg, c). (if name = ''rehello-offset'' then c = Short CHR ''Y'' else c \<in> set sender_reads \<longleftrightarrow> has_arg)) sender_long_options"
  by (simp add: sender_long_options_def sender_reads_def)

lemma receiver_table:
  "list_all (\<lambda>(name, has_arg, c). c \<in> set receiver_reads \<longleftrightarrow> has_arg) receiver_long_options"
  by (simp add: receiver_long_options_def receiver_reads_def)

lemma sender_letters:
  "list_all (\<lambda>c. c \<noteq> CHR '':'' \<longrightarrow> (Short c \<in> set sender_reads) = (letter argLetters c = Some True)) argLetters"
  by (simp add: argLetters_def sender_reads_def)

lemma receiver_letters_ok:
  "list_all (\<lambda>c. c \<noteq> CHR '':'' \<longrightarrow> (Short c \<in> set receiver_reads) = (letter receiver_letters c = Some True)) receiver_letters"
  by (simp add: receiver_letters_def receiver_reads_def)

lemma long_option_in: "long_option opts name = Some (h, c) \<Longrightarrow> \<exists>n. (n, h, c) \<in> set opts"
proof (cases "map_of opts name")
  case None
  assume "long_option opts name = Some (h, c)"
  with None obtain n rest where "filter (\<lambda>(n, _). prefix name n) opts = (n, h, c) # rest"
    by (auto simp: long_option_def split: list.splits if_splits)
  then have "(n, h, c) \<in> set (filter (\<lambda>(n, _). prefix name n) opts)" by simp
  then show ?thesis by auto
next
  case (Some a)
  assume "long_option opts name = Some (h, c)"
  with Some show ?thesis by (auto simp: long_option_def dest: map_of_SomeD)
qed

lemma cluster_reads:
  assumes "cluster letters cs args = (os, rest)" and "\<And>c. letter letters c = Some False \<Longrightarrow> Short c \<notin> R" and "Short CHR ''?'' \<notin> R"
  shows "\<forall>(c, arg) \<in> set os. arg = None \<longrightarrow> c \<notin> R"
  using assms(1,2)
proof (induction letters cs args arbitrary: os rest rule: cluster.induct)
  case (2 letters c cs args)
  obtain os1 rest1 where c1: "cluster letters cs args = (os1, rest1)" by (cases "cluster letters cs args") simp
  consider "letter letters c = None" | "letter letters c = Some False" | "letter letters c = Some True" by (metis (full_types) not_None_eq)
  then show ?case
  proof cases
    case 1
    then show ?thesis using "2.IH"(1) [OF 1 c1 "2.prems"(2)] "2.prems" assms(3) c1 by (auto simp: bad_option_def)
  next
    case 2
    then show ?thesis using "2.IH"(2) [OF 2 refl c1 "2.prems"(2)] "2.prems" c1 by auto
  next
    case 3
    then show ?thesis using "2.prems"(1) assms(3) by (auto simp: bad_option_def split: if_splits list.splits)
  qed
qed simp

lemma getopt_reads:
  assumes "\<And>c. letter letters c = Some False \<Longrightarrow> Short c \<notin> R" and "Short CHR ''?'' \<notin> R"
    and "\<And>n c. (n, False, c) \<in> set opts \<Longrightarrow> c \<notin> R"
  shows "\<forall>(c, arg) \<in> set (fst (getopt letters opts args)). arg = None \<longrightarrow> c \<notin> R"
  using assms
proof (induction letters opts args rule: getopt.induct)
  case (2 letters opts a args)
  have long: "case x of (c, arg) \<Rightarrow> arg = None \<longrightarrow> c \<notin> R" if "long_arg opts (drop 2 a) args = (x, rest)" for x rest
    using that "2.prems"(2,3) by (auto simp: long_arg_def Let_def bad_option_def dest!: long_option_in split: option.splits if_splits list.splits)
  have short: "\<forall>(c, arg) \<in> set xs. arg = None \<longrightarrow> c \<notin> R" if "cluster letters (tl a) args = (xs, rest)" for xs rest
    using cluster_reads [OF that "2.prems"(1,2)] .
  consider "a = ''--''" | "a \<noteq> ''--''" "prefix ''--'' a" | "a \<noteq> ''--''" "\<not> prefix ''--'' a" "prefix ''-'' a \<and> a \<noteq> ''-''"
    | "a \<noteq> ''--''" "\<not> prefix ''--'' a" "\<not> (prefix ''-'' a \<and> a \<noteq> ''-'')" by blast
  then show ?case
  proof cases
    case 2
    obtain x rest where l: "long_arg opts (drop 2 a) args = (x, rest)" by (cases "long_arg opts (drop 2 a) args") simp
    then show ?thesis using "2.IH"(1) [OF 2 l [symmetric]] "2.prems" long [OF l] 2 by (auto split: prod.splits)
  next
    case 3
    obtain xs rest where l: "cluster letters (tl a) args = (xs, rest)" by (cases "cluster letters (tl a) args") simp
    then show ?thesis using "2.IH"(2) [OF 3 l [symmetric]] "2.prems" short [OF l] 3 by (auto split: prod.splits)
  next
    case 4
    then show ?thesis using "2.IH"(3) [OF 4] "2.prems" by (auto split: prod.splits)
  qed simp
qed simp

lemma receiver_option_defined: "receiver_option c arg so \<noteq> Undefined"
proof (cases c)
  case (Short x)
  have "parseSize arg \<noteq> Undefined" by (auto simp: parseSize_def split: list.splits prod.splits)
  then have "and_then (parseSize arg) (\<lambda>n. Done (so\<lparr>p_requestedBufSize := to_int n\<rparr>)) \<noteq> Undefined" by (cases "parseSize arg") simp_all
  then show ?thesis by (simp add: receiver_option_def Short)
qed (simp add: receiver_option_def)

lemma each_defined:
  assumes "\<And>x s. x \<in> set xs \<Longrightarrow> f x s \<noteq> Undefined"
  shows "each f xs s \<noteq> Undefined"
  using assms
proof (induction xs arbitrary: s)
  case (Cons x xs)
  have "each f xs s1 \<noteq> Undefined" for s1 by (rule Cons.IH) (simp add: Cons.prems)
  then show ?case using Cons.prems [of x s] by (cases "f x s") simp_all
qed simp

lemma number_decimal: "number (decimal n) = n \<and> (\<forall>c \<in> set (decimal n). isdigit c) \<and> decimal n \<noteq> []"
proof (induction n rule: decimal.induct)
  case (1 n)
  have d: "isdigit (char_of (48 + k)) \<and> of_char (char_of (48 + k :: nat) :: char) = (48 + k :: nat)" if "k < 10" for k
    using that by (simp add: isdigit_def)
  show ?case
  proof (cases "n < 10")
    case True
    then show ?thesis using d [of n] by (simp add: decimal.simps [of n] number_def)
  next
    case False
    then show ?thesis using 1 d [of "n mod 10"] by (simp add: decimal.simps [of n] number_def)
  qed
qed

lemma length_decimal: "n < 10 ^ Suc k \<Longrightarrow> length (decimal n) \<le> Suc k"
proof (induction k arbitrary: n)
  case (Suc k)
  then have "n div 10 < 10 ^ Suc k" by (simp add: less_mult_imp_div_less mult.commute)
  then show ?case using Suc.IH [of "n div 10"] by (simp add: decimal.simps [of n])
qed (simp add: decimal.simps)

lemma atoi_decimal:
  assumes "n < 2 ^ 31"
  shows "atoi (decimal n @ [newline]) = int n"
proof -
  note d = number_decimal [of n]
  define ds where "ds = decimal n"
  have digits: "number ds = n" "\<forall>c \<in> set ds. isdigit c" "ds \<noteq> []" using d by (simp_all add: ds_def)
  have hd: "isdigit (hd ds)" using digits(2,3) by simp
  have "\<not> isspace (hd ds)" "hd ds \<noteq> CHR ''-''" "hd ds \<noteq> CHR ''+''" using hd by (auto simp: isspace_def isdigit_def)
  moreover have "dropWhile isspace (ds @ [newline]) = ds @ [newline]" using digits(3) \<open>\<not> isspace (hd ds)\<close> by (cases ds) simp_all
  moreover have "takeWhile isdigit (ds @ [newline]) = ds" using digits(2) by (simp add: takeWhile_append2 newline_def isdigit_def)
  ultimately have "atol (ds @ [newline]) = int n" using digits(1,3) assms by (simp add: atol_def Let_def hd_append)
  moreover have "signed_take_bit 31 (int n) = int n" using assms by (intro signed_take_bit_int_eq_self) simp_all
  ultimately show ?thesis by (simp add: atoi_def ds_def [symmetric] sint_sbintrunc' del: of_int_of_nat_eq)
qed

text \<open>
  A daemon can be killed by its file: the option \<^verbatim>\<open>-K\<close> reads from it the number that the
  daemon has written, and sends the signal to that process.
\<close>

lemma pidfile_names_daemon:
  assumes "become_daemon True opened pid so = Done (so', Some (f, text))" and "0 < pid" and "pid < 2 ^ 31"
  shows "kill_daemon [f \<mapsto> text] (\<lambda>_. Killed) (Some f) = \<lparr>exit_code = 0, killed = Some (int pid), unlinked = False\<rparr>"
proof -
  have cnt: "text = decimal pid @ [newline]" using assms(1)
    by (auto simp: become_daemon_def Let_def and_then_Done split: if_splits option.splits)
  have "c \<noteq> newline" if "isdigit c" for c using that by (auto simp: isdigit_def newline_def)
  then have n: "newline \<notin> set (decimal pid)" using number_decimal [of pid] by blast
  have "pid < 10 ^ Suc 9" using assms(3) by simp
  from length_decimal [OF this] have "length (decimal pid) \<le> 10" by simp
  then have "fgets 80 text = Some text"
    using takeWhile_sep [OF n, of "[]"] by (simp add: fgets_def cnt)
  then show ?thesis using atoi_decimal [OF assms(3)] assms(2) by (simp add: kill_daemon_def Let_def cnt)
qed

lemma daemon_never_returns: "session_loop True rs \<noteq> Done r"
proof (induction rs)
  case (Cons x rs)
  then show ?case by (cases x) simp_all
qed simp

subsection \<open>Properties\<close>

text \<open>
  C32.  Options get the arguments they read.  Whatever the command line is, every option of the sender that reads its argument
  has one, except \<^verbatim>\<open>Y\<close>, and the receiver never reads a missing argument.  The exception is an
  error of the table of the sender: \<^verbatim>\<open>--rehello-offset\<close> is declared without an argument, so with it the
  sender reads a null pointer, while \<^verbatim>\<open>-Y\<close> with the same number sets it.
\<close>

theorem options_get_arguments:
  "(\<forall>(c, arg) \<in> set (fst (getopt argLetters sender_long_options args)). arg = None \<longrightarrow> c \<notin> set sender_reads - {Short CHR ''Y''})
   \<and> receiver_line args po \<noteq> Undefined
   \<and> sender_line aton brate auto load [''--rehello-offset'', ''10''] = Undefined
   \<and> (\<exists>so. sender_line aton brate auto load [''-Y'', ''10''] = Done (so, []) \<and> o_rehelloOffset so = 10)"
proof (intro conjI)
  have "Short c \<notin> set sender_reads" if "letter argLetters c = Some False" for c
    using sender_letters letter_in [OF that] that by (auto simp: list_all_iff)
  moreover have "c \<notin> set sender_reads - {Short CHR ''Y''}" if "(n, False, c) \<in> set sender_long_options" for n c
    using sender_table [unfolded list_all_iff, THEN bspec, OF that] by (simp split: if_splits)
  ultimately show "\<forall>(c, arg) \<in> set (fst (getopt argLetters sender_long_options args)). arg = None \<longrightarrow> c \<notin> set sender_reads - {Short CHR ''Y''}"
    by (intro getopt_reads) (auto simp: sender_reads_def)
next
  have "Short c \<notin> set receiver_reads" if "letter receiver_letters c = Some False" for c
    using receiver_letters_ok letter_in [OF that] that by (auto simp: list_all_iff)
  moreover have "c \<notin> set receiver_reads" if "(n, False, c) \<in> set receiver_long_options" for n c
    using receiver_table that by (fastforce simp: list_all_iff)
  moreover have "Short CHR ''?'' \<notin> set receiver_reads" by (simp add: receiver_reads_def)
  ultimately have "\<forall>(c, arg) \<in> set (fst (getopt receiver_letters receiver_long_options args)). arg = None \<longrightarrow> c \<notin> set receiver_reads"
    by (intro getopt_reads) auto
  then show "receiver_line args po \<noteq> Undefined"
    unfolding receiver_line_def split_def Let_def
    by (intro each_defined) (auto simp: with_optarg_def receiver_option_defined split: option.splits)
next
  have "long_option sender_long_options ''rehello-offset'' = Some (False, Short CHR ''Y'')"
    by (simp add: long_option_def sender_long_options_def)
  then show "sender_line aton brate auto load [''--rehello-offset'', ''10''] = Undefined"
    by (simp add: sender_line_def long_arg_def with_optarg_def sender_reads_def Let_def)
next
  have "letter argLetters CHR ''Y'' = Some True" by (simp add: argLetters_def)
  moreover have "atol ''10'' = 10" by (simp add: atol_def Let_def isspace_def isdigit_def number_def)
  ultimately show "\<exists>so. sender_line aton brate auto load [''-Y'', ''10''] = Done (so, []) \<and> o_rehelloOffset so = 10"
    by (simp add: sender_line_def with_optarg_def sender_option_def Let_def)
qed

theorem options_get_arguments_witness:
  "fst (getopt argLetters sender_long_options [''--file'', ''disk'', ''-k'']) = [(Short CHR ''f'', Some ''disk''), (Short CHR ''k'', None)]
   \<and> Short CHR ''k'' \<notin> set sender_reads \<and> receiver_line [''-f''] default_receiver_options \<noteq> Undefined"
proof -
  have "long_option sender_long_options ''file'' = Some (True, Short CHR ''f'')" by (simp add: long_option_def sender_long_options_def)
  moreover have "letter argLetters CHR ''k'' = Some False" by (simp add: argLetters_def)
  ultimately have g: "fst (getopt argLetters sender_long_options [''--file'', ''disk'', ''-k'']) = [(Short CHR ''f'', Some ''disk''), (Short CHR ''k'', None)]"
    by (simp add: long_arg_def Let_def)
  show ?thesis
    using options_get_arguments [of "[''--file'', ''disk'', ''-k'']" _ "\<lambda>_. None" "maxBitrate 0 False" "maxBitrate 0 False" "\<lambda>_. None"]
      options_get_arguments [of "[''-f'']" default_receiver_options "\<lambda>_. None" "maxBitrate 0 False" "maxBitrate 0 False" "\<lambda>_. None", THEN conjunct2, THEN conjunct1]
    unfolding g by simp
qed

end
