(* ===== verification/Commands.thy ===== *)
theory Commands
  imports Prelude
begin

text \<open>
  The command of a pipe, \<^verbatim>\<open>src/udpcast.c\<close>: how \<^verbatim>\<open>udpc_parseCommand\<close> cuts it, in place, into
  the arguments for \<^verbatim>\<open>exec\<close>, and how the end of the process is reported.  The buffer of the command
  is a list of characters that ends with NUL; a pointer into it is a position.
\<close>

subsection \<open>The arguments\<close>

definition NUL :: char where "NUL = CHR 0x00"

definition c_string :: "string \<Rightarrow> nat \<Rightarrow> string" where
  \<comment> \<open>the string that a pointer to position \<open>p\<close> denotes\<close>
  "c_string buf p = takeWhile (\<lambda>c. c \<noteq> NUL) (drop p buf)"

definition MAX_ARGS :: nat where "MAX_ARGS = 256"

fun parse_loop :: "string \<Rightarrow> nat \<Rightarrow> bool \<Rightarrow> string \<Rightarrow> nat list \<Rightarrow> (string \<times> nat list) outcome" where
  \<comment> \<open>the loop, with the characters left before the NUL\<close>
  "parse_loop [] p haveSpace buf args = Done (buf, args)"
| "parse_loop (c # cs) p haveSpace buf args =
     (let (haveSpace, buf, args) =
            (if c = CHR '' '' then (True, buf[p := NUL], args)
             else if haveSpace then (False, buf, args @ [p])
             else (haveSpace, buf, args))
      in if length args = MAX_ARGS then Aborts else parse_loop cs (p + 1) haveSpace buf args)"

definition parseCommand :: "string \<Rightarrow> (string \<times> nat list) outcome" where
  "parseCommand pipeName = parse_loop pipeName 0 True (pipeName @ [NUL]) []"

subsection \<open>The end of a process\<close>

datatype process_status = Exited int | Signaled int | Stopped

definition printProcessStatus :: "process_status \<Rightarrow> int" where
  \<comment> \<open>the value returned\<close>
  "printProcessStatus status = (case status of Exited code \<Rightarrow> code | Signaled _ \<Rightarrow> 1 | Stopped \<Rightarrow> 1)"

definition waitForProcess :: "process_status option \<Rightarrow> int" where
  \<comment> \<open>\<open>None\<close>: \<^verbatim>\<open>waitpid\<close> fails\<close>
  "waitForProcess w = (case w of None \<Rightarrow> 0 | Some status \<Rightarrow> printProcessStatus status)"

subsection \<open>Words\<close>

lemma dropWhile_length [termination_simp]: "length (dropWhile P s) < Suc (length s)"
  using length_dropWhile_le [of P s] by simp

fun words :: "string \<Rightarrow> string list" where
  \<comment> \<open>the maximal sequences of characters without spaces\<close>
  "words [] = []"
| "words (c # cs) =
     (if c = CHR '' '' then words cs
      else takeWhile (\<lambda>c. c \<noteq> CHR '' '') (c # cs) # words (dropWhile (\<lambda>c. c \<noteq> CHR '' '') cs))"

fun starts :: "nat \<Rightarrow> bool \<Rightarrow> string \<Rightarrow> nat list" where
  \<comment> \<open>the positions where the words of a string at position \<open>p\<close> start\<close>
  "starts p haveSpace [] = []"
| "starts p haveSpace (c # cs) =
     (if c = CHR '' '' then starts (p + 1) True cs else if haveSpace then p # starts (p + 1) False cs else starts (p + 1) False cs)"

definition cut :: "char \<Rightarrow> char" where "cut c = (if c = CHR '' '' then NUL else c)"

lemma parse_loop_starts:
  "length args < MAX_ARGS \<Longrightarrow> length front = p \<Longrightarrow>
   parse_loop cs p haveSpace (front @ cs @ rest) args =
     (if length args + length (starts p haveSpace cs) < MAX_ARGS then Done (front @ map cut cs @ rest, args @ starts p haveSpace cs)
      else Aborts)"
  for front :: string
proof (induction cs arbitrary: p haveSpace front args)
  case (Cons c cs)
  define args' where "args' = (if c \<noteq> CHR '' '' \<and> haveSpace then args @ [p] else args)"
  define hs where "hs = (c = CHR '' '')"
  have step: "parse_loop (c # cs) p haveSpace (front @ (c # cs) @ rest) args =
      (if length args' = MAX_ARGS then Aborts else parse_loop cs (p + 1) hs ((front @ [cut c]) @ cs @ rest) args')"
    using Cons.prems by (auto simp: args'_def hs_def cut_def)
  have st: "starts p haveSpace (c # cs) = (if c \<noteq> CHR '' '' \<and> haveSpace then [p] else []) @ starts (p + 1) hs cs"
    by (simp add: hs_def)
  show ?case
  proof (cases "length args' = MAX_ARGS")
    case True
    then show ?thesis using step Cons.prems unfolding st by (auto simp: args'_def split: if_splits)
  next
    case False
    then have "length args' < MAX_ARGS" using Cons.prems by (auto simp: args'_def split: if_splits)
    from Cons.IH [OF this, of "front @ [cut c]" "p + 1" hs] show ?thesis
      using step False Cons.prems(2) unfolding st by (auto simp: args'_def)
  qed
qed simp

lemma starts_words:
  fixes pre :: string
  assumes "length pre = p" and "f = (\<lambda>i. takeWhile (\<lambda>c. c \<noteq> CHR '' '') (drop i (pre @ cs)))"
  shows "map f (starts p True cs) = words cs \<and> map f (starts p False cs) = words (dropWhile (\<lambda>c. c \<noteq> CHR '' '') cs)"
  using assms
proof (induction cs arbitrary: p pre)
  case (Cons c cs)
  have "f = (\<lambda>i. takeWhile (\<lambda>c. c \<noteq> CHR '' '') (drop i ((pre @ [c]) @ cs)))" using Cons.prems(2) by simp
  note IH = Cons.IH [OF _ this, of "p + 1"]
  have "f p = takeWhile (\<lambda>c. c \<noteq> CHR '' '') (c # cs)" using Cons.prems by simp
  then show ?case using IH Cons.prems(1) by auto
qed simp

lemma cut_words:
  assumes "NUL \<notin> set s" and "i \<le> length s"
  shows "c_string (map cut s @ [NUL]) i = takeWhile (\<lambda>c. c \<noteq> CHR '' '') (drop i s)"
proof -
  have "takeWhile (\<lambda>c. c \<noteq> NUL) (map cut t @ [NUL]) = takeWhile (\<lambda>c. c \<noteq> CHR '' '') t" if "NUL \<notin> set t" for t
    using that by (induction t) (auto simp: cut_def)
  from this [of "drop i s"] show ?thesis
    using assms by (auto simp: c_string_def drop_map dest: in_set_dropD)
qed

lemma starts_below: "i \<in> set (starts p hs cs) \<Longrightarrow> i < p + length cs"
  by (induction cs arbitrary: p hs) (force split: if_splits)+

text \<open>
  \<^verbatim>\<open>udpc_parseCommand\<close> finds the words of the command: the pointers it stores denote, in
  the buffer it has cut, exactly the words in their order; with 256 words or more it ends
  the program instead of writing past its array.
\<close>

lemma parseCommand_spec:
  assumes "NUL \<notin> set s"
  shows "(length (words s) < MAX_ARGS \<longrightarrow> (\<exists>buf args. parseCommand s = Done (buf, args) \<and> map (c_string buf) args = words s))
    \<and> (MAX_ARGS \<le> length (words s) \<longrightarrow> parseCommand s = Aborts)"
proof -
  define f where "f = (\<lambda>i. takeWhile (\<lambda>c. c \<noteq> CHR '' '') (drop i s))"
  have w: "map f (starts 0 True s) = words s" using starts_words [of "[]" 0 f s] by (simp add: f_def)
  have "map (c_string (map cut s @ [NUL])) (starts 0 True s) = map f (starts 0 True s)"
    using cut_words [OF assms] starts_below [of _ 0 True s] by (auto simp: f_def less_imp_le)
  moreover have "parseCommand s = (if length (starts 0 True s) < MAX_ARGS then Done (map cut s @ [NUL], starts 0 True s) else Aborts)"
    using parse_loop_starts [of "[]" "[]" 0 s True "[NUL]"] by (simp add: parseCommand_def MAX_ARGS_def)
  moreover have "length (starts 0 True s) = length (words s)" using arg_cong [OF w, of length] by simp
  ultimately show ?thesis using w by auto
qed

lemma parseCommand_sample:
  "\<exists>buf args. parseCommand '' gzip  -c'' = Done (buf, args) \<and> map (c_string buf) args = [''gzip'', ''-c'']"
  using parseCommand_spec [of "'' gzip  -c''"] by (simp add: NUL_def MAX_ARGS_def)

end
