(* ===== verification/Statistics.thy ===== *)
theory Statistics
  imports SendData ReceiveData RateLimit
begin

text \<open>
  The progress display, \<^verbatim>\<open>src/statistics.c\<close>, with \<^verbatim>\<open>printLongNum\<close> of
  \<^verbatim>\<open>src/log.c\<close>: when a line is printed and which numbers it shows.  The counters are those
  that the threads keep (\<open>sender_stats\<close>, \<open>receiver_stats\<close>); the clock, seconds and microseconds, and the
  positions of files are arguments.
\<close>

subsection \<open>Numbers\<close>

definition digit :: "nat \<Rightarrow> char" where "digit d = char_of (48 + d)"

definition d3 :: "nat \<Rightarrow> string" where
  \<comment> \<open>the format \<^verbatim>\<open>%03d\<close> of a number below 1000\<close>
  "d3 n = [digit (n div 100), digit (n div 10 mod 10), digit (n mod 10)]"

definition s3 :: "nat \<Rightarrow> string" where
  \<comment> \<open>the format \<^verbatim>\<open>%3d\<close>\<close>
  "s3 n = (if n < 10 then ''  '' @ [digit n] else if n < 100 then '' '' @ [digit (n div 10), digit (n mod 10)] else d3 n)"

definition group_text :: "bool \<Rightarrow> nat \<Rightarrow> string" where
  \<comment> \<open>a group of three digits, or blanks before the first digit\<close>
  "group_text nonzero digits = (if nonzero then d3 digits else if digits \<noteq> 0 then s3 digits else ''    '')"

function long_loop :: "nat \<Rightarrow> nat \<Rightarrow> char \<Rightarrow> nat \<Rightarrow> bool \<Rightarrow> string" where
  \<comment> \<open>the loop of \<^verbatim>\<open>printLongNum\<close>; the text printed\<close>
  "long_loop x minDivisor suffix divisor nonzero =
     (if minDivisor \<le> divisor \<and> 0 < divisor then
        let digits = x div divisor mod 1000;
            out = group_text nonzero digits;
            divisor = divisor div 1000
        in out @ (if minDivisor \<le> divisor then '' '' else [suffix]) @ long_loop x minDivisor suffix divisor (nonzero \<or> digits \<noteq> 0)
      else [])"
  by pat_completeness auto

termination
  by (relation "measure (\<lambda>(x, m, suffix, divisor, nonzero). divisor)") auto

declare long_loop.simps [simp del]

definition long_unit :: "nat \<Rightarrow> nat \<times> char" where
  "long_unit x =
     (if x > 1000000000000 then (1048576, CHR ''M'') else if x \<ge> 1000000000 then (1024, CHR ''K'') else (1, CHR '' ''))"

definition printLongNum :: "nat \<Rightarrow> string" where
  "printLongNum x = (let (minDivisor, suffix) = long_unit x in long_loop x minDivisor suffix (minDivisor * 1000000) False)"

subsection \<open>When a line is printed\<close>

record stats_config =
  lastPrinted :: "int \<times> int"
  stat_period :: int
  print_pos :: int \<comment> \<open>\<^verbatim>\<open>printUncompressedPos\<close>\<close>
  no_progress :: bool

definition shouldPrint :: "int \<times> int \<Rightarrow> bool \<Rightarrow> stats_config \<Rightarrow> stats_config \<times> bool" where
  "shouldPrint now isFinal s =
     (if isFinal then (s, True)
      else
        let sinceLastPrint = (fst now - fst (lastPrinted s)) * 1000000 + (snd now - snd (lastPrinted s))
        in if sinceLastPrint < stat_period s then (s, False) else (s\<lparr>lastPrinted := now\<rparr>, True))"

definition initStats :: "int \<times> int \<Rightarrow> int \<Rightarrow> int \<Rightarrow> bool \<Rightarrow> stats_config" where
  "initStats now period pos no = \<lparr>lastPrinted = now, stat_period = period, print_pos = pos, no_progress = no\<rparr>"

definition shouldPrintUncompressedPos :: "int \<Rightarrow> int \<Rightarrow> int \<Rightarrow> int \<Rightarrow> int" where
  \<comment> \<open>\<open>offset\<close> is what \<^verbatim>\<open>lseek\<close> returns\<close>
  "shouldPrintUncompressedPos deflt fd ref offset =
     (if deflt \<noteq> -1 then deflt else if ref = fd then 0 else if offset \<noteq> -1 then 1 else 0)"

subsection \<open>What it shows\<close>

definition displaySenderStats :: "int \<times> int \<Rightarrow> nat \<Rightarrow> bool \<Rightarrow> sender_stats \<Rightarrow> stats_config \<Rightarrow> (stats_config \<times> (string \<times> nat \<times> nat) option) outcome" where
  \<comment> \<open>the bytes, the retransmissions and their share of the blocks in tenths of a percent\<close>
  "displaySenderStats now bs isFinal ss s =
     (if no_progress s then Done (s, None)
      else
        let (s, print) = shouldPrint now isFinal s
        in if \<not> print then Done (s, None)
           else and_then (in_bounds (bs \<noteq> 0)) (\<lambda>_.
             let blocks = (totalBytes ss + bs - 1) div bs mod 2 ^ 32;
                 percent = (if blocks = 0 then 0 else 1000 * retransmissions ss div blocks mod 2 ^ 32)
             in Done (s, Some (printLongNum (totalBytes ss), retransmissions ss, percent))))"

definition displayReceiverStats :: "int \<times> int \<Rightarrow> int \<times> int \<Rightarrow> bool \<Rightarrow> receiver_stats \<Rightarrow> stats_config \<Rightarrow> stats_config \<times> (string \<times> int option) option" where
  \<comment> \<open>the bytes and the bandwidth in hundredths of a megabit per second, unless no time has passed since \<open>start\<close>\<close>
  "displayReceiverStats start now isFinal rs s =
     (if no_progress s then (s, None)
      else
        let (s, print) = shouldPrint now isFinal s;
            timePassed = (fst now - fst start) * 1000000 + (snd now - snd start)
        in if \<not> print then (s, None)
           else (s, Some (printLongNum (nat (rtotalBytes rs)),
                   if timePassed \<noteq> 0 then Some (sint (word_of_int (rtotalBytes rs * 800 sdiv timePassed) :: u32)) else None)))"

definition printFilePosition :: "int \<Rightarrow> string option option \<Rightarrow> string outcome" where
  \<comment> \<open>on Linux; \<open>info\<close>: the content of \<^verbatim>\<open>/proc/self/fdinfo\<close> for the descriptor, if it can be opened and read.  A
     position beyond the largest signed number is taken as negative; without a digit \<^verbatim>\<open>num\<close> is null\<close>
  "printFilePosition fd info =
     (if fd = -1 then Done []
      else case info of
        Some (Some buf) \<Rightarrow>
          let num = dropWhile (\<lambda>c. \<not> isdigit c) (take 160 buf)
          in and_then (in_bounds (num \<noteq> [])) (\<lambda>_.
               let offset = min (number (takeWhile isdigit num)) (2 ^ 64 - 1)
               in Done (if offset < 2 ^ 63 then printLongNum offset else []))
      | _ \<Rightarrow> Done [])"

subsection \<open>The bandwidth\<close>

record bw_log =
  periodBytes :: nat
  periodStart :: "int \<times> int"
  bwPeriod :: int

definition allocSenderStats :: "int \<times> int \<Rightarrow> int \<Rightarrow> int \<Rightarrow> int \<Rightarrow> bool \<Rightarrow> bw_log \<times> stats_config" where
  \<comment> \<open>the parts other than the counters\<close>
  "allocSenderStats now bw period pos no = (\<lparr>periodBytes = 0, periodStart = now, bwPeriod = bw\<rparr>, initStats now period pos no)"

definition addPeriodBytes :: "int \<times> int \<Rightarrow> nat \<Rightarrow> bw_log \<Rightarrow> bw_log \<times> (nat \<times> int) option" where
  \<comment> \<open>the part of \<^verbatim>\<open>senderStatsAddBytes\<close> for the log; the bandwidth logged is the quotient of bits and microseconds\<close>
  "addPeriodBytes tv bs b =
     (if bwPeriod b = 0 then (b, None)
      else
        let b = b\<lparr>periodBytes := (periodBytes b + bs) mod 2 ^ 64\<rparr>
        in if fst tv - fst (periodStart b) < bwPeriod b - 1 then (b, None)
           else
             let tdiff = (fst tv - fst (periodStart b)) * 1000000 + snd tv - snd (periodStart b)
             in if tdiff < bwPeriod b * 1000000 then (b, None)
                else (b\<lparr>periodBytes := 0, periodStart := tv\<rparr>, Some (periodBytes b * 8, tdiff)))"

subsection \<open>Lemmas\<close>

fun log_periods :: "((int \<times> int) \<times> nat) list \<Rightarrow> bw_log \<Rightarrow> (nat \<times> int) list \<times> bw_log" where
  \<comment> \<open>the bandwidths logged for a sequence of times and bytes\<close>
  "log_periods [] b = ([], b)"
| "log_periods ((tv, n) # xs) b =
     (case addPeriodBytes tv n b of (b, l) \<Rightarrow>
        (case log_periods xs b of (ls, b) \<Rightarrow> (case l of None \<Rightarrow> ls | Some x \<Rightarrow> x # ls, b)))"

lemma bandwidth_accounts:
  \<comment> \<open>every byte is in exactly one period, and no period is shorter than asked for\<close>
  assumes "log_periods xs b = (ls, b')" and "bwPeriod b \<noteq> 0" and "periodBytes b + sum_list (map snd xs) < 2 ^ 64"
  shows "sum_list (map fst ls) + 8 * periodBytes b' = 8 * (periodBytes b + sum_list (map snd xs))
    \<and> (\<forall>(_, t) \<in> set ls. bwPeriod b * 1000000 \<le> t)"
  using assms
proof (induction xs arbitrary: b ls)
  case (Cons x xs)
  obtain tv n where x: "x = (tv, n)" by (cases x)
  obtain b1 l where a: "addPeriodBytes tv n b = (b1, l)" by force
  obtain ls1 where r: "log_periods xs b1 = (ls1, b')" "ls = (case l of None \<Rightarrow> ls1 | Some y \<Rightarrow> y # ls1)"
    using Cons.prems(1) a x by (auto split: prod.splits)
  have n: "(periodBytes b + n) mod 2 ^ 64 = periodBytes b + n" using Cons.prems(3) by (simp add: x)
  have b1: "bwPeriod b1 = bwPeriod b" "(case l of None \<Rightarrow> periodBytes b1 = periodBytes b + n
      | Some (k, t) \<Rightarrow> periodBytes b1 = 0 \<and> k = 8 * (periodBytes b + n) \<and> bwPeriod b * 1000000 \<le> t)"
    using a Cons.prems(2) n by (auto simp: addPeriodBytes_def Let_def split: if_splits)
  then have "periodBytes b1 + sum_list (map snd xs) < 2 ^ 64" using Cons.prems(3) by (auto simp: x split: option.splits)
  from Cons.IH [OF r(1) _ this] b1 Cons.prems(2) show ?case unfolding r(2) x by (auto split: option.splits)
qed auto

lemma printFilePosition_shows:
  assumes "\<forall>c \<in> set pre. \<not> isdigit c" and "ds \<noteq> []" and "\<forall>c \<in> set ds. isdigit c" and "\<not> isdigit c"
    and "length (pre @ ds) < 160" and "number ds < 2 ^ 63" and "fd \<noteq> -1"
  shows "printFilePosition fd (Some (Some (pre @ ds @ c # rest))) = Done (printLongNum (number ds))"
proof -
  have t: "take 160 (pre @ ds @ c # rest) = pre @ ds @ c # take (159 - length (pre @ ds)) rest"
    using assms(5) by (simp add: take_Cons' )
  have "dropWhile (\<lambda>c. \<not> isdigit c) (pre @ ds @ c # z) = ds @ c # z" for z
    using assms(1-3) by (cases ds) (simp_all add: dropWhile_append2)
  moreover have "takeWhile isdigit (ds @ c # z) = ds" for z using assms(3,4) by (simp add: takeWhile_append2)
  ultimately show ?thesis using assms(2,6,7) by (simp del: take_append add: printFilePosition_def t)
qed

lemma isdigit_digit: "d < 10 \<Longrightarrow> isdigit (digit d) \<and> of_char (digit d) = (48 + d :: nat)"
  by (simp add: isdigit_def digit_def)

lemma three_digits: "n < 1000 \<Longrightarrow> n div 100 * 100 + n div 10 mod 10 * 10 + n mod 10 = (n :: nat)"
proof -
  have "n div 10 div 10 = n div 100" by (simp add: div_mult2_eq [symmetric])
  then have "n div 100 * 10 + n div 10 mod 10 = n div 10" using div_mult_mod_eq [of "n div 10" 10] by simp
  then show ?thesis using div_mult_mod_eq [of n 10] by linarith
qed

definition reads :: "string \<Rightarrow> nat \<Rightarrow> nat" where
  \<comment> \<open>the number that the digits of a text continue\<close>
  "reads t n = foldl (\<lambda>n c. 10 * n + (of_char c - 48)) n (filter isdigit t)"

lemma reads_append: "reads (s @ t) n = reads t (reads s n)"
  by (simp add: reads_def)

lemma reads_group: "n < 1000 \<Longrightarrow> reads (d3 n) m = 1000 * m + n \<and> reads (s3 n) 0 = n"
proof -
  assume n: "n < 1000"
  then have d: "n div 100 < 10" by simp
  note g = isdigit_digit [OF d] isdigit_digit [of "n div 10 mod 10"] isdigit_digit [of "n mod 10"]
  have "\<not> isdigit CHR '' ''" by (simp add: isdigit_def)
  then show ?thesis
    using g three_digits [OF n] isdigit_digit [of n] isdigit_digit [of "n div 10"] n by (auto simp: reads_def d3_def s3_def)
qed

lemma reads_blank: "reads ''    '' m = m" "reads '' '' m = m" "\<not> isdigit suffix \<Longrightarrow> reads [suffix] m = m"
proof -
  have "\<not> isdigit CHR '' ''" by (simp add: isdigit_def)
  then show "reads ''    '' m = m" "reads '' '' m = m" "\<not> isdigit suffix \<Longrightarrow> reads [suffix] m = m"
    by (simp_all add: reads_def)
qed

lemma reads_space: "reads (CHR '' '' # t) m = reads t m"
  by (simp add: reads_def isdigit_def)

lemma three_groups: "(y :: nat) < 1000000000 \<Longrightarrow> 1000 * (1000 * (y div 1000000 mod 1000) + y div 1000 mod 1000) + y mod 1000 = y"
proof -
  assume "y < 1000000000"
  then have a: "y div 1000000 mod 1000 = y div 1000000" by simp
  have "y div 1000 div 1000 = y div 1000000" by (simp add: div_mult2_eq [symmetric])
  then have "y div 1000000 * 1000 + y div 1000 mod 1000 = y div 1000" using div_mult_mod_eq [of "y div 1000" 1000] by simp
  moreover have "A * 1000 + B = C \<Longrightarrow> C * 1000 + D = z \<Longrightarrow> 1000 * (1000 * A + B) + D = z" for A B C D z :: nat by simp
  ultimately show ?thesis unfolding a using div_mult_mod_eq [of y 1000] by blast
qed

lemma long_loop_once:
  assumes "0 < m"
  shows "long_loop x m suffix m nonzero =
    group_text nonzero (x div m mod 1000) @ [suffix]"
proof -
  have "long_loop x m suffix (m div 1000) b = []" for b using assms by (subst long_loop.simps) auto
  moreover have "\<not> m \<le> m div 1000" using assms by simp
  ultimately show ?thesis using assms by (subst long_loop.simps) (simp add: Let_def)
qed

lemma long_loop_more:
  assumes "0 < m" and "m \<le> k"
  shows "long_loop x m suffix (k * 1000) nonzero =
    group_text nonzero (x div (k * 1000) mod 1000) @ '' '' @ long_loop x m suffix k (nonzero \<or> x div (k * 1000) mod 1000 \<noteq> 0)"
  using assms by (subst long_loop.simps) (simp add: Let_def)

lemma reads_group_text:
  assumes "g < 1000"
  shows "reads (group_text True g) n = 1000 * n + g" and "reads (group_text False g) 0 = g"
  using reads_group [OF assms] by (auto simp: group_text_def reads_blank)

lemma reads_groups:
  assumes "g1 < 1000" "g2 < 1000" "g3 < 1000" and "\<not> isdigit suffix" and "b \<longleftrightarrow> g1 \<noteq> 0" "c \<longleftrightarrow> b \<or> g2 \<noteq> 0"
  shows "reads (group_text False g1 @ '' '' @ group_text b g2 @ '' '' @ group_text c g3 @ [suffix]) 0 = 1000 * (1000 * g1 + g2) + g3"
  using assms by (cases "g1 = 0"; cases "g2 = 0") (simp_all add: reads_append reads_space reads_blank reads_group_text)

lemma printLongNum_text:
  assumes "long_unit x = (m, suffix)"
  shows "\<exists>b c. printLongNum x = group_text False (x div m div 1000000 mod 1000) @ '' '' @ group_text b (x div m div 1000 mod 1000) @ '' ''
      @ group_text c (x div m mod 1000) @ [suffix]
    \<and> (b \<longleftrightarrow> x div m div 1000000 mod 1000 \<noteq> 0) \<and> (c \<longleftrightarrow> b \<or> x div m div 1000 mod 1000 \<noteq> 0)"
proof -
  have m: "0 < m" "m \<le> m * 1000" using assms(1) by (auto simp: long_unit_def split: if_splits)
  have g: "x div (m * 1000 * 1000) = x div m div 1000000" "x div (m * 1000) = x div m div 1000"
    by (simp_all add: div_mult2_eq [symmetric] mult.assoc)
  have "printLongNum x = long_loop x m suffix (m * 1000 * 1000) False" by (simp add: printLongNum_def assms(1) mult.assoc)
  then show ?thesis
    by (simp only: long_loop_more [OF m] long_loop_more [OF m(1) order_refl] long_loop_once [OF m(1)] g simp_thms append_assoc) blast
qed

lemma printLongNum_reads:
  assumes "long_unit x = (m, suffix)" and "x div m < 1000000000"
  shows "reads (printLongNum x) 0 = x div m"
proof -
  have suffix: "\<not> isdigit suffix" using assms(1) by (auto simp: long_unit_def isdigit_def split: if_splits)
  obtain b c where t: "printLongNum x = group_text False (x div m div 1000000 mod 1000) @ '' '' @ group_text b (x div m div 1000 mod 1000) @ '' ''
      @ group_text c (x div m mod 1000) @ [suffix]"
    and "b \<longleftrightarrow> x div m div 1000000 mod 1000 \<noteq> 0" "c \<longleftrightarrow> b \<or> x div m div 1000 mod 1000 \<noteq> 0"
    using printLongNum_text [OF assms(1)] by blast
  then have "reads (printLongNum x) 0 =
      1000 * (1000 * (x div m div 1000000 mod 1000) + x div m div 1000 mod 1000) + x div m mod 1000"
    using suffix unfolding t by (intro reads_groups) simp_all
  then show ?thesis unfolding three_groups [OF assms(2)] .
qed

subsection \<open>The number shown\<close>

text \<open>
  \<^verbatim>\<open>printLongNum\<close> shows the number: up to a petabyte, the digits it prints, read across
  the spaces, are the number in units of bytes, KiB or MiB, rounded down, whichever unit it has
  chosen; and the last character is that unit.
\<close>

lemma printLongNum_shows:
  assumes "x < 1000000000 * 1048576"
  shows "reads (printLongNum x) 0 = x div fst (long_unit x) \<and> List.last (printLongNum x) = snd (long_unit x)"
proof -
  obtain m suffix where u: "long_unit x = (m, suffix)" by force
  have "x div m < 1000000000" using u assms by (auto simp: long_unit_def less_mult_imp_div_less split: if_splits)
  then show ?thesis using printLongNum_text [OF u] printLongNum_reads [OF u] u by auto
qed

lemma printLongNum_sample:
  "reads (printLongNum 5000000042) 0 = 4882812 \<and> List.last (printLongNum 5000000042) = CHR ''K''"
  using printLongNum_shows [of 5000000042] by (simp add: long_unit_def)

end
