(* ===== verification/Log.thy ===== *)
theory Log
  imports Statistics
begin

text \<open>
  Messages to the user, \<^verbatim>\<open>src/log.c\<close>: the static variables that put a time before each
  line of the log file, a newline after a line of statistics before the next message on the
  screen, and keep a failure during \<^verbatim>\<open>exit\<close> from starting it again.  A message has the
  text of its format and the text printed; the time stamp is an argument.
\<close>

subsection \<open>The state\<close>

record log_state =
  needNewline :: bool
  newlineSeen :: bool
  quitting :: bool
  screen :: string \<comment> \<open>standard error\<close>
  udpc_log :: "string option" \<comment> \<open>the log file, if there is one\<close>

definition log_start :: "bool \<Rightarrow> log_state" where
  \<comment> \<open>\<open>file\<close>: whether a log file has been opened\<close>
  "log_start file = \<lparr>needNewline = False, newlineSeen = True, quitting = False, screen = [],
     udpc_log = (if file then Some [] else None)\<rparr>"

record log_message =
  stamp :: string
  fmt :: string
  printed :: string

definition newline :: char where "newline = CHR 0x0A"

definition printNewlineIfNeeded :: "log_state \<Rightarrow> log_state" where
  "printNewlineIfNeeded s = s\<lparr>screen := screen s @ (if needNewline s then [newline] else []), needNewline := False\<rparr>"

definition vlogprintf :: "log_message \<Rightarrow> log_state \<Rightarrow> log_state" where
  \<comment> \<open>nothing happens, and -1 is returned, without a log file\<close>
  "vlogprintf m s =
     (case udpc_log s of None \<Rightarrow> s
      | Some f \<Rightarrow> s\<lparr>udpc_log := Some (f @ (if newlineSeen s then stamp m @ '' '' else []) @ printed m),
          newlineSeen := (newline \<in> set (fmt m))\<rparr>)"

definition logprintf :: "log_message \<Rightarrow> log_state \<Rightarrow> log_state" where
  "logprintf m s = vlogprintf m s"

definition flprintf :: "log_message \<Rightarrow> log_state \<Rightarrow> log_state" where
  "flprintf m s =
     (if udpc_log s \<noteq> None then vlogprintf m s
      else let s = printNewlineIfNeeded s in s\<lparr>screen := screen s @ printed m\<rparr>)"

datatype ending = Exit int | Underscore_exit int

definition fatal :: "int \<Rightarrow> log_message \<Rightarrow> log_state \<Rightarrow> log_state \<times> ending" where
  "fatal code m s =
     (if quitting s then (s, Underscore_exit code)
      else let s = printNewlineIfNeeded (s\<lparr>quitting := True\<rparr>) in (s\<lparr>screen := screen s @ printed m\<rparr>, Exit code))"

definition print_number :: "nat \<Rightarrow> log_state \<Rightarrow> log_state" where
  \<comment> \<open>\<^verbatim>\<open>printLongNum\<close> with its effects\<close>
  "print_number x s = s\<lparr>screen := screen s @ printLongNum x, needNewline := True\<rparr>"

fun exit_handlers :: "(log_state \<Rightarrow> log_state \<times> ending option) list \<Rightarrow> int \<Rightarrow> log_state \<Rightarrow> log_state \<times> int" where
  \<comment> \<open>what \<^verbatim>\<open>exit\<close> does with the functions registered by \<^verbatim>\<open>atexit\<close>, each of which may call \<^verbatim>\<open>fatal\<close>\<close>
  "exit_handlers [] code s = (s, code)"
| "exit_handlers (h # hs) code s =
     (case h s of
        (s, None) \<Rightarrow> exit_handlers hs code s
      | (s, Some (Exit code)) \<Rightarrow> exit_handlers hs code s
      | (s, Some (Underscore_exit code)) \<Rightarrow> (s, code))"

subsection \<open>Lines\<close>

fun lines_of :: "log_message list \<Rightarrow> log_message list list" where
  \<comment> \<open>the messages that make up each line\<close>
  "lines_of [] = []"
| "lines_of (m # ms) =
     (if newline \<in> set (fmt m) then [m] # lines_of ms
      else case lines_of ms of [] \<Rightarrow> [[m]] | l # ls \<Rightarrow> (m # l) # ls)"

definition line_text :: "log_message list \<Rightarrow> string" where
  "line_text l = stamp (hd l) @ '' '' @ concat (map printed l)"

definition whole :: "log_message \<Rightarrow> bool" where
  \<comment> \<open>a newline is the last character printed, or there is none, as the format says\<close>
  "whole m \<longleftrightarrow> (if newline \<in> set (fmt m) then printed m \<noteq> [] \<and> List.last (printed m) = newline \<and> newline \<notin> set (butlast (printed m))
     else newline \<notin> set (printed m))"

lemma lines_of_nonempty: "l \<in> set (lines_of ms) \<Longrightarrow> l \<noteq> []"
  by (induction ms arbitrary: l) (auto split: if_splits list.splits)

lemma log_lines:
  assumes "udpc_log s = Some f"
  shows "udpc_log (fold vlogprintf ms s) = Some (f @
    (if newlineSeen s then concat (map line_text (lines_of ms))
     else case lines_of ms of [] \<Rightarrow> [] | l # ls \<Rightarrow> concat (map printed l) @ concat (map line_text ls)))"
  using assms
proof (induction ms arbitrary: s f)
  case (Cons m ms)
  define g where "g = f @ (if newlineSeen s then stamp m @ '' '' else []) @ printed m"
  have step: "udpc_log (vlogprintf m s) = Some g" "newlineSeen (vlogprintf m s) \<longleftrightarrow> newline \<in> set (fmt m)"
    using Cons.prems by (simp_all add: vlogprintf_def g_def)
  show ?case
  proof (cases "newline \<in> set (fmt m)")
    case True
    then show ?thesis using Cons.IH [OF step(1)] step(2) by (simp add: g_def line_text_def)
  next
    case False
    then show ?thesis using Cons.IH [OF step(1)] step(2) by (cases "lines_of ms") (simp_all add: g_def line_text_def)
  qed
qed simp

lemma whole_lines:
  assumes "\<forall>m \<in> set ms. whole m" and "lines_of ms = ls @ [l]"
  shows "\<forall>x \<in> set ls. \<exists>t. concat (map printed x) = t @ [newline] \<and> newline \<notin> set t"
  using assms
proof (induction ms arbitrary: ls l)
  case (Cons m ms)
  show ?case
  proof (cases "newline \<in> set (fmt m)")
    case True
    then have m: "printed m = butlast (printed m) @ [newline]" "newline \<notin> set (butlast (printed m))"
      using Cons.prems(1) append_butlast_last_id [of "printed m"] by (auto simp: whole_def)
    show ?thesis
    proof (cases ls)
      case Nil
      then show ?thesis by simp
    next
      case (Cons a as)
      then have "a = [m]" "lines_of ms = as @ [l]" using Cons.prems(2) True by auto
      then show ?thesis using Cons.IH Cons.prems(1) m Cons by force
    qed
  next
    case False
    then have m: "newline \<notin> set (printed m)" using Cons.prems(1) by (simp add: whole_def)
    show ?thesis
    proof (cases ls)
      case Nil
      then show ?thesis by simp
    next
      case (Cons a as)
      then obtain b where a: "a = m # b" "lines_of ms = (b # as) @ [l]"
        using Cons.prems(2) False by (auto split: list.splits)
      have "\<forall>x \<in> set (b # as). \<exists>t. concat (map printed x) = t @ [newline] \<and> newline \<notin> set t"
        using Cons.IH [OF _ a(2)] Cons.prems(1) by simp
      then obtain t where t: "concat (map printed b) = t @ [newline]" "newline \<notin> set t"
        and as: "\<forall>x \<in> set as. \<exists>t. concat (map printed x) = t @ [newline] \<and> newline \<notin> set t" by auto
      have "concat (map printed a) = (printed m @ t) @ [newline] \<and> newline \<notin> set (printed m @ t)" using t m by (simp add: a(1))
      then have "\<exists>t. concat (map printed a) = t @ [newline] \<and> newline \<notin> set t" by blast
      then show ?thesis using as by (simp add: Cons)
    qed
  qed
qed simp


text \<open>
  Every line of the log file starts with the time of its first message, once: for messages that print a newline only at
  their end, as their formats say, the file is the sequence of its lines, each the stamp, a blank and the texts of
  its messages, and each but the last ends with the only newline in it.
\<close>

lemma log_stamps_lines:
  assumes "\<forall>m \<in> set ms. whole m" and "lines_of ms = ls @ [l]"
  shows "udpc_log (fold vlogprintf ms (log_start True)) = Some (concat (map line_text (ls @ [l])))
    \<and> (\<forall>x \<in> set ls. \<exists>t. line_text x = stamp (hd x) @ '' '' @ t @ [newline] \<and> newline \<notin> set t)"
  using log_lines [of "log_start True" "[]" ms] whole_lines [OF assms] assms(2)
  by (fastforce simp: log_start_def line_text_def)

text \<open>
  \<^verbatim>\<open>fatal\<close> called again while the program exits ends it at once and prints nothing more, so that the
  functions called at exit cannot loop.
\<close>

lemma fatal_again:
  assumes "fatal code m s = (s1, Exit c)"
  shows "fatal code2 m2 s1 = (s1, Underscore_exit code2)
    \<and> exit_handlers ((\<lambda>s. case fatal code2 m2 s of (s, e) \<Rightarrow> (s, Some e)) # hs) c s1 = (s1, code2)"
proof -
  have "quitting s1" using assms by (auto simp: fatal_def printNewlineIfNeeded_def Let_def split: if_splits)
  then show ?thesis by (simp add: fatal_def)
qed

lemma message_after_number:
  \<comment> \<open>a message after the statistics starts on a line of its own\<close>
  "udpc_log s = None \<Longrightarrow> screen (flprintf m2 (flprintf m (print_number x s))) = screen s @ printLongNum x @ [newline] @ printed m @ printed m2"
  by (simp add: flprintf_def print_number_def printNewlineIfNeeded_def Let_def)

end
