(* ===== verification/Console.thy ===== *)
theory Console
  imports Socklib
begin

text \<open>
  The keyboard of the program, \<^verbatim>\<open>src/console.c\<close>: a terminal is switched to deliver single
  keys without echo, is part of the \<^verbatim>\<open>select\<close> on the sockets, and gets its settings back.  Several
  descriptors may be the same terminal.  The variant for Windows uses two threads in place of
  \<^verbatim>\<open>select\<close>.
\<close>

subsection \<open>Terminals\<close>

record termios =
  ECHO :: bool
  ICANON :: bool
  VMIN :: nat
  VTIME :: nat

record tty_world =
  dev :: "int \<rightharpoonup> nat option" \<comment> \<open>the open descriptors, with their terminal if they are one\<close>
  settings :: "nat \<Rightarrow> termios"
  typed :: "nat \<Rightarrow> string" \<comment> \<open>keys not read yet\<close>

definition tcgetattr :: "int \<Rightarrow> tty_world \<Rightarrow> termios option" where
  "tcgetattr fd w = (case dev w fd of Some (Some k) \<Rightarrow> Some (settings w k) | _ \<Rightarrow> None)"

definition tcsetattr :: "bool \<Rightarrow> int \<Rightarrow> termios \<Rightarrow> tty_world \<Rightarrow> tty_world option" where
  \<comment> \<open>with \<^verbatim>\<open>TCSAFLUSH\<close>; \<open>ok\<close>: whether the terminal takes the settings\<close>
  "tcsetattr ok fd tio w =
     (case dev w fd of
        Some (Some k) \<Rightarrow> if ok then Some (w\<lparr>settings := (settings w)(k := tio), typed := (typed w)(k := [])\<rparr>) else None
      | _ \<Rightarrow> None)"

record console_t =
  con_fd :: int
  oldtio :: termios
  needClose :: bool
  needRestore :: bool

definition raw :: "termios \<Rightarrow> termios" where
  "raw tio = tio\<lparr>ECHO := False, ICANON := False, VMIN := 1, VTIME := 0\<rparr>"

definition prepareConsole :: "(int \<times> nat option) option \<Rightarrow> bool \<Rightarrow> int \<Rightarrow> tty_world \<Rightarrow> console_t option \<times> tty_world" where
  \<comment> \<open>\<open>tty\<close>: the descriptor that opening \<^verbatim>\<open>/dev/tty\<close> gives, if it succeeds; without a terminal, \<open>oldtio\<close> is not used\<close>
  "prepareConsole tty ok fd w =
     (let opened = (if fd < 0 then map_option (\<lambda>(fd, k). (fd, True, w\<lparr>dev := (dev w)(fd \<mapsto> k)\<rparr>)) tty else Some (fd, False, w))
      in case opened of None \<Rightarrow> (None, w)
         | Some (fd, close, w) \<Rightarrow>
             let c = \<lparr>con_fd = fd, oldtio = raw (settings w 0), needClose = close, needRestore = False\<rparr>
             in case tcgetattr fd w of None \<Rightarrow> (Some c, w)
                | Some tio \<Rightarrow>
                    let c = c\<lparr>oldtio := tio\<rparr>
                    in case tcsetattr ok fd (raw tio) w of None \<Rightarrow> (Some c, w)
                       | Some w \<Rightarrow> (Some (c\<lparr>needRestore := True\<rparr>), w))"

definition selectWithConsole :: "console_t option \<Rightarrow> int \<Rightarrow> int set \<Rightarrow> int set option \<Rightarrow> bool \<Rightarrow> int \<times> int set \<times> bool" where
  \<comment> \<open>\<open>ready\<close>: the descriptors with data, unless \<^verbatim>\<open>select\<close> fails; the value, the set and \<open>keyPressed\<close>\<close>
  "selectWithConsole con maxFd read_set ready keyPressed =
     (let (maxFd, read_set) =
            (case con of None \<Rightarrow> (maxFd, read_set)
             | Some c \<Rightarrow> (if con_fd c \<ge> maxFd then con_fd c + 1 else maxFd, insert (con_fd c) read_set))
      in case ready of None \<Rightarrow> (-1, read_set, keyPressed)
         | Some ready \<Rightarrow>
             let found = selected maxFd read_set ready;
                 key = (case con of None \<Rightarrow> False | Some c \<Rightarrow> con_fd c \<in> found)
             in (int (card found), found, key \<or> keyPressed))"

definition read_key :: "int \<Rightarrow> tty_world \<Rightarrow> (char option \<times> tty_world) outcome" where
  \<comment> \<open>reading one byte: nothing from a descriptor that is not a terminal\<close>
  "read_key fd w =
     (case dev w fd of
        Some (Some k) \<Rightarrow> (case typed w k of [] \<Rightarrow> Blocks | ch # chs \<Rightarrow> Done (Some ch, w\<lparr>typed := (typed w)(k := chs)\<rparr>))
      | _ \<Rightarrow> Done (None, w))"

definition restoreConsole :: "bool \<Rightarrow> console_t option \<Rightarrow> bool \<Rightarrow> tty_world \<Rightarrow> (tty_world \<times> bool) outcome" where
  \<comment> \<open>with whether it ends the program, after everything else\<close>
  "restoreConsole ok con doConsume w =
     (case con of None \<Rightarrow> Done (w, False)
      | Some c \<Rightarrow>
          and_then (if doConsume then read_key (con_fd c) w else Done (None, w)) (\<lambda>(ch, w).
            let w = (if needRestore c then (case tcsetattr ok (con_fd c) (oldtio c) w of None \<Rightarrow> w | Some w \<Rightarrow> w) else w);
                w = (if needClose c then w\<lparr>dev := (dev w)(con_fd c := None)\<rparr> else w)
            in Done (w, ch = Some CHR ''q'')))"

subsection \<open>Windows\<close>

record wconsole =
  reader :: bool \<comment> \<open>\<open>thread[0]\<close> is not null\<close>
  selector :: bool \<comment> \<open>\<open>thread[1]\<close> is not null\<close>
  w_fd :: int
  wkeyPressed :: bool
  ch :: char

definition prepareConsole_win :: "int option \<Rightarrow> int option \<Rightarrow> int \<Rightarrow> wconsole option" where
  \<comment> \<open>\<open>con\<close>, \<open>copy\<close>: what \<^verbatim>\<open>open\<close> and \<^verbatim>\<open>dup\<close> return; a failure of \<^verbatim>\<open>dup\<close> is not noticed\<close>
  "prepareConsole_win con copy fd =
     (case (if fd < 0 then con else Some (case copy of None \<Rightarrow> -1 | Some c \<Rightarrow> c)) of None \<Rightarrow> None
      | Some fd \<Rightarrow> Some \<lparr>reader = False, selector = False, w_fd = fd, wkeyPressed = False, ch = CHR 0x00\<rparr>)"

definition waitForKeyPress :: "char option \<Rightarrow> wconsole \<Rightarrow> wconsole" where
  \<comment> \<open>the whole thread, with the character read\<close>
  "waitForKeyPress c con = (case c of None \<Rightarrow> con | Some c \<Rightarrow> con\<lparr>ch := c, wkeyPressed := True\<rparr>)"

definition selectWithConsole_win :: "bool \<Rightarrow> bool \<Rightarrow> char option option \<Rightarrow> (int \<times> int set) option \<Rightarrow> wconsole option
    \<Rightarrow> (int \<times> int set \<times> bool option \<times> wconsole option) outcome" where
  \<comment> \<open>\<open>ok0\<close>, \<open>ok1\<close>: whether the threads can be started; \<open>key\<close>: what the reader has read when it has ended;
     \<open>sel\<close>: the result of \<^verbatim>\<open>select\<close> when it has ended; the value given to \<open>keyPressed\<close> is \<open>None\<close> when it is left alone\<close>
  "selectWithConsole_win ok0 ok1 key sel con =
     (case con of None \<Rightarrow> and_then (or_block sel) (\<lambda>(r, found). Done (r, found, None, None))
      | Some con \<Rightarrow>
          and_then (check (reader con \<or> ok0)) (\<lambda>_.
          let con = con\<lparr>reader := True\<rparr>
          in and_then (check (\<not> selector con)) (\<lambda>_.
          and_then (check ok1) (\<lambda>_.
            let con = con\<lparr>selector := True\<rparr>
            in case key of
                 Some c \<Rightarrow> Done (1, {}, Some True, Some (waitForKeyPress c con))
               | None \<Rightarrow> and_then (or_block sel) (\<lambda>(r, found). Done (r, found, Some False, Some (con\<lparr>selector := False\<rparr>)))))))"

definition restoreConsole_win :: "wconsole option \<Rightarrow> bool \<Rightarrow> bool outcome" where
  \<comment> \<open>whether it ends the program\<close>
  "restoreConsole_win con doConsume =
     (if doConsume then (case con of None \<Rightarrow> Undefined | Some c \<Rightarrow> Done (wkeyPressed c \<and> ch c = CHR ''q'')) else Done False)"

subsection \<open>Lemmas\<close>

lemma win_one_key:
  \<comment> \<open>after a key, the console cannot be used again: its callers have to drop it, and do\<close>
  assumes "selectWithConsole_win ok0 ok1 (Some c) sel (Some con) = Done (r, found, k, con')"
  shows "k = Some True \<and> selectWithConsole_win ok2 ok3 key sel' con' = Aborts"
  using assms by (auto simp: selectWithConsole_win_def and_then_Done check_Done Let_def waitForKeyPress_def split: option.splits)

lemma selectWithConsole_key:
  \<comment> \<open>the keyboard counts whatever the highest socket is\<close>
  "selectWithConsole (Some c) maxFd read_set (Some ready) False = (n, found, key) \<Longrightarrow>
   (key \<longleftrightarrow> con_fd c \<in> ready) \<and> found \<subseteq> insert (con_fd c) read_set \<inter> ready
   \<and> {fd \<in> read_set. fd < maxFd} \<inter> ready \<subseteq> found"
  by (auto simp: selectWithConsole_def selected_def Let_def split: if_splits)

lemma prepareConsole_opened:
  assumes "prepareConsole tty ok fd w = (Some c, w1)"
  obtains w0 where "w0 = (if needClose c then w\<lparr>dev := (dev w)(con_fd c \<mapsto> snd (the tty))\<rparr> else w)"
    "needClose c \<longrightarrow> (\<exists>k. tty = Some (con_fd c, k))"
    "if ok \<and> tcgetattr (con_fd c) w0 \<noteq> None
     then needRestore c \<and> Some (oldtio c) = tcgetattr (con_fd c) w0 \<and> Some w1 = tcsetattr True (con_fd c) (raw (oldtio c)) w0
     else \<not> needRestore c \<and> w1 = w0"
  using assms that [of w]  that [of "w\<lparr>dev := (dev w)(con_fd c \<mapsto> snd (the tty))\<rparr>"]
  by (auto simp: prepareConsole_def Let_def tcgetattr_def tcsetattr_def split: if_splits option.splits)

lemma restoreConsole_effect:
  assumes "restoreConsole True (Some c) consume w = Done (w2, quits)"
  shows "settings w2 = (case dev w (con_fd c) of Some (Some k) \<Rightarrow> if needRestore c then (settings w)(k := oldtio c) else settings w | _ \<Rightarrow> settings w)
    \<and> dev w2 = (if needClose c then (dev w)(con_fd c := None) else dev w)
    \<and> (quits \<longrightarrow> consume \<and> (\<exists>k ks. dev w (con_fd c) = Some (Some k) \<and> typed w k = CHR ''q'' # ks))"
  using assms by (auto simp: restoreConsole_def read_key_def tcsetattr_def Let_def split: if_splits option.splits list.splits)

subsection \<open>Properties\<close>


definition sample_tty :: tty_world where
  "sample_tty = \<lparr>dev = [0 \<mapsto> Some 5], settings = (\<lambda>_. \<lparr>ECHO = True, ICANON = True, VMIN = 4, VTIME = 2\<rparr>), typed = (\<lambda>_. [])\<rparr>"


end
