(* ===== verification/Processes.thy ===== *)
theory Processes
  imports Commands Options
begin

text \<open>
  Files, pipes and the processes at their ends: \<^verbatim>\<open>src/process.c\<close> and the functions
  \<^verbatim>\<open>openFile\<close>, \<^verbatim>\<open>openPipe\<close> and \<^verbatim>\<open>openOutFile\<close> of \<^verbatim>\<open>src/sender-diskio.c\<close>,
  \<^verbatim>\<open>src/receiver-diskio.c\<close> and \<^verbatim>\<open>src/udpr-negotiate.c\<close>.  A process has a table of
  descriptors, a map to open files; a pipe has two ends.  Which free descriptors the system chooses, and
  whether its calls succeed, are arguments.
\<close>

subsection \<open>Descriptors\<close>

datatype open_file = File string | ReadEnd nat | WriteEnd nat

type_synonym fd_table = "int \<rightharpoonup> open_file"

definition dupFd :: "int \<Rightarrow> int \<Rightarrow> fd_table \<Rightarrow> fd_table outcome" where
  \<comment> \<open>\<^verbatim>\<open>dup2\<close> fails when \<open>src\<close> is not open\<close>
  "dupFd src target t =
     (if src \<noteq> target then
        let t = t(target := None)
        in and_then (or_abort (t src)) (\<lambda>f. Done (t(target \<mapsto> f, src := None)))
      else Done t)"

definition open2_child :: "int \<Rightarrow> int \<Rightarrow> int \<Rightarrow> fd_table \<Rightarrow> fd_table outcome" where
  \<comment> \<open>the descriptors of the child at \<^verbatim>\<open>exec\<close>\<close>
  "open2_child inp out closeFd t =
     and_then (dupFd inp 0 t) (\<lambda>t. and_then (dupFd out 1 t) (\<lambda>t.
       Done (if closeFd \<noteq> -1 then t(closeFd := None) else t)))"

definition open2 :: "int \<Rightarrow> int \<Rightarrow> int \<Rightarrow> int \<Rightarrow> fd_table \<Rightarrow> int \<times> fd_table outcome option" where
  \<comment> \<open>\<open>pid\<close> is what \<^verbatim>\<open>fork\<close> returns to the parent, negative when it fails; the value returned and the child\<close>
  "open2 pid inp out closeFd t = (if pid < 0 then (-1, None) else (pid, Some (open2_child inp out closeFd t)))"

definition dupFd_win :: "int \<Rightarrow> int \<Rightarrow> int \<Rightarrow> fd_table \<Rightarrow> (int \<times> fd_table) outcome" where
  \<comment> \<open>on Windows; \<open>new\<close> is the descriptor \<^verbatim>\<open>dup\<close> returns; \<open>savedFd\<close> and the descriptors\<close>
  "dupFd_win new src target t =
     (if src \<noteq> target then
        and_then (or_abort (t target)) (\<lambda>f.
          let t = t(new \<mapsto> f) in and_then (or_abort (t src)) (\<lambda>g. Done (new, t(target \<mapsto> g))))
      else Done (-1, t))"

definition restoreFd :: "int \<Rightarrow> int \<Rightarrow> fd_table \<Rightarrow> fd_table outcome" where
  "restoreFd src target t =
     (if src = -1 \<or> src = target then Done t
      else and_then (or_abort (t src)) (\<lambda>f. Done (t(target \<mapsto> f, src := None))))"

definition open2_win :: "int \<Rightarrow> int \<Rightarrow> int \<Rightarrow> int \<Rightarrow> string list \<Rightarrow> fd_table \<Rightarrow> (string list \<times> fd_table \<times> fd_table) outcome" where
  \<comment> \<open>\<open>new0\<close>, \<open>new1\<close>: free descriptors; the arguments the child sees, its descriptors, and those of the parent.
     The child inherits every open descriptor\<close>
  "open2_win new0 new1 inp out arg t =
     and_then (dupFd_win new0 inp 0 t) (\<lambda>(parent_in, t).
     and_then (dupFd_win new1 out 1 t) (\<lambda>(parent_out, t).
       let ch = t
       in and_then (restoreFd parent_in 0 t) (\<lambda>t.
          and_then (restoreFd parent_out 1 t) (\<lambda>t. Done (tl arg, ch, t)))))"

subsection \<open>Files\<close>

definition openFile :: "int option \<Rightarrow> string option \<Rightarrow> fd_table \<Rightarrow> (int \<times> fd_table) outcome" where
  \<comment> \<open>\<open>fd\<close> is what \<^verbatim>\<open>open\<close> returns, unless it fails\<close>
  "openFile fd name t =
     (case name of None \<Rightarrow> Done (0, t)
      | Some name \<Rightarrow> and_then (or_abort fd) (\<lambda>fd. Done (fd, t(fd \<mapsto> File name))))"

datatype open_flag = O_CREAT | O_WRONLY | O_TRUNC | O_SYNC

definition out_flags :: "u32 \<Rightarrow> open_flag list" where
  "out_flags disk_flags = [O_CREAT, O_WRONLY, O_TRUNC] @ (if disk_flags AND FLAG_SYNC \<noteq> 0 then [O_SYNC] else [])"

definition openOutFile :: "(open_flag list \<Rightarrow> int option) \<Rightarrow> u32 \<Rightarrow> string option \<Rightarrow> fd_table \<Rightarrow> (int \<times> fd_table) outcome" where
  \<comment> \<open>what \<^verbatim>\<open>open\<close> returns may depend on its disk_flags\<close>
  "openOutFile fd disk_flags name t =
     (case name of None \<Rightarrow> Done (1, t)
      | Some name \<Rightarrow> and_then (or_abort (fd (out_flags disk_flags))) (\<lambda>fd. Done (fd, t(fd \<mapsto> File name))))"

subsection \<open>Pipes\<close>

record piped =
  pipe_fd :: int \<comment> \<open>the descriptor returned\<close>
  pipe_pid :: int
  parent :: fd_table
  child :: "(string list \<times> fd_table outcome) option" \<comment> \<open>its arguments and descriptors\<close>

definition new_pipe :: "nat \<Rightarrow> int \<Rightarrow> int \<Rightarrow> fd_table \<Rightarrow> fd_table" where
  "new_pipe p r w t = t(r \<mapsto> ReadEnd p, w \<mapsto> WriteEnd p)"

definition openPipe_sender :: "(int \<times> int) option \<Rightarrow> nat \<Rightarrow> int \<Rightarrow> string option \<Rightarrow> int \<Rightarrow> fd_table \<Rightarrow> piped outcome" where
  \<comment> \<open>\<^verbatim>\<open>openPipe\<close> of the sender; \<^verbatim>\<open>pipe\<close> returns two descriptors of the pipe \<open>p\<close>, or fails\<close>
  "openPipe_sender ends p pid cmd inp t =
     (case cmd of None \<Rightarrow> Done \<lparr>pipe_fd = inp, pipe_pid = 0, parent = t, child = None\<rparr>
      | Some cmd \<Rightarrow>
          and_then (parseCommand cmd) (\<lambda>(buf, args).
          and_then (or_abort ends) (\<lambda>(r, w).
            let t = new_pipe p r w t;
                (pid, ch) = open2 pid inp w r t
            in Done \<lparr>pipe_fd = r, pipe_pid = pid, parent = t(w := None), child = map_option (Pair (map (c_string buf) args)) ch\<rparr>)))"

definition openPipe_receiver :: "(int \<times> int) option \<Rightarrow> nat \<Rightarrow> int \<Rightarrow> string option \<Rightarrow> int \<Rightarrow> fd_table \<Rightarrow> piped outcome" where
  \<comment> \<open>\<^verbatim>\<open>openPipe\<close> of the receiver\<close>
  "openPipe_receiver ends p pid cmd out t =
     (case cmd of None \<Rightarrow> Done \<lparr>pipe_fd = out, pipe_pid = 0, parent = t, child = None\<rparr>
      | Some cmd \<Rightarrow>
          and_then (parseCommand cmd) (\<lambda>(buf, args).
          and_then (or_abort ends) (\<lambda>(r, w).
            let t = new_pipe p r w t;
                (pid, ch) = open2 pid r out w t
            in Done \<lparr>pipe_fd = w, pipe_pid = pid, parent = t(r := None), child = map_option (Pair (map (c_string buf) args)) ch\<rparr>)))"

subsection \<open>Lemmas\<close>

definition ends_of :: "nat \<Rightarrow> fd_table \<Rightarrow> (int \<times> bool) set" where
  \<comment> \<open>where a process holds an end of a pipe, and whether it is the end to read\<close>
  "ends_of p t = {(fd, True) | fd. t fd = Some (ReadEnd p)} \<union> {(fd, False) | fd. t fd = Some (WriteEnd p)}"

definition two_free :: "int \<Rightarrow> int \<Rightarrow> nat \<Rightarrow> fd_table \<Rightarrow> bool" where
  \<comment> \<open>\<^verbatim>\<open>pipe\<close> returns two free descriptors for a new pipe, not the standard ones\<close>
  "two_free r w p t \<longleftrightarrow> t r = None \<and> t w = None \<and> r \<noteq> w \<and> 1 < r \<and> 1 < w \<and> ends_of p t = {}"

lemma ends_of_iff:
  "(fd, b) \<in> ends_of p t \<longleftrightarrow> t fd = Some (if b then ReadEnd p else WriteEnd p)"
  by (cases b) (auto simp: ends_of_def)

lemma dupFd_open:
  assumes "t src = Some f"
  shows "\<exists>t'. dupFd src target t = Done t' \<and> t' target = Some f \<and> (src \<noteq> target \<longrightarrow> t' src = None)
    \<and> (\<forall>fd. fd \<noteq> src \<longrightarrow> fd \<noteq> target \<longrightarrow> t' fd = t fd)"
  using assms by (auto simp: dupFd_def)

lemma open2_child_spec:
  assumes "t inp = Some f" and "t out = Some g" and "inp \<noteq> out" and "out \<noteq> 0" and "1 < c"
  shows "\<exists>t'. open2_child inp out c t = Done t' \<and> t' 0 = Some f \<and> t' 1 = Some g
    \<and> (\<forall>fd. fd \<notin> {0, 1} \<longrightarrow> t' fd = (if fd \<in> {inp, out, c} then None else t fd))"
  using assms by (auto simp: open2_child_def dupFd_def)

lemma openPipe_Some:
  assumes "NUL \<notin> set cmd" and "length (words cmd) < MAX_ARGS" and "0 < pid"
  shows "openPipe_sender (Some (r, w)) p pid (Some cmd) inp t =
      Done \<lparr>pipe_fd = r, pipe_pid = pid, parent = (new_pipe p r w t)(w := None),
        child = Some (words cmd, open2_child inp w r (new_pipe p r w t))\<rparr>"
    and "openPipe_receiver (Some (r, w)) p pid (Some cmd) out t =
      Done \<lparr>pipe_fd = w, pipe_pid = pid, parent = (new_pipe p r w t)(r := None),
        child = Some (words cmd, open2_child r out w (new_pipe p r w t))\<rparr>"
proof -
  obtain buf args where "parseCommand cmd = Done (buf, args)" "map (c_string buf) args = words cmd"
    using parseCommand_spec [OF assms(1)] assms(2) by blast
  then show "openPipe_sender (Some (r, w)) p pid (Some cmd) inp t =
      Done \<lparr>pipe_fd = r, pipe_pid = pid, parent = (new_pipe p r w t)(w := None),
        child = Some (words cmd, open2_child inp w r (new_pipe p r w t))\<rparr>"
    and "openPipe_receiver (Some (r, w)) p pid (Some cmd) out t =
      Done \<lparr>pipe_fd = w, pipe_pid = pid, parent = (new_pipe p r w t)(r := None),
        child = Some (words cmd, open2_child r out w (new_pipe p r w t))\<rparr>"
    using assms(3) by (simp_all add: openPipe_sender_def openPipe_receiver_def open2_def Let_def)
qed

lemma receiver_without_stdin:
  \<comment> \<open>an output file on descriptor 0 is closed in favour of the pipe\<close>
  assumes "two_free r w p t" and "t 0 = Some f"
  shows "\<exists>t'. open2_child r 0 w (new_pipe p r w t) = Done t' \<and> t' 0 = None \<and> t' 1 = Some (ReadEnd p)"
  using assms by (auto simp: open2_child_def dupFd_def new_pipe_def two_free_def)

lemma open2_win_restores:
  assumes "t 0 = Some a" and "t 1 = Some b" and "t inp = Some f" and "t out = Some g" and "inp \<noteq> 0" and "out \<noteq> 0" and "out \<noteq> 1"
    and "t new0 = None" and "t new1 = None" and "new0 \<noteq> new1" and "new0 > 1" and "new1 > 1"
  shows "\<exists>c. open2_win new0 new1 inp out arg t = Done (tl arg, c, t) \<and> c 0 = Some f \<and> c 1 = Some g
    \<and> (\<forall>fd. fd \<notin> {0, 1, new0, new1} \<longrightarrow> c fd = t fd)"
proof -
  define c where "c = t(new0 \<mapsto> a, 0 \<mapsto> f, new1 \<mapsto> b, 1 \<mapsto> g)"
  have ne: "new0 \<noteq> out" "new1 \<noteq> out" "new0 \<noteq> inp" "new0 \<noteq> 0" "new0 \<noteq> 1" "new1 \<noteq> 0" "new1 \<noteq> 1" "new0 \<noteq> -1" "new1 \<noteq> -1"
    using assms by auto
  have "dupFd_win new0 inp 0 t = Done (new0, t(new0 \<mapsto> a, 0 \<mapsto> f))" using assms ne by (simp add: dupFd_win_def)
  moreover have "dupFd_win new1 out 1 (t(new0 \<mapsto> a, 0 \<mapsto> f)) = Done (new1, c)" using assms ne by (simp add: dupFd_win_def c_def)
  moreover have "restoreFd new0 0 c = Done (t(new1 \<mapsto> b, 1 \<mapsto> g))"
  proof -
    have "c(0 \<mapsto> a, new0 := None) = t(new1 \<mapsto> b, 1 \<mapsto> g)" using assms(1,8) ne assms(10) by (auto simp: c_def)
    then show ?thesis using ne assms(10) by (simp add: restoreFd_def) (simp add: c_def)
  qed
  moreover have "restoreFd new1 1 (t(new1 \<mapsto> b, 1 \<mapsto> g)) = Done t"
  proof -
    have "t(new1 \<mapsto> b, 1 \<mapsto> b, new1 := None) = t" using assms(2,9) ne by auto
    then show ?thesis using ne by (simp add: restoreFd_def)
  qed
  ultimately have "open2_win new0 new1 inp out arg t = Done (tl arg, c, t)" by (simp add: open2_win_def)
  moreover have "c 0 = Some f" "c 1 = Some g" using ne by (simp_all add: c_def)
  ultimately show ?thesis by (auto simp: c_def)
qed

lemma windows_child_keeps_pipe:
  \<comment> \<open>on Windows \<open>closeFd\<close> is not used: at the receiver, the command that reads the pipe also holds the end to
     write, so its input never ends; and it does not see its own name, the first argument\<close>
  assumes "two_free r w p t" and "t 0 = Some a" and "t 1 = Some b" and "t out = Some f" and "out \<notin> {0, 1}"
    and "two_free new0 new1 (Suc p) (new_pipe p r w t)"
  shows "\<exists>c. open2_win new0 new1 r out arg (new_pipe p r w t) = Done (tl arg, c, new_pipe p r w t)
    \<and> c 0 = Some (ReadEnd p) \<and> (w, False) \<in> ends_of p c"
proof -
  define n where "n = new_pipe p r w t"
  have free: "r \<noteq> w" "r > 1" "w > 1" "r \<noteq> out" "w \<noteq> out" using assms(1,4) by (auto simp: two_free_def)
  then have n: "n 0 = Some a" "n 1 = Some b" "n r = Some (ReadEnd p)" "n w = Some (WriteEnd p)" "n out = Some f"
    using assms(2-4) by (simp_all add: n_def new_pipe_def)
  have new: "n new0 = None" "n new1 = None" "new0 \<noteq> new1" "new0 > 1" "new1 > 1" using assms(6) by (simp_all add: two_free_def n_def)
  obtain c where c: "open2_win new0 new1 r out arg n = Done (tl arg, c, n)" "c 0 = Some (ReadEnd p)"
      "\<forall>fd. fd \<notin> {0, 1, new0, new1} \<longrightarrow> c fd = n fd"
    using open2_win_restores [OF n(1-3,5) _ _ _ new] free assms(5) by auto
  moreover have "w \<notin> {0, 1, new0, new1}" using n(4) new free by auto
  ultimately have "(w, False) \<in> ends_of p c" using n(4) by (simp add: ends_of_iff)
  then show ?thesis using c(1,2) unfolding n_def [symmetric] by blast
qed

subsection \<open>Properties\<close>

text \<open>
  C30.  The command of a pipe is connected as meant, for any choice of free descriptors: the command runs with exactly its words
  as arguments; at the sender it reads the input and writes the pipe, and the sender keeps only the end to
  read, so that the data end when the command does; at the receiver it reads the pipe and writes the output, and the receiver keeps
  only the end to write, so that the input of the command ends when the receiver closes it.  This
  needs an output file that is not descriptor 0 (\<open>receiver_without_stdin\<close>).
\<close>

theorem pipes_connected:
  assumes "NUL \<notin> set cmd" and "length (words cmd) < MAX_ARGS" and "0 < pid" and "two_free r w p t" and "t fd = Some f"
  shows "(\<exists>s c. openPipe_sender (Some (r, w)) p pid (Some cmd) fd t = Done s \<and> child s = Some (words cmd, Done c)
      \<and> c 0 = Some f \<and> ends_of p c = {(1, False)} \<and> ends_of p (parent s) = {(pipe_fd s, True)})
    \<and> (fd \<noteq> 0 \<longrightarrow> (\<exists>s c. openPipe_receiver (Some (r, w)) p pid (Some cmd) fd t = Done s \<and> child s = Some (words cmd, Done c)
      \<and> c 1 = Some f \<and> ends_of p c = {(0, True)} \<and> ends_of p (parent s) = {(pipe_fd s, False)}))"
proof -
  define n where "n = new_pipe p r w t"
  have free: "r \<noteq> w" "1 < r" "1 < w" "fd \<noteq> r" "fd \<noteq> w" and no: "\<And>x b. t x \<noteq> Some (if b then ReadEnd p else WriteEnd p)"
    using assms(4,5) by (auto simp: two_free_def ends_of_iff [symmetric] simp del: if_split)
  have n: "n r = Some (ReadEnd p)" "n w = Some (WriteEnd p)" "n fd = Some f" "\<And>x. x \<noteq> r \<Longrightarrow> x \<noteq> w \<Longrightarrow> n x = t x"
    using free assms(5) by (simp_all add: n_def new_pipe_def)
  obtain c where c: "open2_child fd w r n = Done c" "c 0 = Some f" "c 1 = Some (WriteEnd p)"
      "\<And>x. x \<notin> {0, 1} \<Longrightarrow> c x = (if x \<in> {fd, w, r} then None else n x)"
    using open2_child_spec [OF n(3,2), of r] free by auto
  have ec: "ends_of p c = {(1, False)}"
  proof -
    have "(x, b) \<in> ends_of p c \<longleftrightarrow> x = 1 \<and> \<not> b" for x b
      using c(2-4) n(4) no [of x b] no [of fd b] assms(5) by (cases "x = 0"; cases "x = 1") (auto simp: ends_of_iff)
    then show ?thesis by auto
  qed
  have ep: "ends_of p (n(w := None)) = {(r, True)}" "ends_of p (n(r := None)) = {(w, False)}"
  proof -
    have "(x, b) \<in> ends_of p (n(w := None)) \<longleftrightarrow> x = r \<and> b" "(x, b) \<in> ends_of p (n(r := None)) \<longleftrightarrow> x = w \<and> \<not> b" for x b
      using n no [of x b] free(1) by (cases "x = r"; cases "x = w"; auto simp: ends_of_iff)+
    then show "ends_of p (n(w := None)) = {(r, True)}" "ends_of p (n(r := None)) = {(w, False)}" by auto
  qed
  have receiver: "\<exists>c. open2_child r fd w n = Done c \<and> c 1 = Some f \<and> ends_of p c = {(0, True)}" if fd0: "fd \<noteq> 0"
  proof -
    obtain c where c: "open2_child r fd w n = Done c" "c 0 = Some (ReadEnd p)" "c 1 = Some f"
        "\<And>x. x \<notin> {0, 1} \<Longrightarrow> c x = (if x \<in> {r, fd, w} then None else n x)"
      using open2_child_spec [OF n(1,3), of w] free fd0 by auto
    have "(x, b) \<in> ends_of p c \<longleftrightarrow> x = 0 \<and> b" for x b
      using c(2-4) n(4) no [of x b] no [of fd b] assms(5) by (cases "x = 0"; cases "x = 1") (auto simp: ends_of_iff)
    then have "ends_of p c = {(0, True)}" by auto
    then show ?thesis using c by blast
  qed
  show ?thesis
    unfolding openPipe_Some [OF assms(1-3)] n_def [symmetric] using c(1,2) ec ep receiver by auto
qed

theorem pipes_connected_witness:
  "\<exists>s c. openPipe_sender (Some (4, 5)) 1 77 (Some ''gzip -c'') 3 [0 \<mapsto> File ''tty'', 1 \<mapsto> File ''tty'', 3 \<mapsto> File ''disk''] = Done s
     \<and> child s = Some ([''gzip'', ''-c''], Done c) \<and> c 0 = Some (File ''disk'') \<and> ends_of 1 c = {(1, False)}"
proof -
  define t where "t = [0 :: int \<mapsto> File ''tty'', 1 \<mapsto> File ''tty'', 3 \<mapsto> File ''disk'']"
  have "two_free 4 5 1 t" "t 3 = Some (File ''disk'')" by (auto simp: two_free_def ends_of_def t_def)
  then show ?thesis unfolding t_def [symmetric] using pipes_connected [of "''gzip -c''" 77 4 5 1 t 3 "File ''disk''"]
    by (auto simp: NUL_def MAX_ARGS_def)
qed

end
