(* ===== verification/Sockets.thy ===== *)
theory Sockets
  imports NetIf
begin

text \<open>
  The parts of \<^verbatim>\<open>src/socklib.c\<close> around the socket calls: how a socket is made and joins a
  multicast group, the options of sockets and the list of interfaces, the simulated loss and reordering of packets of a build with \<^verbatim>\<open>LOSSTEST\<close>,
  and \<^verbatim>\<open>sendmsg\<close> and \<^verbatim>\<open>recvmsg\<close> as they are built for Windows from calls with one
  buffer.  The answers of the system are arguments, the calls made of it are results; the datagrams
  waiting at a socket are a list.
\<close>

subsection \<open>Making sockets\<close>

record mreq =
  imr_interface :: u32
  imr_multiaddr :: u32

datatype mcast_code = IP_ADD_MEMBERSHIP | IP_MULTICAST_IF

datatype sock_call =
    Bind sockaddr_in
  | Setsockopt mcast_code mreq
  | SetOption string u32 \<comment> \<open>\<^verbatim>\<open>setsockopt\<close> of a number\<close>
  | Closesocket

definition fillMreq :: "net_if \<Rightarrow> u32 \<Rightarrow> mreq" where
  \<comment> \<open>the variant without an index of the interface\<close>
  "fillMreq nif addr = \<lparr>imr_interface = if_addr nif, imr_multiaddr = addr\<rparr>"

definition mcastOp :: "bool \<Rightarrow> net_if option \<Rightarrow> u32 \<Rightarrow> mcast_code \<Rightarrow> sock_call list outcome" where
  \<comment> \<open>\<open>ok\<close>: whether \<^verbatim>\<open>setsockopt\<close> succeeds\<close>
  "mcastOp ok nif addr code =
     (case nif of None \<Rightarrow> Undefined
      | Some nif \<Rightarrow> if ok then Done [Setsockopt code (fillMreq nif addr)] else Aborts)"

definition mcastListen :: "bool \<Rightarrow> net_if option \<Rightarrow> sockaddr_in \<Rightarrow> sock_call list outcome" where
  "mcastListen ok nif addr = mcastOp ok nif (sin_addr addr) IP_ADD_MEMBERSHIP"

definition setMcastDestination :: "bool \<Rightarrow> net_if option \<Rightarrow> sockaddr_in \<Rightarrow> sock_call list outcome" where
  "setMcastDestination ok nif addr = mcastOp ok nif (sin_addr addr) IP_MULTICAST_IF"

definition makeSocket :: "int \<Rightarrow> bool \<Rightarrow> bool \<Rightarrow> addr_type \<Rightarrow> net_if option \<Rightarrow> sockaddr_in option \<Rightarrow> int
    \<Rightarrow> (int \<times> sock_call list) outcome" where
  \<comment> \<open>\<open>s\<close> is what \<^verbatim>\<open>socket\<close> returns; \<open>bound\<close>, \<open>ok\<close>: whether \<^verbatim>\<open>bind\<close> and \<^verbatim>\<open>setsockopt\<close> succeed\<close>
  "makeSocket s bound ok addr_type nif tmpl port =
     (if s < 0 then Aborts
      else
        let ip = (case tmpl of Some t \<Rightarrow> if addr_type = ADDR_TYPE_MCAST then sin_addr t else 0 | None \<Rightarrow> 0)
        in and_then (initSockAddress addr_type nif ip (of_int port)) (\<lambda>myaddr.
             if addr_type = ADDR_TYPE_BCAST \<and> sin_addr myaddr = 0 then Done (-1, [Closesocket])
             else if \<not> bound then Aborts
             else if addr_type = ADDR_TYPE_MCAST then
               and_then (mcastListen ok nif myaddr) (\<lambda>calls. Done (s, Bind myaddr # calls))
             else Done (s, [Bind myaddr])))"

subsection \<open>Options of a socket and what the system says\<close>

definition getSendBuf :: "int option \<Rightarrow> int" where
  \<comment> \<open>\<open>None\<close>: \<^verbatim>\<open>getsockopt\<close> fails\<close>
  "getSendBuf r = (case r of None \<Rightarrow> -1 | Some bufsize \<Rightarrow> bufsize)"

definition getRcvBuf :: "u32 option \<Rightarrow> u32" where
  "getRcvBuf r = (case r of None \<Rightarrow> -1 | Some bufsize \<Rightarrow> bufsize)"

definition setSendBuf :: "u32 \<Rightarrow> sock_call" where
  \<comment> \<open>a failure is only reported\<close>
  "setSendBuf bufsize = SetOption ''SO_SNDBUF'' bufsize"

definition setRcvBuf :: "u32 \<Rightarrow> sock_call" where
  "setRcvBuf bufsize = SetOption ''SO_RCVBUF'' bufsize"

definition setSocketToBroadcast :: "int \<Rightarrow> sock_call \<times> int" where
  \<comment> \<open>\<open>r\<close> is what \<^verbatim>\<open>setsockopt\<close> returns\<close>
  "setSocketToBroadcast r = (SetOption ''SO_BROADCAST'' 1, r)"

definition setTtl :: "int \<Rightarrow> int \<Rightarrow> sock_call \<times> int" where
  "setTtl r ttl = (SetOption ''IP_MULTICAST_TTL'' (of_int ttl), r)"

definition hasLink :: "u32 option \<Rightarrow> int" where
  \<comment> \<open>\<^verbatim>\<open>ETHTOOL_GLINK\<close>; -1: unknown\<close>
  "hasLink r = (case r of None \<Rightarrow> -1 | Some v \<Rightarrow> sint v)"

definition isFullDuplex :: "byte option \<Rightarrow> int" where
  \<comment> \<open>\<^verbatim>\<open>ETHTOOL_GSET\<close>\<close>
  "isFullDuplex r = (case r of None \<Rightarrow> -1 | Some v \<Rightarrow> uint v)"

definition IFREQ_BYTES :: int where
  \<comment> \<open>\<^verbatim>\<open>sizeof(struct ifreq)\<close>\<close>
  "IFREQ_BYTES = 40"

fun ifconf_loop :: "(int \<Rightarrow> int option) list \<Rightarrow> int \<Rightarrow> int outcome" where
  \<comment> \<open>each call of \<^verbatim>\<open>SIOCGIFCONF\<close> with a buffer of \<open>len\<close> bytes says how many it wrote, or fails; the number of the last call\<close>
  "ifconf_loop [] len = Blocks"
| "ifconf_loop (ioctl # calls) len =
     (case ioctl len of
        None \<Rightarrow> Aborts
      | Some n \<Rightarrow>
          if n < IFREQ_BYTES then Aborts
          else if len = n then ifconf_loop calls (n + IFREQ_BYTES * 10)
          else Done n)"

definition INET_ATON :: "(string \<Rightarrow> u32) \<Rightarrow> string \<Rightarrow> u32 option" where
  \<comment> \<open>on a system that only has \<^verbatim>\<open>inet_addr\<close>\<close>
  "INET_ATON inet_addr a =
     (let s_addr = inet_addr a in if s_addr = -1 \<and> a \<noteq> ''255.255.255.255'' then None else Some s_addr)"

definition makeSockAddr :: "(string \<Rightarrow> u32 option) \<Rightarrow> string option \<Rightarrow> 16 word \<Rightarrow> sockaddr_in outcome" where
  \<comment> \<open>\<open>gethost\<close> is the first address \<^verbatim>\<open>gethostbyname\<close> finds\<close>
  "makeSockAddr gethost hostname port =
     and_then (if hostname \<noteq> None \<and> hostname \<noteq> Some [] then or_abort (gethost (the hostname)) else Done 0) (\<lambda>a.
       Done \<lparr>sin_family = AF_INET, sin_port = htons port, sin_addr = a\<rparr>)"

definition srandomTime :: "64 word \<Rightarrow> 64 word \<Rightarrow> u32" where
  \<comment> \<open>the seed from the time of day\<close>
  "srandomTime tv_sec tv_usec = ucast ((tv_usec * 2000) XOR tv_sec)"

lemma ifconf_loop_complete:
  \<comment> \<open>the list kept did not fill its buffer, so the system had no more to say: with \<open>known\<close> bytes of interfaces it is all of them\<close>
  assumes "ifconf_loop calls len = Done n" and "\<forall>c \<in> set calls. \<forall>l. c l = Some (min known (l - l mod IFREQ_BYTES))"
    and "len mod IFREQ_BYTES = 0"
  shows "n = known"
  using assms
proof (induction calls arbitrary: len)
  case (Cons c calls)
  have c: "c len = Some (min known len)" using Cons.prems(2,3) by simp
  show ?case
  proof (cases "len = min known len")
    case True
    then have "ifconf_loop calls (len + IFREQ_BYTES * 10) = Done n"
      using Cons.prems(1) by (simp add: c split: if_splits)
    moreover have "(len + IFREQ_BYTES * 10) mod IFREQ_BYTES = 0" using Cons.prems(3) by (simp add: IFREQ_BYTES_def mod_add_left_eq [symmetric])
    ultimately show ?thesis using Cons.IH Cons.prems(2) by simp
  next
    case False
    then show ?thesis using Cons.prems(1) by (auto simp: c split: if_splits)
  qed
qed simp

subsection \<open>Simulated loss\<close>

definition STASH_SIZE :: nat where "STASH_SIZE = 64"

definition STASH_BYTES :: nat where "STASH_BYTES = 4092"

record loss_sim =
  randoms :: "int list" \<comment> \<open>what \<^verbatim>\<open>random\<close> will return\<close>
  write_loss :: int
  read_loss :: int
  read_swap :: int
  stashed :: nat
  packetStash :: "byte list list" \<comment> \<open>each up to its \<open>size\<close>\<close>

definition random :: "loss_sim \<Rightarrow> (int \<times> loss_sim) outcome" where
  "random ls = (case randoms ls of [] \<Rightarrow> Blocks | r # rs \<Rightarrow> Done (r, ls\<lparr>randoms := rs\<rparr>))"

definition loseSendPacket :: "loss_sim \<Rightarrow> (loss_sim \<times> bool) outcome" where
  "loseSendPacket ls =
     (if write_loss ls \<noteq> 0 then and_then (random ls) (\<lambda>(r, ls). Done (ls, r < write_loss ls)) else Done (ls, False))"

definition doSend :: "'a \<Rightarrow> sockaddr_in \<Rightarrow> loss_sim \<Rightarrow> (loss_sim \<times> ('a \<times> sockaddr_in) list) outcome" where
  \<comment> \<open>with what it gives to the network\<close>
  "doSend m dest ls = and_then (loseSendPacket ls) (\<lambda>(ls, _). Done (ls, [(m, dest)]))"

fun lose_loop :: "int \<Rightarrow> int list \<Rightarrow> byte list list \<Rightarrow> (int list \<times> byte list list) outcome" where
  "lose_loop loss [] net = Blocks"
| "lose_loop loss (r # rs) net =
     (if r < loss then (case net of [] \<Rightarrow> Blocks | _ # net \<Rightarrow> lose_loop loss rs net) else Done (rs, net))"

fun stash_loop :: "int \<Rightarrow> int list \<Rightarrow> byte list list \<Rightarrow> nat \<Rightarrow> byte list list \<Rightarrow> (int list \<times> byte list list \<times> nat \<times> byte list list) outcome" where
  "stash_loop swap [] net n stash = (if n < STASH_SIZE then Blocks else Done ([], net, n, stash))"
| "stash_loop swap (r # rs) net n stash =
     (if n < STASH_SIZE then
        if r < swap then
          (case net of [] \<Rightarrow> Blocks | d # net \<Rightarrow> stash_loop swap rs net (n + 1) (stash[n := take STASH_BYTES d]))
        else Done (rs, net, n, stash)
      else Done (r # rs, net, n, stash))"

definition loseRecvPacket :: "byte list list \<Rightarrow> loss_sim \<Rightarrow> (loss_sim \<times> byte list list) outcome" where
  "loseRecvPacket net ls =
     and_then (if read_loss ls \<noteq> 0 then lose_loop (read_loss ls) (randoms ls) net else Done (randoms ls, net)) (\<lambda>(rs, net).
       if read_swap ls \<noteq> 0 then
         and_then (stash_loop (read_swap ls) rs net (stashed ls) (packetStash ls)) (\<lambda>(rs, net, n, stash).
           Done (ls\<lparr>randoms := rs, stashed := n, packetStash := stash\<rparr>, net))
       else Done (ls\<lparr>randoms := rs\<rparr>, net))"

fun scatter :: "nat list \<Rightarrow> byte list \<Rightarrow> byte list list" where
  \<comment> \<open>the loop over the buffers, given by their lengths, with what it writes at the start of each\<close>
  "scatter [] d = []"
| "scatter (l # lens) d =
     (let len = (if l > length d then length d else l)
      in take len d # (if length d - len = 0 then [] else scatter lens (drop len d)))"

definition RecvMsg :: "(byte list \<Rightarrow> byte list list) \<Rightarrow> nat list \<Rightarrow> byte list list \<Rightarrow> loss_sim
    \<Rightarrow> (loss_sim \<times> byte list list \<times> byte list list \<times> nat) outcome" where
  \<comment> \<open>the datagrams left, what is written to the buffers and the number of bytes; \<open>recvmsg\<close> is that of the system\<close>
  "RecvMsg recvmsg lens net ls =
     (let receive = (\<lambda>ls. case net of [] \<Rightarrow> Blocks | d # net \<Rightarrow> Done (ls, net, recvmsg d, length (concat (recvmsg d))))
      in if read_swap ls \<noteq> 0 \<and> stashed ls \<noteq> 0 then
           and_then (random ls) (\<lambda>(r, ls).
             if r div int (stashed ls) < read_swap ls then
               and_then (random ls) (\<lambda>(r, ls).
                 let slot = nat (r mod int (stashed ls));
                     bufs = scatter lens (packetStash ls ! slot)
                 in and_then (in_bounds (stashed ls < STASH_SIZE)) (\<lambda>_.
                      Done (ls\<lparr>packetStash := (packetStash ls)[slot := packetStash ls ! stashed ls], stashed := stashed ls - 1\<rparr>,
                            net, bufs, length (concat bufs))))
             else receive ls)
         else receive ls)"

subsection \<open>Messages with several buffers on Windows\<close>

definition getLength :: "nat list \<Rightarrow> nat" where
  "getLength lens = foldl (+) 0 lens"

fun doCopy_in :: "nat list \<Rightarrow> byte list \<Rightarrow> int \<Rightarrow> byte list list" where
  \<comment> \<open>\<^verbatim>\<open>doCopy\<close> from the buffer \<open>ptr\<close> of \<open>n\<close> bytes into the buffers of a message: what is written to each\<close>
  "doCopy_in [] ptr n = []"
| "doCopy_in (len # lens) ptr n =
     (if n \<ge> 0 then
        let l = (if int len > n then n else int len)
        in take (nat l) ptr # doCopy_in lens (drop (nat l) ptr) (n - l)
      else [])"

fun doCopy_out :: "byte list list \<Rightarrow> byte list \<Rightarrow> nat \<Rightarrow> int \<Rightarrow> byte list" where
  \<comment> \<open>\<^verbatim>\<open>doCopy\<close> from the buffers of a message to position \<open>p\<close> of a buffer\<close>
  "doCopy_out [] buf p n = buf"
| "doCopy_out (b # bs) buf p n =
     (if n \<ge> 0 then
        let l = (if int (length b) > n then n else int (length b))
        in doCopy_out bs (take p buf @ take (nat l) b @ drop (p + nat l) buf) (p + nat l) (n - l)
      else buf)"

definition recvmsg :: "(nat \<Rightarrow> byte list option) \<Rightarrow> nat list \<Rightarrow> byte list list \<times> int" where
  \<comment> \<open>\<open>recvfrom\<close> delivers at most the number of bytes asked for, or fails\<close>
  "recvmsg recvfrom lens =
     (case recvfrom (getLength lens) of None \<Rightarrow> (doCopy_in lens [] (-1), -1)
      | Some d \<Rightarrow> (doCopy_in lens d (int (length d)), int (length d)))"

definition sendmsg :: "byte list \<Rightarrow> byte list list \<Rightarrow> byte list" where
  \<comment> \<open>the datagram given to \<^verbatim>\<open>sendto\<close>; \<open>mem\<close> is the memory \<^verbatim>\<open>malloc\<close> returns\<close>
  "sendmsg mem bufs =
     (let size = getLength (map length bufs) in doCopy_out bufs (take size mem) 0 (int size))"

subsection \<open>Lemmas\<close>

lemma getLength_sum [simp]: "getLength lens = sum_list lens"
  by (simp add: getLength_def foldl_conv_fold fold_plus_sum_list_rev add.commute)

lemma scatter_concat: "concat (scatter lens d) = take (sum_list lens) d"
proof (induction lens arbitrary: d)
  case (Cons l lens)
  then show ?case by (auto simp: Let_def take_add)
qed simp

lemma doCopy_in_concat:
  assumes "n = int (length d)"
  shows "concat (doCopy_in lens d n) = take (sum_list lens) d \<and> length (doCopy_in lens d n) = length lens"
  using assms
proof (induction lens arbitrary: d n)
  case (Cons l lens)
  have "n - (if int l > n then n else int l) = int (length (drop (min l (length d)) d))" using Cons.prems by auto
  from Cons.IH [OF this] show ?case using Cons.prems by (auto simp: Let_def take_add min_def)
qed simp

lemma doCopy_in_same: "doCopy_in (map length bufs) (concat bufs) (int (length (concat bufs))) = bufs"
  by (induction bufs) auto

lemma doCopy_out_concat:
  assumes "p + length (concat bs) = length buf" and "n = int (length (concat bs))"
  shows "doCopy_out bs buf p n = take p buf @ concat bs"
  using assms
proof (induction bs arbitrary: buf p n)
  case (Cons b bs)
  have "doCopy_out bs (take p buf @ b @ drop (p + length b) buf) (p + length b) (n - int (length b))
      = take (p + length b) (take p buf @ b @ drop (p + length b) buf) @ concat bs"
    using Cons.prems by (intro Cons.IH) auto
  then show ?case using Cons.prems by simp
qed simp

lemma sendmsg_concat: "length (concat bufs) \<le> length mem \<Longrightarrow> sendmsg mem bufs = concat bufs"
  by (simp add: sendmsg_def length_concat doCopy_out_concat)

lemma RecvMsg_scatters:
  \<comment> \<open>a packet taken from the stash is laid out like one from the network\<close>
  "concat (scatter lens d) = concat (fst (recvmsg (\<lambda>n. Some (take n d)) lens))"
  using doCopy_in_concat [OF refl, of lens "take (sum_list lens) d"] by (simp add: recvmsg_def scatter_concat)

lemma stash_loop_spec:
  assumes "stash_loop swap rs net n stash = Done (rs', net', n', stash')" and "n \<le> STASH_SIZE" and "length stash = STASH_SIZE"
  shows "n \<le> n' \<and> n' \<le> STASH_SIZE \<and> length stash' = STASH_SIZE
    \<and> (\<exists>ds. net = ds @ net' \<and> take n' stash' = take n stash @ map (take STASH_BYTES) ds)"
  using assms
proof (induction swap rs net n stash rule: stash_loop.induct)
  case (2 swap r rs net n stash)
  show ?case
  proof (cases "n < STASH_SIZE \<and> r < swap")
    case True
    then obtain d ds where net: "net = d # ds" using 2(2) by (cases net) auto
    have s: "stash_loop swap rs ds (n + 1) (stash[n := take STASH_BYTES d]) = Done (rs', net', n', stash')"
      using 2(2) True by (simp add: net)
    have "n + 1 \<le> n' \<and> n' \<le> STASH_SIZE \<and> length stash' = STASH_SIZE
        \<and> (\<exists>xs. ds = xs @ net' \<and> take n' stash' = take (n + 1) (stash[n := take STASH_BYTES d]) @ map (take STASH_BYTES) xs)"
      using 2(1) [OF _ _ net s] True 2(4) by simp
    then obtain xs where xs: "n + 1 \<le> n'" "n' \<le> STASH_SIZE" "length stash' = STASH_SIZE" "ds = xs @ net'"
        "take n' stash' = take (n + 1) (stash[n := take STASH_BYTES d]) @ map (take STASH_BYTES) xs" by blast
    moreover have "take (n + 1) (stash[n := take STASH_BYTES d]) = take n stash @ [take STASH_BYTES d]"
      using True 2(4) by (simp add: take_Suc_conv_app_nth)
    ultimately have "net = (d # xs) @ net'" "take n' stash' = take n stash @ map (take STASH_BYTES) (d # xs)" by (simp_all add: net)
    then show ?thesis using xs(1-3) by (metis add_leD1)
  qed (use 2(2-4) in \<open>auto split: if_splits\<close>)
qed (auto split: if_splits)

subsection \<open>Properties\<close>

text \<open>
  The simulation of reordering loses packets: when \<^verbatim>\<open>RecvMsg\<close> brings out a packet of the
  stash other than the last one, it fills the gap with the entry behind the stash, not with the last
  packet, so that one packet is neither delivered nor kept; with a full stash it reads behind the array.
\<close>

lemma RecvMsg_forgets_packet:
  assumes "read_swap ls \<noteq> 0" and "0 < stashed ls" and "length (packetStash ls) = STASH_SIZE"
    and "randoms ls = r1 # r2 # rs" and "r1 div int (stashed ls) < read_swap ls" and "slot = nat (r2 mod int (stashed ls))"
  shows "(stashed ls = STASH_SIZE \<longrightarrow> RecvMsg rm lens net ls = Undefined)
    \<and> (stashed ls < STASH_SIZE \<and> slot \<noteq> stashed ls - 1 \<longrightarrow>
        (\<exists>ls' k. RecvMsg rm lens net ls = Done (ls', net, scatter lens (packetStash ls ! slot), k) \<and> stashed ls' = stashed ls - 1
          \<and> take (stashed ls') (packetStash ls') = (take (stashed ls - 1) (packetStash ls))[slot := packetStash ls ! stashed ls]))"
proof -
  have "slot < stashed ls" using assms(2,6) by (simp add: nat_less_iff)
  then show ?thesis using assms by (auto simp: RecvMsg_def random_def Let_def take_update_swap)
qed

text \<open>
  On Windows a message of several buffers arrives as it was sent: \<^verbatim>\<open>sendmsg\<close> gives the
  concatenation of its buffers to the network, \<^verbatim>\<open>recvmsg\<close> with buffers of the same
  sizes restores each of them, and with other buffers it fills them in order, cuts the message where they end, and
  returns the number of bytes stored.
\<close>

lemma sendmsg_recvmsg:
  assumes "length (concat bufs) \<le> length mem"
  shows "recvmsg (\<lambda>n. Some (take n (sendmsg mem bufs))) (map length bufs) = (bufs, int (length (concat bufs)))
    \<and> (let (bs, n) = recvmsg (\<lambda>n. Some (take n (sendmsg mem bufs))) lens
       in concat bs = take (sum_list lens) (concat bufs) \<and> length bs = length lens \<and> n = int (length (concat bs)))"
proof -
  have "sum_list (map length bufs) = length (concat bufs)" by (simp add: length_concat)
  then show ?thesis
    using doCopy_in_concat [OF refl, of lens "take (sum_list lens) (concat bufs)"] doCopy_in_same [of bufs]
    by (simp add: recvmsg_def sendmsg_concat [OF assms])
qed

lemma sendmsg_recvmsg_sample:
  "recvmsg (\<lambda>n. Some (take n (sendmsg (replicate 8 0) [[1, 2], [], [3, 4, 5]]))) [4, 3] = ([[1, 2, 3, 4], [5]], 5)"
proof -
  have s: "sendmsg (replicate 8 0) [[1, 2], [], [3, 4, 5]] = [1, 2, 3, 4, 5]" by (simp add: sendmsg_concat)
  show ?thesis using sendmsg_recvmsg [of "[[1, 2], [], [3, 4, 5]]" "replicate 8 0" "[4, 3]"] by (simp add: recvmsg_def s Let_def)
qed

end
