(* ===== verification/WinNet.thy ===== *)
theory WinNet
  imports Sockets RateLimit
begin

text \<open>
  The Windows variants in \<^verbatim>\<open>src/socklib.c\<close>: \<^verbatim>\<open>getNetIf\<close>, which chooses among the rows of the
  tables of addresses and of interfaces that the system returns, by the number of an Ethernet card or by its
  hardware address, and the making of sockets, which on Windows is one socket that joins every group.
\<close>

subsection \<open>The tables of the system\<close>

type_synonym dword = u32

record ip_row =
  \<comment> \<open>\<^verbatim>\<open>MIB_IPADDRROW\<close>\<close>
  dwAddr :: dword
  dwIndex :: dword
  dwMask :: dword
  dwBCastAddr :: dword

record if_row =
  \<comment> \<open>\<^verbatim>\<open>MIB_IFROW\<close>, the arrays up to their length fields\<close>
  if_index :: dword
  bDescr :: string
  bPhysAddr :: "byte list"

definition getIfRow :: "if_row list \<Rightarrow> dword \<Rightarrow> if_row option" where
  "getIfRow iftab n = List.find (\<lambda>r. if_index r = n) iftab"

definition hex_digit :: "nat \<Rightarrow> char" where
  "hex_digit n = char_of (if n < 10 then 48 + n else 87 + n)"

definition hex2 :: "byte \<Rightarrow> string" where
  \<comment> \<open>\<^verbatim>\<open>%02x\<close>\<close>
  "hex2 b = [hex_digit (unat b div 16), hex_digit (unat b mod 16)]"

fun phys_text :: "byte list \<Rightarrow> string" where
  "phys_text [] = []"
| "phys_text (b # bs) = hex2 b @ (if bs = [] then [] else CHR ''-'' # phys_text bs)"

definition fmtName :: "if_row \<Rightarrow> string" where
  \<comment> \<open>the description ends at its first NUL\<close>
  "fmtName r = takeWhile (\<lambda>c. c \<noteq> CHR 0x00) (bDescr r)
     @ (if bPhysAddr r \<noteq> [] then '' ('' @ phys_text (bPhysAddr r) @ '')'' else [])"

subsection \<open>The choice of the interface\<close>

definition strtoul32 :: "nat \<Rightarrow> string \<Rightarrow> int \<times> string" where
  \<comment> \<open>\<^verbatim>\<open>strtoul(s, &ptr, radix)\<close> for base 10 or 16 with the 32-bit \<^verbatim>\<open>long\<close> of Windows, stored in an \<^verbatim>\<open>int\<close>\<close>
  "strtoul32 radix s =
     (let t = dropWhile isspace s;
          neg = (t \<noteq> [] \<and> hd t = CHR ''-'');
          u = (if t \<noteq> [] \<and> hd t \<in> {CHR ''-'', CHR ''+''} then tl t else t);
          hex = (radix = 16 \<and> 2 < length u \<and> u ! 0 = CHR ''0'' \<and> u ! 1 \<in> {CHR ''x'', CHR ''X''} \<and> hexval (u ! 2) < 16);
          u = (if hex then drop 2 u else u);
          ds = takeWhile (\<lambda>c. hexval c < radix) u;
          n = foldl (\<lambda>n c. int radix * n + int (hexval c)) 0 ds;
          v = (if n \<ge> 2 ^ 32 then 2 ^ 32 - 1 else if neg then (2 ^ 32 - n) mod 2 ^ 32 else n)
      in if ds = [] then (0, s) else (if v < 2 ^ 31 then v else v - 2 ^ 32, drop (length ds) u))"

definition wanted_ether :: "string option \<Rightarrow> int" where
  \<comment> \<open>the number in \<open>eth0\<close>, \<open>eth1\<close>, ...\<close>
  "wanted_ether wanted =
     (case wanted of None \<Rightarrow> -2
      | Some w \<Rightarrow>
          if prefix ''eth'' w \<and> length w > 3 then
            let (n, ptr) = strtoul32 10 (drop 3 w) in if ptr = [] then n else -2
          else -2)"

fun phys_loop :: "string \<Rightarrow> byte list \<Rightarrow> string \<times> byte list" where
  \<comment> \<open>the string at \<^verbatim>\<open>ptr\<close> and the rest of the hardware address when the loop ends\<close>
  "phys_loop ptr [] = (ptr, [])"
| "phys_loop ptr (b # bs) =
     (if ptr = [] then (ptr, b # bs)
      else
        let (digit, e) = strtoul32 16 ptr
        in if digit \<noteq> uint b then (e, b # bs)
           else phys_loop (if e \<noteq> [] \<and> hd e \<in> {CHR ''-'', CHR '':''} then tl e else e) bs)"

definition is_ether :: "ip_row \<Rightarrow> if_row option \<Rightarrow> bool" where
  "is_ether iprow ifrow \<longleftrightarrow> (case ifrow of None \<Rightarrow> False | Some r \<Rightarrow> length (bPhysAddr r) = 6 \<and> dwBCastAddr iprow \<noteq> 0)"

definition goodness_win :: "string option \<Rightarrow> u32 option \<Rightarrow> int \<Rightarrow> ip_row \<Rightarrow> if_row option \<Rightarrow> int outcome" where
  \<comment> \<open>before it is doubled; a row without interface is a null pointer\<close>
  "goodness_win wanted wantedAddress etherNo iprow ifrow =
     (case wanted of
        Some w \<Rightarrow>
          if wantedAddress = Some (dwAddr iprow) then Done 8
          else if is_ether iprow ifrow \<and> wanted_ether wanted = etherNo then Done 9
          else (case ifrow of
              None \<Rightarrow> Undefined
            | Some r \<Rightarrow> Done (if bPhysAddr r \<noteq> [] \<and> phys_loop w (bPhysAddr r) = ([], []) then 9 else -1))
      | None \<Rightarrow>
          if dwAddr iprow = 0 then Done 1
          else if dwAddr iprow = htonl 0x7f000001 then Done 2
          else if is_ether iprow ifrow then Done 6
          else (case ifrow of None \<Rightarrow> Undefined | Some r \<Rightarrow> Done (if bPhysAddr r \<noteq> [] then 4 else 3)))"

fun choose_win :: "string option \<Rightarrow> u32 option \<Rightarrow> if_row list \<Rightarrow> ip_row list \<Rightarrow> int \<Rightarrow> (ip_row \<times> if_row option) option \<Rightarrow> int
    \<Rightarrow> (ip_row \<times> if_row option) option outcome" where
  "choose_win wanted wantedAddress iftab [] etherNo chosen lastGoodness = Done chosen"
| "choose_win wanted wantedAddress iftab (iprow # iptab) etherNo chosen lastGoodness =
     (let ifrow = getIfRow iftab (dwIndex iprow);
          etherNo = (if is_ether iprow ifrow then etherNo + 1 else etherNo)
      in and_then (goodness_win wanted wantedAddress etherNo iprow ifrow) (\<lambda>goodness.
           let goodness = goodness * 2;
               goodness = (if goodness \<ge> lastGoodness \<and> dwBCastAddr iprow \<noteq> 0 then goodness + 1 else goodness)
           in if goodness > lastGoodness then choose_win wanted wantedAddress iftab iptab etherNo (Some (iprow, ifrow)) goodness
              else choose_win wanted wantedAddress iftab iptab etherNo chosen lastGoodness))"

definition getNetIf_win :: "(string \<Rightarrow> u32 option) \<Rightarrow> string option \<Rightarrow> ip_row list \<Rightarrow> if_row list \<Rightarrow> string option \<Rightarrow> net_if outcome" where
  \<comment> \<open>without a match the program lists the interfaces, their names through \<open>fmtName\<close>, and exits\<close>
  "getNetIf_win aton ifname iptab iftab wanted =
     (let wanted = (if wanted = None then ifname else wanted);
          wantedAddress = Option.bind wanted aton
      in and_then (choose_win wanted wantedAddress iftab iptab (-1) None 0) (\<lambda>chosen.
           case chosen of
             None \<Rightarrow> if \<exists>iprow \<in> set iptab. getIfRow iftab (dwIndex iprow) = None then Undefined else Aborts
           | Some (iprow, ifrow) \<Rightarrow>
               Done \<lparr>if_addr = dwAddr iprow,
                 if_bcast = (if dwBCastAddr iprow \<noteq> 0 then dwAddr iprow OR NOT (dwMask iprow) else dwAddr iprow),
                 if_name = (case ifrow of Some r \<Rightarrow> fmtName r | None \<Rightarrow> ''*'')\<rparr>))"

subsection \<open>Sockets\<close>

definition setMcastDestination_win :: "bool \<Rightarrow> net_if option \<Rightarrow> u32 outcome" where
  \<comment> \<open>the interface set with \<^verbatim>\<open>IP_MULTICAST_IF\<close>\<close>
  "setMcastDestination_win ok nif =
     and_then (getMyAddress nif) (\<lambda>interface_addr. if ok then Done (sin_addr interface_addr) else Aborts)"

definition makeSocket_win :: "int \<Rightarrow> bool \<Rightarrow> bool \<Rightarrow> int \<Rightarrow> addr_type \<Rightarrow> net_if option \<Rightarrow> sockaddr_in option \<Rightarrow> int
    \<Rightarrow> (int \<times> int \<times> (int \<times> sock_call) list) outcome" where
  \<comment> \<open>\<^verbatim>\<open>lastSocket\<close> afterwards, the value returned and the calls with their sockets\<close>
  "makeSocket_win s bound ok lastSocket addr_type nif tmpl port =
     (if addr_type = ADDR_TYPE_MCAST then
        (case tmpl of None \<Rightarrow> Undefined
         | Some tmpl \<Rightarrow> and_then (mcastListen ok nif tmpl) (\<lambda>calls. Done (lastSocket, -1, map (Pair lastSocket) calls)))
      else if addr_type \<noteq> ADDR_TYPE_UCAST then Done (lastSocket, -1, [])
      else and_then (makeSocket s bound ok addr_type nif tmpl port) (\<lambda>(s, calls). Done (s, s, map (Pair s) calls)))"

subsection \<open>Lemmas\<close>

definition row_rank :: "string option \<Rightarrow> u32 option \<Rightarrow> if_row list \<Rightarrow> int \<Rightarrow> ip_row \<Rightarrow> int" where
  \<comment> \<open>0: the row does not match\<close>
  "row_rank w a iftab etherNo iprow =
     (case goodness_win w a etherNo iprow (getIfRow iftab (dwIndex iprow)) of
        Done g \<Rightarrow> if g < 0 then 0 else 2 * g + (if dwBCastAddr iprow \<noteq> 0 then 1 else 0)
      | _ \<Rightarrow> 0)"

fun ranks :: "string option \<Rightarrow> u32 option \<Rightarrow> if_row list \<Rightarrow> ip_row list \<Rightarrow> int \<Rightarrow> int list" where
  \<comment> \<open>of all rows, the Ethernet cards numbered in their order\<close>
  "ranks w a iftab [] etherNo = []"
| "ranks w a iftab (iprow # iptab) etherNo =
     (let etherNo = (if is_ether iprow (getIfRow iftab (dwIndex iprow)) then etherNo + 1 else etherNo)
      in row_rank w a iftab etherNo iprow # ranks w a iftab iptab etherNo)"

lemma length_ranks [simp]: "length (ranks w a iftab iptab e) = length iptab"
  by (induction iptab arbitrary: e) (simp_all add: Let_def)

lemma goodness_win_pos:
  assumes "goodness_win w a e r i = Done g"
  shows "0 < g \<or> g = -1"
  using assms by (auto simp: goodness_win_def split: option.splits if_splits)

lemma choose_win_best:
  assumes "choose_win w a iftab iptab e chosen lg = Done c" and "0 \<le> lg"
  shows "(c = chosen \<and> (\<forall>r \<in> set (ranks w a iftab iptab e). r \<le> lg))
    \<or> (\<exists>k < length iptab. c = Some (iptab ! k, getIfRow iftab (dwIndex (iptab ! k))) \<and> lg < ranks w a iftab iptab e ! k
        \<and> (\<forall>r \<in> set (ranks w a iftab iptab e). r \<le> ranks w a iftab iptab e ! k)
        \<and> (\<forall>j < k. ranks w a iftab iptab e ! j < ranks w a iftab iptab e ! k))"
  using assms
proof (induction iptab arbitrary: e chosen lg)
  case (Cons iprow iptab)
  define ifrow where "ifrow = getIfRow iftab (dwIndex iprow)"
  define e' where "e' = (if is_ether iprow ifrow then e + 1 else e)"
  define r where "r = row_rank w a iftab e' iprow"
  define rs where "rs = ranks w a iftab iptab e'"
  have rr: "ranks w a iftab (iprow # iptab) e = r # rs"
    by (simp add: Let_def r_def rs_def e'_def ifrow_def)
  obtain g where g: "goodness_win w a e' iprow ifrow = Done g"
    using Cons.prems(1) by (auto simp: Let_def and_then_Done e'_def ifrow_def)
  have rg: "r = (if g < 0 then 0 else 2 * g + (if dwBCastAddr iprow \<noteq> 0 then 1 else 0))"
    using g by (simp add: r_def row_rank_def ifrow_def)
  have step: "choose_win w a iftab (iprow # iptab) e chosen lg =
      (if r > lg then choose_win w a iftab iptab e' (Some (iprow, ifrow)) r else choose_win w a iftab iptab e' chosen lg)"
    using goodness_win_pos [OF g] Cons.prems(2) g by (auto simp: Let_def rg mult.commute [of g 2] e'_def [symmetric] ifrow_def [symmetric])
  show ?case
  proof (cases "r > lg")
    case True
    then have s: "choose_win w a iftab iptab e' (Some (iprow, ifrow)) r = Done c" "0 \<le> r" using Cons.prems step by simp_all
    from Cons.IH [OF this, folded rs_def] show ?thesis
    proof (elim disjE exE conjE)
      assume "c = Some (iprow, ifrow)" "\<forall>x \<in> set rs. x \<le> r"
      then show ?thesis unfolding rr using True by (intro disjI2 exI [of _ 0]) (simp add: ifrow_def)
    next
      fix k assume "k < length iptab" "c = Some (iptab ! k, getIfRow iftab (dwIndex (iptab ! k)))" "r < rs ! k"
        "\<forall>x \<in> set rs. x \<le> rs ! k" "\<forall>j<k. rs ! j < rs ! k"
      then show ?thesis unfolding rr using True
        by (intro disjI2 exI [of _ "Suc k"]) (auto simp: nth_Cons split: nat.splits)
    qed
  next
    case False
    then have s: "choose_win w a iftab iptab e' chosen lg = Done c" using Cons.prems step by simp
    from Cons.IH [OF this Cons.prems(2), folded rs_def] show ?thesis
    proof (elim disjE exE conjE)
      assume "c = chosen" "\<forall>x \<in> set rs. x \<le> lg"
      then show ?thesis unfolding rr using False by simp
    next
      fix k assume "k < length iptab" "c = Some (iptab ! k, getIfRow iftab (dwIndex (iptab ! k)))" "lg < rs ! k"
        "\<forall>x \<in> set rs. x \<le> rs ! k" "\<forall>j<k. rs ! j < rs ! k"
      then show ?thesis unfolding rr using False
        by (intro disjI2 exI [of _ "Suc k"]) (auto simp: nth_Cons split: nat.splits)
    qed
  qed
qed simp

lemma getNetIf_win_best:
  assumes "getNetIf_win aton ifname iptab iftab wanted = Done n"
    and "w = (if wanted = None then ifname else wanted)" and "a = Option.bind w aton"
  shows "\<exists>k < length iptab. if_addr n = dwAddr (iptab ! k) \<and> 0 < ranks w a iftab iptab (-1) ! k
    \<and> (\<forall>r \<in> set (ranks w a iftab iptab (-1)). r \<le> ranks w a iftab iptab (-1) ! k)
    \<and> (\<forall>j < k. ranks w a iftab iptab (-1) ! j < ranks w a iftab iptab (-1) ! k)"
proof -
  obtain c where c: "choose_win w a iftab iptab (-1) None 0 = Done (Some c)" and n: "if_addr n = dwAddr (fst c)"
    using assms(1) unfolding getNetIf_win_def Let_def assms(2,3) [symmetric] and_then_Done
    by (fastforce split: option.splits if_splits)
  from choose_win_best [OF c] n show ?thesis by auto
qed

lemma hexval_digit:
  assumes "n < 16"
  shows "hexval (hex_digit n) = n" "\<not> isspace (hex_digit n)" "hex_digit n \<notin> {CHR ''-'', CHR ''+'', CHR ''x'', CHR ''X''}"
proof -
  have c: "(of_char (hex_digit n) :: nat) = (if n < 10 then 48 + n else 87 + n)" using assms by (simp add: hex_digit_def)
  show "hexval (hex_digit n) = n" "\<not> isspace (hex_digit n)" using assms by (auto simp: hexval_def isspace_def c)
  have "hex_digit n \<noteq> x" if "(of_char x :: nat) \<in> {45, 43, 120, 88}" for x using that assms c by (auto split: if_splits)
  then show "hex_digit n \<notin> {CHR ''-'', CHR ''+'', CHR ''x'', CHR ''X''}" by auto
qed

lemma strtoul32_hex2:
  assumes "rest = [] \<or> hexval (hd rest) \<ge> 16"
  shows "strtoul32 16 (hex2 b @ rest) = (uint b, rest)"
proof -
  have b: "unat b < 256" using unsigned_less [of b] by simp
  have lt: "unat b div 16 < 16" "unat b mod 16 < 16" using b by simp_all
  note d = hexval_digit [OF lt(1)] hexval_digit [OF lt(2)]
  have tw: "takeWhile (\<lambda>c. hexval c < 16) rest = []" using assms by (cases rest) simp_all
  have v: "16 * (unat b div 16) + unat b mod 16 = unat b" by simp
  have ds: "takeWhile (\<lambda>c. hexval c < 16) (hex2 b @ rest) = hex2 b" using d lt tw by (simp add: hex2_def)
  have "16 * int (unat b div 16) + int (unat b mod 16) = int (unat b)" using v by linarith
  then have "16 * int (unat b div 16) + int (unat b mod 16) = uint b" by (simp only: int_nat_eq uint_nat)
  then have f: "foldl (\<lambda>n c. 16 * n + int (hexval c)) 0 (hex2 b) = uint b" using d by (simp add: hex2_def)
  have h: "dropWhile isspace (hex2 b @ rest) = hex2 b @ rest" "hd (hex2 b @ rest) \<notin> {CHR ''-'', CHR ''+''}"
    "(hex2 b @ rest) ! 1 \<notin> {CHR ''x'', CHR ''X''}" "hex2 b \<noteq> []" "drop (length (hex2 b)) (hex2 b @ rest) = rest"
    using d by (simp_all add: hex2_def)
  have big: "uint b < 256" using unsigned_less [of b] by simp
  then show ?thesis using h ds f by (auto simp: strtoul32_def Let_def)
qed

lemma phys_loop_text:
  "phys_loop (phys_text bs) bs = ([], [])"
proof (induction bs)
  case (Cons b bs)
  have ne: "phys_text (b # bs) \<noteq> []" by (simp add: hex2_def)
  have "hexval CHR ''-'' \<ge> 16" by (simp add: hexval_def)
  then have "strtoul32 16 (phys_text (b # bs)) = (uint b, if bs = [] then [] else CHR ''-'' # phys_text bs)"
    using strtoul32_hex2 [of "if bs = [] then [] else CHR ''-'' # phys_text bs" b] by simp
  then show ?case using ne Cons.IH by simp
qed simp

lemma hardware_address_chooses:
  \<comment> \<open>the hardware address as the program shows it names the interface\<close>
  assumes "getIfRow iftab (dwIndex iprow) = Some r" and "bPhysAddr r \<noteq> []" and "w = phys_text (bPhysAddr r)" and "a \<noteq> Some (dwAddr iprow)"
  shows "row_rank (Some w) a iftab etherNo iprow \<ge> 18"
  using assms by (simp add: row_rank_def goodness_win_def phys_loop_text)

lemma missing_row_crashes:
  \<comment> \<open>an address without interface is a null pointer as soon as another interface is wanted\<close>
  assumes "iprow \<in> set iptab" and "getIfRow iftab (dwIndex iprow) = None" and "Option.bind wanted aton = None" and "wanted \<noteq> None"
  shows "getNetIf_win aton ifname iptab iftab wanted = Undefined"
proof -
  have "choose_win wanted None iftab iptab e chosen lg = Undefined" for e chosen lg
    using assms(1)
  proof (induction iptab arbitrary: e chosen lg)
    case (Cons r rs)
    show ?case
    proof (cases "getIfRow iftab (dwIndex r) = None")
      case True
      then show ?thesis using assms(4) by (auto simp: Let_def goodness_win_def is_ether_def)
    next
      case False
      then have "iprow \<in> set rs" using Cons.prems assms(2) by auto
      note IH = Cons.IH [OF this]
      define e' where "e' = (if is_ether r (getIfRow iftab (dwIndex r)) then e + 1 else e)"
      have "\<exists>g. goodness_win wanted None e' r (getIfRow iftab (dwIndex r)) = Done g"
        using False assms(4) by (cases wanted; cases "getIfRow iftab (dwIndex r)") (simp_all add: goodness_win_def)
      then show ?thesis by (auto simp: Let_def IH e'_def [symmetric])
    qed
  qed simp
  then show ?thesis using assms(3,4) by (auto simp: getNetIf_win_def Let_def)
qed

lemma one_socket_joins:
  \<comment> \<open>on Windows a socket is made, then joins the group; both calls are on the same socket\<close>
  assumes "makeSocket_win s True True l0 ADDR_TYPE_UCAST (Some nif) None port = Done (l1, r1, calls1)"
    and "makeSocket_win s2 True True l1 ADDR_TYPE_MCAST (Some nif) (Some tmpl) port = Done (l2, r2, calls2)"
  shows "l2 = s \<and> r1 = s \<and> r2 = -1 \<and> map fst (calls1 @ calls2) = [s, s]
    \<and> map snd calls2 = [Setsockopt IP_ADD_MEMBERSHIP \<lparr>imr_interface = if_addr nif, imr_multiaddr = sin_addr tmpl\<rparr>]"
  using assms by (auto simp: makeSocket_win_def makeSocket_def initSockAddress_def mcastListen_def mcastOp_def fillMreq_def split: if_splits)

definition sample_rows :: "ip_row list" where
  "sample_rows = [\<lparr>dwAddr = htonl 0x7f000001, dwIndex = 1, dwMask = htonl 0xff000000, dwBCastAddr = 1\<rparr>,
     \<lparr>dwAddr = htonl 0x0a000005, dwIndex = 2, dwMask = htonl 0xffffff00, dwBCastAddr = 1\<rparr>,
     \<lparr>dwAddr = htonl 0xc0a80007, dwIndex = 3, dwMask = htonl 0xffffff00, dwBCastAddr = 1\<rparr>]"

definition sample_interfaces :: "if_row list" where
  "sample_interfaces = [\<lparr>if_index = 1, bDescr = ''Loopback'', bPhysAddr = []\<rparr>,
     \<lparr>if_index = 2, bDescr = ''Card'', bPhysAddr = [0, 1, 2, 3, 4, 0xfe]\<rparr>,
     \<lparr>if_index = 3, bDescr = ''Wireless'', bPhysAddr = [0, 1, 2, 3, 4, 0xff]\<rparr>]"


lemma getNetIf_win_samples:
  "getNetIf_win (\<lambda>_. None) None sample_rows sample_interfaces None
     = Done \<lparr>if_addr = htonl 0x0a000005, if_bcast = htonl 0x0a0000ff, if_name = ''Card (00-01-02-03-04-fe)''\<rparr>"
  "getNetIf_win (\<lambda>_. None) None sample_rows sample_interfaces (Some ''eth1'')
     = Done \<lparr>if_addr = htonl 0xc0a80007, if_bcast = htonl 0xc0a800ff, if_name = ''Wireless (00-01-02-03-04-ff)''\<rparr>"
  "getNetIf_win (\<lambda>_. None) None sample_rows sample_interfaces (Some ''0:1:2:3:4:FF'')
     = Done \<lparr>if_addr = htonl 0xc0a80007, if_bcast = htonl 0xc0a800ff, if_name = ''Wireless (00-01-02-03-04-ff)''\<rparr>"
  by code_simp+

end
