(* ===== verification/FecAsm.thy ===== *)
theory FecAsm
  imports FecMatrix
begin

text \<open>
  The i386 assembler versions of the vector loops of \<^verbatim>\<open>src/fec.c\<close>, \<^verbatim>\<open>addmul1\<close> and
  \<^verbatim>\<open>mul1\<close> with \<^verbatim>\<open>USE_ASSEMBLER\<close>, as programs of a machine with the six
  registers and the instructions they use, and the proof that they compute the same as the C versions.
  Addresses are integers, memory is a function; the buffers lie in it without wrap-around.
\<close>

subsection \<open>The machine\<close>

datatype reg = EAX | EBX | ECX | EDX | ESI | EDI

datatype instr =
    XORL reg reg
  | ADDL int reg
  | MOVB_load int reg reg \<comment> \<open>\<^verbatim>\<open>movb off(base), low byte\<close>\<close>
  | MOVB_index reg reg reg \<comment> \<open>\<^verbatim>\<open>movb (base,index), low byte\<close>\<close>
  | XORB reg int reg \<comment> \<open>\<^verbatim>\<open>xorb low byte, off(base)\<close>\<close>
  | MOVB_store reg int reg \<comment> \<open>\<^verbatim>\<open>movb low byte, off(base)\<close>\<close>

record machine =
  regs :: "reg \<Rightarrow> int"
  mem :: "int \<Rightarrow> byte"

definition set_low :: "reg \<Rightarrow> byte \<Rightarrow> machine \<Rightarrow> machine" where
  "set_low r b s = s\<lparr>regs := (regs s)(r := regs s r - regs s r mod 256 + uint b)\<rparr>"

definition low :: "reg \<Rightarrow> machine \<Rightarrow> byte" where
  "low r s = word_of_int (regs s r)"

fun exec1 :: "instr \<Rightarrow> machine \<Rightarrow> machine" where
  "exec1 (XORL a b) s = s\<lparr>regs := (regs s)(b := regs s a XOR regs s b)\<rparr>"
| "exec1 (ADDL n r) s = s\<lparr>regs := (regs s)(r := regs s r + n)\<rparr>"
| "exec1 (MOVB_load off b r) s = set_low r (mem s (regs s b + off)) s"
| "exec1 (MOVB_index b i r) s = set_low r (mem s (regs s b + regs s i)) s"
| "exec1 (XORB r off b) s = s\<lparr>mem := (mem s)(regs s b + off := mem s (regs s b + off) XOR low r s)\<rparr>"
| "exec1 (MOVB_store r off b) s = s\<lparr>mem := (mem s)(regs s b + off := low r s)\<rparr>"

definition exec :: "instr list \<Rightarrow> machine \<Rightarrow> machine" where
  "exec = fold exec1"

fun do_while_below :: "nat \<Rightarrow> instr list \<Rightarrow> machine \<Rightarrow> machine option" where
  \<comment> \<open>\<^verbatim>\<open>1: body; cmpl %ecx, %esi; jb 1b\<close>, up to a number of rounds\<close>
  "do_while_below 0 body s = None"
| "do_while_below (Suc n) body s =
     (let s = exec body s in if regs s ESI < regs s ECX then do_while_below n body s else Some s)"

subsection \<open>The programs\<close>

definition LOOPSIZE :: int where "LOOPSIZE = 8"

definition addmul_body :: "instr list" where
  "addmul_body =
    [ADDL 8 EDI,
     MOVB_load 0 ESI EAX, MOVB_load 4 ESI EDX, MOVB_index EBX EAX EAX, MOVB_index EBX EDX EDX, XORB EAX 0 EDI, XORB EDX 4 EDI,
     MOVB_load 1 ESI EAX, MOVB_load 5 ESI EDX, MOVB_index EBX EAX EAX, MOVB_index EBX EDX EDX, XORB EAX 1 EDI, XORB EDX 5 EDI,
     MOVB_load 2 ESI EAX, MOVB_load 6 ESI EDX, MOVB_index EBX EAX EAX, MOVB_index EBX EDX EDX, XORB EAX 2 EDI, XORB EDX 6 EDI,
     MOVB_load 3 ESI EAX, MOVB_load 7 ESI EDX, ADDL 8 ESI, MOVB_index EBX EAX EAX, MOVB_index EBX EDX EDX, XORB EAX 3 EDI, XORB EDX 7 EDI]"

definition mul_body :: "instr list" where
  "mul_body =
    [ADDL 8 EDI,
     MOVB_load 0 ESI EAX, MOVB_load 4 ESI EDX, MOVB_index EBX EAX EAX, MOVB_index EBX EDX EDX, MOVB_store EAX 0 EDI, MOVB_store EDX 4 EDI,
     MOVB_load 1 ESI EAX, MOVB_load 5 ESI EDX, MOVB_index EBX EAX EAX, MOVB_index EBX EDX EDX, MOVB_store EAX 1 EDI, MOVB_store EDX 5 EDI,
     MOVB_load 2 ESI EAX, MOVB_load 6 ESI EDX, MOVB_index EBX EAX EAX, MOVB_index EBX EDX EDX, MOVB_store EAX 2 EDI, MOVB_store EDX 6 EDI,
     MOVB_load 3 ESI EAX, MOVB_load 7 ESI EDX, ADDL 8 ESI, MOVB_index EBX EAX EAX, MOVB_index EBX EDX EDX, MOVB_store EAX 3 EDI, MOVB_store EDX 7 EDI]"

definition region :: "(int \<Rightarrow> byte) \<Rightarrow> int \<Rightarrow> nat \<Rightarrow> byte list" where
  "region m a n = map (\<lambda>i. m (a + int i)) [0..<n]"

definition store :: "int \<Rightarrow> byte list \<Rightarrow> (int \<Rightarrow> byte) \<Rightarrow> int \<Rightarrow> byte" where
  "store a bs m = (\<lambda>x. if a \<le> x \<and> x < a + int (length bs) then bs ! nat (x - a) else m x)"

definition run_asm :: "instr list \<Rightarrow> int \<Rightarrow> int \<Rightarrow> int \<Rightarrow> nat \<Rightarrow> machine \<Rightarrow> (int \<Rightarrow> byte) option" where
  \<comment> \<open>the instructions before the loop, after the operands have been loaded; \<open>tab\<close>: the row of the table for the factor\<close>
  "run_asm body tab dst1 src1 sz s =
     map_option mem (do_while_below (sz + 1) body
       (exec [XORL EAX EAX, XORL EDX EDX]
         (s\<lparr>regs := (regs s)(EBX := tab, EDI := dst1 - 8, ESI := src1, ECX := int sz + src1)\<rparr>)))"

definition addmul1_asm :: "gf_tables \<Rightarrow> int \<Rightarrow> int \<Rightarrow> int \<Rightarrow> byte \<Rightarrow> nat \<Rightarrow> machine \<Rightarrow> (int \<Rightarrow> byte) option" where
  "addmul1_asm T tab dst1 src1 c sz s =
     (if dst1 mod LOOPSIZE \<noteq> 0 \<or> src1 mod LOOPSIZE \<noteq> 0 \<or> int sz mod LOOPSIZE \<noteq> 0
      then Some (store dst1 (slow_addmul1 T (region (mem s) dst1 sz) (region (mem s) src1 sz) c sz) (mem s))
      else run_asm addmul_body tab dst1 src1 sz s)"

definition mul1_asm :: "gf_tables \<Rightarrow> int \<Rightarrow> int \<Rightarrow> int \<Rightarrow> byte \<Rightarrow> nat \<Rightarrow> machine \<Rightarrow> (int \<Rightarrow> byte) option" where
  "mul1_asm T tab dst1 src1 c sz s =
     (if dst1 mod LOOPSIZE \<noteq> 0 \<or> src1 mod LOOPSIZE \<noteq> 0 \<or> int sz mod LOOPSIZE \<noteq> 0
      then Some (store dst1 (slow_mul1 T (region (mem s) dst1 sz) (region (mem s) src1 sz) c sz) (mem s))
      else run_asm mul_body tab dst1 src1 sz s)"

subsection \<open>A round of the loop\<close>

definition bytes_ok :: "machine \<Rightarrow> bool" where
  \<comment> \<open>the index registers hold bytes\<close>
  "bytes_ok s \<longleftrightarrow> regs s EAX \<in> {0..<256} \<and> regs s EDX \<in> {0..<256}"

definition updated :: "(byte \<Rightarrow> byte \<Rightarrow> byte) \<Rightarrow> int set \<Rightarrow> int \<Rightarrow> int \<Rightarrow> (int \<Rightarrow> byte) \<Rightarrow> int \<Rightarrow> byte" where
  \<comment> \<open>memory after the bytes at the offsets \<open>J\<close> of the destination have been computed from those of the source\<close>
  "updated g J d a m = (\<lambda>x. if x - d \<in> J then g (m x) (m (a + (x - d))) else m x)"

definition stores :: "(reg \<Rightarrow> int \<Rightarrow> reg \<Rightarrow> instr) \<Rightarrow> (byte \<Rightarrow> byte \<Rightarrow> byte) \<Rightarrow> bool" where
  \<comment> \<open>what the two instructions that write have in common\<close>
  "stores st g \<longleftrightarrow> (\<forall>r off b s. exec1 (st r off b) s =
     s\<lparr>mem := (mem s)(regs s b + off := g (mem s (regs s b + off)) (low r s))\<rparr>)"

definition pair :: "(reg \<Rightarrow> int \<Rightarrow> reg \<Rightarrow> instr) \<Rightarrow> int \<Rightarrow> instr list \<Rightarrow> instr list" where
  \<comment> \<open>two bytes, four apart\<close>
  "pair st j mid =
     [MOVB_load j ESI EAX, MOVB_load (j + 4) ESI EDX] @ mid @
     [MOVB_index EBX EAX EAX, MOVB_index EBX EDX EDX, st EAX j EDI, st EDX (j + 4) EDI]"

lemma bodies:
  "addmul_body = [ADDL 8 EDI] @ pair XORB 0 [] @ pair XORB 1 [] @ pair XORB 2 [] @ pair XORB 3 [ADDL 8 ESI]"
  "mul_body = [ADDL 8 EDI] @ pair MOVB_store 0 [] @ pair MOVB_store 1 [] @ pair MOVB_store 2 [] @ pair MOVB_store 3 [ADDL 8 ESI]"
  by (simp_all add: addmul_body_def mul_body_def pair_def)

lemma stores_ops: "stores XORB (\<lambda>x y. x XOR y)" "stores MOVB_store (\<lambda>x y. y)"
  by (simp_all add: stores_def)

lemma exec_append: "exec (p @ q) s = exec q (exec p s)"
  by (simp add: exec_def)

lemma set_low_byte: "regs s r \<in> {0..<256} \<Longrightarrow> set_low r b s = s\<lparr>regs := (regs s)(r := uint b)\<rparr>"
  by (simp add: set_low_def)

lemma uint_byte [simp]: "uint (b :: byte) < 256"
  using uint_lt2p [of b] by simp

lemma pair_exec:
  assumes "stores st g" and "bytes_ok s" and "\<forall>b :: byte. mem s (regs s EBX + uint b) = f b" and "mid = [] \<or> mid = [ADDL 8 ESI]"
  shows "exec (pair st j mid) s =
    s\<lparr>regs := (regs s)(EAX := uint (f (mem s (regs s ESI + j))), EDX := uint (f (mem s (regs s ESI + (j + 4)))),
        ESI := regs s ESI + (if mid = [] then 0 else 8)),
      mem := (mem s)(regs s EDI + j := g (mem s (regs s EDI + j)) (f (mem s (regs s ESI + j))),
        regs s EDI + (j + 4) := g (mem s (regs s EDI + (j + 4))) (f (mem s (regs s ESI + (j + 4)))))\<rparr>"
  using assms by (auto simp: exec_def pair_def stores_def bytes_ok_def set_low_byte low_def fun_upd_twist)

definition in_round :: "(byte \<Rightarrow> byte \<Rightarrow> byte) \<Rightarrow> (byte \<Rightarrow> byte) \<Rightarrow> int set \<Rightarrow> machine \<Rightarrow> machine \<Rightarrow> bool" where
  \<comment> \<open>from the state \<open>s0\<close> a round has computed the bytes at the offsets \<open>J\<close>\<close>
  "in_round g f J s0 s \<longleftrightarrow> bytes_ok s \<and> (\<forall>r \<in> {EBX, ECX, ESI}. regs s r = regs s0 r) \<and> regs s EDI = regs s0 EDI + 8
     \<and> mem s = updated (\<lambda>x y. g x (f y)) J (regs s0 EDI + 8) (regs s0 ESI) (mem s0)"

definition separate :: "(byte \<Rightarrow> byte) \<Rightarrow> machine \<Rightarrow> bool" where
  \<comment> \<open>the eight bytes written are neither in the table nor among the eight bytes read\<close>
  "separate f s \<longleftrightarrow> (\<forall>b :: byte. mem s (regs s EBX + uint b) = f b)
     \<and> (\<forall>k \<in> {0..<8}. (\<forall>b :: byte. regs s EBX + uint b \<noteq> regs s EDI + 8 + k) \<and> (\<forall>l \<in> {0..<8}. regs s ESI + l \<noteq> regs s EDI + 8 + k))"

lemma pair_round:
  assumes "stores st g" and "separate f s0" and "in_round g f J s0 s" and "J \<subseteq> {0..<8}" and "j \<in> {0..<4}" and "j \<notin> J" "j + 4 \<notin> J"
  shows "in_round g f (insert j (insert (j + 4) J)) s0 (exec (pair st j []) s)"
    and "exec (pair st j [ADDL 8 ESI]) s = (exec (pair st j []) s)\<lparr>regs := (regs (exec (pair st j []) s))(ESI := regs s ESI + 8)\<rparr>"
proof -
  note s = assms(3) [unfolded in_round_def]
  have tab: "\<forall>b :: byte. mem s (regs s EBX + uint b) = f b"
  proof
    fix b :: byte
    let ?x = "regs s0 EBX + uint b"
    have "?x - (regs s0 EDI + 8) \<notin> J"
    proof
      assume "?x - (regs s0 EDI + 8) \<in> J"
      then have k: "?x - (regs s0 EDI + 8) \<in> {0..<8}" using assms(4) by blast
      have "\<forall>k \<in> {0..<8}. \<forall>b :: byte. regs s0 EBX + uint b \<noteq> regs s0 EDI + 8 + k" using assms(2) by (simp add: separate_def)
      from spec [OF bspec [OF this k], of b] show False by simp
    qed
    then show "mem s (regs s EBX + uint b) = f b" using s assms(2) by (simp add: updated_def separate_def)
  qed
  show "in_round g f (insert j (insert (j + 4) J)) s0 (exec (pair st j []) s)"
  proof -
    define m0 d a where "m0 = mem s0" and "d = regs s0 EDI + 8" and "a = regs s0 ESI"
    have regs: "regs s EDI = d" "regs s ESI = a" "regs s EBX = regs s0 EBX" "regs s ECX = regs s0 ECX"
      and mem: "mem s = updated (\<lambda>x y. g x (f y)) J d a m0" using s by (simp_all add: d_def a_def m0_def)
    have src: "mem s (a + l) = m0 (a + l)" if "l \<in> {0..<8}" for l
    proof -
      have "a + l - d \<notin> J"
      proof
        assume "a + l - d \<in> J"
        then have k: "a + l - d \<in> {0..<8}" using assms(4) by blast
        have "\<forall>k \<in> {0..<8}. \<forall>l \<in> {0..<8}. a + l \<noteq> d + k" using assms(2) by (simp add: separate_def d_def a_def)
        from bspec [OF bspec [OF this k] that] have "a + l \<noteq> d + (a + l - d)" .
        then show False by simp
      qed
      then show ?thesis by (simp add: mem updated_def)
    qed
    have dst: "mem s (d + l) = m0 (d + l)" if "l \<notin> J" for l using that by (simp add: mem updated_def)
    have "mem (exec (pair st j []) s) = (mem s)(d + j := g (m0 (d + j)) (f (m0 (a + j))), d + (j + 4) := g (m0 (d + (j + 4))) (f (m0 (a + (j + 4)))))"
      using src [of j] src [of "j + 4"] dst [OF assms(6)] dst [OF assms(7)] assms(5)
      unfolding pair_exec [OF assms(1) conjunct1 [OF s] tab disjI1 [OF refl]] regs by simp
    also have "\<dots> = updated (\<lambda>x y. g x (f y)) (insert j (insert (j + 4) J)) d a m0"
      unfolding mem updated_def by (rule ext) auto
    finally show ?thesis
      using s unfolding in_round_def pair_exec [OF assms(1) conjunct1 [OF s] tab disjI1 [OF refl]]
      by (simp add: d_def a_def m0_def bytes_ok_def)
  qed
  show "exec (pair st j [ADDL 8 ESI]) s = (exec (pair st j []) s)\<lparr>regs := (regs (exec (pair st j []) s))(ESI := regs s ESI + 8)\<rparr>"
    using pair_exec [OF assms(1) conjunct1 [OF s] tab, of "[]" j] pair_exec [OF assms(1) conjunct1 [OF s] tab, of "[ADDL 8 ESI]" j] by simp
qed

lemma round_exec:
  assumes "stores st g" and "separate f s" and "bytes_ok s"
  shows "\<exists>s'. exec ([ADDL 8 EDI] @ pair st 0 [] @ pair st 1 [] @ pair st 2 [] @ pair st 3 [ADDL 8 ESI]) s = s'
    \<and> bytes_ok s' \<and> regs s' EBX = regs s EBX \<and> regs s' ECX = regs s ECX
    \<and> regs s' ESI = regs s ESI + 8 \<and> regs s' EDI = regs s EDI + 8
    \<and> mem s' = updated (\<lambda>x y. g x (f y)) {0..<8} (regs s EDI + 8) (regs s ESI) (mem s)"
proof -
  define s1 where "s1 = exec [ADDL 8 EDI] s"
  define s2 where "s2 = exec (pair st 0 []) s1"
  define s3 where "s3 = exec (pair st 1 []) s2"
  define s4 where "s4 = exec (pair st 2 []) s3"
  define s5 where "s5 = exec (pair st 3 []) s4"
  note round = pair_round [OF assms(1,2)]
  have "in_round g f {} s s1" using assms(3) by (simp add: in_round_def s1_def exec_def updated_def bytes_ok_def)
  from round(1) [OF this, of 0] have "in_round g f {0, 4} s s2" by (simp add: s2_def)
  from round(1) [OF this, of 1] have "in_round g f {1, 5, 0, 4} s s3" by (simp add: s3_def)
  from round(1) [OF this, of 2] have r4: "in_round g f {2, 6, 1, 5, 0, 4} s s4" by (simp add: s4_def)
  from round(1) [OF this, of 3] have r5: "in_round g f {3, 7, 2, 6, 1, 5, 0, 4} s s5" by (simp add: s5_def)
  have all: "{3, 7, 2, 6, 1, 5, 0, 4} = {0..<8 :: int}" by auto
  have "exec (pair st 3 [ADDL 8 ESI]) s4 = s5\<lparr>regs := (regs s5)(ESI := regs s4 ESI + 8)\<rparr>"
    using round(2) [OF r4, of 3] by (simp add: s5_def)
  then have "exec ([ADDL 8 EDI] @ pair st 0 [] @ pair st 1 [] @ pair st 2 [] @ pair st 3 [ADDL 8 ESI]) s = s5\<lparr>regs := (regs s5)(ESI := regs s4 ESI + 8)\<rparr>"
    unfolding exec_append s1_def [symmetric] s2_def [symmetric] s3_def [symmetric] s4_def [symmetric] .
  then show ?thesis using r4 r5 unfolding all by (auto simp: in_round_def bytes_ok_def)
qed

subsection \<open>The loop\<close>

lemma updated_step:
  assumes "i < n" and "\<forall>k \<in> {0..<8 * int n}. \<forall>l \<in> {0..<8 * int n}. a + l \<noteq> d + k"
  shows "updated g {0..<8} (d + 8 * int i) (a + 8 * int i) (updated g {0..<8 * int i} d a m) = updated g {0..<8 * int (Suc i)} d a m"
proof
  fix x
  have "updated g {0..<8 * int i} d a m (a + (x - d)) = m (a + (x - d))" if "x - d \<in> {0..<8 * int n}"
  proof -
    have "a + (x - d) - d \<notin> {0..<8 * int i}"
    proof
      assume "a + (x - d) - d \<in> {0..<8 * int i}"
      then have "a + (x - d) - d \<in> {0..<8 * int n}" using assms(1) by auto
      from bspec [OF bspec [OF assms(2) this] that] show False by simp
    qed
    then show ?thesis by (simp only: updated_def if_False)
  qed
  then show "updated g {0..<8} (d + 8 * int i) (a + 8 * int i) (updated g {0..<8 * int i} d a m) x = updated g {0..<8 * int (Suc i)} d a m x"
    using assms(1) by (auto simp: updated_def algebra_simps)
qed

lemma loop_exec:
  assumes "stores st g" and body: "body = [ADDL 8 EDI] @ pair st 0 [] @ pair st 1 [] @ pair st 2 [] @ pair st 3 [ADDL 8 ESI]"
    and "\<forall>b :: byte. m (tab + uint b) = f b" and "\<forall>k \<in> {0..<8 * int n}. \<forall>b :: byte. tab + uint b \<noteq> dst + k"
    and "\<forall>k \<in> {0..<8 * int n}. \<forall>l \<in> {0..<8 * int n}. src + l \<noteq> dst + k"
    and "i < n" and "n \<le> i + fuel"
    and "bytes_ok s" "regs s EBX = tab" "regs s ECX = src + 8 * int n" "regs s ESI = src + 8 * int i" "regs s EDI = dst + 8 * int i - 8"
      "mem s = updated (\<lambda>x y. g x (f y)) {0..<8 * int i} dst src m"
  shows "\<exists>s'. do_while_below fuel body s = Some s' \<and> mem s' = updated (\<lambda>x y. g x (f y)) {0..<8 * int n} dst src m"
  using assms(6-)
proof (induction fuel arbitrary: i s)
  case (Suc fuel)
  have tab: "mem s (tab + uint b) = f b" for b :: byte
  proof -
    have "tab + uint b - dst \<notin> {0..<8 * int i}"
    proof
      assume "tab + uint b - dst \<in> {0..<8 * int i}"
      then have "tab + uint b - dst \<in> {0..<8 * int n}" using Suc.prems(1) by auto
      from spec [OF bspec [OF assms(4) this], of b] show False by simp
    qed
    then have "mem s (tab + uint b) = m (tab + uint b)" unfolding Suc.prems(8) by (simp only: updated_def if_False)
    then show ?thesis using assms(3) by simp
  qed
  have sep: "separate f s"
    unfolding separate_def Suc.prems
  proof (intro conjI ballI allI)
    fix k :: int assume "k \<in> {0..<8}"
    then have k: "8 * int i + k \<in> {0..<8 * int n}" using Suc.prems(1) by auto
    show "tab + uint b \<noteq> dst + 8 * int i - 8 + 8 + k" for b :: byte
      using spec [OF bspec [OF assms(4) k], of b] by simp
    fix l :: int assume "l \<in> {0..<8}"
    then have l: "8 * int i + l \<in> {0..<8 * int n}" using Suc.prems(1) by auto
    show "src + 8 * int i + l \<noteq> dst + 8 * int i - 8 + 8 + k"
      using bspec [OF bspec [OF assms(5) k] l] by simp
  qed (use tab Suc.prems(8) in simp)
  obtain s' where s': "exec body s = s'" "bytes_ok s'" "regs s' EBX = tab" "regs s' ECX = src + 8 * int n"
      "regs s' ESI = src + 8 * int (Suc i)" "regs s' EDI = dst + 8 * int (Suc i) - 8"
      "mem s' = updated (\<lambda>x y. g x (f y)) {0..<8} (dst + 8 * int i) (src + 8 * int i) (mem s)"
    using round_exec [OF assms(1) sep Suc.prems(3)] unfolding body Suc.prems by (auto simp: algebra_simps)
  have mem': "mem s' = updated (\<lambda>x y. g x (f y)) {0..<8 * int (Suc i)} dst src m"
    unfolding s'(7) Suc.prems(8) by (rule updated_step [OF Suc.prems(1) assms(5)])
  show ?case
  proof (cases "Suc i = n")
    case True
    then show ?thesis using s' mem' by (simp add: Let_def)
  next
    case False
    then have "Suc i < n" "n \<le> Suc i + fuel" using Suc.prems(1,2) by auto
    from Suc.IH [OF this s'(2-6) mem'] show ?thesis using s' \<open>Suc i < n\<close> by (simp add: Let_def)
  qed
qed simp

lemma run_asm_spec:
  assumes "stores st g" and "body = [ADDL 8 EDI] @ pair st 0 [] @ pair st 1 [] @ pair st 2 [] @ pair st 3 [ADDL 8 ESI]"
    and "0 < sz" and "int sz mod 8 = 0" and "\<forall>b :: byte. mem s (tab + uint b) = f b"
    and "\<forall>k \<in> {0..<int sz}. \<forall>b :: byte. tab + uint b \<noteq> dst + k" and "\<forall>k \<in> {0..<int sz}. \<forall>l \<in> {0..<int sz}. src + l \<noteq> dst + k"
  shows "run_asm body tab dst src sz s = Some (updated (\<lambda>x y. g x (f y)) {0..<int sz} dst src (mem s))"
proof -
  obtain n where n: "int sz = 8 * int n"
  proof
    show "int sz = 8 * int (sz div 8)" using assms(4) by (simp add: zdiv_int zmod_int [symmetric]) presburger
  qed
  then have "0 < n" "n \<le> 0 + (sz + 1)" using assms(3) by auto
  define s1 where "s1 = exec [XORL EAX EAX, XORL EDX EDX] (s\<lparr>regs := (regs s)(EBX := tab, EDI := dst - 8, ESI := src, ECX := int sz + src)\<rparr>)"
  have s1: "bytes_ok s1" "regs s1 EBX = tab" "regs s1 ECX = src + 8 * int n" "regs s1 ESI = src + 8 * int 0" "regs s1 EDI = dst + 8 * int 0 - 8"
      "mem s1 = updated (\<lambda>x y. g x (f y)) {0..<8 * int 0} dst src (mem s)"
    by (simp_all add: s1_def exec_def bytes_ok_def updated_def n [symmetric])
  obtain s' where "do_while_below (sz + 1) body s1 = Some s'" "mem s' = updated (\<lambda>x y. g x (f y)) {0..<8 * int n} dst src (mem s)"
    using loop_exec [OF assms(1,2) assms(5) assms(6,7) [unfolded n] \<open>0 < n\<close> \<open>n \<le> 0 + (sz + 1)\<close> s1] by blast
  then show ?thesis unfolding run_asm_def s1_def [symmetric] by (simp del: do_while_below.simps add: n)
qed

lemma updated_store:
  assumes "length bs = sz" and "\<forall>k < sz. bs ! k = g (m (dst + int k)) (m (src + int k))"
  shows "updated g {0..<int sz} dst src m = store dst bs m"
proof
  fix x
  show "updated g {0..<int sz} dst src m x = store dst bs m x"
  proof (cases "x - dst \<in> {0..<int sz}")
    case True
    then obtain k where "x - dst = int k" "k < sz" by (metis atLeastLessThan_iff nonneg_int_cases of_nat_less_iff)
    then have "x = dst + int k" by simp
    then show ?thesis using True assms \<open>k < sz\<close> by (simp add: updated_def store_def)
  next
    case False
    then show ?thesis by (auto simp: updated_def store_def assms(1))
  qed
qed

lemma region_simps [simp]: "length (region m a n) = n" "k < n \<Longrightarrow> region m a n ! k = m (a + int k)"
  by (simp_all add: region_def)

subsection \<open>Properties\<close>

definition asm_layout :: "gf_tables \<Rightarrow> byte \<Rightarrow> int \<Rightarrow> int \<Rightarrow> int \<Rightarrow> nat \<Rightarrow> (int \<Rightarrow> byte) \<Rightarrow> bool" where
  \<comment> \<open>the row of the multiplication table is at \<open>tab\<close>; the destination overlaps neither it nor the source\<close>
  "asm_layout T c tab dst src sz m \<longleftrightarrow> (\<forall>b :: byte. m (tab + uint b) = gf_mul T c b)
     \<and> (\<forall>k \<in> {0..<int sz}. (\<forall>b :: byte. tab + uint b \<noteq> dst + k) \<and> (\<forall>l \<in> {0..<int sz}. src + l \<noteq> dst + k))"

text \<open>
  C29.  The assembler versions of the vector loops compute the same as the C versions, on any positive number of
  bytes and any alignment, and write nothing outside the destination.
\<close>

theorem assembler_equals_C:
  assumes "asm_layout T c tab dst src sz (mem s)" and "0 < sz"
  shows "addmul1_asm T tab dst src c sz s
      = Some (store dst (slow_addmul1 T (region (mem s) dst sz) (region (mem s) src sz) c sz) (mem s))
    \<and> mul1_asm T tab dst src c sz s
      = Some (store dst (slow_mul1 T (region (mem s) dst sz) (region (mem s) src sz) c sz) (mem s))"
proof (cases "int sz mod 8 = 0")
  case True
  have l: "\<forall>b :: byte. mem s (tab + uint b) = gf_mul T c b" "\<forall>k \<in> {0..<int sz}. \<forall>b :: byte. tab + uint b \<noteq> dst + k"
    "\<forall>k \<in> {0..<int sz}. \<forall>l \<in> {0..<int sz}. src + l \<noteq> dst + k"
    using assms(1) by (auto simp: asm_layout_def)
  note run = run_asm_spec [OF _ _ assms(2) True l]
  have "run_asm addmul_body tab dst src sz s
      = Some (store dst (slow_addmul1 T (region (mem s) dst sz) (region (mem s) src sz) c sz) (mem s))"
    unfolding run [OF stores_ops(1) bodies(1)]
    using slow_addmul1_nth [of sz "region (mem s) dst sz" T "region (mem s) src sz" c] by (intro arg_cong [where f = Some] updated_store) simp_all
  moreover have "run_asm mul_body tab dst src sz s
      = Some (store dst (slow_mul1 T (region (mem s) dst sz) (region (mem s) src sz) c sz) (mem s))"
    unfolding run [OF stores_ops(2) bodies(2)]
    using slow_mul1_nth [of sz "region (mem s) dst sz" T "region (mem s) src sz" c] by (intro arg_cong [where f = Some] updated_store) simp_all
  ultimately show ?thesis by (simp add: addmul1_asm_def mul1_asm_def)
qed (simp add: addmul1_asm_def mul1_asm_def LOOPSIZE_def)

definition sample_machine :: machine where
  \<comment> \<open>the table row for the factor 3 at address 0, another value elsewhere\<close>
  "sample_machine = \<lparr>regs = (\<lambda>_. 7), mem = (\<lambda>x. if 0 \<le> x \<and> x < 256 then gf_mul (fec_init static_tables) 3 (word_of_int x) else 9)\<rparr>"

theorem assembler_equals_C_witness:
  "\<exists>m. addmul1_asm (fec_init static_tables) 0 1000 2000 3 16 sample_machine = Some m
     \<and> m 1005 = 9 XOR gf_mul (fec_init static_tables) 3 9 \<and> m 1016 = 9"
proof -
  have "asm_layout (fec_init static_tables) 3 0 1000 2000 16 (mem sample_machine)"
  proof -
    have "uint b \<noteq> 1000 + k" if "0 \<le> k" for k and b :: byte using uint_byte [of b] that by linarith
    then show ?thesis by (auto simp: asm_layout_def sample_machine_def)
  qed
  note e = conjunct1 [OF assembler_equals_C [OF this]]
  show ?thesis
    unfolding e [simplified] using slow_addmul1_nth [of 16 "region (mem sample_machine) 1000 16" "fec_init static_tables" "region (mem sample_machine) 2000 16" 3]
    by (simp add: store_def sample_machine_def)
qed

end
