(* ===== verification/Ipe.thy ===== *)
theory Ipe
  imports Options
begin

text \<open>
  The example of a loaded governor, \<^verbatim>\<open>src/examples/rateGovernor/ipe.c\<close>: it follows the
  traffic control packets of an IP encapsulator, which tell for each route how full its buffer
  is, and makes the sender wait while the buffer of its destination is too full.  A thread
  receives the packets into the one of two slots that is not in use, then switches the slots; a
  pointer to a route is the number of the slot with the number of the route.  A slot is the
  memory of a \<^verbatim>\<open>struct ipe_packet\<close>, a list of bytes, because a datagram overwrites as many bytes
  of it as it has.
\<close>

subsection \<open>Traffic control packets\<close>

definition MAX_ROUTES :: nat where "MAX_ROUTES = 4096"

definition PACKET_SIZE :: nat where "PACKET_SIZE = 65544"

type_synonym ipe_packet = "byte list"

definition word_at :: "byte list \<Rightarrow> nat \<Rightarrow> u32" where
  "word_at mem p = addr_of_bytes (drop p mem)"

definition put_word :: "byte list \<Rightarrow> nat \<Rightarrow> u32 \<Rightarrow> byte list" where
  "put_word mem p w = take p mem @ addr_bytes w @ drop (p + 4) mem"

definition total_routes :: "ipe_packet \<Rightarrow> u32" where "total_routes p = word_at p 0"

definition route :: "nat \<Rightarrow> nat" where
  \<comment> \<open>where the record of a route starts\<close>
  "route i = 8 + 16 * i"

definition ip_address :: "ipe_packet \<Rightarrow> nat \<Rightarrow> u32" where "ip_address p i = word_at p (route i)"

definition ip_mask :: "ipe_packet \<Rightarrow> nat \<Rightarrow> u32" where "ip_mask p i = word_at p (route i + 4)"

definition buffer_length :: "ipe_packet \<Rightarrow> nat \<Rightarrow> u32" where "buffer_length p i = word_at p (route i + 8)"

definition buffer_level :: "ipe_packet \<Rightarrow> nat \<Rightarrow> u32" where "buffer_level p i = word_at p (route i + 12)"

definition routeMatches :: "ipe_packet \<Rightarrow> nat \<Rightarrow> u32 \<Rightarrow> bool" where
  "routeMatches p i ip \<longleftrightarrow> ip_address p i AND ip_mask p i = ip AND ip_mask p i"

fun find_from :: "ipe_packet \<Rightarrow> u32 \<Rightarrow> nat \<Rightarrow> nat \<Rightarrow> nat option outcome" where
  \<comment> \<open>the loop of \<open>findRouteInPacket\<close> from route \<open>i\<close>, with the number of routes left in the array\<close>
  "find_from p ip i 0 = (if int i < sint (total_routes p) then Undefined else Done None)"
| "find_from p ip i (Suc n) =
     (if int i < sint (total_routes p) then if routeMatches p i ip then Done (Some i) else find_from p ip (i + 1) n
      else Done None)"

definition findRouteInPacket :: "ipe_packet \<Rightarrow> u32 \<Rightarrow> nat option outcome" where
  "findRouteInPacket p ip = find_from p ip 0 MAX_ROUTES"

subsection \<open>The state of the governor\<close>

record ipe =
  recv_addr :: sockaddr_in \<comment> \<open>\<open>recv\<close>\<close>
  interface :: "string option"
  fd :: int
  maxFillLevel :: int
  havePacket :: bool
  thread :: bool \<comment> \<open>whether it has been created\<close>
  packet :: "ipe_packet list"
  activePacket :: nat
  lastMatchedRoute :: "(nat \<times> nat) option"
  havePort :: bool
  haveIp :: bool

definition findRoute :: "ipe \<Rightarrow> u32 \<Rightarrow> (ipe \<times> (nat \<times> nat) option) outcome" where
  "findRoute me ip =
     (if case lastMatchedRoute me of None \<Rightarrow> False | Some (slot, i) \<Rightarrow> routeMatches (packet me ! slot) i ip
      then Done (me, lastMatchedRoute me)
      else and_then (findRouteInPacket (packet me ! activePacket me) ip) (\<lambda>r.
        let r = map_option (Pair (activePacket me)) r in Done (me\<lparr>lastMatchedRoute := r\<rparr>, r)))"

definition run :: "byte list option \<Rightarrow> ipe \<Rightarrow> ipe \<times> bool" where
  \<comment> \<open>a round of the thread for a datagram \<open>dg\<close> (\<open>None\<close>: \<^verbatim>\<open>recv\<close> fails), and whether it signals the condition\<close>
  "run dg me =
     (case dg of None \<Rightarrow> (me, False)
      | Some bs \<Rightarrow>
          let slot = 1 - activePacket me;
              n = min (length bs) PACKET_SIZE;
              me = me\<lparr>packet := (packet me)[slot := take n bs @ drop n (packet me ! slot)]\<rparr>
          in if n < 8 then (me, False)
             else if of_nat n < ntohl (total_routes (packet me ! slot)) * 16 then (me, False)
             else (me\<lparr>activePacket := slot, havePacket := True, lastMatchedRoute := None\<rparr>, True))"

definition ipe_initialize :: ipe where
  "ipe_initialize =
     \<lparr>recv_addr = \<lparr>sin_family = 0, sin_port = 0, sin_addr = 0\<rparr>, interface = None, fd = 0, maxFillLevel = 80,
      havePacket = False, thread = False, packet = [replicate PACKET_SIZE 0, replicate PACKET_SIZE 0], activePacket = 0,
      lastMatchedRoute = None, havePort = False, haveIp = False\<rparr>"

definition ipe_setProp :: "(string \<Rightarrow> u32 option) \<Rightarrow> ipe \<Rightarrow> string \<Rightarrow> string option \<Rightarrow> ipe outcome" where
  \<comment> \<open>a key without a value is a null pointer, which only the message for an unknown key survives\<close>
  "ipe_setProp aton me key value =
     (if key \<in> {''ip'', ''port'', ''if'', ''maxFillLevel''} then
        and_then (or_abort value) (\<lambda>value.
          if key = ''ip'' then
            Done (case aton value of None \<Rightarrow> me
                  | Some a \<Rightarrow> me\<lparr>recv_addr := (recv_addr me)\<lparr>sin_addr := a\<rparr>, haveIp := True\<rparr>)
          else if key = ''port'' then
            let (port, eptr) = strtoul0_end value;
                me = me\<lparr>recv_addr := (recv_addr me)\<lparr>sin_port := htons (of_nat port)\<rparr>\<rparr>
            in Done (if eptr \<noteq> [] then me else me\<lparr>havePort := True\<rparr>)
          else if key = ''if'' then Done (me\<lparr>interface := Some value\<rparr>)
          else Done (me\<lparr>maxFillLevel := to_int (strtoul0 value)\<rparr>))
      else Done me)"

definition ipe_endConfig :: "int \<Rightarrow> bool \<Rightarrow> ipe \<Rightarrow> ipe" where
  \<comment> \<open>\<open>sock\<close> is what \<^verbatim>\<open>socket\<close> returns, \<open>bound\<close> whether \<^verbatim>\<open>bind\<close> succeeds; the comparison of the function
     \<open>socket\<close> with 0 is never true, and a failure to join the multicast group is only reported\<close>
  "ipe_endConfig sock bound me =
     (if \<not> havePort me then me
      else if \<not> haveIp me then me
      else
        let me = me\<lparr>recv_addr := (recv_addr me)\<lparr>sin_family := AF_INET\<rparr>\<rparr>
        in if \<not> bound then me else me\<lparr>fd := sock, thread := True\<rparr>)"

subsection \<open>Waiting\<close>

definition int_ok :: "int \<Rightarrow> bool" where
  \<comment> \<open>no overflow\<close>
  "int_ok x \<longleftrightarrow> - (2 ^ 31) \<le> x \<and> x < 2 ^ 31"

definition ipe_level :: "ipe \<Rightarrow> nat \<times> nat \<Rightarrow> int" where
  "ipe_level me r = sint (ntohl (buffer_level (packet me ! fst r) (snd r)))"

definition ipe_length :: "ipe \<Rightarrow> nat \<times> nat \<Rightarrow> int" where
  "ipe_length me r = sint (ntohl (buffer_length (packet me ! fst r) (snd r)))"

definition space_left :: "ipe \<Rightarrow> nat \<times> nat \<Rightarrow> int outcome" where
  "space_left me r =
     (let full = ipe_length me r * maxFillLevel me;
          left = full sdiv 100 - ipe_level me r
      in and_then (in_bounds (int_ok full \<and> int_ok left)) (\<lambda>_. Done left))"

definition account :: "int \<Rightarrow> nat \<times> nat \<Rightarrow> ipe \<Rightarrow> ipe" where
  "account sz r me =
     me\<lparr>packet := (packet me)[fst r := put_word (packet me ! fst r) (route (snd r) + 12)
       (htonl (word_of_int (ipe_level me r + sz)))]\<rparr>"

definition ipe_try :: "u32 \<Rightarrow> int \<Rightarrow> ipe \<Rightarrow> (ipe \<times> bool) outcome" where
  \<comment> \<open>a round of the loop, and whether it is left\<close>
  "ipe_try ip sz me =
     (if \<not> havePacket me then Done (me, False)
      else and_then (findRoute me ip) (\<lambda>(me, r).
        case r of None \<Rightarrow> Done (me, True)
        | Some r \<Rightarrow> and_then (space_left me r) (\<lambda>left.
            if sz < left then Done (account sz r me, True) else Done (me, False))))"

fun wait_signal :: "byte list option list \<Rightarrow> ipe \<Rightarrow> (ipe \<times> byte list option list) outcome" where
  \<comment> \<open>\<^verbatim>\<open>pthread_cond_wait\<close>, with what the thread receives, up to the signal\<close>
  "wait_signal [] me = Blocks"
| "wait_signal (d # ds) me = (let (me, signal) = run d me in if signal then Done (me, ds) else wait_signal ds me)"

lemma wait_signal_shorter [termination_simp]: "wait_signal ds me = Done (me', ds') \<Longrightarrow> length ds' < length ds"
  by (induction ds arbitrary: me) (auto simp: split_def Let_def less_SucI split: if_splits)

function ipe_loop :: "u32 \<Rightarrow> int \<Rightarrow> byte list option list \<Rightarrow> ipe \<Rightarrow> ipe outcome" where
  "ipe_loop ip sz ds me =
     (case ipe_try ip sz me of
        Done (me, True) \<Rightarrow> Done me
      | Done (me, False) \<Rightarrow>
          (case wait_signal ds me of Done (me, ds) \<Rightarrow> ipe_loop ip sz ds me | Blocks \<Rightarrow> Blocks | Aborts \<Rightarrow> Aborts | Undefined \<Rightarrow> Undefined)
      | Blocks \<Rightarrow> Blocks | Aborts \<Rightarrow> Aborts | Undefined \<Rightarrow> Undefined)"
  by pat_completeness auto

termination
  by (relation "measure (\<lambda>(ip, sz, ds, me). length ds)") (auto dest: wait_signal_shorter)

declare ipe_loop.simps [simp del]

definition ipe_wait :: "byte list option list \<Rightarrow> ipe \<Rightarrow> u32 \<Rightarrow> int \<Rightarrow> ipe outcome" where
  \<comment> \<open>\<open>ds\<close>: what the thread receives meanwhile\<close>
  "ipe_wait ds me ip sz = ipe_loop ip sz ds me"

definition ipe_shutdown :: "ipe \<Rightarrow> int outcome" where
  \<comment> \<open>the descriptor closed; to cancel a thread that was not created is undefined\<close>
  "ipe_shutdown me = and_then (in_bounds (thread me)) (\<lambda>_. Done (fd me))"

definition governor :: "(string \<Rightarrow> u32 option) \<Rightarrow> int \<Rightarrow> bool \<Rightarrow> byte list option list \<Rightarrow> ipe rateGovernor" where
  "governor aton sock bound ds =
     \<lparr>rgInitialize = Some ipe_initialize, rgSetProp = Some (ipe_setProp aton), rgEndConfig = Some (ipe_endConfig sock bound),
      rgWait = (\<lambda>me _ ip sz. ipe_wait ds me ip sz), rgShutdown = True\<rparr>"

subsection \<open>The invariant\<close>

definition ipe_ok :: "ipe \<Rightarrow> bool" where
  \<comment> \<open>a remembered route is one of the active packet\<close>
  "ipe_ok me \<longleftrightarrow> length (packet me) = 2 \<and> (\<forall>slot < 2. length (packet me ! slot) = PACKET_SIZE) \<and> activePacket me < 2
     \<and> (case lastMatchedRoute me of None \<Rightarrow> True
        | Some (slot, i) \<Rightarrow> slot = activePacket me \<and> i < MAX_ROUTES \<and> int i < sint (total_routes (packet me ! slot)))"

lemma word_at_put [simp]: "p + 4 \<le> length mem \<Longrightarrow> word_at (put_word mem p w) p = w"
  by (simp add: word_at_def put_word_def)

lemma length_put_word [simp]: "p + 4 \<le> length mem \<Longrightarrow> length (put_word mem p w) = length mem"
  by (simp add: put_word_def addr_bytes_def)

lemma word_at_put_other:
  assumes "p + 4 \<le> length mem" and "off + 4 \<le> length mem" and "off + 4 \<le> p \<or> p + 4 \<le> off"
  shows "word_at (put_word mem p w) off = word_at mem off"
proof -
  have "put_word mem p w ! (off + j) = mem ! (off + j)" if "j < 4" for j
    using assms that by (auto simp: put_word_def nth_append addr_bytes_def)
  from this [of 0] this [of 1] this [of 2] this [of 3] show ?thesis using assms(1,2) by (simp add: word_at_def addr_of_bytes_def)
qed

lemma word_at_append: "p + 4 \<le> length a \<Longrightarrow> word_at (a @ b) p = word_at a p"
  by (simp add: word_at_def addr_of_bytes_def nth_append)

lemma word_at_zero: "p + 4 \<le> n \<Longrightarrow> word_at (replicate n 0) p = 0"
  by (simp add: word_at_def addr_of_bytes_def)

lemma route_bounds: "i < MAX_ROUTES \<Longrightarrow> route i + 16 \<le> PACKET_SIZE \<and> 8 \<le> route i"
  by (simp add: route_def MAX_ROUTES_def PACKET_SIZE_def)

lemma find_from_find:
  "find_from p ip i n =
     (case List.find (\<lambda>k. routeMatches p k ip) [i..<min (i + n) (nat (sint (total_routes p)))] of
        Some j \<Rightarrow> Done (Some j)
      | None \<Rightarrow> if int (i + n) < sint (total_routes p) then Undefined else Done None)"
proof (induction n arbitrary: i)
  case (Suc n)
  show ?case
  proof (cases "int i < sint (total_routes p)")
    case True
    then have "[i..<min (i + Suc n) (nat (sint (total_routes p)))] = i # [i + 1..<min (i + 1 + n) (nat (sint (total_routes p)))]"
      by (simp add: upt_conv_Cons)
    then show ?thesis using True Suc [of "i + 1"] by simp
  next
    case False
    then show ?thesis by simp
  qed
qed simp

lemma findRouteInPacket_Done:
  assumes "findRouteInPacket p ip = Done r"
  shows "case r of
      None \<Rightarrow> \<forall>i. int i < sint (total_routes p) \<longrightarrow> \<not> routeMatches p i ip
    | Some j \<Rightarrow> j < MAX_ROUTES \<and> int j < sint (total_routes p) \<and> routeMatches p j ip \<and> (\<forall>i<j. \<not> routeMatches p i ip)"
proof (cases "List.find (\<lambda>k. routeMatches p k ip) [0..<min MAX_ROUTES (nat (sint (total_routes p)))]")
  case None
  then have r: "r = None" "\<not> int MAX_ROUTES < sint (total_routes p)"
    using assms by (auto simp: findRouteInPacket_def find_from_find split: if_splits)
  show ?thesis unfolding r(1) using None r(2) by (auto simp: find_None_iff)
next
  case (Some j)
  then have r: "r = Some j" using assms by (simp add: findRouteInPacket_def find_from_find)
  show ?thesis unfolding r using Some by (auto simp: find_Some_iff)
qed

lemma run_ok: "ipe_ok me \<Longrightarrow> ipe_ok (fst (run dg me))"
proof -
  assume ok: "ipe_ok me"
  then have "activePacket me < 2" by (simp add: ipe_ok_def)
  then have "activePacket me \<noteq> Suc 0 - activePacket me" by arith
  with ok have "ipe_ok (me\<lparr>packet := (packet me)[1 - activePacket me := take n bs @ drop n (packet me ! (1 - activePacket me))]\<rparr>)"
    if "n = min (length bs) PACKET_SIZE" for n bs
    using ok that by (auto simp: ipe_ok_def nth_list_update split: option.splits prod.splits)
  from this [OF refl] show ?thesis using ok by (auto simp: run_def Let_def ipe_ok_def split: option.splits)
qed

lemma account_ok:
  assumes "ipe_ok me" and "lastMatchedRoute me = Some r"
  shows "ipe_ok (account sz r me)" "ipe_level (account sz r me) r = sint (word_of_int (ipe_level me r + sz) :: u32)"
    "ipe_length (account sz r me) r = ipe_length me r"
    "routeMatches (packet (account sz r me) ! fst r) (snd r) ip \<longleftrightarrow> routeMatches (packet me ! fst r) (snd r) ip"
proof -
  obtain slot i where r: "r = (slot, i)" by force
  have l: "slot < length (packet me)" "slot = activePacket me" "i < MAX_ROUTES" "length (packet me ! slot) = PACKET_SIZE"
    using assms by (auto simp: ipe_ok_def r)
  note b = route_bounds [OF l(3)] l
  show "ipe_ok (account sz r me)"
    using assms b by (auto simp: ipe_ok_def account_def r total_routes_def nth_list_update word_at_put_other)
  show "ipe_level (account sz r me) r = sint (word_of_int (ipe_level me r + sz) :: u32)"
    "ipe_length (account sz r me) r = ipe_length me r"
    "routeMatches (packet (account sz r me) ! fst r) (snd r) ip \<longleftrightarrow> routeMatches (packet me ! fst r) (snd r) ip"
    using b by (simp_all add: ipe_level_def ipe_length_def account_def r buffer_level_def buffer_length_def
        routeMatches_def ip_address_def ip_mask_def word_at_put_other)
qed

lemma findRoute_ok:
  assumes "ipe_ok me" and "findRoute me ip = Done (me', r)"
  shows "ipe_ok me' \<and> lastMatchedRoute me' = r \<and> me' = me\<lparr>lastMatchedRoute := r\<rparr>
    \<and> (case r of None \<Rightarrow> findRouteInPacket (packet me ! activePacket me) ip = Done None
       | Some r \<Rightarrow> routeMatches (packet me ! fst r) (snd r) ip)"
proof (cases "case lastMatchedRoute me of None \<Rightarrow> False | Some (slot, i) \<Rightarrow> routeMatches (packet me ! slot) i ip")
  case True
  then show ?thesis using assms by (auto simp: findRoute_def split: option.splits)
next
  case False
  then obtain j where "findRouteInPacket (packet me ! activePacket me) ip = Done j" "r = map_option (Pair (activePacket me)) j"
      "me' = me\<lparr>lastMatchedRoute := r\<rparr>"
    using assms(2) unfolding findRoute_def by (auto simp: and_then_Done Let_def simp del: not_None_eq split: option.splits)
  then show ?thesis using assms(1) findRouteInPacket_Done [of "packet me ! activePacket me" ip j]
    by (cases j) (auto simp: ipe_ok_def)
qed

lemma ipe_try_ok:
  assumes "ipe_ok me" and "ipe_try ip sz me = Done (me', b)"
  shows "ipe_ok me'" and "\<not> b \<Longrightarrow> \<exists>r. me' = me\<lparr>lastMatchedRoute := r\<rparr>"
proof -
  have "ipe_ok me' \<and> (\<not> b \<longrightarrow> (\<exists>r. me' = me\<lparr>lastMatchedRoute := r\<rparr>))"
  proof (cases "havePacket me")
    case False
    then have "me' = me" using assms(2) by (simp add: ipe_try_def)
    moreover have "me = me\<lparr>lastMatchedRoute := lastMatchedRoute me\<rparr>" by simp
    ultimately show ?thesis using assms(1) by blast
  next
    case True
    then obtain me1 r where f: "findRoute me ip = Done (me1, r)" using assms(2) by (auto simp: ipe_try_def and_then_Done)
    note ok = findRoute_ok [OF assms(1) f]
    show ?thesis
    proof (cases r)
      case None
      then show ?thesis using ok assms(2) f True by (auto simp: ipe_try_def)
    next
      case (Some x)
      then show ?thesis using ok assms(2) f True account_ok(1) [of me1 x sz]
        by (auto simp: ipe_try_def and_then_Done split: if_splits)
    qed
  qed
  then show "ipe_ok me'" "\<not> b \<Longrightarrow> \<exists>r. me' = me\<lparr>lastMatchedRoute := r\<rparr>" by auto
qed

lemma wait_signal_received:
  "wait_signal ds me = Done (me', ds') \<Longrightarrow> ipe_ok me \<Longrightarrow>
   ipe_ok me' \<and> (\<exists>n. ds' = drop n ds \<and> me' = fold (\<lambda>d me. fst (run d me)) (take n ds) me)"
proof (induction ds arbitrary: me)
  case (Cons d ds)
  show ?case
  proof (cases "snd (run d me)")
    case True
    then have "ds' = drop 1 (d # ds)" "me' = fold (\<lambda>d me. fst (run d me)) (take 1 (d # ds)) me"
      using Cons.prems(1) by (auto simp: split_def Let_def)
    moreover have "ipe_ok me'" using True Cons.prems(1) run_ok [OF Cons.prems(2), of d] by (simp add: split_def Let_def)
    ultimately show ?thesis by blast
  next
    case False
    then have "wait_signal ds (fst (run d me)) = Done (me', ds')" using Cons.prems(1) by (simp add: split_def Let_def)
    then obtain n where "ipe_ok me'" "ds' = drop (Suc n) (d # ds)" "me' = fold (\<lambda>d me. fst (run d me)) (take (Suc n) (d # ds)) me"
      using Cons.IH [OF _ run_ok [OF Cons.prems(2)]] by auto
    then show ?thesis by blast
  qed
qed simp

abbreviation received :: "byte list option list \<Rightarrow> ipe \<Rightarrow> ipe" where
  "received ds me \<equiv> fold (\<lambda>d me. fst (run d me)) ds me"

definition forget :: "ipe \<Rightarrow> ipe" where
  "forget me = me\<lparr>lastMatchedRoute := None\<rparr>"

lemma forget_run1: "forget (fst (run d me)) = forget (fst (run d (forget me)))"
  by (cases d) (simp_all add: forget_def run_def Let_def)

lemma forget_run: "forget me = forget me' \<Longrightarrow> forget (fst (run d me)) = forget (fst (run d me'))"
  by (metis forget_run1)

lemma forget_runs:
  "forget me = forget me' \<Longrightarrow> forget (received ds me) = forget (received ds me')"
proof (induction ds arbitrary: me me')
  case (Cons d ds)
  from Cons.IH [OF forget_run [OF Cons.prems]] show ?case by simp
qed simp

lemma ipe_loop_last:
  assumes "ipe_loop ip sz ds me = Done me'" and "ipe_ok me"
  shows "\<exists>n m. forget m = forget (received (take n ds) me) \<and> ipe_ok m \<and> ipe_try ip sz m = Done (me', True)"
  using assms
proof (induction ip sz ds me rule: ipe_loop.induct)
  case (1 ip sz ds me)
  show ?case
  proof (cases "ipe_try ip sz me")
    case (Done x)
    then obtain m b where t: "ipe_try ip sz me = Done (m, b)" by (cases x) simp
    show ?thesis
    proof (cases b)
      case True
      then have "forget me = forget (received (take 0 ds) me) \<and> ipe_ok me \<and> ipe_try ip sz me = Done (me', True)"
        using 1(2,3) t by (simp add: ipe_loop.simps [of ip sz ds me])
      then show ?thesis by blast
    next
      case False
      obtain y where w: "wait_signal ds m = Done y"
        using 1(2) t False by (cases "wait_signal ds m") (simp_all add: ipe_loop.simps [of ip sz ds me])
      obtain m2 ds2 where y: "y = (m2, ds2)" by force
      have l: "ipe_loop ip sz ds2 m2 = Done me'" using 1(2) t False w y by (simp add: ipe_loop.simps [of ip sz ds me])
      note ok = ipe_try_ok [OF 1(3) t]
      obtain k where k: "ipe_ok m2" "ds2 = drop k ds" "m2 = fold (\<lambda>d me. fst (run d me)) (take k ds) m"
        using wait_signal_received [OF w [unfolded y] ok(1)] by blast
      have "forget m = forget me" using ok(2) False by (auto simp: forget_def)
      from forget_runs [OF this] have f: "forget m2 = forget (received (take k ds) me)" by (simp add: k(3))
      obtain n m3 where n: "forget m3 = forget (received (take n ds2) m2)" "ipe_ok m3" "ipe_try ip sz m3 = Done (me', True)"
        using 1(1) [OF t refl _ w [unfolded y] refl l k(1)] False by auto
      have "take (k + n) ds = take k ds @ take n ds2" by (simp add: k(2) take_add)
      then have "forget m3 = forget (received (take (k + n) ds) me)" using n(1) forget_runs [OF f] by simp
      then show ?thesis using n(2,3) by blast
    qed
  qed (use 1(2) in \<open>simp_all add: ipe_loop.simps [of ip sz ds me]\<close>)
qed

lemma account_word:
  assumes "sz < left" and "space_left me r = Done left" and "0 \<le> sz"
  shows "sint (word_of_int (ipe_level me r + sz) :: u32) = ipe_level me r + sz
    \<and> ipe_level me r + sz < ipe_length me r * maxFillLevel me sdiv 100"
proof -
  define full where "full = ipe_length me r * maxFillLevel me"
  have l: "left = full sdiv 100 - ipe_level me r" "int_ok full"
    using assms(2) by (auto simp: space_left_def full_def Let_def and_then_Done in_bounds_Done)
  have lt: "ipe_level me r + sz < full sdiv 100" using assms(1) l(1) by simp
  have "y div 100 \<le> y" if "0 \<le> y" for y :: int using that by linarith
  from this [of "\<bar>full\<bar>"] have "\<bar>full sdiv 100\<bar> \<le> \<bar>full\<bar>" by (auto simp: signed_divide_int_def abs_mult abs_sgn_eq)
  then have "ipe_level me r + sz < 2 ^ 31" using lt l(2) by (auto simp: int_ok_def)
  moreover have "- (2 ^ 31) \<le> ipe_level me r" unfolding ipe_level_def using sint_ge [of "ntohl (buffer_level (packet me ! fst r) (snd r))"] by simp
  ultimately have "signed_take_bit 31 (ipe_level me r + sz) = ipe_level me r + sz"
    using assms(3) by (intro signed_take_bit_int_eq_self) simp_all
  then show ?thesis using lt unfolding full_def sint_sbintrunc' by simp
qed

lemma ipe_try_accounts:
  assumes "ipe_ok me" and "ipe_try ip sz me = Done (me', True)" and "0 \<le> sz"
  shows "havePacket me' \<and>
    (case lastMatchedRoute me' of
       None \<Rightarrow> me' = me\<lparr>lastMatchedRoute := None\<rparr> \<and> findRouteInPacket (packet me ! activePacket me) ip = Done None
     | Some r \<Rightarrow> me' = account sz r (me\<lparr>lastMatchedRoute := Some r\<rparr>) \<and> routeMatches (packet me' ! fst r) (snd r) ip
         \<and> ipe_level me' r = ipe_level me r + sz \<and> ipe_level me' r < ipe_length me' r * maxFillLevel me' sdiv 100)"
proof -
  have p: "havePacket me" using assms(2) by (auto simp: ipe_try_def split: if_splits)
  then obtain me1 r where f: "findRoute me ip = Done (me1, r)" using assms(2) by (auto simp: ipe_try_def and_then_Done)
  note ok = findRoute_ok [OF assms(1) f]
  show ?thesis
  proof (cases r)
    case None
    then show ?thesis using ok assms(2) f p by (auto simp: ipe_try_def)
  next
    case (Some x)
    then obtain left where left: "space_left me1 x = Done left" "sz < left" "me' = account sz x me1"
      using assms(2) f p by (auto simp: ipe_try_def and_then_Done split: if_splits)
    have me1: "ipe_ok me1" "lastMatchedRoute me1 = Some x" "me1 = me\<lparr>lastMatchedRoute := Some x\<rparr>" using ok Some by auto
    have last: "lastMatchedRoute me' = Some x" "maxFillLevel me' = maxFillLevel me1" "havePacket me'"
      using left(3) me1 p by (simp_all add: account_def)
    have "ipe_level me1 x = ipe_level me x" "ipe_length me1 x = ipe_length me x" by (simp_all add: me1(3) ipe_level_def ipe_length_def)
    then show ?thesis
      using account_word [OF left(2,1) assms(3)] account_ok(2-) [OF me1(1,2)] ok Some last left(3) me1(3) by simp
  qed
qed

subsection \<open>Samples\<close>

definition sample_packet :: "u32 \<Rightarrow> u32 \<Rightarrow> byte list" where
  \<comment> \<open>one route for the network 10.0.0.0/8 with a buffer of 1000 bytes, filled to \<open>level\<close>\<close>
  "sample_packet n lev = addr_bytes n @ addr_bytes 0 @ addr_bytes 10 @ addr_bytes 0xff @ addr_bytes (htonl 1000) @ addr_bytes (htonl lev)"

definition two_routes :: ipe_packet where
  \<comment> \<open>10.0.0.0/8, then everything\<close>
  "two_routes = addr_bytes (htonl 2) @ addr_bytes 0 @ addr_bytes 10 @ addr_bytes 0xff @ replicate 24 0"

lemma two_routes_words:
  "sint (total_routes two_routes) = 33554432" "ip_address two_routes 0 = 10" "ip_mask two_routes 0 = 0xff"
  "ip_address two_routes 1 = 0" "ip_mask two_routes 1 = 0"
  by code_simp+

lemma two_routes_match: "routeMatches two_routes 0 10" "\<not> routeMatches two_routes 0 11" "routeMatches two_routes (Suc 0) ip"
  using two_routes_words by (simp_all add: routeMatches_def)

lemma cache_hides_route:
  "findRouteInPacket two_routes 10 = Done (Some 0)
   \<and> (\<exists>me. findRoute (ipe_initialize\<lparr>packet := [two_routes, two_routes]\<rparr>) 11 = Done (me, Some (0, 1)) \<and> findRoute me 10 = Done (me, Some (0, 1)))"
proof -
  obtain n where m: "MAX_ROUTES = Suc (Suc n)" by (rule that [of 4094]) (simp add: MAX_ROUTES_def)
  have "findRouteInPacket two_routes 10 = Done (Some 0)" "findRouteInPacket two_routes 11 = Done (Some 1)"
    unfolding findRouteInPacket_def m by (simp_all add: two_routes_words(1) two_routes_match)
  then show ?thesis by (simp add: findRoute_def ipe_initialize_def two_routes_match Let_def)
qed

subsection \<open>A single route\<close>

lemma sint_htonl_small:
  assumes "k < 128"
  shows "sint (htonl (of_nat k)) = int k * 2 ^ 24"
proof -
  have small: "n < 8" if "bit (of_nat k :: u32) n" for n
  proof (rule ccontr)
    assume "\<not> n < 8"
    then have "k div 2 ^ n = 0" using assms power_increasing [of 8 n "2 :: nat"] by simp
    then have "\<not> bit k n" by (simp add: bit_iff_odd)
    then show False using that by (simp add: bit_of_nat_iff)
  qed
  have "htonl (of_nat k) = push_bit 24 (of_nat k :: u32)"
    by (rule bit_word_eqI) (auto simp: bit_htonl bit_push_bit_iff dest: small)
  also have "\<dots> = word_of_int (int k * 2 ^ 24)" by (simp add: push_bit_eq_mult)
  finally have h: "htonl (of_nat k) = word_of_int (int k * 2 ^ 24)" .
  have "signed_take_bit 31 (int k * 2 ^ 24) = int k * 2 ^ 24"
    using assms by (intro signed_take_bit_int_eq_self) simp_all
  then show ?thesis unfolding h sint_sbintrunc' by simp
qed

lemma find_zero_route:
  assumes "\<forall>j \<in> {i..<i + n}. \<not> routeMatches p j ip" and "routeMatches p (i + n) ip" and "int (i + n) < sint (total_routes p)" and "n < m"
  shows "find_from p ip i m = Done (Some (i + n))"
  using assms
proof (induction n arbitrary: i m)
  case 0
  then obtain l where "m = Suc l" by (cases m) simp_all
  then show ?case using 0 by simp
next
  case (Suc n)
  then obtain l where "m = Suc l" by (cases m) simp_all
  moreover have "find_from p ip (i + 1) l = Done (Some (i + 1 + n))" using Suc.prems \<open>m = Suc l\<close> by (intro Suc.IH) auto
  ultimately show ?case using Suc.prems by simp
qed

lemma word_at_first: "word_at (addr_bytes a @ mem) 0 = a"
  by (simp add: word_at_def)

lemma word_at_rest: "4 \<le> p \<Longrightarrow> word_at (addr_bytes a @ mem) p = word_at mem (p - 4)"
proof -
  assume "4 \<le> p"
  moreover have "length (addr_bytes a) = 4" by (simp add: addr_bytes_def)
  ultimately show ?thesis by (simp add: word_at_def)
qed

lemma sample_words:
  "length (sample_packet n lev) = 24" "total_routes (sample_packet n lev @ m) = n"
  "ip_address (sample_packet n lev @ m) 0 = 10" "ip_mask (sample_packet n lev @ m) 0 = 0xff"
  "buffer_length (sample_packet n lev @ m) 0 = htonl 1000" "buffer_level (sample_packet n lev @ m) 0 = htonl lev"
  by (simp_all add: sample_packet_def total_routes_def ip_address_def ip_mask_def buffer_length_def buffer_level_def route_def
      word_at_first word_at_rest) (simp add: addr_bytes_def)

definition sample_state :: "u32 \<Rightarrow> ipe" where
  "sample_state n =
     (let p = sample_packet n 700 @ replicate (PACKET_SIZE - 24) 0
      in ipe_initialize\<lparr>packet := [p, p], havePacket := True, lastMatchedRoute := Some (0, 0)\<rparr>)"

lemma sample_state_ok: "0 <s n \<Longrightarrow> ipe_ok (sample_state n)"
  by (auto simp: ipe_ok_def sample_state_def ipe_initialize_def nth_Cons' sample_words PACKET_SIZE_def MAX_ROUTES_def Let_def
      word_sless_alt split: if_splits)

lemma sample_wait: "\<exists>me. ipe_wait [] (sample_state n) 10 50 = Done me \<and> lastMatchedRoute me = Some (0, 0)"
proof -
  have "routeMatches (packet (sample_state n) ! 0) 0 10" "space_left (sample_state n) (0, 0) = Done 100"
    by (simp_all add: sample_state_def routeMatches_def sample_words space_left_def ipe_level_def ipe_length_def
        ipe_initialize_def Let_def int_ok_def signed_divide_int_def)
  moreover have "havePacket (sample_state n)" "lastMatchedRoute (sample_state n) = Some (0, 0)" by (simp_all add: sample_state_def Let_def)
  ultimately have "ipe_try 10 50 (sample_state n) = Done (account 50 (0, 0) (sample_state n), True)"
    by (simp add: ipe_try_def findRoute_def)
  then show ?thesis by (simp add: ipe_wait_def ipe_loop.simps account_def) (simp add: sample_state_def Let_def)
qed

subsection \<open>Properties\<close>

text \<open>
  C31.  The example governor lets a packet pass only when it does not overfill the buffer of its route: when \<^verbatim>\<open>ipe_wait\<close>
  returns, some prefix of the traffic control packets has been received meanwhile, and either no route of the
  active packet matches the address, or the level stored for the matching route is the level received plus
  the size of the packet, without overflow, and still below the permitted share of its buffer.
\<close>

theorem ipe_wait_respects_limit:
  assumes "ipe_ok me" and "0 \<le> sz" and "ipe_wait ds me ip sz = Done me'"
  shows "ipe_ok me' \<and> havePacket me' \<and> (\<exists>n m. forget m = forget (received (take n ds) me) \<and>
    (case lastMatchedRoute me' of
       None \<Rightarrow> packet me' = packet m \<and> findRouteInPacket (packet m ! activePacket m) ip = Done None
     | Some r \<Rightarrow> packet me' = packet (account sz r m) \<and> routeMatches (packet me' ! fst r) (snd r) ip
         \<and> ipe_level me' r = ipe_level m r + sz \<and> ipe_level me' r < ipe_length me' r * maxFillLevel me' sdiv 100))"
proof -
  obtain n m where m: "forget m = forget (received (take n ds) me)" "ipe_ok m" "ipe_try ip sz m = Done (me', True)"
    using ipe_loop_last [OF assms(3) [unfolded ipe_wait_def] assms(1)] by blast
  have "packet (account sz r (m\<lparr>lastMatchedRoute := x\<rparr>)) = packet (account sz r m)" for r x
    by (simp add: account_def ipe_level_def)
  then show ?thesis
    using m(1) ipe_try_ok(1) [OF m(2,3)] ipe_try_accounts [OF m(2,3) assms(2)]
    by (intro conjI exI [of _ n] exI [of _ m]) (auto split: option.splits)
qed

theorem ipe_wait_respects_limit_witness:
  "\<exists>me. ipe_wait [] (sample_state 1) 10 50 = Done me \<and> ipe_level me (0, 0) < ipe_length me (0, 0) * maxFillLevel me sdiv 100"
proof -
  obtain me where me: "ipe_wait [] (sample_state 1) 10 50 = Done me" "lastMatchedRoute me = Some (0, 0)" using sample_wait by blast
  from ipe_wait_respects_limit [OF sample_state_ok _ me(1)] me show ?thesis by (auto simp: word_sless_alt)
qed

text \<open>
  The pointer to the last route is only an optimisation: as long as no address matches two routes of
  the packet, looking at the remembered route first gives the same result as the search, with the same effect. (When two
  routes match, it does not: \<open>cache_hides_route\<close>.)
\<close>

lemma findRoute_cached:
  assumes "ipe_ok me" and "p = packet me ! activePacket me"
    and "\<forall>i < MAX_ROUTES. \<forall>j < i. int i < sint (total_routes p) \<and> routeMatches p i ip \<longrightarrow> \<not> routeMatches p j ip"
  shows "findRoute me ip = and_then (findRouteInPacket p ip) (\<lambda>r.
    let r = map_option (Pair (activePacket me)) r in Done (me\<lparr>lastMatchedRoute := r\<rparr>, r))"
proof (cases "case lastMatchedRoute me of None \<Rightarrow> False | Some (slot, i) \<Rightarrow> routeMatches (packet me ! slot) i ip")
  case True
  then obtain i where i: "lastMatchedRoute me = Some (activePacket me, i)" "routeMatches p i ip" "i < MAX_ROUTES"
      "int i < sint (total_routes p)"
    using assms(1,2) by (auto simp: ipe_ok_def split: option.splits)
  have "\<not> routeMatches p j ip" if "j < i" for j using assms(3) i(2-4) that by blast
  then have "findRouteInPacket p ip = Done (Some i)"
    using find_zero_route [of 0 i p ip MAX_ROUTES] i(2-4) by (simp add: findRouteInPacket_def)
  moreover have "me\<lparr>lastMatchedRoute := Some (activePacket me, i)\<rparr> = me" unfolding i(1) [symmetric] by simp
  ultimately show ?thesis using True i(1) by (simp add: findRoute_def Let_def)
qed (simp add: findRoute_def assms(2))

lemma findRoute_cached_sample: "\<exists>me. findRoute (sample_state 1) 10 = Done (me, Some (0, 0)) \<and> findRouteInPacket (packet (sample_state 1) ! 0) 10 = Done (Some 0)"
proof -
  have a: "activePacket (sample_state 1) = 0" "total_routes (packet (sample_state 1) ! 0) = 1" "routeMatches (packet (sample_state 1) ! 0) 0 10"
    by (simp_all add: sample_state_def ipe_initialize_def sample_words routeMatches_def Let_def)
  have "findRouteInPacket (packet (sample_state 1) ! 0) 10 = Done (Some 0)"
    using find_zero_route [of 0 0 "packet (sample_state 1) ! 0" 10 MAX_ROUTES] a by (simp add: findRouteInPacket_def MAX_ROUTES_def)
  with findRoute_cached [OF sample_state_ok refl, of 1 10] a show ?thesis by (simp add: word_sless_alt Let_def)
qed

text \<open>
  The number of routes of a packet is compared without conversion from network order.  After a first
  packet with up to 127 routes, the search runs past them into memory that is still zero, where the mask 0
  matches every address: a sender to an address that no route covers is not let through at once, as the code means it
  to be, but waits for the next packet.
\<close>

lemma unlisted_address_waits:
  assumes "packet me = packet ipe_initialize" and "activePacket me = 0" and "\<not> havePacket me"
    and "1 \<le> k" and "k < 128" and "length bs = 8 + 16 * k" and "total_routes bs = htonl (of_nat k)"
    and "\<forall>i<k. \<not> routeMatches bs i ip" and "0 \<le> sz"
  shows "ipe_wait [Some bs] me ip sz = Blocks"
proof -
  define p where "p = bs @ replicate (PACKET_SIZE - (8 + 16 * k)) 0"
  have l: "length bs < PACKET_SIZE" using assms(5,6) by (simp add: PACKET_SIZE_def)
  have tot: "total_routes p = htonl (of_nat k)" using assms(6,7) by (simp add: p_def total_routes_def word_at_append)
  have old: "routeMatches p i ip \<longleftrightarrow> routeMatches bs i ip" if "i < k" for i
    using that assms(6) by (simp add: p_def routeMatches_def ip_address_def ip_mask_def route_def word_at_append)
  have zero: "word_at p (route k + j) = 0" if "j \<in> {0, 4, 8, 12}" for j
  proof -
    have "word_at p (route k + j) = word_at (replicate (PACKET_SIZE - (8 + 16 * k)) 0) j"
      using assms(6) by (simp add: p_def word_at_def route_def)
    then show ?thesis using that assms(5) by (auto simp: word_at_zero PACKET_SIZE_def)
  qed
  have new: "routeMatches p k ip" using zero [of 0] zero [of 4] by (simp add: routeMatches_def ip_address_def ip_mask_def)
  have "find_from p ip 0 MAX_ROUTES = Done (Some (0 + k))"
    using assms(4,5,8) old new by (intro find_zero_route) (simp_all add: tot sint_htonl_small MAX_ROUTES_def)
  then have find: "findRouteInPacket p ip = Done (Some k)" by (simp add: findRouteInPacket_def)
  define m where "m = me\<lparr>packet := (packet me)[1 := p], activePacket := 1, havePacket := True, lastMatchedRoute := None\<rparr>"
  have "unat (of_nat (8 + 16 * k) :: u32) = 8 + 16 * k" "unat ((of_nat k :: u32) * 16) = 16 * k"
    using assms(5) by (simp_all add: unat_word_ariths unat_of_nat)
  then have "\<not> of_nat (length bs) < ntohl (total_routes p) * 16" using assms(6) by (simp add: tot word_less_nat_alt)
  then have run: "run (Some bs) me = (m, True)"
    using assms(1-3,6) l by (simp add: run_def Let_def m_def p_def ipe_initialize_def)
  have last: "ipe_try ip sz m = Done (m\<lparr>lastMatchedRoute := Some (1, k)\<rparr>, False)"
    using assms(1,9) find zero by (simp add: ipe_try_def findRoute_def m_def ipe_initialize_def space_left_def int_ok_def
      ipe_length_def ipe_level_def buffer_length_def buffer_level_def ntohl_def htonl_def Let_def)
  have "ipe_loop ip sz [] m = Blocks" unfolding ipe_loop.simps [of ip sz "[]" m] last by simp
  then show ?thesis unfolding ipe_wait_def ipe_loop.simps [of ip sz "[Some bs]" me] using assms(3) run by (simp add: ipe_try_def)
qed


lemma unlisted_address_waits_sample: "ipe_wait [Some (sample_packet (htonl 1) 0)] ipe_initialize 11 1456 = Blocks"
  using unlisted_address_waits [of ipe_initialize 1 "sample_packet (htonl 1) 0" 11 1456] sample_words(1) [of "htonl 1" 0] sample_words(2-) [of "htonl 1" 0 "[]"]
  by (simp add: routeMatches_def ipe_initialize_def)

end
